(* ===== verification/Prelude.thy ===== *)
theory Prelude
  imports Main "HOL-Library.Word" "HOL-Library.Multiset" "HOL-Library.Monad_Syntax"
begin

text \<open>
  Shared vocabulary of the development: bytes and C objects, the part of the C string and
  memory library the sources use, and the generic lemmas every component rests on.

  A C object (an array, a \<^verbatim>\<open>malloc\<close>ed block, a struct seen through a \<^verbatim>\<open>char *\<close>) is
  the list of its bytes. A pointer into it is an offset. A read or a write outside the object
  has no meaning in C: such an access is \<^term>\<open>None\<close>, so a result \<^term>\<open>Some x\<close>
  states that the modelled code stayed inside its objects.
\<close>

unbundle bit_operations_syntax

type_synonym byte = "8 word"
type_synonym bytes = "byte list"

named_theorems mem_simps \<open>reads and writes of C objects\<close>
named_theorems model_defs \<open>definitions that property proofs unfold\<close>

section \<open>Memory\<close>

text \<open>\<^verbatim>\<open>memcpy(dst + off, src, length src)\<close>\<close>

definition mem_write :: "bytes \<Rightarrow> nat \<Rightarrow> bytes \<Rightarrow> bytes option" where
  "mem_write dst off src =
     (if off + length src \<le> length dst
      then Some (take off dst @ src @ drop (off + length src) dst) else None)"

text \<open>\<^verbatim>\<open>memcpy(out, src + off, n)\<close>: the \<open>n\<close> bytes read\<close>

definition mem_read :: "bytes \<Rightarrow> nat \<Rightarrow> nat \<Rightarrow> bytes option" where
  "mem_read src off n = (if off + n \<le> length src then Some (take n (drop off src)) else None)"

text \<open>one byte read or written\<close>

definition get_byte :: "bytes \<Rightarrow> nat \<Rightarrow> byte option" where
  "get_byte b i = (if i < length b then Some (b ! i) else None)"

definition put_byte :: "bytes \<Rightarrow> nat \<Rightarrow> byte \<Rightarrow> bytes option" where
  "put_byte b i v = (if i < length b then Some (b[i := v]) else None)"

text \<open>an object cleared by \<^verbatim>\<open>memset(p, 0, n)\<close>\<close>

abbreviation zeros :: "nat \<Rightarrow> bytes" where
  "zeros n \<equiv> replicate n 0"

lemma mem_write_length [mem_simps]: "mem_write d k s = Some d' \<Longrightarrow> length d' = length d"
  by (auto simp: mem_write_def split: if_splits)

lemma mem_write_Some_iff [mem_simps]:
  "(\<exists>d'. mem_write d k s = Some d') \<longleftrightarrow> k + length s \<le> length d"
  by (auto simp: mem_write_def)

lemma mem_write_None_iff: "mem_write d k s = None \<longleftrightarrow> length d < k + length s"
  by (auto simp: mem_write_def)

lemma mem_read_Some_iff: "mem_read d k n = Some r \<longleftrightarrow> k + n \<le> length d \<and> r = take n (drop k d)"
  by (auto simp: mem_read_def)

lemma mem_read_length: "mem_read d k n = Some r \<Longrightarrow> length r = n"
  by (auto simp: mem_read_def split: if_splits)

text \<open>What was written is read back; what was not written is unchanged.\<close>

lemma mem_read_write_same:
  "mem_write d k s = Some d' \<Longrightarrow> mem_read d' k (length s) = Some s"
  by (auto simp: mem_write_def mem_read_def split: if_splits)

lemma mem_read_write_before:
  assumes "mem_write d k s = Some d'" and "j + n \<le> k"
  shows "mem_read d' j n = mem_read d j n"
  using assms by (auto simp: mem_write_def mem_read_def take_drop split: if_splits)

lemma mem_read_write_after:
  assumes "mem_write d k s = Some d'" and "k + length s \<le> j"
  shows "mem_read d' j n = mem_read d j n"
  using assms
  by (auto simp: mem_write_def mem_read_def split: if_splits)

lemma mem_write_nth:
  assumes "mem_write d k s = Some d'" and "i < length d"
  shows "d' ! i = (if k \<le> i \<and> i < k + length s then s ! (i - k) else d ! i)"
  using assms by (auto simp: mem_write_def nth_append split: if_splits)

lemma put_byte_length [mem_simps]: "put_byte b i v = Some b' \<Longrightarrow> length b' = length b"
  by (auto simp: put_byte_def split: if_splits)

text \<open>A call that receives a pointer to a field works on the field's bytes in place.\<close>

definition on_field :: "bytes \<Rightarrow> nat \<Rightarrow> nat \<Rightarrow> (bytes \<Rightarrow> bytes option) \<Rightarrow> bytes option" where
  "on_field b off n f = do { x \<leftarrow> mem_read b off n; y \<leftarrow> f x; mem_write b off y }"

section \<open>C strings\<close>

text \<open>
  \<^verbatim>\<open>strlen(b + off)\<close>: the scan runs to the first NUL at or after \<open>off\<close>; an object with
  no NUL from there on makes it run past the end.
\<close>

definition c_strlen :: "bytes \<Rightarrow> nat \<Rightarrow> nat option" where
  "c_strlen b off =
     (if off \<le> length b \<and> 0 \<in> set (drop off b)
      then Some (length (takeWhile (\<lambda>x. x \<noteq> 0) (drop off b))) else None)"

text \<open>the bytes of the string at the start of \<open>b\<close>, its NUL left out\<close>

definition c_str :: "bytes \<Rightarrow> bytes" where
  "c_str b = takeWhile (\<lambda>x. x \<noteq> 0) b"

text \<open>
  \<^verbatim>\<open>strncmp(a, b, n)\<close>: the difference of the first bytes that differ, read as
  \<^verbatim>\<open>unsigned char\<close>, before a common NUL and within \<open>n\<close> bytes. An argument that ends
  before the comparison is decided is read out of bounds (\<^term>\<open>None\<close>).
\<close>

fun c_strncmp :: "bytes \<Rightarrow> bytes \<Rightarrow> nat \<Rightarrow> int option" where
  "c_strncmp a b 0 = Some 0"
| "c_strncmp (x # a) (y # b) (Suc n) =
     (if x \<noteq> y then Some (uint x - uint y)
      else if x = 0 then Some 0 else c_strncmp a b n)"
| "c_strncmp [] b (Suc n) = None"
| "c_strncmp (x # a) [] (Suc n) = None"

lemma c_strncmp_total:
  "n \<le> length a \<Longrightarrow> n \<le> length b \<Longrightarrow> \<exists>k. c_strncmp a b n = Some k"
  by (induction a b n rule: c_strncmp.induct) auto

text \<open>\<^verbatim>\<open>strncmp\<close> is 0 exactly when the strings agree up to \<open>n\<close> bytes.\<close>

lemma c_strncmp_eq_0:
  "n \<le> length a \<Longrightarrow> n \<le> length b \<Longrightarrow>
   c_strncmp a b n = Some 0 \<longleftrightarrow> c_str (take n a) = c_str (take n b)"
  by (induction a b n rule: c_strncmp.induct) (auto simp: c_str_def uint_0_iff dest: word_uint_eqI)

lemma c_strlen_append_zero:
  "0 \<notin> set s \<Longrightarrow> c_strlen (p @ s @ 0 # q) (length p) = Some (length s)"
  by (auto simp: c_strlen_def takeWhile_tail) (metis (mono_tags, lifting) takeWhile_eq_all_conv)

lemma c_strlen_Some_iff:
  "c_strlen b off = Some n \<longleftrightarrow>
     off \<le> length b \<and> 0 \<in> set (drop off b) \<and> n = length (c_str (drop off b))"
  by (auto simp: c_strlen_def c_str_def)

lemma c_strlen_lt: "c_strlen b off = Some n \<Longrightarrow> off + n < length b"
proof -
  assume a: "c_strlen b off = Some n"
  let ?P = "\<lambda>x::byte. x \<noteq> 0"
  from a have le: "off \<le> length b" and z: "0 \<in> set (drop off b)"
    and n: "n = length (takeWhile ?P (drop off b))"
    by (auto simp: c_strlen_def split: if_splits)
  have "takeWhile ?P (drop off b) \<noteq> drop off b"
    using z by (metis (mono_tags, lifting) set_takeWhileD)
  then have "length (takeWhile ?P (drop off b)) \<noteq> length (drop off b)"
    by (metis takeWhile_eq_take take_all_iff order_refl)
  moreover have "length (takeWhile ?P (drop off b)) \<le> length (drop off b)"
    by (rule length_takeWhile_le)
  ultimately show ?thesis using n le by simp
qed

section \<open>Lists and words\<close>

lemma ucast_and_255 [simp]: "ucast (x AND 255 :: 'a::len word) = (ucast x :: byte)"
proof -
  have 255: "(255 :: 'a word) = mask 8"
    by (simp add: mask_eq_exp_minus_1)
  have "ucast (x AND mask 8) = (ucast x :: byte)"
    by (auto intro!: bit_word_eqI simp: bit_simps dest: bit_imp_le_length)
  then show ?thesis by (simp only: 255)
qed

lemma unat_ucast_up:
  fixes w :: "'a::len word"
  assumes "LENGTH('a) \<le> LENGTH('b::len)"
  shows "unat (ucast w :: 'b word) = unat w"
proof -
  have "unat w < 2 ^ LENGTH('a)" by (rule unsigned_less)
  also have "(2 :: nat) ^ LENGTH('a) \<le> 2 ^ LENGTH('b)" using assms by (intro power_increasing) auto
  finally show ?thesis by (simp add: unsigned_ucast_eq take_bit_nat_eq_self)
qed

lemma scast_eq_ucast:
  fixes c :: byte
  assumes "c < 128" and "8 \<le> LENGTH('b::len)"
  shows "(scast c :: 'b word) = ucast c"
proof -
  have "unat c < 128" using assms by (simp add: word_less_nat_alt)
  then have 7: "\<not> bit c 7"
    by (simp add: bit_iff_odd_drop_bit drop_bit_eq_div word_arith_nat_div odd_iff_mod_2_eq_one)
  have "7 \<le> n \<Longrightarrow> \<not> bit c n" for n
    using 7 bit_imp_le_length [of c n] by (cases "n = 7") auto
  with 7 show ?thesis
    by (auto intro!: bit_word_eqI simp: bit_simps min_def split: if_splits)
qed

lemma cut_list:
  assumes "k \<le> length xs"
  obtains a b where "xs = a @ b" and "length a = k"
  using assms append_take_drop_id [of k xs] by (metis length_take min.absorb2)

lemma takeWhile_take: "takeWhile P (take n xs) = take n (takeWhile P xs)"
proof (induction xs arbitrary: n)
  case (Cons x xs)
  then show ?case by (cases n) auto
qed simp

lemma length_takeWhile_bound:
  "\<exists>x \<in> set (take (Suc n) xs). \<not> P x \<Longrightarrow> length (takeWhile P xs) \<le> n"
proof (induction xs arbitrary: n)
  case (Cons x xs)
  then show ?case by (cases n) auto
qed simp

lemma takeWhile_take_prefix:
  "(\<exists>x \<in> set (take n xs). \<not> P x) \<Longrightarrow> takeWhile P (take n xs) = takeWhile P xs"
  by (metis append_take_drop_id takeWhile_append1)

lemma bind_SomeE: "m \<bind> f = Some y \<Longrightarrow> (\<And>x. m = Some x \<Longrightarrow> f x = Some y \<Longrightarrow> P) \<Longrightarrow> P"
  by (cases m) auto

section \<open>Systems with an invariant\<close>

text \<open>
  The interface of a state machine: the states it starts in, its steps and an invariant that holds
  at the start and is kept by every step. What follows holds of every reachable state.
\<close>

inductive reachable :: "('s \<Rightarrow> bool) \<Rightarrow> ('s \<Rightarrow> 's \<Rightarrow> bool) \<Rightarrow> 's \<Rightarrow> bool" for start step where
  start: "start s \<Longrightarrow> reachable start step s"
| step: "reachable start step s \<Longrightarrow> step s s' \<Longrightarrow> reachable start step s'"

locale invariant_system =
  fixes start :: "'s \<Rightarrow> bool" and step :: "'s \<Rightarrow> 's \<Rightarrow> bool" and inv :: "'s \<Rightarrow> bool"
  assumes inv_start: "start s \<Longrightarrow> inv s" and inv_step: "inv s \<Longrightarrow> step s s' \<Longrightarrow> inv s'"
begin

lemma reachable_inv: "reachable start step s \<Longrightarrow> inv s"
  by (induction rule: reachable.induct) (auto intro: inv_start inv_step)

end

section \<open>Byte buffers\<close>

text \<open>
  The interface of a buffer that producers append byte blocks to and a consumer empties. \<open>content\<close>
  is what the consumer would get, \<open>cap\<close> a bound on its length under which nothing is lost.
\<close>

fun put_all :: "('s \<Rightarrow> bytes \<Rightarrow> 's option) \<Rightarrow> 's \<Rightarrow> bytes list \<Rightarrow> 's option" where
  "put_all put s [] = Some s"
| "put_all put s (x # xs) = do { s' \<leftarrow> put s x; put_all put s' xs }"

locale byte_buffer =
  fixes inv :: "'s \<Rightarrow> bool" and content :: "'s \<Rightarrow> bytes" and cap :: "'s \<Rightarrow> nat"
    and put :: "'s \<Rightarrow> bytes \<Rightarrow> 's option" and get :: "'s \<Rightarrow> (bytes \<times> 's) option"
  assumes put_appends: "inv s \<Longrightarrow> x \<noteq> [] \<Longrightarrow> length (content s @ x) < cap s \<Longrightarrow>
      \<exists>s'. put s x = Some s' \<and> inv s' \<and> content s' = content s @ x \<and> cap s' = cap s"
    and get_empties: "inv s \<Longrightarrow> length (content s) < cap s \<Longrightarrow>
      \<exists>s'. get s = Some (content s, s') \<and> inv s' \<and> content s' = [] \<and> cap s' = cap s"
begin

lemma put_all_appends:
  assumes "inv s" and "[] \<notin> set xs" and "length (content s @ concat xs) < cap s"
  shows "\<exists>s'. put_all put s xs = Some s' \<and> inv s' \<and> content s' = content s @ concat xs \<and> cap s' = cap s"
  using assms
proof (induction xs arbitrary: s)
  case (Cons x xs)
  then obtain s1 where s1: "put s x = Some s1" "inv s1" "content s1 = content s @ x" "cap s1 = cap s"
    using put_appends [of s x] by auto
  with Cons.IH [of s1] Cons.prems show ?case by auto
qed simp

lemma put_all_get:
  assumes "inv s" and "[] \<notin> set xs" and "length (content s @ concat xs) < cap s"
  shows "\<exists>s' s''. put_all put s xs = Some s' \<and> get s' = Some (content s @ concat xs, s'') \<and>
           inv s'' \<and> content s'' = [] \<and> cap s'' = cap s"
proof -
  obtain s' where s': "put_all put s xs = Some s'" "inv s'" "content s' = content s @ concat xs" "cap s' = cap s"
    using put_all_appends [OF assms] by auto
  then show ?thesis using get_empties [of s'] assms(3) by auto
qed

end

end
