(* ===== verification/GenList.thy ===== *)
theory GenList
  imports Prelude
begin

text \<open>
  \<^verbatim>\<open>notify.system/gen_list.c\<close>: a growing byte buffer shared by two threads. A block starts with
  the struct \<^verbatim>\<open>GEN_LIST\<close> of \<^verbatim>\<open>gen_list.h\<close>, whose \<^verbatim>\<open>data\<close> begins at offset 20, the size
  of the struct being 24. The mutex makes each operation one step; what locking and unlocking return
  are arguments. The model keeps the bytes from offset 20 on as \<open>gl_data\<close>. Sizes are natural numbers:
  a block never reaches \<open>2 ^ 64\<close> bytes. The operations refine a byte queue.
\<close>

record GEN_LIST =
  gl_total :: nat
  gl_used :: nat
  gl_data :: bytes

abbreviation (input) GEN_LIST_STEP :: nat where "GEN_LIST_STEP \<equiv> 32768"
abbreviation (input) SIZEOF_GEN_LIST :: nat where "SIZEOF_GEN_LIST \<equiv> 24"
abbreviation (input) DATA_OFF :: nat where "DATA_OFF \<equiv> 20"

text \<open>\<^verbatim>\<open>while (up_size < (n+1)) up_size += GEN_LIST_STEP\<close>\<close>

function up_size :: "nat \<Rightarrow> nat \<Rightarrow> nat" where
  "up_size up need = (if up < need then up_size (up + GEN_LIST_STEP) need else up)"
  by auto
termination by (relation "measure (\<lambda>(up, need). need - up)") auto

declare up_size.simps [simp del]

text \<open>
  \<^verbatim>\<open>add_item_traffic(p, item, sz, sig)\<close>. The outer option of \<open>p\<close> is the pointer \<^verbatim>\<open>p\<close>, the
  inner one \<^verbatim>\<open>*p\<close>; \<open>sig\<close> is what \<^verbatim>\<open>sig\<close> points to. \<open>ok\<close> tells for which sizes the allocator has a
  block, \<open>junk\<close> what the new part of a grown block holds. The result is \<open>Inl\<close> the status of an
  \<^verbatim>\<open>exit\<close>, or \<open>Inr\<close> the return value, \<^verbatim>\<open>*p\<close> and \<^verbatim>\<open>*sig\<close> afterwards.
\<close>

definition add_item_traffic ::
  "(nat \<Rightarrow> bool) \<Rightarrow> (nat \<Rightarrow> byte) \<Rightarrow> GEN_LIST option option \<Rightarrow> bytes option \<Rightarrow> int \<Rightarrow> int option \<Rightarrow>
   (int + int \<times> GEN_LIST option option \<times> int option) option" where
  "add_item_traffic ok junk p item sz sig =
     (if sz < 1 then Some (Inr (-1, p, sig)) else
      case item of None \<Rightarrow> Some (Inr (-1, p, sig)) | Some it \<Rightarrow>
      case p of None \<Rightarrow> Some (Inr (-1, p, sig)) | Some q \<Rightarrow>
      if q = None \<and> \<not> ok GEN_LIST_STEP then Some (Inl 1) else
      let t = (case q of Some t \<Rightarrow> t
               | None \<Rightarrow> \<lparr>gl_total = GEN_LIST_STEP, gl_used = 0, gl_data = zeros (GEN_LIST_STEP - DATA_OFF)\<rparr>);
          sig1 = (if gl_used t = 0 then map_option (\<lambda>_. 1) sig else sig);
          n = gl_used t + SIZEOF_GEN_LIST + nat sz;
          up = up_size (gl_total t + GEN_LIST_STEP) (n + 1)
      in if gl_total t < n + 1 \<and> \<not> ok up then Some (Inl 1) else
         let t1 = (if gl_total t < n + 1
                   then t\<lparr>gl_total := up, gl_data := gl_data t @ map junk [gl_total t..<up]\<rparr> else t)
         in do {
           x \<leftarrow> mem_read it 0 (nat sz);
           d \<leftarrow> mem_write (gl_data t1) (gl_used t1) x;
           Some (Inr (0, Some (Some (t1\<lparr>gl_data := d, gl_used := gl_used t1 + nat sz\<rparr>)), sig1))
         })"

text \<open>
  \<^verbatim>\<open>add_item_gen_list(p, item, n, sig)\<close>: a failed insertion is only printed; the result is that
  of the mutex.
\<close>

definition add_item_gen_list ::
  "(nat \<Rightarrow> bool) \<Rightarrow> (nat \<Rightarrow> byte) \<Rightarrow> int \<Rightarrow> int \<Rightarrow> GEN_LIST option option \<Rightarrow> bytes option \<Rightarrow> int \<Rightarrow>
   int option \<Rightarrow> (int + int \<times> GEN_LIST option option \<times> int option) option" where
  "add_item_gen_list ok junk rl ru p item n sig =
     (if rl \<noteq> 0 then Some (Inr (rl, p, sig)) else
      map_option (map_sum id (\<lambda>(err, p', sig'). (ru, p', sig'))) (add_item_traffic ok junk p item n sig))"

text \<open>
  \<^verbatim>\<open>get_data_gen_list(p, data)\<close>: the return value, the block afterwards and the copy stored in
  \<^verbatim>\<open>*data\<close> (\<^term>\<open>None\<close>: left as it was). The size goes through an \<^verbatim>\<open>int\<close>; a negative one makes
  the copy run out of every object, and \<^verbatim>\<open>n+1\<close> overflows for the largest. \<open>ok\<close> tells for which
  sizes the allocator has a block: the result of \<^verbatim>\<open>malloc\<close> is not checked before \<^verbatim>\<open>memset\<close>. \<open>dn\<close> tells
  whether \<^verbatim>\<open>data\<close> is a null pointer.
\<close>

definition get_data_gen_list ::
  "(nat \<Rightarrow> bool) \<Rightarrow> int \<Rightarrow> int \<Rightarrow> GEN_LIST option \<Rightarrow> bool \<Rightarrow> (int \<times> GEN_LIST option \<times> bytes option) option" where
  "get_data_gen_list ok rl ru p dn =
     (case p of None \<Rightarrow> Some (0, p, None) | Some t \<Rightarrow>
      if dn then Some (0, p, None)
      else if rl \<noteq> 0 then Some (0, p, None)
      else let n = signed_take_bit 31 (int (gl_used t)) in
        if n = 0 then Some (0, p, None)
        else if n < 0 \<or> n + 1 \<ge> 2 ^ 31 then None
        else if \<not> ok (nat n + 1) then None
        else do {
          x \<leftarrow> mem_read (gl_data t) 0 (nat n);
          Some (n, Some (t\<lparr>gl_used := 0\<rparr>), Some (x @ [0]))
        })"

section \<open>Invariant and abstraction\<close>

text \<open>A block is a whole number of steps; its data end at least 25 - 20 bytes before the block does.\<close>

definition gl_inv :: "GEN_LIST option \<Rightarrow> bool" where
  "gl_inv q = (case q of None \<Rightarrow> True | Some t \<Rightarrow>
     GEN_LIST_STEP dvd gl_total t \<and> gl_used t + SIZEOF_GEN_LIST + 1 \<le> gl_total t \<and>
     length (gl_data t) = gl_total t - DATA_OFF)"

definition gl_content :: "GEN_LIST option \<Rightarrow> bytes" where
  "gl_content q = (case q of None \<Rightarrow> [] | Some t \<Rightarrow> take (gl_used t) (gl_data t))"

lemma up_size_bounds:
  "up \<le> up_size up need \<and> need \<le> up_size up need \<and> (k dvd GEN_LIST_STEP \<and> k dvd up \<longrightarrow> k dvd up_size up need)"
  by (induction up need rule: up_size.induct) (subst (1 2 3) up_size.simps, auto)

text \<open>The smallest enough number of steps is taken.\<close>

lemma up_size_least: "up < need \<Longrightarrow> up_size up need < need + GEN_LIST_STEP"
  by (induction up need rule: up_size.induct) (subst up_size.simps, force simp: up_size.simps)

lemma mem_write_take:
  "mem_write d k x = Some d' \<Longrightarrow> take (k + length x) d' = take k d @ x"
  by (auto simp: mem_write_def split: if_splits)

lemma signed_31: "n < 2 ^ 31 \<Longrightarrow> signed_take_bit 31 (int n) = int n"
  by (simp add: signed_take_bit_int_eq_self)

lemma add_item_traffic_ok:
  assumes "gl_inv q" and "nat sz \<le> length it"
  shows "\<exists>r. add_item_traffic ok junk (Some q) (Some it) sz sig = Some r \<and>
    (case r of Inl e \<Rightarrow> e = 1 \<and> (\<exists>k. \<not> ok k) | Inr (rc, p', sig') \<Rightarrow>
       if sz < 1 then (rc, p', sig') = (-1, Some q, sig)
       else rc = 0 \<and> (\<exists>q'. p' = Some q' \<and> gl_inv q' \<and> gl_content q' = gl_content q @ take (nat sz) it) \<and>
            sig' = (if gl_content q = [] then map_option (\<lambda>_. 1) sig else sig))"
proof (cases "sz < 1 \<or> (q = None \<and> \<not> ok GEN_LIST_STEP)")
  case True
  then show ?thesis by (auto simp: add_item_traffic_def)
next
  case False
  define t where "t = (case q of Some t \<Rightarrow> t
      | None \<Rightarrow> \<lparr>gl_total = GEN_LIST_STEP, gl_used = 0, gl_data = zeros (GEN_LIST_STEP - DATA_OFF)\<rparr>)"
  have t: "gl_inv (Some t)" "gl_content q = take (gl_used t) (gl_data t)"
    using assms(1) by (auto simp: t_def gl_inv_def gl_content_def split: option.splits)
  define n where "n = gl_used t + SIZEOF_GEN_LIST + nat sz"
  define up where "up = up_size (gl_total t + GEN_LIST_STEP) (n + 1)"
  define t1 where "t1 = (if gl_total t < n + 1
      then t\<lparr>gl_total := up, gl_data := gl_data t @ map junk [gl_total t..<up]\<rparr> else t)"
  have up: "gl_total t + GEN_LIST_STEP \<le> up" "n + 1 \<le> up" "GEN_LIST_STEP dvd up"
    using up_size_bounds [of "gl_total t + GEN_LIST_STEP" "n + 1" GEN_LIST_STEP] t(1)
    by (auto simp: up_def gl_inv_def)
  have t1: "length (gl_data t1) = gl_total t1 - DATA_OFF" "gl_used t1 = gl_used t" "n + 1 \<le> gl_total t1"
    "GEN_LIST_STEP dvd gl_total t1" "take (gl_used t) (gl_data t1) = take (gl_used t) (gl_data t)"
    using t(1) up by (auto simp: t1_def gl_inv_def)
  obtain d where d: "mem_write (gl_data t1) (gl_used t1) (take (nat sz) it) = Some d"
    using t1 assms(2) mem_write_Some_iff [of "gl_data t1" "gl_used t1" "take (nat sz) it"] by (auto simp: n_def)
  have used: "gl_used t = 0 \<longleftrightarrow> gl_content q = []" using t by (auto simp: gl_inv_def)
  have "add_item_traffic ok junk (Some q) (Some it) sz sig =
      (if gl_total t < n + 1 \<and> \<not> ok up then Some (Inl 1)
       else Some (Inr (0, Some (Some (t1\<lparr>gl_data := d, gl_used := gl_used t1 + nat sz\<rparr>)),
              if gl_used t = 0 then map_option (\<lambda>_. 1) sig else sig)))"
    unfolding add_item_traffic_def Let_def t_def [symmetric] option.case
    unfolding n_def [symmetric] unfolding up_def [symmetric] unfolding t1_def [symmetric]
    using False assms(2) d by (auto simp add: mem_read_def)
  moreover have "gl_inv (Some (t1\<lparr>gl_data := d, gl_used := gl_used t1 + nat sz\<rparr>))"
    using t1 mem_write_length [OF d] by (simp add: gl_inv_def n_def)
  moreover have "gl_content (Some (t1\<lparr>gl_data := d, gl_used := gl_used t1 + nat sz\<rparr>)) = gl_content q @ take (nat sz) it"
    using mem_write_take [OF d] t1 t(2) assms(2) by (simp add: gl_content_def min.absorb2)
  ultimately show ?thesis using False used by (auto simp: not_less)
qed

lemma get_data_gen_list_eq:
  assumes "gl_inv (Some t)" and "0 < gl_used t" and "gl_used t < 2 ^ 31 - 1" and "ok (gl_used t + 1)"
  shows "get_data_gen_list ok 0 ru (Some t) False =
    Some (int (gl_used t), Some (t\<lparr>gl_used := 0\<rparr>), Some (gl_content (Some t) @ [0]))"
  using assms by (auto simp: get_data_gen_list_def signed_31 mem_read_def gl_content_def gl_inv_def)

lemma get_data_gen_list_undefined:
  assumes "0 < gl_used t" and "gl_used t < 2 ^ 32" and "2 ^ 31 - 1 \<le> gl_used t \<or> \<not> ok (gl_used t + 1)"
  shows "get_data_gen_list ok 0 ru (Some t) False = None"
proof (cases "2 ^ 31 \<le> gl_used t")
  case True
  then have "signed_take_bit 31 (int (gl_used t)) = int (gl_used t) - 2 ^ 32"
    using assms(2) mod_add_self2 [of "int (gl_used t) - 2 ^ 31" "2 ^ 32"]
    by (simp add: signed_take_bit_eq_take_bit_shift take_bit_eq_mod mod_pos_pos_trivial add.commute)
  then show ?thesis using assms(2) by (simp add: get_data_gen_list_def)
next
  case False
  then show ?thesis using assms by (auto simp: get_data_gen_list_def signed_31 Let_def)
qed

section \<open>The buffer as a byte queue\<close>

definition gl_put :: "(nat \<Rightarrow> byte) \<Rightarrow> GEN_LIST option \<Rightarrow> bytes \<Rightarrow> GEN_LIST option option" where
  "gl_put junk q x =
     (case add_item_gen_list (\<lambda>_. True) junk 0 0 (Some q) (Some x) (int (length x)) None of
        Some (Inr (_, p, _)) \<Rightarrow> p | _ \<Rightarrow> None)"

definition gl_get :: "GEN_LIST option \<Rightarrow> (bytes \<times> GEN_LIST option) option" where
  "gl_get q = map_option (\<lambda>(n, q', d). (case d of None \<Rightarrow> [] | Some x \<Rightarrow> take (nat n) x, q'))
     (get_data_gen_list (\<lambda>_. True) 0 0 q False)"

interpretation gl: byte_buffer gl_inv gl_content "\<lambda>_. 2 ^ 31 - 1" "gl_put junk" gl_get
proof
  fix s and x :: bytes
  assume a: "gl_inv s" "x \<noteq> []"
  note add_item_traffic_ok [of s "int (length x)" x "\<lambda>_. True" junk None]
  with a obtain q' where "add_item_traffic (\<lambda>_. True) junk (Some s) (Some x) (int (length x)) None = Some (Inr (0, Some q', None))"
      "gl_inv q'" "gl_content q' = gl_content s @ x"
    by clarsimp (case_tac r, auto)
  then show "\<exists>s'. gl_put junk s x = Some s' \<and> gl_inv s' \<and> gl_content s' = gl_content s @ x \<and> (2::nat) ^ 31 - 1 = 2 ^ 31 - 1"
    by (simp add: gl_put_def add_item_gen_list_def)
next
  fix s
  assume s: "gl_inv s" "length (gl_content s) < 2 ^ 31 - 1"
  show "\<exists>s'. gl_get s = Some (gl_content s, s') \<and> gl_inv s' \<and> gl_content s' = [] \<and> (2::nat) ^ 31 - 1 = 2 ^ 31 - 1"
  proof (cases "gl_content s = []")
    case True
    with s show ?thesis
      by (cases s) (auto simp: gl_get_def get_data_gen_list_def gl_content_def gl_inv_def)
  next
    case False
    then obtain t where t: "s = Some t" "0 < gl_used t" by (cases s) (auto simp: gl_content_def)
    with s have "length (gl_content s) = gl_used t" by (auto simp: gl_content_def gl_inv_def)
    with s t get_data_gen_list_eq [of t "\<lambda>_. True" 0] show ?thesis
      by (auto simp: gl_get_def gl_content_def gl_inv_def)
  qed
qed

section \<open>Properties\<close>

text \<open>
  \<^verbatim>\<open>add_item_traffic\<close> never writes outside its block and keeps the invariant, however large the
  item: it refuses a length below 1, exits when the allocator fails, and otherwise appends the item to
  the content, raising \<^verbatim>\<open>*sig\<close> exactly when the buffer was empty.
\<close>

theorem add_item_traffic_appends:
  assumes "gl_inv q" and "nat sz \<le> length it"
  shows "\<exists>r. add_item_traffic ok junk (Some q) (Some it) sz sig = Some r \<and>
    (case r of Inl e \<Rightarrow> e = 1 \<and> (\<exists>k. \<not> ok k) | Inr (rc, p', sig') \<Rightarrow>
       if sz < 1 then (rc, p', sig') = (-1, Some q, sig)
       else rc = 0 \<and> (\<exists>q'. p' = Some q' \<and> gl_inv q' \<and> gl_content q' = gl_content q @ take (nat sz) it) \<and>
            sig' = (if gl_content q = [] then map_option (\<lambda>_. 1) sig else sig))"
  using assms by (rule add_item_traffic_ok)

text \<open>
  C35. The list is a byte queue: where the allocator has a block for every size, items added one after the other
  come out of the next \<^verbatim>\<open>get_data_gen_list\<close> in the order they went in, complete, and leave the buffer empty, as
  long as less than \<open>2 ^ 31 - 1\<close> bytes are waiting. Both conditions are needed: with \<open>2 ^ 31 - 1\<close> bytes or more
  (and less than \<open>2 ^ 32\<close>), or with no block for the copy, \<^verbatim>\<open>get_data_gen_list\<close> is undefined.
\<close>

theorem gen_list_queue:
  assumes "gl_inv q" and "[] \<notin> set xs" and "length (gl_content q @ concat xs) < 2 ^ 31 - 1"
  shows "(\<exists>q' q''. put_all (gl_put junk) q xs = Some q' \<and> gl_get q' = Some (gl_content q @ concat xs, q'') \<and>
           gl_inv q'' \<and> gl_content q'' = []) \<and>
    (\<forall>t ok ru. 0 < gl_used t \<and> gl_used t < 2 ^ 32 \<and> (2 ^ 31 - 1 \<le> gl_used t \<or> \<not> ok (gl_used t + 1)) \<longrightarrow>
       get_data_gen_list ok 0 ru (Some t) False = None)"
  using gl.put_all_get [OF assms, of junk] get_data_gen_list_undefined by blast

section \<open>Witnesses\<close>

theorem add_item_traffic_appends_witness:
  "gl_inv None \<and> nat 3 \<le> length ([1, 2, 3] :: bytes) \<and>
   (\<exists>r. add_item_traffic (\<lambda>_. True) (\<lambda>_. 7) (Some None) (Some [1, 2, 3]) 3 (Some 0) = Some r \<and>
    (case r of Inl e \<Rightarrow> False | Inr (rc, p', sig') \<Rightarrow> rc = 0 \<and> sig' = Some 1))"
  using add_item_traffic_appends [of None 3 "[1, 2, 3]" "\<lambda>_. True" "\<lambda>_. 7" "Some 0"]
  by (auto simp: gl_inv_def gl_content_def split: sum.splits)

theorem gen_list_queue_witness:
  "gl_inv None \<and> (\<exists>q' q''. put_all (gl_put (\<lambda>_. 7)) None [[1, 2], [3]] = Some q' \<and> gl_get q' = Some ([1, 2, 3], q''))"
  using gen_list_queue [of None "[[1, 2], [3]]" "\<lambda>_. 7"] by (auto simp: gl_inv_def gl_content_def)

end
