(* ===== verification/SharedData.thy ===== *)
theory SharedData
  imports Prelude
begin

text \<open>
  \<^verbatim>\<open>common/shared_data.c\<close> and the three programs of \<^verbatim>\<open>shared_data/\<close>: writers append items to a region
  of shared memory, one reader empties it, a third program makes all of them stop. The region starts
  with the struct \<^verbatim>\<open>LIST_SHARED_DATA\<close>, of 288 bytes on a 64-bit Linux, its \<^verbatim>\<open>data\<close> at offset 286. What
  the locks return is an argument where the code looks at it, as are process ids, the allocator and the
  results of the calls that make the region. A null or dangling pointer makes a result \<^term>\<open>None\<close>.

  Shown: the invariant of the region over all interleavings of the operations; that it is a byte queue
  while there is room, and what is lost when there is none; that no wake-up of a sleeping reader is
  lost; that the exit flag stops every process; and that an item larger than the region is written
  behind its end.
\<close>

section \<open>The region\<close>

record LIST_SHARED_DATA =
  sh_total :: nat
  sh_used :: nat
  sh_read_pid :: int
  sh_should_exit :: int
  sh_sleeping :: int
  sh_data :: bytes

abbreviation (input) SHM_SZ :: nat where "SHM_SZ \<equiv> 288"
abbreviation (input) SHM_DATA :: nat where "SHM_DATA \<equiv> 286"
abbreviation (input) LIST_SHARED_DATA_SZ :: nat where "LIST_SHARED_DATA_SZ \<equiv> 2097152"

text \<open>the kind of lock the code is compiled for, and the functions that initialise one\<close>

datatype lock_kind = USING_MUTEX | USING_RWLOCK | USING_SEMAPHORE | USING_SPIN_LOCK

definition init_shm_mtx :: "bool \<Rightarrow> int \<Rightarrow> int" where
  "init_shm_mtx null rc = (if null then 221 else if rc \<noteq> 0 then 231 else 0)"

definition init_rwlock :: "bool \<Rightarrow> int \<Rightarrow> int" where
  "init_rwlock null rc = (if null then 248 else if rc \<noteq> 0 then 257 else 0)"

definition init_spin_lock :: "bool \<Rightarrow> int \<Rightarrow> int" where
  "init_spin_lock null rc = (if null then 273 else if rc \<noteq> 0 then 279 else 0)"

definition init_lock :: "lock_kind \<Rightarrow> int \<Rightarrow> int" where
  "init_lock kind rc = (case kind of USING_MUTEX \<Rightarrow> init_shm_mtx False rc | USING_RWLOCK \<Rightarrow> init_rwlock False rc
     | USING_SEMAPHORE \<Rightarrow> rc | USING_SPIN_LOCK \<Rightarrow> init_spin_lock False rc)"

text \<open>What the system answers while the region is made; \<^verbatim>\<open>mmap\<close> may fail or give address 0.\<close>

datatype mmap_result = MapFailed | MapNull | MapOk

record shm_os =
  os_create :: bool
  os_open :: bool
  os_mmap :: mmap_result
  os_frame_init :: int
  os_exit_init :: int

definition resize :: "nat \<Rightarrow> bytes \<Rightarrow> bytes" where
  "resize k d = take k d @ zeros (k - length d)"

text \<open>
  \<^verbatim>\<open>init_service(path, out, sz)\<close>: the error, which is a line number, the object of that name
  afterwards, and whether \<^verbatim>\<open>*out\<close> was set. An object that exists is attached as it is, but resized; a
  new one is cleared and gets its size and its two locks.
\<close>

definition init_service ::
  "lock_kind \<Rightarrow> shm_os \<Rightarrow> bool \<Rightarrow> nat \<Rightarrow> LIST_SHARED_DATA option \<Rightarrow> (int \<times> LIST_SHARED_DATA option \<times> bool) option"
where
  "init_service kind os out sz obj =
     (if \<not> out then Some (97, obj, False)
      else let create = (obj = None \<and> os_create os);
               blank = \<lparr>sh_total = 0, sh_used = 0, sh_read_pid = 0, sh_should_exit = 0, sh_sleeping = 0,
                        sh_data = zeros (sz - SHM_DATA)\<rparr>;
               obj1 = (if create then Some blank else map_option (sh_data_update (resize (sz - SHM_DATA))) obj)
           in
        if \<not> create \<and> \<not> (obj \<noteq> None \<and> os_open os) then Some (112, obj, False)
        else if os_mmap os = MapFailed then Some (123, obj1, False)
        else if os_mmap os = MapNull then Some (129, obj1, False)
        else if \<not> create then Some (0, obj1, True)
        else if sz < SHM_SZ then None
        else let err = init_lock kind (os_frame_init os);
                 err = (if err \<noteq> 0 then err else init_lock kind (os_exit_init os))
             in Some (err, Some (blank\<lparr>sh_total := sz\<rparr>), True))"

text \<open>the global \<^verbatim>\<open>ntt_data_shm\<close> of a process\<close>

datatype pointer = Null | Mapped | Dangling

text \<open>\<^verbatim>\<open>ntt_open_shm(n)\<close>: the pointer returned, the object and \<^verbatim>\<open>ntt_data_shm\<close>\<close>

definition ntt_open_shm ::
  "lock_kind \<Rightarrow> shm_os \<Rightarrow> nat \<Rightarrow> LIST_SHARED_DATA option \<Rightarrow> pointer \<Rightarrow> (pointer \<times> LIST_SHARED_DATA option \<times> pointer) option"
where
  "ntt_open_shm kind os n obj shm = do {
     (err, obj', set) \<leftarrow> init_service kind os True n obj;
     let shm' = (if set then Mapped else shm) in
     Some (if err = 0 then shm' else Null, obj', shm')
   }"

text \<open>
  \<^verbatim>\<open>ntt_unlink_shm(n)\<close>: the result, the object and \<^verbatim>\<open>ntt_data_shm\<close>. \<open>um\<close> and \<open>ul\<close> are what
  \<^verbatim>\<open>munmap\<close> and \<^verbatim>\<open>shm_unlink\<close> return. The pointer keeps its value; the object is unlinked only if the
  path is null.
\<close>

definition ntt_unlink_shm ::
  "bool \<Rightarrow> int \<Rightarrow> int \<Rightarrow> LIST_SHARED_DATA option \<Rightarrow> pointer \<Rightarrow> int \<times> LIST_SHARED_DATA option \<times> pointer" where
  "ntt_unlink_shm path_null um ul obj shm =
     (let err = (if shm \<noteq> Null then um else 0);
          shm' = (if shm \<noteq> Null \<and> um = 0 then Dangling else shm)
      in if path_null then (ul, if ul = 0 then None else obj, shm') else (err, obj, shm'))"

section \<open>Writing and reading\<close>

definition int_of_ull :: "nat \<Rightarrow> int" where
  "int_of_ull n = signed_take_bit 31 (int n)"

text \<open>
  \<^verbatim>\<open>ntt_write_shm(p, data, n, sendsig, pcid)\<close>: the result, the region, and what \<open>sendsig\<close> and \<open>pcid\<close>
  point to afterwards (\<^term>\<open>None\<close>: null pointers). \<open>rl\<close> is what locking returns.
\<close>

definition ntt_write_shm ::
  "int \<Rightarrow> LIST_SHARED_DATA option \<Rightarrow> bytes option \<Rightarrow> int \<Rightarrow> int option \<Rightarrow> int option \<Rightarrow>
   (int \<times> LIST_SHARED_DATA option \<times> int option \<times> int option) option" where
  "ntt_write_shm rl p data n sendsig pcid =
     (case data of None \<Rightarrow> Some (-1, p, sendsig, pcid) | Some src \<Rightarrow>
      case p of None \<Rightarrow> Some (-2, p, sendsig, pcid) | Some q \<Rightarrow>
      if n < 1 then Some (0, p, sendsig, pcid)
      else if rl \<noteq> 0 then Some (0, p, sendsig, pcid)
      else let tell = (sh_sleeping q \<noteq> 0 \<and> sendsig \<noteq> None \<and> pcid \<noteq> None);
               used = (if sh_total q \<le> nat n + sh_used q + SHM_SZ then 0 else sh_used q)
           in do {
             x \<leftarrow> mem_read src 0 (nat n);
             d \<leftarrow> mem_write (sh_data q) used x;
             Some (int_of_ull (used + nat n), Some (q\<lparr>sh_data := d, sh_used := used + nat n\<rparr>),
                   if tell then Some (sh_sleeping q) else sendsig,
                   if tell then Some (sh_read_pid q) else pcid)
           })"

text \<open>
  \<^verbatim>\<open>ntt_read_shm(p, data, clean)\<close>: the result, the region, \<^verbatim>\<open>*data\<close> (\<open>data\<close> is \<^term>\<open>None\<close> for a
  null pointer, the inner option is the pointer stored) and the static variable \<^verbatim>\<open>pidd\<close>. \<open>mem\<close> tells
  whether the allocator has a block.
\<close>

definition ntt_read_shm ::
  "int \<Rightarrow> bool \<Rightarrow> int \<Rightarrow> LIST_SHARED_DATA option \<Rightarrow> bytes option option \<Rightarrow> int \<Rightarrow>
   (int \<times> LIST_SHARED_DATA option \<times> bytes option option \<times> int) option" where
  "ntt_read_shm rl mem getpid p data pidd =
     (if data = None then Some (-1, p, data, pidd) else
      case p of None \<Rightarrow> Some (-2, p, data, pidd) | Some q0 \<Rightarrow>
      let pid = (if pidd = 0 then getpid else pidd);
          q = (if pidd = 0 then q0\<lparr>sh_read_pid := getpid\<rparr> else q0);
          n = int_of_ull (sh_used q)
      in if rl \<noteq> 0 then Some (0, Some q, Some None, pid)
         else if n < 1 then Some (0, Some (q\<lparr>sh_sleeping := 1\<rparr>), Some None, pid)
         else if \<not> mem then Some (0, Some q, Some None, pid)
         else do {
           x \<leftarrow> mem_read (sh_data q) 0 (nat n);
           d \<leftarrow> put_byte (sh_data q) 0 0;
           Some (n, Some (q\<lparr>sh_used := 0, sh_data := d, sh_sleeping := 0\<rparr>), Some (Some (x @ [0])), pid)
         })"

section \<open>Stopping the group\<close>

text \<open>the region as a process sees it through \<^verbatim>\<open>ntt_data_shm\<close>; a dangling pointer is no region\<close>

definition ntt_lock :: "int \<Rightarrow> LIST_SHARED_DATA option \<Rightarrow> int option" where
  "ntt_lock rl p = map_option (\<lambda>_. rl) p"

definition ntt_unlock :: "int \<Rightarrow> LIST_SHARED_DATA option \<Rightarrow> int option" where
  "ntt_unlock ru p = map_option (\<lambda>_. ru) p"

text \<open>\<^verbatim>\<open>check_exiit(increase)\<close>: the result and the process's \<^verbatim>\<open>count_should_exit\<close>\<close>

definition check_exiit :: "LIST_SHARED_DATA option \<Rightarrow> bool \<Rightarrow> int \<Rightarrow> (int \<times> int) option" where
  "check_exiit p increase cnt =
     (case p of None \<Rightarrow> None | Some q \<Rightarrow>
      if sh_should_exit q = 0 then Some (0, cnt)
      else if increase then Some (cnt + 1, cnt + 1)
      else let c = (if cnt = 0 then cnt + 1 else cnt) in Some (c, c))"

definition set_exit_group :: "LIST_SHARED_DATA option \<Rightarrow> int \<Rightarrow> (int \<times> LIST_SHARED_DATA option) option" where
  "set_exit_group p val = (case p of None \<Rightarrow> None | Some q \<Rightarrow> Some (0, Some (q\<lparr>sh_should_exit := val\<rparr>)))"

definition get_read_pid :: "int \<Rightarrow> LIST_SHARED_DATA option \<Rightarrow> int" where
  "get_read_pid rl p = (case p of None \<Rightarrow> 0 | Some q \<Rightarrow> if rl = 0 then sh_read_pid q else 0)"

definition set_read_pid :: "int \<Rightarrow> int \<Rightarrow> LIST_SHARED_DATA option \<Rightarrow> int \<Rightarrow> (int \<times> LIST_SHARED_DATA option) option" where
  "set_read_pid rl ru p pid =
     (case p of None \<Rightarrow> Some (-1, p)
      | Some q \<Rightarrow> do {
          errx \<leftarrow> ntt_lock rl p;
          if errx = 0 then do {
            let p' = Some (q\<lparr>sh_read_pid := pid\<rparr>);
            errx' \<leftarrow> ntt_unlock ru p';
            Some (errx', p')
          } else Some (errx, p)
        })"

section \<open>The programs\<close>

text \<open>
  A reader: the variables of \<^verbatim>\<open>main.read.c\<close> with its thread. \<open>rd_stopped\<close> tells that the thread has left
  its loop, \<open>rd_got\<close> collects the blocks it was given.
\<close>

record reader =
  rd_pidd :: int
  rd_count :: int
  rd_stopped :: bool
  rd_got :: "bytes list"

text \<open>one turn of the loop of \<^verbatim>\<open>read_body_thread\<close>\<close>

definition read_body_turn ::
  "int \<Rightarrow> bool \<Rightarrow> int \<Rightarrow> LIST_SHARED_DATA option \<Rightarrow> reader \<Rightarrow> (LIST_SHARED_DATA option \<times> reader) option" where
  "read_body_turn rl mem getpid p r = do {
     (n, cnt) \<leftarrow> check_exiit p True (rd_count r);
     if n \<noteq> 0 then Some (p, r\<lparr>rd_count := cnt, rd_stopped := True\<rparr>)
     else do {
       (n, p', dta, pidd) \<leftarrow> ntt_read_shm rl mem getpid p (Some None) (rd_pidd r);
       Some (p', r\<lparr>rd_count := cnt, rd_pidd := pidd,
                   rd_got := (case dta of Some (Some d) \<Rightarrow> rd_got r @ [d] | _ \<Rightarrow> rd_got r)\<rparr>)
     }
   }"

text \<open>\<^verbatim>\<open>main\<close> of the reader after a signal: whether it leaves its loop, and the counter\<close>

definition read_main_turn :: "LIST_SHARED_DATA option \<Rightarrow> reader \<Rightarrow> (bool \<times> reader) option" where
  "read_main_turn p r = do { (n, cnt) \<leftarrow> check_exiit p False (rd_count r); Some (1 \<le> n, r\<lparr>rd_count := cnt\<rparr>) }"

text \<open>the inner loop of \<^verbatim>\<open>main.write.c\<close>: the region, and \<^verbatim>\<open>sendsig\<close> and \<^verbatim>\<open>read_pid\<close> of the last item\<close>

fun write_items ::
  "LIST_SHARED_DATA option \<Rightarrow> bytes list \<Rightarrow> int \<Rightarrow> int \<Rightarrow> (LIST_SHARED_DATA option \<times> int \<times> int) option" where
  "write_items p [] sendsig read_pid = Some (p, sendsig, read_pid)"
| "write_items p (t # ts) sendsig read_pid = do {
     (rs, p', sg, pid) \<leftarrow> ntt_write_shm 0 p (Some t) (int (length t)) (Some 0) (Some 0);
     s \<leftarrow> sg;
     r \<leftarrow> pid;
     write_items p' ts s r
   }"

text \<open>
  A turn of the writer: the region, the process it signals if any, whether it stops, and its counter.
\<close>

definition write_turn ::
  "LIST_SHARED_DATA option \<Rightarrow> bytes list \<Rightarrow> int \<Rightarrow> (LIST_SHARED_DATA option \<times> int option \<times> bool \<times> int) option" where
  "write_turn p items cnt = do {
     (p', sendsig, read_pid) \<leftarrow> write_items p items 0 0;
     let sig = (if sendsig \<noteq> 0 \<and> read_pid \<noteq> 0 then Some read_pid else None);
     (n, cnt') \<leftarrow> check_exiit p' False cnt;
     Some (p', sig, 1 \<le> n, cnt')
   }"

text \<open>\<^verbatim>\<open>main.stop.c\<close> on a region it could open: the region and the process it signals\<close>

definition stop_main :: "int \<Rightarrow> bytes option \<Rightarrow> LIST_SHARED_DATA option \<Rightarrow> (LIST_SHARED_DATA option \<times> int option) option"
where
  "stop_main rl argv1 p = do {
     val \<leftarrow> (case argv1 of None \<Rightarrow> Some 1
             | Some a \<Rightarrow> (case a of [] \<Rightarrow> None | b # _ \<Rightarrow> Some (if b \<noteq> 49 then 0 else 1)));
     (rs, p') \<leftarrow> set_exit_group p val;
     let read_pid = get_read_pid rl p';
     Some (p', if read_pid \<noteq> 0 then Some read_pid else None)
   }"

section \<open>Invariant and content\<close>

definition sh_inv :: "LIST_SHARED_DATA \<Rightarrow> bool" where
  "sh_inv q \<longleftrightarrow> length (sh_data q) + SHM_DATA = sh_total q \<and> sh_used q + SHM_SZ < sh_total q \<and> sh_total q < 2 ^ 31"

definition sh_content :: "LIST_SHARED_DATA \<Rightarrow> bytes" where
  "sh_content q = take (sh_used q) (sh_data q)"

lemma int_of_ull_small: "n < 2 ^ 31 \<Longrightarrow> int_of_ull n = int n"
  by (simp add: int_of_ull_def signed_take_bit_int_eq_self)

lemma sh_content_length: "sh_inv q \<Longrightarrow> length (sh_content q) = sh_used q"
  by (simp add: sh_inv_def sh_content_def)

text \<open>Writing an item that fits into an empty region: it is appended, or it replaces what was unread.\<close>

lemma write_shm:
  assumes "sh_inv q" "x \<noteq> []" "length x + SHM_SZ < sh_total q"
  shows "\<exists>q'. ntt_write_shm 0 (Some q) (Some x) (int (length x)) sendsig pcid =
      Some (int (length (sh_content q')), Some q',
        if sh_sleeping q \<noteq> 0 \<and> sendsig \<noteq> None \<and> pcid \<noteq> None then Some (sh_sleeping q) else sendsig,
        if sh_sleeping q \<noteq> 0 \<and> sendsig \<noteq> None \<and> pcid \<noteq> None then Some (sh_read_pid q) else pcid) \<and>
    sh_inv q' \<and> sh_total q' = sh_total q \<and> sh_sleeping q' = sh_sleeping q \<and> sh_read_pid q' = sh_read_pid q \<and>
    sh_should_exit q' = sh_should_exit q \<and>
    sh_content q' = (if length (sh_content q @ x) < sh_total q - SHM_SZ then sh_content q @ x else x)"
proof -
  define used where "used = (if sh_total q \<le> length x + sh_used q + SHM_SZ then 0 else sh_used q)"
  have u: "used + length x + SHM_SZ < sh_total q" "length (sh_data q) = sh_total q - SHM_DATA" "sh_total q < 2 ^ 31"
    using assms by (auto simp: used_def sh_inv_def)
  obtain d where d: "mem_write (sh_data q) used x = Some d"
    using u mem_write_Some_iff [of "sh_data q" used x] by auto
  let ?q = "q\<lparr>sh_data := d, sh_used := used + length x\<rparr>"
  have e: "d = take used (sh_data q) @ x @ drop (used + length x) (sh_data q)"
    using d by (auto simp: mem_write_def split: if_splits)
  have c: "sh_content ?q = take used (sh_data q) @ x" using e u by (simp add: sh_content_def)
  have i: "sh_inv ?q" using u mem_write_length [OF d] by (simp add: sh_inv_def)
  have cc: "sh_content ?q = (if length (sh_content q @ x) < sh_total q - SHM_SZ then sh_content q @ x else x)"
  proof (cases "sh_total q \<le> length x + sh_used q + SHM_SZ")
    case True
    then have "\<not> length (sh_content q @ x) < sh_total q - SHM_SZ" using sh_content_length [OF assms(1)] by simp
    then show ?thesis using c True by (simp add: used_def)
  next
    case False
    then have "length (sh_content q @ x) < sh_total q - SHM_SZ" using sh_content_length [OF assms(1)] by simp
    moreover have "used = sh_used q" using False by (simp add: used_def)
    ultimately show ?thesis using c by (simp add: sh_content_def)
  qed
  have len: "int_of_ull (used + length x) = int (length (sh_content ?q))"
    using int_of_ull_small [of "used + length x"] u sh_content_length [OF i] by simp
  have "ntt_write_shm 0 (Some q) (Some x) (int (length x)) sendsig pcid =
      Some (int_of_ull (used + length x), Some ?q,
        if sh_sleeping q \<noteq> 0 \<and> sendsig \<noteq> None \<and> pcid \<noteq> None then Some (sh_sleeping q) else sendsig,
        if sh_sleeping q \<noteq> 0 \<and> sendsig \<noteq> None \<and> pcid \<noteq> None then Some (sh_read_pid q) else pcid)"
    unfolding ntt_write_shm_def Let_def option.case nat_int used_def [symmetric]
    using assms(2) d by (simp add: mem_read_def Suc_le_eq)
  then show ?thesis unfolding len using i cc by (intro exI [of _ ?q]) simp
qed

lemma read_shm:
  assumes "sh_inv q"
  shows "\<exists>q' pid. ntt_read_shm 0 True getpid (Some q) (Some old) pidd =
      Some (int (sh_used q), Some q', Some (if sh_content q = [] then None else Some (sh_content q @ [0])), pid) \<and>
    pid = (if pidd = 0 then getpid else pidd) \<and> sh_read_pid q' = (if pidd = 0 then getpid else sh_read_pid q) \<and>
    sh_inv q' \<and> sh_total q' = sh_total q \<and> sh_content q' = [] \<and> sh_should_exit q' = sh_should_exit q \<and>
    sh_sleeping q' = (if sh_content q = [] then 1 else 0)"
proof (cases "sh_used q = 0")
  case True
  then show ?thesis using assms
    by (auto simp: ntt_read_shm_def Let_def sh_content_def sh_inv_def int_of_ull_def)
next
  case False
  have "int_of_ull (sh_used q) = int (sh_used q)" "sh_content q \<noteq> []"
    using assms False by (auto simp: sh_inv_def sh_content_def int_of_ull_small)
  then show ?thesis using assms False
    by (auto simp: ntt_read_shm_def Let_def sh_content_def sh_inv_def mem_read_def put_byte_def)
qed

section \<open>The region as a byte queue\<close>

definition shm_put :: "LIST_SHARED_DATA \<Rightarrow> bytes \<Rightarrow> LIST_SHARED_DATA option" where
  "shm_put q x = do { (rs, p, _, _) \<leftarrow> ntt_write_shm 0 (Some q) (Some x) (int (length x)) None None; p }"

definition shm_get :: "LIST_SHARED_DATA \<Rightarrow> (bytes \<times> LIST_SHARED_DATA) option" where
  "shm_get q = do {
     (n, p, dta, _) \<leftarrow> ntt_read_shm 0 True 0 (Some q) (Some None) 1;
     q' \<leftarrow> p;
     d \<leftarrow> dta;
     Some (case d of None \<Rightarrow> [] | Some x \<Rightarrow> take (nat n) x, q')
   }"

interpretation shm: byte_buffer sh_inv sh_content "\<lambda>q. sh_total q - SHM_SZ" shm_put shm_get
proof
  fix q and x :: bytes
  assume a: "sh_inv q" "x \<noteq> []" "length (sh_content q @ x) < sh_total q - SHM_SZ"
  then have "length x + SHM_SZ < sh_total q" by simp
  with write_shm [OF a(1,2), of None None] a(3)
  show "\<exists>q'. shm_put q x = Some q' \<and> sh_inv q' \<and> sh_content q' = sh_content q @ x \<and>
      sh_total q' - SHM_SZ = sh_total q - SHM_SZ"
    by (auto simp: shm_put_def)
next
  fix q assume a: "sh_inv q" "length (sh_content q) < sh_total q - SHM_SZ"
  with read_shm [OF a(1), of 0 None 1] sh_content_length [OF a(1)]
  show "\<exists>q'. shm_get q = Some (sh_content q, q') \<and> sh_inv q' \<and> sh_content q' = [] \<and>
      sh_total q' - SHM_SZ = sh_total q - SHM_SZ"
    by (auto simp: shm_get_def)
qed

section \<open>All interleavings\<close>

text \<open>
  A step is one operation of one of the processes on the region: a write of an item that fits into the
  empty region, a read, and the changes of the exit flag and the reader's process id. The lock makes it
  atomic.
\<close>

inductive shm_step :: "LIST_SHARED_DATA \<Rightarrow> LIST_SHARED_DATA \<Rightarrow> bool" where
  put_item: "x \<noteq> [] \<Longrightarrow> length x + SHM_SZ < sh_total q \<Longrightarrow>
    ntt_write_shm rl (Some q) (Some x) (int (length x)) sg pc = Some (rs, Some q', sg', pc') \<Longrightarrow> shm_step q q'"
| take_all: "ntt_read_shm rl mem getpid (Some q) (Some None) pidd = Some (rs, Some q', dta, pidd') \<Longrightarrow> shm_step q q'"
| set_exit: "set_exit_group (Some q) val = Some (rs, Some q') \<Longrightarrow> shm_step q q'"
| set_pid: "set_read_pid rl ru (Some q) pid = Some (rs, Some q') \<Longrightarrow> shm_step q q'"

definition shm_start :: "nat \<Rightarrow> LIST_SHARED_DATA \<Rightarrow> bool" where
  "shm_start sz q \<longleftrightarrow> SHM_SZ < sz \<and> sz < 2 ^ 31 \<and>
     (\<exists>kind os. ntt_open_shm kind os sz None Null = Some (Mapped, Some q, Mapped))"

definition shm_ok :: "nat \<Rightarrow> LIST_SHARED_DATA \<Rightarrow> bool" where
  "shm_ok sz q \<longleftrightarrow> sh_inv q \<and> sh_total q = sz"

lemma shm_start_ok: "shm_start sz q \<Longrightarrow> shm_ok sz q"
  by (auto simp: shm_start_def shm_ok_def ntt_open_shm_def init_service_def Let_def bind_eq_Some_conv sh_inv_def
      split: if_splits)

lemma shm_step_ok: "shm_step q q' \<Longrightarrow> shm_ok sz q \<Longrightarrow> shm_ok sz q'"
proof (induction rule: shm_step.induct)
  case (put_item x q rl sg pc rs q' sg' pc')
  then show ?case using write_shm [of q x sg pc]
    by (cases "rl = 0") (auto simp: shm_ok_def ntt_write_shm_def [of rl] Suc_le_eq)
next
  case (take_all rl mem getpid q pidd rs q' dta pidd')
  show ?case
  proof (cases "rl = 0 \<and> mem")
    case True
    with take_all read_shm [of q getpid None pidd] show ?thesis by (auto simp: shm_ok_def)
  next
    case False
    with take_all show ?thesis
      by (auto simp: shm_ok_def sh_inv_def ntt_read_shm_def Let_def split: if_splits)
  qed
next
  case set_exit
  then show ?case by (auto simp: shm_ok_def sh_inv_def set_exit_group_def)
next
  case set_pid
  then show ?case by (auto simp: shm_ok_def sh_inv_def set_read_pid_def Let_def bind_eq_Some_conv split: if_splits)
qed

interpretation region: invariant_system "shm_start sz" shm_step "shm_ok sz"
  by unfold_locales (auto intro: shm_start_ok shm_step_ok)

text \<open>what the flag and the reader's id of a sleeping reader do to the next writes\<close>

lemma write_items_sleeping:
  assumes "sh_inv q" "sh_sleeping q = 1" "\<forall>t \<in> set ts. t \<noteq> [] \<and> length t + SHM_SZ < sh_total q" "ts \<noteq> []"
  shows "\<exists>q'. write_items (Some q) ts s0 p0 = Some (Some q', 1, sh_read_pid q) \<and> sh_inv q' \<and>
    sh_total q' = sh_total q \<and> sh_should_exit q' = sh_should_exit q"
  using assms
proof (induction ts arbitrary: q s0 p0)
  case (Cons t ts)
  obtain q1 where q1: "ntt_write_shm 0 (Some q) (Some t) (int (length t)) (Some 0) (Some 0)
        = Some (int (length (sh_content q1)), Some q1, Some 1, Some (sh_read_pid q))"
      "sh_inv q1" "sh_sleeping q1 = 1" "sh_read_pid q1 = sh_read_pid q" "sh_total q1 = sh_total q"
      "sh_should_exit q1 = sh_should_exit q"
    using write_shm [of q t "Some 0" "Some 0"] Cons.prems by auto
  show ?case
  proof (cases "ts = []")
    case True
    with q1 show ?thesis by simp
  next
    case False
    then obtain q' where "write_items (Some q1) ts 1 (sh_read_pid q) = Some (Some q', 1, sh_read_pid q1)" "sh_inv q'"
        "sh_total q' = sh_total q1" "sh_should_exit q' = sh_should_exit q1"
      using Cons.IH [of q1 1 "sh_read_pid q"] Cons.prems q1 by auto
    with q1 show ?thesis by simp
  qed
qed simp

lemma write_items_keep:
  assumes "sh_inv q" "\<forall>t \<in> set ts. t \<noteq> [] \<and> length t + SHM_SZ < sh_total q"
  shows "\<exists>q' s p. write_items (Some q) ts s0 p0 = Some (Some q', s, p) \<and> sh_inv q' \<and> sh_should_exit q' = sh_should_exit q \<and>
    sh_read_pid q' = sh_read_pid q \<and> sh_total q' = sh_total q"
  using assms
proof (induction ts arbitrary: q s0 p0)
  case (Cons t ts)
  obtain q1 s1 p1 where q1: "ntt_write_shm 0 (Some q) (Some t) (int (length t)) (Some 0) (Some 0)
        = Some (int (length (sh_content q1)), Some q1, Some s1, Some p1)"
      "sh_inv q1" "sh_total q1 = sh_total q" "sh_should_exit q1 = sh_should_exit q" "sh_read_pid q1 = sh_read_pid q"
    using write_shm [of q t "Some 0" "Some 0"] Cons.prems by (cases "sh_sleeping q = 0") auto
  then show ?case using Cons.IH [of q1 s1 p1] Cons.prems by simp
qed simp

text \<open>
  The group with one reader, its process id being \<open>pid\<close>: the turns of the reader's thread, of its main program
  until that leaves its loop, of any writers with items that fit, and of the stop program.
\<close>

inductive group_step :: "int \<Rightarrow> LIST_SHARED_DATA \<times> reader \<Rightarrow> LIST_SHARED_DATA \<times> reader \<Rightarrow> bool" for pid where
  reads: "\<not> rd_stopped r \<Longrightarrow> read_body_turn rl mem pid (Some q) r = Some (Some q', r') \<Longrightarrow> group_step pid (q, r) (q', r')"
| main: "read_main_turn (Some q) r = Some (False, r') \<Longrightarrow> group_step pid (q, r) (q, r')"
| writes: "\<forall>t \<in> set items. t \<noteq> [] \<and> length t + SHM_SZ < sh_total q \<Longrightarrow>
    write_turn (Some q) items cnt = Some (Some q', sig, stop, cnt') \<Longrightarrow> group_step pid (q, r) (q', r)"
| stops: "stop_main rl argv1 (Some q) = Some (Some q', sig) \<Longrightarrow> group_step pid (q, r) (q', r)"

definition group_start :: "LIST_SHARED_DATA \<times> reader \<Rightarrow> bool" where
  "group_start = (\<lambda>(q, r). sh_inv q \<and> rd_pidd r = 0)"

text \<open>once the reader has read, its id is in the region\<close>

definition group_inv :: "int \<Rightarrow> LIST_SHARED_DATA \<times> reader \<Rightarrow> bool" where
  "group_inv pid = (\<lambda>(q, r). sh_inv q \<and> (rd_pidd r = 0 \<or> rd_pidd r = pid \<and> sh_read_pid q = pid))"

lemma group_step_inv: "group_step pid t u \<Longrightarrow> group_inv pid t \<Longrightarrow> group_inv pid u"
proof (induction rule: group_step.induct)
  case (reads r rl mem q q' r')
  have "sh_inv q'" if "ntt_read_shm rl mem pid (Some q) (Some None) (rd_pidd r) = Some (n, Some q', dta, pidd)" for n dta pidd
    using shm_step_ok [OF take_all [OF that], of "sh_total q"] reads(3) by (simp add: shm_ok_def group_inv_def)
  moreover have "rd_pidd r = 0 \<or> rd_pidd r = pid \<and> sh_read_pid q = pid" using reads(3) by (simp add: group_inv_def)
  moreover have "pidd = (if rd_pidd r = 0 then pid else rd_pidd r) \<and> sh_read_pid q' = (if rd_pidd r = 0 then pid else sh_read_pid q)"
    if "ntt_read_shm rl mem pid (Some q) (Some None) (rd_pidd r) = Some (n, Some q', dta, pidd)" for n dta pidd
    using that by (auto simp: ntt_read_shm_def Let_def bind_eq_Some_conv split: if_splits)
  ultimately show ?case using reads(2,3)
    by (auto simp: read_body_turn_def bind_eq_Some_conv group_inv_def split: if_splits)
next
  case (main q r r')
  then show ?case by (auto simp: group_inv_def read_main_turn_def bind_eq_Some_conv)
next
  case (writes items q cnt q' sig stop cnt' r)
  then obtain s p where "write_items (Some q) items 0 0 = Some (Some q', s, p)" "sh_inv q'" "sh_read_pid q' = sh_read_pid q"
    using write_items_keep [of q items 0 0] by (auto simp: group_inv_def write_turn_def Let_def bind_eq_Some_conv)
  then show ?case using writes(3) by (auto simp: group_inv_def)
next
  case (stops rl argv1 q q' sig r)
  then show ?case
    by (auto simp: group_inv_def stop_main_def set_exit_group_def sh_inv_def Let_def bind_eq_Some_conv)
qed

lemma group_start_inv: "group_start t \<Longrightarrow> group_inv pid t"
  by (auto simp: group_start_def group_inv_def)

interpretation group: invariant_system group_start "group_step pid" "group_inv pid"
  by unfold_locales (auto intro: group_start_inv group_step_inv)

lemma read_empty:
  assumes "sh_inv q" "sh_content q = []"
  shows "ntt_read_shm 0 mem getpid (Some q) (Some None) pidd =
    Some (0, Some (if pidd = 0 then q\<lparr>sh_read_pid := getpid, sh_sleeping := 1\<rparr> else q\<lparr>sh_sleeping := 1\<rparr>), Some None,
      if pidd = 0 then getpid else pidd)"
proof -
  have "sh_used q = 0" using sh_content_length [OF assms(1)] assms(2) by simp
  then show ?thesis by (simp add: ntt_read_shm_def Let_def int_of_ull_def)
qed

section \<open>Properties\<close>

text \<open>
  C38. In every state the processes can reach from the creation of a region, whatever their locks and
  allocators answer, the sizes in the region agree with it and every operation has a result: a write of
  any item that fits into the empty region, a read, the exit flag and the checks.
\<close>

theorem shm_invariant:
  assumes "reachable (shm_start sz) shm_step q"
  shows "sh_inv q \<and> sh_total q = sz \<and>
    (\<forall>x rl sg pc. x \<noteq> [] \<and> length x + SHM_SZ < sz \<longrightarrow> ntt_write_shm rl (Some q) (Some x) (int (length x)) sg pc \<noteq> None) \<and>
    (\<forall>rl mem getpid pidd. ntt_read_shm rl mem getpid (Some q) (Some None) pidd \<noteq> None)"
proof -
  have ok: "sh_inv q" "sh_total q = sz" using region.reachable_inv [OF assms] by (auto simp: shm_ok_def)
  have "ntt_write_shm rl (Some q) (Some x) (int (length x)) sg pc \<noteq> None" if "x \<noteq> [] \<and> length x + SHM_SZ < sz" for x rl sg pc
    using write_shm [OF ok(1), of x sg pc] that ok(2)
    by (cases "rl = 0") (auto simp: ntt_write_shm_def [of rl])
  moreover have "ntt_read_shm rl mem getpid (Some q) (Some None) pidd \<noteq> None" for rl mem getpid pidd
    using read_shm [OF ok(1), of getpid None pidd]
    by (cases "rl = 0 \<and> mem") (auto simp: ntt_read_shm_def Let_def)
  ultimately show ?thesis using ok by blast
qed

text \<open>
  A write appends its item to what is unread as long as the region has room; otherwise everything
  unread is dropped and the item is all there is. In both cases it returns the number of unread bytes
  and tells a writer that asks whether the reader sleeps, and its process id.
\<close>

theorem write_shm_appends_or_drops:
  assumes "sh_inv q" "x \<noteq> []" "length x + SHM_SZ < sh_total q"
  shows "\<exists>q'. ntt_write_shm 0 (Some q) (Some x) (int (length x)) (Some 0) (Some 0) =
      Some (int (length (sh_content q')), Some q',
        Some (sh_sleeping q), Some (if sh_sleeping q \<noteq> 0 then sh_read_pid q else 0)) \<and> sh_inv q' \<and>
    sh_content q' = (if length (sh_content q @ x) < sh_total q - SHM_SZ then sh_content q @ x else x)"
  using write_shm [OF assms, of "Some 0" "Some 0"] by (cases "sh_sleeping q = 0") auto

text \<open>
  C39. While there is room the region is a byte queue: the next read gives all items written since the
  last one, complete and in order, and leaves it empty.
\<close>

theorem shm_queue:
  assumes "sh_inv q" "[] \<notin> set xs" "length (sh_content q @ concat xs) < sh_total q - SHM_SZ"
  shows "\<exists>q' q''. put_all shm_put q xs = Some q' \<and> shm_get q' = Some (sh_content q @ concat xs, q'') \<and>
           sh_inv q'' \<and> sh_content q'' = []"
  using shm.put_all_get [OF assms] by auto

text \<open>
  C40. No wake-up is lost. In every state the group with one reader reaches, in whatever order its reader, its
  writers and the stop program have run: when a turn of the reader, its first or any later one, finds the region empty,
  the next turn of any writer, with any items that fit, signals the reader's process, unless the group is being stopped.
\<close>

theorem reader_woken:
  assumes "reachable group_start (group_step pid) (q, r)" "pid \<noteq> 0" "sh_content q = []" "sh_should_exit q = 0"
    and "items \<noteq> []" "\<forall>t \<in> set items. t \<noteq> [] \<and> length t + SHM_SZ < sh_total q"
  shows "\<exists>q1 r1 p2. read_body_turn 0 mem pid (Some q) r = Some (Some q1, r1) \<and> rd_stopped r1 = rd_stopped r \<and>
           write_turn (Some q1) items cnt = Some (p2, Some pid, False, cnt)"
proof -
  have i: "sh_inv q" "rd_pidd r = 0 \<or> rd_pidd r = pid \<and> sh_read_pid q = pid"
    using group.reachable_inv [OF assms(1)] by (simp_all add: group_inv_def)
  let ?q = "if rd_pidd r = 0 then q\<lparr>sh_read_pid := pid, sh_sleeping := 1\<rparr> else q\<lparr>sh_sleeping := 1\<rparr>"
  have q: "sh_inv ?q" "sh_sleeping ?q = 1" "sh_read_pid ?q = pid" "sh_total ?q = sh_total q" "sh_should_exit ?q = 0"
    using i assms(4) by (auto simp: sh_inv_def)
  obtain q2 where q2: "write_items (Some ?q) items 0 0 = Some (Some q2, 1, pid)" "sh_should_exit q2 = 0"
    using write_items_sleeping [OF q(1,2), of items 0 0] assms(5,6) q(3-5) by auto
  have "\<exists>r1. read_body_turn 0 mem pid (Some q) r = Some (Some ?q, r1) \<and> rd_stopped r1 = rd_stopped r"
    using read_empty [OF i(1) assms(3), of mem pid "rd_pidd r"] assms(4) by (simp add: read_body_turn_def check_exiit_def)
  moreover have "write_turn (Some ?q) items cnt = Some (Some q2, Some pid, False, cnt)"
    using q2 assms(2) by (simp add: write_turn_def check_exiit_def)
  ultimately show ?thesis by blast
qed

text \<open>
  The stop program ends the group: after it has run without an argument, the thread of the reader
  leaves its loop at its next turn, the reader's main program at its next signal, and every writer at
  the end of its next turn, whatever their counters; the reader is signalled.
\<close>

theorem stop_ends_all:
  assumes "sh_inv q" "0 \<le> rd_count r" "0 \<le> cnt" "\<forall>t \<in> set items. t \<noteq> [] \<and> length t + SHM_SZ < sh_total q"
  shows "\<exists>p. stop_main 0 None (Some q) = Some (p, if sh_read_pid q \<noteq> 0 then Some (sh_read_pid q) else None) \<and>
    (\<exists>r1. read_body_turn rl mem getpid p r = Some (p, r1) \<and> rd_stopped r1) \<and>
    (\<exists>r1. read_main_turn p r = Some (True, r1)) \<and>
    (\<exists>p2 sig cnt'. write_turn p items cnt = Some (p2, sig, True, cnt'))"
proof -
  let ?q = "q\<lparr>sh_should_exit := 1\<rparr>"
  have "sh_inv ?q" using assms(1) by (simp add: sh_inv_def)
  then obtain q' s pd where w: "write_items (Some ?q) items 0 0 = Some (Some q', s, pd)" "sh_should_exit q' = 1"
    using write_items_keep [of ?q items 0 0] assms(4) by auto
  have "stop_main 0 None (Some q) = Some (Some ?q, if sh_read_pid q \<noteq> 0 then Some (sh_read_pid q) else None)"
    by (simp add: stop_main_def set_exit_group_def get_read_pid_def Let_def)
  moreover have "\<exists>r1. read_body_turn rl mem getpid (Some ?q) r = Some (Some ?q, r1) \<and> rd_stopped r1"
    using assms(2) by (simp add: read_body_turn_def check_exiit_def)
  moreover have "\<exists>r1. read_main_turn (Some ?q) r = Some (True, r1)"
    using assms(2) by (simp add: read_main_turn_def check_exiit_def Let_def)
  moreover have "\<exists>p2 sig cnt'. write_turn (Some ?q) items cnt = Some (p2, sig, True, cnt')"
    using assms(3) w by (simp add: write_turn_def check_exiit_def Let_def)
  ultimately show ?thesis by blast
qed

text \<open>
  There is no check that an item fits into the region at all: an item longer than the space behind
  the struct is written over its end, in every state.
\<close>

theorem write_shm_overflow:
  assumes "sh_inv q" "sh_total q < length x + SHM_DATA"
  shows "ntt_write_shm 0 (Some q) (Some x) (int (length x)) sg pc = None"
proof -
  have "sh_total q \<le> length x + sh_used q + SHM_SZ" "length (sh_data q) < length x" "x \<noteq> []"
    using assms by (auto simp: sh_inv_def)
  then show ?thesis by (auto simp: ntt_write_shm_def Let_def mem_write_def mem_read_def)
qed

text \<open>The region outlives the group: its path is not null, so it is never unlinked.\<close>

lemma never_unlinked: "fst (snd (ntt_unlink_shm False um ul obj shm)) = obj"
  by (simp add: ntt_unlink_shm_def Let_def)

section \<open>Witnesses\<close>

definition demo_region :: LIST_SHARED_DATA where
  "demo_region = \<lparr>sh_total = 400, sh_used = 0, sh_read_pid = 0, sh_should_exit = 0, sh_sleeping = 0, sh_data = zeros 114\<rparr>"

lemma demo_region_inv: "sh_inv demo_region" "sh_content demo_region = []" "sh_total demo_region = 400"
  "sh_should_exit demo_region = 0"
  by (simp_all add: demo_region_def sh_inv_def sh_content_def)

theorem shm_invariant_witness: "sh_inv demo_region \<and> sh_total demo_region = 400"
proof -
  have "ntt_open_shm USING_MUTEX \<lparr>os_create = True, os_open = True, os_mmap = MapOk, os_frame_init = 0, os_exit_init = 0\<rparr>
      400 None Null = Some (Mapped, Some demo_region, Mapped)"
    by (simp add: ntt_open_shm_def init_service_def init_lock_def init_shm_mtx_def demo_region_def)
  then have "shm_start 400 demo_region" unfolding shm_start_def by auto
  then show ?thesis using shm_invariant [OF reachable.start] by blast
qed

theorem write_shm_appends_or_drops_witness:
  "\<exists>q'. ntt_write_shm 0 (Some demo_region) (Some [1, 2, 3]) 3 (Some 0) (Some 0) = Some (3, Some q', Some 0, Some 0)"
  using write_shm_appends_or_drops [of demo_region "[1, 2, 3]"] demo_region_inv
  by (auto simp: demo_region_def)

theorem shm_queue_witness:
  "\<exists>q' q''. put_all shm_put demo_region [[1], [2, 3]] = Some q' \<and> shm_get q' = Some ([1, 2, 3], q'')"
  using shm_queue [of demo_region "[[1], [2, 3]]"] demo_region_inv by auto

text \<open>the second turn of a reader that finds the region empty\<close>

theorem reader_woken_witness:
  "\<exists>q r q1 r1 p2. reachable group_start (group_step 7) (q, r) \<and> rd_pidd r = 7 \<and>
     read_body_turn 0 True 7 (Some q) r = Some (Some q1, r1) \<and> write_turn (Some q1) [[9]] 0 = Some (p2, Some 7, False, 0)"
proof -
  let ?r = "\<lparr>rd_pidd = 0, rd_count = 0, rd_stopped = False, rd_got = []\<rparr>"
    and ?q = "demo_region\<lparr>sh_read_pid := 7, sh_sleeping := 1\<rparr>"
  have "read_body_turn 0 True 7 (Some demo_region) ?r = Some (Some ?q, ?r\<lparr>rd_pidd := 7\<rparr>)"
    using read_empty [OF demo_region_inv(1,2), of True 7 0] demo_region_inv(4) by (simp add: read_body_turn_def check_exiit_def)
  then have "group_step 7 (demo_region, ?r) (?q, ?r\<lparr>rd_pidd := 7\<rparr>)" by (intro group_step.reads) simp_all
  moreover have "group_start (demo_region, ?r)" using demo_region_inv by (simp add: group_start_def)
  ultimately have "reachable group_start (group_step 7) (?q, ?r\<lparr>rd_pidd := 7\<rparr>)"
    by (blast intro: reachable.start reachable.step)
  then show ?thesis
    using reader_woken [of 7 ?q "?r\<lparr>rd_pidd := 7\<rparr>" "[[9]]" True 0] demo_region_inv by (fastforce simp: sh_content_def)
qed

theorem stop_ends_all_witness:
  "\<exists>p. stop_main 0 None (Some demo_region) = Some (p, None) \<and>
     (\<exists>p2 sig cnt'. write_turn p [[9]] 0 = Some (p2, sig, True, cnt'))"
  using stop_ends_all [of demo_region "\<lparr>rd_pidd = 0, rd_count = 0, rd_stopped = False, rd_got = []\<rparr>" 0 "[[9]]" 0 True 7]
    demo_region_inv by (auto simp: demo_region_def)

theorem write_shm_overflow_witness:
  "ntt_write_shm 0 (Some demo_region) (Some (replicate 200 1)) 200 None None = None"
  using write_shm_overflow [of demo_region "replicate 200 1" None None] demo_region_inv by simp

end
