(* ===== verification/Quicksort.thy ===== *)
theory Quicksort
  imports Prelude
begin

text \<open>
  The quicksorts of the repository. \<^verbatim>\<open>cluster/quicksort/main.c\<close> (an array of \<^verbatim>\<open>long\<close>, a
  recursive, a list-based and an array-based variant) and \<^verbatim>\<open>cluster/common/lcs_common.c\<close>
  (\<^verbatim>\<open>lcs_partition_ext\<close> with a comparison callback, \<^verbatim>\<open>lcs_partition\<close> with \<^verbatim>\<open>strcmp\<close>) share one
  algorithm; \<^verbatim>\<open>quicksort/quicksort.c\<close> has another one. The shared part takes the comparison \<open>f\<close> and
  what a value becomes on its way through the variable \<^verbatim>\<open>tmp\<close> of a swap, \<open>st\<close>: \<^verbatim>\<open>tmp\<close> is an \<^verbatim>\<open>int\<close>
  where the elements are \<^verbatim>\<open>long\<close>. An index outside the array makes the result \<^term>\<open>None\<close>.

  Shown: termination of every variant, with no assumption on the comparison; sorting, for every
  comparison that is a total preorder, of the recursive and the iterative variants; the equivalence of
  the array-based and the list-based iteration; and that the iterative variant of
  \<^verbatim>\<open>quicksort/quicksort.c\<close> does not sort.
\<close>

section \<open>Arrays\<close>

definition rd :: "'a list \<Rightarrow> int \<Rightarrow> 'a option" where
  "rd xs k = (if 0 \<le> k \<and> k < int (length xs) then Some (xs ! nat k) else None)"

definition wr :: "'a list \<Rightarrow> int \<Rightarrow> 'a \<Rightarrow> 'a list option" where
  "wr xs k v = (if 0 \<le> k \<and> k < int (length xs) then Some (xs[nat k := v]) else None)"

text \<open>\<^verbatim>\<open>tmp = data[i]; data[i] = data[j]; data[j] = tmp;\<close>\<close>

definition swap_at :: "('a \<Rightarrow> 'a) \<Rightarrow> 'a list \<Rightarrow> int \<Rightarrow> int \<Rightarrow> 'a list option" where
  "swap_at st xs i j = do {
     a \<leftarrow> rd xs i;
     b \<leftarrow> rd xs j;
     ys \<leftarrow> wr xs i b;
     wr ys j (st a)
   }"

section \<open>The algorithm with a comparison\<close>

text \<open>\<^verbatim>\<open>while (f(pivot, data[j]) <= 0) { if (i < j) j--; else break; }\<close>\<close>

function seek_down :: "('a \<Rightarrow> 'a \<Rightarrow> int) \<Rightarrow> 'a \<Rightarrow> 'a list \<Rightarrow> int \<Rightarrow> int \<Rightarrow> int option" where
  "seek_down f p xs i j =
     (case rd xs j of None \<Rightarrow> None
      | Some d \<Rightarrow> if f p d \<le> 0 then (if i < j then seek_down f p xs i (j - 1) else Some j) else Some j)"
  by auto
termination by (relation "measure (\<lambda>(f, p, xs, i, j). nat (j - i))") auto

text \<open>\<^verbatim>\<open>while (f(pivot, data[i]) >= 0) { if (i < j) i++; else break; }\<close>\<close>

function seek_up :: "('a \<Rightarrow> 'a \<Rightarrow> int) \<Rightarrow> 'a \<Rightarrow> 'a list \<Rightarrow> int \<Rightarrow> int \<Rightarrow> int option" where
  "seek_up f p xs i j =
     (case rd xs i of None \<Rightarrow> None
      | Some d \<Rightarrow> if 0 \<le> f p d then (if i < j then seek_up f p xs (i + 1) j else Some i) else Some i)"
  by auto
termination by (relation "measure (\<lambda>(f, p, xs, i, j). nat (j - i))") auto

declare seek_down.simps [simp del] seek_up.simps [simp del]

lemma seek_down_bound: "seek_down f p xs i j = Some j' \<Longrightarrow> j' \<le> j \<and> (i \<le> j \<longrightarrow> i \<le> j')"
  by (induction f p xs i j rule: seek_down.induct)
    (subst (asm) (2) seek_down.simps, fastforce split: option.splits if_splits)

lemma seek_up_bound: "seek_up f p xs i j = Some i' \<Longrightarrow> i \<le> i' \<and> (i \<le> j \<longrightarrow> i' \<le> j)"
  by (induction f p xs i j rule: seek_up.induct)
    (subst (asm) (2) seek_up.simps, fastforce split: option.splits if_splits)

text \<open>the loop \<^verbatim>\<open>while (i < j)\<close>: the array and both indices at its end\<close>

function part_loop ::
  "('a \<Rightarrow> 'a) \<Rightarrow> ('a \<Rightarrow> 'a \<Rightarrow> int) \<Rightarrow> 'a \<Rightarrow> 'a list \<Rightarrow> int \<Rightarrow> int \<Rightarrow> ('a list \<times> int \<times> int) option" where
  "part_loop st f p xs i j =
     (if i < j then
        case seek_down f p xs i j of None \<Rightarrow> None | Some j' \<Rightarrow>
        case seek_up f p xs i j' of None \<Rightarrow> None | Some i' \<Rightarrow>
        if i' < j' then
          case swap_at st xs i' j' of None \<Rightarrow> None
          | Some ys \<Rightarrow> part_loop st f p ys (i' + 1) (j' - 1)
        else Some (xs, i', j')
      else Some (xs, i, j))"
  by auto
termination
  by (relation "measure (\<lambda>(st, f, p, xs, i, j). nat (j - i))")
    (auto dest!: seek_down_bound seek_up_bound)

declare part_loop.simps [simp del]

definition part_ext ::
  "('a \<Rightarrow> 'a) \<Rightarrow> ('a \<Rightarrow> 'a \<Rightarrow> int) \<Rightarrow> 'a list \<Rightarrow> int \<Rightarrow> int \<Rightarrow> ('a list \<times> int) option" where
  "part_ext st f xs low hi = do {
     p \<leftarrow> rd xs low;
     (ys, i, j) \<leftarrow> part_loop st f p xs (low + 1) hi;
     d \<leftarrow> rd ys j;
     if f d p < 0 then do { zs \<leftarrow> swap_at st ys low j; Some (zs, j) } else Some (ys, j)
   }"

lemma part_loop_bound:
  "part_loop st f p xs i j = Some (ys, i', j') \<Longrightarrow> j' \<le> j \<and> (i \<le> j \<longrightarrow> i \<le> j') \<and> (j \<le> i \<longrightarrow> j' = j)"
proof (induction st f p xs i j rule: part_loop.induct)
  case (1 st f p xs i j)
  show ?case
  proof (cases "i < j")
    case True
    with "1.prems" obtain j1 i1 where d: "seek_down f p xs i j = Some j1" and u: "seek_up f p xs i j1 = Some i1"
      by (subst (asm) part_loop.simps) (auto split: option.splits)
    note b = seek_down_bound [OF d] seek_up_bound [OF u]
    show ?thesis
    proof (cases "i1 < j1")
      case True
      with "1.prems" \<open>i < j\<close> d u obtain zs where s: "swap_at st xs i1 j1 = Some zs"
          and r: "part_loop st f p zs (i1 + 1) (j1 - 1) = Some (ys, i', j')"
        by (subst (asm) part_loop.simps) (auto split: option.splits)
      show ?thesis using "1.IH" [OF \<open>i < j\<close> d u True s r] b True \<open>i < j\<close> by auto
    next
      case False
      with "1.prems" \<open>i < j\<close> d u b show ?thesis by (subst (asm) part_loop.simps) auto
    qed
  next
    case False
    with "1.prems" show ?thesis by (subst (asm) part_loop.simps) auto
  qed
qed

lemma part_ext_bound:
  "part_ext st f xs low hi = Some (ys, j) \<Longrightarrow> (if low < hi then low < j \<and> j \<le> hi else j = hi)"
  by (auto simp: part_ext_def bind_eq_Some_conv split: if_splits dest!: part_loop_bound)

text \<open>the recursive variant\<close>

function qsort_ext ::
  "('a \<Rightarrow> 'a) \<Rightarrow> ('a \<Rightarrow> 'a \<Rightarrow> int) \<Rightarrow> 'a list \<Rightarrow> int \<Rightarrow> int \<Rightarrow> 'a list option" where
  "qsort_ext st f xs low hi =
     (case part_ext st f xs low hi of None \<Rightarrow> None | Some (ys, j) \<Rightarrow>
      case (if low < j - 1 then qsort_ext st f ys low (j - 1) else Some ys) of None \<Rightarrow> None | Some zs \<Rightarrow>
      if j < hi then qsort_ext st f zs j hi else Some zs)"
  by pat_completeness auto
termination
  by (relation "measure (\<lambda>(st, f, xs, low, hi). nat (hi - low))")
    (auto dest!: part_ext_bound split: if_splits)

text \<open>the variant with a list of segments: the first one is taken, its parts are put at the end\<close>

function fifo_ext ::
  "('a \<Rightarrow> 'a) \<Rightarrow> ('a \<Rightarrow> 'a \<Rightarrow> int) \<Rightarrow> 'a list \<Rightarrow> (int \<times> int) list \<Rightarrow> 'a list option" where
  "fifo_ext st f xs [] = Some xs"
| "fifo_ext st f xs ((l, h) # w) =
     (case part_ext st f xs l h of None \<Rightarrow> None | Some (ys, j) \<Rightarrow>
      fifo_ext st f ys (w @ (if l < j - 1 then [(l, j - 1)] else []) @ (if j < h then [(j, h)] else [])))"
  by pat_completeness auto
termination
  by (relation "measure (\<lambda>(st, f, xs, w). \<Sum>(l, h) \<leftarrow> w. nat (max 1 (2 * (h - l) + 1)))")
    (auto dest!: part_ext_bound split: if_splits)

declare qsort_ext.simps [simp del] fifo_ext.simps(2) [simp del]

definition nonrec_ext ::
  "('a \<Rightarrow> 'a) \<Rightarrow> ('a \<Rightarrow> 'a \<Rightarrow> int) \<Rightarrow> 'a list \<Rightarrow> int \<Rightarrow> int \<Rightarrow> 'a list option" where
  "nonrec_ext st f xs low hi = (if hi \<le> low then Some xs else fifo_ext st f xs [(low, hi)])"

text \<open>
  The variant that keeps the segments in two arrays: \<^verbatim>\<open>total\<close> is the last entry written, \<^verbatim>\<open>jump\<close> the
  next one read. Their size in bytes, \<^verbatim>\<open>(hi - low + 1) * sizeof(int)\<close>, is kept in an \<^verbatim>\<open>unsigned int\<close>,
  where it wraps: they have one entry for each element only below \<open>2 ^ 30\<close> elements.
\<close>

definition push_seg :: "bool \<Rightarrow> int \<Rightarrow> int \<Rightarrow> int list \<times> int list \<times> int \<Rightarrow> (int list \<times> int list \<times> int) option"
where
  "push_seg c l h = (\<lambda>(al, ah, tot).
     if c then do { al' \<leftarrow> wr al (tot + 1) l; ah' \<leftarrow> wr ah (tot + 1) h; Some (al', ah', tot + 1) }
     else Some (al, ah, tot))"

lemma push_seg_length: "push_seg c l h (al, ah, t) = Some (al', ah', t') \<Longrightarrow> length ah' = length ah"
  by (auto simp: push_seg_def wr_def bind_eq_Some_conv split: if_splits)

function improve_loop ::
  "('a \<Rightarrow> 'a) \<Rightarrow> ('a \<Rightarrow> 'a \<Rightarrow> int) \<Rightarrow> 'a list \<Rightarrow> int list \<Rightarrow> int list \<Rightarrow> int \<Rightarrow> int \<Rightarrow> 'a list option" where
  "improve_loop st f xs al ah tot jump =
     (case rd ah jump of None \<Rightarrow> None | Some h \<Rightarrow>
      if 0 < h then
        case rd al jump of None \<Rightarrow> None | Some l \<Rightarrow>
        case part_ext st f xs l h of None \<Rightarrow> None | Some (ys, j) \<Rightarrow>
        case push_seg (l < j - 1) l (j - 1) (al, ah, tot) of None \<Rightarrow> None | Some (al1, ah1, t1) \<Rightarrow>
        case push_seg (j < h) j h (al1, ah1, t1) of None \<Rightarrow> None | Some (al2, ah2, t2) \<Rightarrow>
        improve_loop st f ys al2 ah2 t2 (jump + 1)
      else Some xs)"
  by pat_completeness auto
termination
  by (relation "measure (\<lambda>(st, f, xs, al, ah, tot, jump). nat (int (length ah) - jump))")
    (auto simp: rd_def split: if_splits dest!: push_seg_length)

definition improve_ext ::
  "('a \<Rightarrow> 'a) \<Rightarrow> ('a \<Rightarrow> 'a \<Rightarrow> int) \<Rightarrow> 'a list \<Rightarrow> int \<Rightarrow> int \<Rightarrow> 'a list option" where
  "improve_ext st f xs low hi =
     (if hi \<le> low then Some xs
      else if 2 ^ 31 \<le> hi - low + 1 then None
      else do {
        let n = nat ((hi - low + 1) * 4 mod 2 ^ 32 div 4);
        al \<leftarrow> wr (replicate n 0) 0 low;
        ah \<leftarrow> wr (replicate n 0) 0 hi;
        improve_loop st f xs al ah 0 0
      })"

declare improve_loop.simps [simp del]

section \<open>\<^verbatim>\<open>cluster/quicksort/main.c\<close>\<close>

text \<open>\<^verbatim>\<open>int tmp = data[i]\<close> keeps the low 32 bits of a \<^verbatim>\<open>long\<close>\<close>

definition tmp_int :: "int \<Rightarrow> int" where
  "tmp_int v = signed_take_bit 31 v"

definition cmp_long :: "int \<Rightarrow> int \<Rightarrow> int" where
  "cmp_long a b = (if a < b then -1 else if a = b then 0 else 1)"

definition partition_cl :: "int list \<Rightarrow> int \<Rightarrow> int \<Rightarrow> (int list \<times> int) option" where
  "partition_cl = part_ext tmp_int cmp_long"

definition quick_sort :: "int list \<Rightarrow> int \<Rightarrow> int \<Rightarrow> int list option" where
  "quick_sort = qsort_ext tmp_int cmp_long"

definition quick_sort_non_recursive_cl :: "int list \<Rightarrow> int \<Rightarrow> int \<Rightarrow> int list option" where
  "quick_sort_non_recursive_cl = nonrec_ext tmp_int cmp_long"

definition quick_sort_non_recursive_improve :: "int list \<Rightarrow> int \<Rightarrow> int \<Rightarrow> int list option" where
  "quick_sort_non_recursive_improve = improve_ext tmp_int cmp_long"

text \<open>\<^verbatim>\<open>unit_test(arr, length)\<close>: the result and the indices it prints\<close>

function unit_test_loop :: "int list \<Rightarrow> int \<Rightarrow> int \<Rightarrow> int \<Rightarrow> int list \<Rightarrow> (int \<times> int list) option" where
  "unit_test_loop arr len i r out =
     (if i < len - 1 then
        case rd arr i of None \<Rightarrow> None | Some a \<Rightarrow>
        case rd arr (i + 1) of None \<Rightarrow> None | Some b \<Rightarrow>
        if b < a then unit_test_loop arr len (i + 1) 0 (out @ [i]) else unit_test_loop arr len (i + 1) r out
      else Some (r, out))"
  by auto
termination by (relation "measure (\<lambda>(arr, len, i, r, out). nat (len - i))") auto

declare unit_test_loop.simps [simp del]

definition unit_test :: "int list \<Rightarrow> int \<Rightarrow> (int \<times> int list) option" where
  "unit_test arr len = unit_test_loop arr len 0 1 []"

section \<open>\<^verbatim>\<open>quicksort/quicksort.c\<close>\<close>

function seek_down_qs :: "int \<Rightarrow> int list \<Rightarrow> int \<Rightarrow> int \<Rightarrow> int option" where
  "seek_down_qs p xs i j =
     (if i < j then
        case rd xs j of None \<Rightarrow> None | Some d \<Rightarrow> if d < p then Some j else seek_down_qs p xs i (j - 1)
      else Some j)"
  by auto
termination by (relation "measure (\<lambda>(p, xs, i, j). nat (j - i))") auto

function seek_up_qs :: "int \<Rightarrow> int list \<Rightarrow> int \<Rightarrow> int \<Rightarrow> int option" where
  "seek_up_qs p xs i j =
     (if i < j then
        case rd xs i of None \<Rightarrow> None | Some d \<Rightarrow> if p < d then Some i else seek_up_qs p xs (i + 1) j
      else Some i)"
  by auto
termination by (relation "measure (\<lambda>(p, xs, i, j). nat (j - i))") auto

declare seek_down_qs.simps [simp del] seek_up_qs.simps [simp del]

lemma seek_down_qs_bound: "seek_down_qs p xs i j = Some j' \<Longrightarrow> j' \<le> j \<and> (i \<le> j \<longrightarrow> i \<le> j')"
  by (induction p xs i j rule: seek_down_qs.induct)
    (subst (asm) (2) seek_down_qs.simps, fastforce split: option.splits if_splits)

lemma seek_up_qs_bound: "seek_up_qs p xs i j = Some i' \<Longrightarrow> i \<le> i' \<and> (i \<le> j \<longrightarrow> i' \<le> j)"
  by (induction p xs i j rule: seek_up_qs.induct)
    (subst (asm) (2) seek_up_qs.simps, fastforce split: option.splits if_splits)

function part_loop_qs :: "int \<Rightarrow> int list \<Rightarrow> int \<Rightarrow> int \<Rightarrow> (int list \<times> int \<times> int) option" where
  "part_loop_qs p xs i j =
     (if i < j then
        case seek_down_qs p xs i j of None \<Rightarrow> None | Some j' \<Rightarrow>
        case seek_up_qs p xs i j' of None \<Rightarrow> None | Some i' \<Rightarrow>
        if i' < j' then
          case swap_at tmp_int xs i' j' of None \<Rightarrow> None
          | Some ys \<Rightarrow> part_loop_qs p ys (i' + 1) (j' - 1)
        else Some (xs, i', j')
      else Some (xs, i, j))"
  by auto
termination
  by (relation "measure (\<lambda>(p, xs, i, j). nat (j - i))")
    (auto dest!: seek_down_qs_bound seek_up_qs_bound)

declare part_loop_qs.simps [simp del]

text \<open>After the loop the pivot goes to the last element not above it.\<close>

definition partition_qs :: "int list \<Rightarrow> int \<Rightarrow> int \<Rightarrow> (int list \<times> int) option" where
  "partition_qs xs low hi = do {
     p \<leftarrow> rd xs low;
     (ys, i, j) \<leftarrow> part_loop_qs p xs (low + 1) hi;
     if i = j then do {
       a \<leftarrow> rd ys low;
       b \<leftarrow> rd ys j;
       if b < a then do { zs \<leftarrow> swap_at tmp_int ys low j; Some (zs, j) }
       else if a < b then do {
         c \<leftarrow> rd ys (j - 1);
         if c < a then do { zs \<leftarrow> swap_at tmp_int ys low (j - 1); Some (zs, j - 1) } else Some (ys, j - 1)
       } else Some (ys, j)
     }
     else if j < i then do { zs \<leftarrow> swap_at tmp_int ys low j; Some (zs, j) }
     else Some (ys, j)
   }"

lemma part_loop_qs_bound:
  "part_loop_qs p xs i j = Some (ys, i', j') \<Longrightarrow> j' \<le> j \<and> (i \<le> j \<longrightarrow> i \<le> j') \<and> (j \<le> i \<longrightarrow> j' = j \<and> i' = i)"
proof (induction p xs i j rule: part_loop_qs.induct)
  case (1 p xs i j)
  show ?case
  proof (cases "i < j")
    case True
    with "1.prems" obtain j1 i1 where d: "seek_down_qs p xs i j = Some j1" and u: "seek_up_qs p xs i j1 = Some i1"
      by (subst (asm) part_loop_qs.simps) (auto split: option.splits)
    note b = seek_down_qs_bound [OF d] seek_up_qs_bound [OF u]
    show ?thesis
    proof (cases "i1 < j1")
      case True
      with "1.prems" \<open>i < j\<close> d u obtain zs where s: "swap_at tmp_int xs i1 j1 = Some zs"
          and r: "part_loop_qs p zs (i1 + 1) (j1 - 1) = Some (ys, i', j')"
        by (subst (asm) part_loop_qs.simps) (auto split: option.splits)
      show ?thesis using "1.IH" [OF \<open>i < j\<close> d u True s r] b True \<open>i < j\<close> by auto
    next
      case False
      with "1.prems" \<open>i < j\<close> d u b show ?thesis by (subst (asm) part_loop_qs.simps) auto
    qed
  next
    case False
    with "1.prems" show ?thesis by (subst (asm) part_loop_qs.simps) auto
  qed
qed

lemma partition_qs_bound:
  "partition_qs xs low hi = Some (ys, j) \<Longrightarrow> (if low < hi then low \<le> j \<and> j \<le> hi else j = hi)"
  by (auto simp: partition_qs_def bind_eq_Some_conv split: if_splits dest!: part_loop_qs_bound)

function quicksort :: "int list \<Rightarrow> int \<Rightarrow> int \<Rightarrow> int list option" where
  "quicksort xs l h =
     (if l < h then
        case partition_qs xs l h of None \<Rightarrow> None | Some (ys, j) \<Rightarrow>
        case quicksort ys l (j - 1) of None \<Rightarrow> None | Some zs \<Rightarrow> quicksort zs (j + 1) h
      else Some xs)"
  by pat_completeness auto
termination
  by (relation "measure (\<lambda>(xs, l, h). nat (h - l))")
    (auto dest!: partition_qs_bound split: if_splits)

text \<open>the list of segments of \<^verbatim>\<open>quick_sort_non_recursive\<close>\<close>

function fifo_qs :: "int list \<Rightarrow> (int \<times> int) list \<Rightarrow> int list option" where
  "fifo_qs xs [] = Some xs"
| "fifo_qs xs ((l, h) # w) =
     (case partition_qs xs l h of None \<Rightarrow> None | Some (ys, j) \<Rightarrow>
      fifo_qs ys (w @ (if l < j then [(l, j - 1), (j, h)] else [])))"
  by pat_completeness auto
termination
  by (relation "measure (\<lambda>(xs, w). \<Sum>(l, h) \<leftarrow> w. nat (max 1 (2 * (h - l) + 1)))")
    (auto dest!: partition_qs_bound split: if_splits)

declare quicksort.simps [simp del] fifo_qs.simps(2) [simp del]

definition quick_sort_non_recursive :: "int list \<Rightarrow> int \<Rightarrow> int \<Rightarrow> int list option" where
  "quick_sort_non_recursive xs low hi = (if hi \<le> low then Some xs else fifo_qs xs [(low, hi)])"

section \<open>Parts of an array\<close>

definition perm_on :: "int \<Rightarrow> int \<Rightarrow> 'a list \<Rightarrow> 'a list \<Rightarrow> bool" where
  "perm_on l h xs ys \<longleftrightarrow> length ys = length xs \<and> mset ys = mset xs \<and>
     (\<forall>k. 0 \<le> k \<and> k < int (length xs) \<and> \<not> (l \<le> k \<and> k \<le> h) \<longrightarrow> ys ! nat k = xs ! nat k)"

definition sorted_on :: "('a \<Rightarrow> 'a \<Rightarrow> int) \<Rightarrow> 'a list \<Rightarrow> int \<Rightarrow> int \<Rightarrow> bool" where
  "sorted_on f xs l h \<longleftrightarrow> (\<forall>a b. l \<le> a \<and> a < b \<and> b \<le> h \<longrightarrow> f (xs ! nat a) (xs ! nat b) \<le> 0)"

lemma perm_on_refl [simp]: "perm_on l h xs xs"
  by (simp add: perm_on_def)

lemma perm_on_trans: "perm_on l h xs ys \<Longrightarrow> perm_on l h ys zs \<Longrightarrow> perm_on l h xs zs"
  by (simp add: perm_on_def)

lemma perm_on_mono: "perm_on l h xs ys \<Longrightarrow> l' \<le> l \<Longrightarrow> h \<le> h' \<Longrightarrow> perm_on l' h' xs ys"
  by (auto simp: perm_on_def)

lemma perm_on_length: "perm_on l h xs ys \<Longrightarrow> length ys = length xs"
  by (simp add: perm_on_def)

lemma perm_on_set: "perm_on l h xs ys \<Longrightarrow> set ys = set xs"
  unfolding perm_on_def by (metis set_mset_mset)

lemma perm_on_outside:
  "perm_on l h xs ys \<Longrightarrow> 0 \<le> k \<Longrightarrow> k < int (length xs) \<Longrightarrow> k < l \<or> h < k \<Longrightarrow> ys ! nat k = xs ! nat k"
  by (auto simp: perm_on_def)

text \<open>A permutation of a segment keeps what holds of all its elements.\<close>

lemma perm_on_all:
  assumes p: "perm_on l h xs ys" and b: "0 \<le> l" "h < int (length xs)"
    and all: "\<And>k. l \<le> k \<Longrightarrow> k \<le> h \<Longrightarrow> P (xs ! nat k)" and k: "l \<le> k" "k \<le> h"
  shows "P (ys ! nat k)"
proof -
  let ?l = "nat l" and ?n = "nat (h - l + 1)"
  have e: "take ?l ys = take ?l xs" "drop (?l + ?n) ys = drop (?l + ?n) xs"
  proof -
    show "take ?l ys = take ?l xs"
      using p by (intro nth_equalityI) (auto simp: perm_on_def dest: spec [of _ "int _"])
    show "drop (?l + ?n) ys = drop (?l + ?n) xs"
    proof (rule nth_equalityI)
      fix m assume m: "m < length (drop (?l + ?n) ys)"
      define q where "q = ?l + ?n + m"
      have "h < int q" "q < length xs" using b m p by (auto simp: q_def perm_on_length)
      then have "ys ! q = xs ! q" using perm_on_outside [OF p, of "int q"] by simp
      then show "drop (?l + ?n) ys ! m = drop (?l + ?n) xs ! m"
        using m p by (simp add: q_def perm_on_length)
    qed (use p in \<open>simp add: perm_on_length\<close>)
  qed
  have cut: "zs = take ?l zs @ take ?n (drop ?l zs) @ drop (?l + ?n) zs" for zs :: "'a list"
    by (metis append_take_drop_id drop_drop add.commute)
  have "mset ys = mset xs" using p by (simp add: perm_on_def)
  then have m: "mset (take ?n (drop ?l ys)) = mset (take ?n (drop ?l xs))"
    using e cut [of xs] cut [of ys] by (metis add_left_cancel add_right_cancel mset_append)
  have "ys ! nat k \<in> set (take ?n (drop ?l ys))"
    unfolding in_set_conv_nth using b k p
    by (intro exI [of _ "nat (k - l)"]) (auto simp: perm_on_length nat_diff_distrib)
  with m have "ys ! nat k \<in> set (take ?n (drop ?l xs))" by (metis set_mset_mset)
  then obtain m where "m < ?n" "m < length xs - ?l" "ys ! nat k = xs ! (?l + m)"
    by (auto simp: in_set_conv_nth)
  with all [of "l + int m"] b show ?thesis by (simp add: nat_add_distrib)
qed

lemma swap_at_eq:
  "0 \<le> i \<Longrightarrow> i < int (length xs) \<Longrightarrow> 0 \<le> j \<Longrightarrow> j < int (length xs) \<Longrightarrow> st (xs ! nat i) = xs ! nat i \<Longrightarrow>
   swap_at st xs i j = Some (xs[nat i := xs ! nat j, nat j := xs ! nat i])"
  by (simp add: swap_at_def rd_def wr_def)

lemma perm_on_swap:
  assumes "l \<le> i" "i \<le> h" "l \<le> j" "j \<le> h" "0 \<le> l" "h < int (length xs)"
  shows "perm_on l h xs (xs[nat i := xs ! nat j, nat j := xs ! nat i])"
  using assms mset_swap [of "nat j" xs "nat i"]
  by (auto simp: perm_on_def nth_list_update nat_eq_iff split: if_splits)

section \<open>What the loops do\<close>

lemma seek_down_spec:
  "0 \<le> i \<Longrightarrow> i \<le> j \<Longrightarrow> j < int (length xs) \<Longrightarrow>
   \<exists>j'. seek_down f p xs i j = Some j' \<and> i \<le> j' \<and> j' \<le> j \<and>
     (\<forall>k. j' < k \<and> k \<le> j \<longrightarrow> f p (xs ! nat k) \<le> 0) \<and> (i < j' \<longrightarrow> 0 < f p (xs ! nat j'))"
proof (induction f p xs i j rule: seek_down.induct)
  case (1 f p xs i j)
  have d: "rd xs j = Some (xs ! nat j)" using "1.prems" by (simp add: rd_def)
  show ?case
  proof (cases "f p (xs ! nat j) \<le> 0 \<and> i < j")
    case True
    then obtain j' where j': "seek_down f p xs i (j - 1) = Some j'" "i \<le> j'" "j' \<le> j - 1"
      "\<forall>k. j' < k \<and> k \<le> j - 1 \<longrightarrow> f p (xs ! nat k) \<le> 0" "i < j' \<longrightarrow> 0 < f p (xs ! nat j')"
      using "1.IH" [OF d] "1.prems" by auto
    have "f p (xs ! nat k) \<le> 0" if "j' < k" "k \<le> j" for k
      using j'(4) True that by (cases "k = j") auto
    with True d j' show ?thesis by (auto simp: seek_down.simps [of f p xs i j])
  next
    case False
    with d "1.prems" show ?thesis by (auto simp: seek_down.simps [of f p xs i j])
  qed
qed

lemma seek_up_spec:
  "0 \<le> i \<Longrightarrow> i \<le> j \<Longrightarrow> j < int (length xs) \<Longrightarrow>
   \<exists>i'. seek_up f p xs i j = Some i' \<and> i \<le> i' \<and> i' \<le> j \<and>
     (\<forall>k. i \<le> k \<and> k < i' \<longrightarrow> 0 \<le> f p (xs ! nat k)) \<and> (i' < j \<longrightarrow> f p (xs ! nat i') < 0)"
proof (induction f p xs i j rule: seek_up.induct)
  case (1 f p xs i j)
  have d: "rd xs i = Some (xs ! nat i)" using "1.prems" by (simp add: rd_def)
  show ?case
  proof (cases "0 \<le> f p (xs ! nat i) \<and> i < j")
    case True
    then obtain i' where i': "seek_up f p xs (i + 1) j = Some i'" "i + 1 \<le> i'" "i' \<le> j"
      "\<forall>k. i + 1 \<le> k \<and> k < i' \<longrightarrow> 0 \<le> f p (xs ! nat k)" "i' < j \<longrightarrow> f p (xs ! nat i') < 0"
      using "1.IH" [OF d] "1.prems" by auto
    have "0 \<le> f p (xs ! nat k)" if "i \<le> k" "k < i'" for k
      using i'(4) True that by (cases "k = i") auto
    with True d i' show ?thesis by (auto simp: seek_up.simps [of f p xs i j])
  next
    case False
    with d "1.prems" show ?thesis by (auto simp: seek_up.simps [of f p xs i j])
  qed
qed

text \<open>
  The loop splits the elements from \<open>i\<close> to \<open>j\<close>: those before its final \<open>i\<close> are not above the pivot,
  those behind its final \<open>j\<close> not below, and the two meet.
\<close>

lemma part_loop_spec:
  assumes "0 \<le> i" "i \<le> j + 1" "j < int (length xs)" "\<forall>x \<in> set xs. st x = x"
  shows "\<exists>ys i' j'. part_loop st f p xs i j = Some (ys, i', j') \<and> perm_on i j xs ys \<and> i \<le> i' \<and> j' \<le> j \<and>
     i' \<le> j' + 1 \<and> j' \<le> i' \<and>
     (\<forall>k. i \<le> k \<and> k < i' \<longrightarrow> 0 \<le> f p (ys ! nat k)) \<and> (\<forall>k. j' < k \<and> k \<le> j \<longrightarrow> f p (ys ! nat k) \<le> 0)"
  using assms
proof (induction st f p xs i j rule: part_loop.induct)
  case (1 st f p xs i j)
  show ?case
  proof (cases "i < j")
    case False
    with "1.prems" show ?thesis by (auto simp: part_loop.simps [of st f p xs i j])
  next
    case True
    obtain j1 where d: "seek_down f p xs i j = Some j1" "i \<le> j1" "j1 \<le> j"
        "\<forall>k. j1 < k \<and> k \<le> j \<longrightarrow> f p (xs ! nat k) \<le> 0" "i < j1 \<longrightarrow> 0 < f p (xs ! nat j1)"
      using seek_down_spec [of i j xs f p] "1.prems" True by auto
    obtain i1 where u: "seek_up f p xs i j1 = Some i1" "i \<le> i1" "i1 \<le> j1"
        "\<forall>k. i \<le> k \<and> k < i1 \<longrightarrow> 0 \<le> f p (xs ! nat k)" "i1 < j1 \<longrightarrow> f p (xs ! nat i1) < 0"
      using seek_up_spec [of i j1 xs f p] "1.prems" d by auto
    show ?thesis
    proof (cases "i1 < j1")
      case False
      with True d u "1.prems" show ?thesis by (auto simp: part_loop.simps [of st f p xs i j])
    next
      case less: True
      let ?zs = "xs[nat i1 := xs ! nat j1, nat j1 := xs ! nat i1]"
      have s: "swap_at st xs i1 j1 = Some ?zs"
        using "1.prems" d u less by (intro swap_at_eq) auto
      have pz: "perm_on i j xs ?zs" using d u less "1.prems" by (intro perm_on_swap) auto
      obtain ys i' j' where r: "part_loop st f p ?zs (i1 + 1) (j1 - 1) = Some (ys, i', j')"
          "perm_on (i1 + 1) (j1 - 1) ?zs ys" "i1 + 1 \<le> i'" "j' \<le> j1 - 1" "i' \<le> j' + 1" "j' \<le> i'"
          "\<forall>k. i1 + 1 \<le> k \<and> k < i' \<longrightarrow> 0 \<le> f p (ys ! nat k)" "\<forall>k. j' < k \<and> k \<le> j1 - 1 \<longrightarrow> f p (ys ! nat k) \<le> 0"
        using "1.IH" [OF True d(1) u(1) less s] "1.prems" d u less perm_on_set [OF pz] by auto
      have out: "ys ! nat k = ?zs ! nat k" if "0 \<le> k" "k < int (length xs)" "k < i1 + 1 \<or> j1 - 1 < k" for k
        using perm_on_outside [OF r(2)] that by simp
      have lo: "0 \<le> f p (ys ! nat k)" if "i \<le> k" "k < i'" for k
      proof (cases "i1 + 1 \<le> k")
        case False
        with that out [of k] "1.prems" d u less show ?thesis by (auto simp: nth_list_update nat_eq_iff)
      qed (use that r in auto)
      have hi: "f p (ys ! nat k) \<le> 0" if "j' < k" "k \<le> j" for k
      proof (cases "k \<le> j1 - 1")
        case False
        with that out [of k] "1.prems" d u less show ?thesis by (auto simp: nth_list_update nat_eq_iff)
      qed (use that r in auto)
      have "perm_on i j xs ys" using pz perm_on_mono [OF r(2), of i j] d u by (auto intro: perm_on_trans)
      with True less d u s r lo hi show ?thesis by (auto simp: part_loop.simps [of st f p xs i j])
    qed
  qed
qed

section \<open>Sorting with a comparison\<close>

text \<open>
  The iterative variants keep a list of disjoint segments; two elements that no segment of the list
  holds together are in order.
\<close>

definition segs_ok :: "int \<Rightarrow> int \<Rightarrow> (int \<times> int) list \<Rightarrow> bool" where
  "segs_ok low hi w \<longleftrightarrow> (\<forall>(l, h) \<in> set w. low \<le> l \<and> l < h \<and> h \<le> hi) \<and>
     sorted_wrt (\<lambda>(l, h) (l', h'). h < l' \<or> h' < l) w"

definition work_inv :: "('a \<Rightarrow> 'a \<Rightarrow> int) \<Rightarrow> int \<Rightarrow> int \<Rightarrow> 'a list \<Rightarrow> (int \<times> int) list \<Rightarrow> bool" where
  "work_inv f low hi xs w \<longleftrightarrow> segs_ok low hi w \<and>
     (\<forall>a b. low \<le> a \<and> a < b \<and> b \<le> hi \<and> \<not> (\<exists>(l, h) \<in> set w. l \<le> a \<and> b \<le> h) \<longrightarrow> f (xs ! nat a) (xs ! nat b) \<le> 0)"

text \<open>The contract of a comparison callback: the sign tells the order, which is total and transitive.\<close>

locale comparator =
  fixes f :: "'a \<Rightarrow> 'a \<Rightarrow> int"
  assumes cmp_swap: "f a b \<le> 0 \<longleftrightarrow> 0 \<le> f b a"
    and cmp_trans: "f a b \<le> 0 \<Longrightarrow> f b c \<le> 0 \<Longrightarrow> f a c \<le> 0"
begin

lemma cmp_refl: "f a a \<le> 0"
  using cmp_swap [of a a] by linarith

lemma part_ext_spec:
  assumes b: "0 \<le> low" "low < hi" "hi < int (length xs)" and st: "\<forall>x \<in> set xs. st x = x"
  shows "\<exists>ys j. part_ext st f xs low hi = Some (ys, j) \<and> low < j \<and> j \<le> hi \<and> perm_on low hi xs ys \<and>
     (\<forall>a b. low \<le> a \<and> a < j \<and> j \<le> b \<and> b \<le> hi \<longrightarrow> f (ys ! nat a) (ys ! nat b) \<le> 0)"
proof -
  let ?p = "xs ! nat low"
  obtain ys i j where r: "part_loop st f ?p xs (low + 1) hi = Some (ys, i, j)" "perm_on (low + 1) hi xs ys"
      "low + 1 \<le> i" "j \<le> hi" "i \<le> j + 1" "j \<le> i"
      "\<forall>k. low + 1 \<le> k \<and> k < i \<longrightarrow> 0 \<le> f ?p (ys ! nat k)" "\<forall>k. j < k \<and> k \<le> hi \<longrightarrow> f ?p (ys ! nat k) \<le> 0"
    using part_loop_spec [of "low + 1" hi xs st f ?p] b st by auto
  have j: "low < j" using part_loop_bound [OF r(1)] b by auto
  have len: "length ys = length xs" and py: "perm_on low hi xs ys"
    using r(2) perm_on_mono [OF r(2), of low hi] by (auto simp: perm_on_length)
  have plow: "ys ! nat low = ?p" using perm_on_outside [OF r(2), of low] b by auto
  have rds: "rd xs low = Some ?p" "rd ys j = Some (ys ! nat j)" using b j r(4) len by (auto simp: rd_def)
  let ?zs = "if f (ys ! nat j) ?p < 0 then ys[nat low := ys ! nat j, nat j := ys ! nat low] else ys"
  have e: "part_ext st f xs low hi = Some (?zs, j)"
    using rds r(1) swap_at_eq [of low ys j st] b j r(4) len st plow
    by (auto simp: part_ext_def)
  have pz: "perm_on low hi xs ?zs"
    using perm_on_swap [of low low hi j ys] py b j r(4) len perm_on_trans by auto
  have left: "f (?zs ! nat a) ?p \<le> 0" if "low \<le> a" "a < j" for a
  proof (cases "a = low")
    case True
    then show ?thesis using j b len plow cmp_refl by (auto simp: nth_list_update nat_eq_iff)
  next
    case False
    then show ?thesis using that r j b len cmp_swap [of "ys ! nat a" ?p]
      by (auto simp: nth_list_update nat_eq_iff)
  qed
  have right: "f ?p (?zs ! nat c) \<le> 0" if "j \<le> c" "c \<le> hi" for c
    using that r j b len plow cmp_swap [of "?p" "ys ! nat j"] cmp_refl
    by (cases "c = j") (auto simp: nth_list_update nat_eq_iff not_less)
  show ?thesis using e j r(4) pz left right cmp_trans by blast
qed

text \<open>Sorting both sides of a split sorts the whole.\<close>

lemma sorted_on_join:
  assumes "sorted_on f xs l (j - 1)" "sorted_on f xs j h"
    and "\<And>a b. l \<le> a \<Longrightarrow> a < j \<Longrightarrow> j \<le> b \<Longrightarrow> b \<le> h \<Longrightarrow> f (xs ! nat a) (xs ! nat b) \<le> 0"
  shows "sorted_on f xs l h"
  unfolding sorted_on_def
proof (intro allI impI)
  fix a b assume "l \<le> a \<and> a < b \<and> b \<le> h"
  with assms show "f (xs ! nat a) (xs ! nat b) \<le> 0"
    unfolding sorted_on_def by (cases "b < j"; cases "a < j") auto
qed

lemma split_perm_left:
  assumes p: "perm_on l (j - 1) xs ys" and b: "0 \<le> l" "j \<le> h" "h < int (length xs)"
    and c: "\<And>a b. l \<le> a \<Longrightarrow> a < j \<Longrightarrow> j \<le> b \<Longrightarrow> b \<le> h \<Longrightarrow> f (xs ! nat a) (xs ! nat b) \<le> 0"
    and ab: "l \<le> a" "a < j" "j \<le> b" "b \<le> h"
  shows "f (ys ! nat a) (ys ! nat b) \<le> 0"
proof -
  have "ys ! nat b = xs ! nat b" using perm_on_outside [OF p, of b] b ab by auto
  moreover have "f (ys ! nat a) (xs ! nat b) \<le> 0"
    by (rule perm_on_all [OF p, where P = "\<lambda>x. f x (xs ! nat b) \<le> 0"]) (use b c ab in auto)
  ultimately show ?thesis by simp
qed

lemma split_perm_right:
  assumes p: "perm_on j h xs ys" and b: "0 \<le> l" "l < j" "h < int (length xs)"
    and c: "\<And>a b. l \<le> a \<Longrightarrow> a < j \<Longrightarrow> j \<le> b \<Longrightarrow> b \<le> h \<Longrightarrow> f (xs ! nat a) (xs ! nat b) \<le> 0"
    and ab: "l \<le> a" "a < j" "j \<le> b" "b \<le> h"
  shows "f (ys ! nat a) (ys ! nat b) \<le> 0"
proof -
  have "ys ! nat a = xs ! nat a" using perm_on_outside [OF p, of a] b ab by auto
  moreover have "f (xs ! nat a) (ys ! nat b) \<le> 0"
    by (rule perm_on_all [OF p, where P = "\<lambda>x. f (xs ! nat a) x \<le> 0"]) (use b c ab in auto)
  ultimately show ?thesis by simp
qed

lemma qsort_ext_sorts:
  assumes "0 \<le> low" "low < hi" "hi < int (length xs)" "\<forall>x \<in> set xs. st x = x"
  shows "\<exists>ys. qsort_ext st f xs low hi = Some ys \<and> perm_on low hi xs ys \<and> sorted_on f ys low hi"
  using assms
proof (induction "nat (hi - low)" arbitrary: xs low hi rule: less_induct)
  case less
  note b = less.prems
  obtain ys j where p: "part_ext st f xs low hi = Some (ys, j)" "low < j" "j \<le> hi" "perm_on low hi xs ys"
      and c: "\<And>a b. low \<le> a \<Longrightarrow> a < j \<Longrightarrow> j \<le> b \<Longrightarrow> b \<le> hi \<Longrightarrow> f (ys ! nat a) (ys ! nat b) \<le> 0"
    using part_ext_spec [OF b] by blast
  have len: "length ys = length xs" using p(4) by (rule perm_on_length)
  obtain zs where z: "(if low < j - 1 then qsort_ext st f ys low (j - 1) else Some ys) = Some zs"
      "perm_on low (j - 1) ys zs" "sorted_on f zs low (j - 1)"
  proof (cases "low < j - 1")
    case True
    with less.hyps [of "j - 1" low ys] that b p len perm_on_set [OF p(4)] show thesis by auto
  next
    case False
    with that [of ys] p show thesis by (auto simp: sorted_on_def)
  qed
  have cz: "f (zs ! nat a) (zs ! nat b) \<le> 0" if "low \<le> a" "a < j" "j \<le> b" "b \<le> hi" for a b
    by (rule split_perm_left [OF z(2), of hi]) (use b p len c that in auto)
  have st: "\<forall>x \<in> set zs. st x = x" using b(4) perm_on_set [OF z(2)] perm_on_set [OF p(4)] by simp
  have lz: "length zs = length xs" using len perm_on_length [OF z(2)] by simp
  obtain ws where w: "(if j < hi then qsort_ext st f zs j hi else Some zs) = Some ws"
      "perm_on j hi zs ws" "sorted_on f ws j hi"
  proof (cases "j < hi")
    case True
    with less.hyps [of hi j zs] that b p lz st show thesis by auto
  next
    case False
    with that [of zs] p show thesis by (auto simp: sorted_on_def)
  qed
  have cw: "f (ws ! nat a) (ws ! nat b) \<le> 0" if "low \<le> a" "a < j" "j \<le> b" "b \<le> hi" for a b
    by (rule split_perm_right [OF w(2), of low]) (use b p lz cz that in auto)
  have "sorted_on f ws low (j - 1)"
    unfolding sorted_on_def
  proof (intro allI impI)
    fix a b' assume ab: "low \<le> a \<and> a < b' \<and> b' \<le> j - 1"
    with perm_on_outside [OF w(2), of a] perm_on_outside [OF w(2), of b'] b p lz z(3)
    show "f (ws ! nat a) (ws ! nat b') \<le> 0" by (auto simp: sorted_on_def)
  qed
  then have "sorted_on f ws low hi" using w(3) cw by (rule sorted_on_join)
  moreover have "perm_on low hi xs ws"
    using p(4) perm_on_mono [OF z(2), of low hi] perm_on_mono [OF w(2), of low hi] p(2,3)
    by (auto intro: perm_on_trans)
  moreover have "qsort_ext st f xs low hi = Some ws"
    using p(1) z(1) w(1) by (simp add: qsort_ext.simps [of st f xs low hi])
  ultimately show ?case by blast
qed

lemma work_step:
  assumes inv: "work_inv f low hi xs ((l, h) # w)" and b: "0 \<le> low" "hi < int (length xs)"
    and p: "l < j" "j \<le> h" "perm_on l h xs ys"
    and c: "\<And>a b. l \<le> a \<Longrightarrow> a < j \<Longrightarrow> j \<le> b \<Longrightarrow> b \<le> h \<Longrightarrow> f (ys ! nat a) (ys ! nat b) \<le> 0"
  shows "work_inv f low hi ys (w @ (if l < j - 1 then [(l, j - 1)] else []) @ (if j < h then [(j, h)] else []))"
    (is "work_inv f low hi ys ?w")
proof -
  have seg: "low \<le> l" "l < h" "h \<le> hi" and dis: "\<And>l' h'. (l', h') \<in> set w \<Longrightarrow> h < l' \<or> h' < l"
    and ok: "segs_ok low hi ((l, h) # w)"
    using inv by (auto simp: work_inv_def segs_ok_def)
  have "segs_ok low hi ?w"
    using ok p(1,2) dis by (fastforce simp: segs_ok_def sorted_wrt_append split: if_splits)
  moreover have "f (ys ! nat x) (ys ! nat y) \<le> 0"
    if xy: "low \<le> x" "x < y" "y \<le> hi" and no: "\<not> (\<exists>(l, h) \<in> set ?w. l \<le> x \<and> y \<le> h)" for x y
  proof -
    have old: "f (xs ! nat a) (xs ! nat b) \<le> 0"
      if "low \<le> a" "a < b" "b \<le> hi" "\<not> (l \<le> a \<and> b \<le> h)" "\<And>l' h'. (l', h') \<in> set w \<Longrightarrow> \<not> (l' \<le> a \<and> b \<le> h')" for a b
    proof -
      have "\<not> (\<exists>(l, h) \<in> set ((l, h) # w). l \<le> a \<and> b \<le> h)" using that(4,5) by auto
      with inv that(1-3) show ?thesis unfolding work_inv_def by blast
    qed
    have out: "ys ! nat k = xs ! nat k" if "low \<le> k" "k \<le> hi" "k < l \<or> h < k" for k
      using perm_on_outside [OF p(3), of k] that b by auto
    consider (both) "l \<le> x" "y \<le> h" | (left) "l \<le> x" "x \<le> h" "h < y" | (right) "x < l" "l \<le> y" "y \<le> h"
      | (none) "x < l \<or> h < x" "y < l \<or> h < y" using xy by linarith
    then show ?thesis
    proof cases
      case both
      have "x < j"
      proof (rule ccontr)
        assume "\<not> x < j"
        then have "(j, h) \<in> set ?w" using both xy by auto
        with no have "\<not> (case (j, h) of (l, h) \<Rightarrow> l \<le> x \<and> y \<le> h)" by blast
        with both \<open>\<not> x < j\<close> show False by simp
      qed
      moreover have "j \<le> y"
      proof (rule ccontr)
        assume "\<not> j \<le> y"
        then have "(l, j - 1) \<in> set ?w" using both xy by auto
        with no have "\<not> (case (l, j - 1) of (l, h) \<Rightarrow> l \<le> x \<and> y \<le> h)" by blast
        with both \<open>\<not> j \<le> y\<close> show False by simp
      qed
      ultimately show ?thesis using c both by auto
    next
      case left
      have "f (xs ! nat k) (xs ! nat y) \<le> 0" if "l \<le> k" "k \<le> h" for k
        by (rule old) (use that left xy seg dis in fastforce)+
      then have "f (ys ! nat x) (xs ! nat y) \<le> 0"
        using perm_on_all [OF p(3), where P = "\<lambda>v. f v (xs ! nat y) \<le> 0" and k = x] b seg left by auto
      with out [of y] left xy seg show ?thesis by auto
    next
      case right
      have "f (xs ! nat x) (xs ! nat k) \<le> 0" if "l \<le> k" "k \<le> h" for k
        by (rule old) (use that right xy seg dis in fastforce)+
      then have "f (xs ! nat x) (ys ! nat y) \<le> 0"
        using perm_on_all [OF p(3), where P = "\<lambda>v. f (xs ! nat x) v \<le> 0" and k = y] b seg right by auto
      with out [of x] right xy seg show ?thesis by auto
    next
      case none
      then have "f (xs ! nat x) (xs ! nat y) \<le> 0" using xy no by (intro old) auto
      with out [of x] out [of y] none xy show ?thesis by auto
    qed
  qed
  ultimately show ?thesis unfolding work_inv_def by blast
qed

lemma fifo_ext_sorts:
  assumes "work_inv f low hi xs w" "0 \<le> low" "hi < int (length xs)" "\<forall>x \<in> set xs. st x = x"
  shows "\<exists>ys. fifo_ext st f xs w = Some ys \<and> perm_on low hi xs ys \<and> sorted_on f ys low hi"
  using assms
proof (induction "\<Sum>(l, h) \<leftarrow> w. nat (2 * (h - l) + 1)" arbitrary: xs w rule: less_induct)
  case less
  show ?case
  proof (cases w)
    case Nil
    with less.prems show ?thesis by (auto simp: work_inv_def sorted_on_def)
  next
    case (Cons s w')
    obtain l h where w: "w = (l, h) # w'" using Cons by (cases s) auto
    have lh: "low \<le> l" "l < h" "h \<le> hi" using less.prems(1) by (auto simp: w work_inv_def segs_ok_def)
    obtain ys j where p: "part_ext st f xs l h = Some (ys, j)" "l < j" "j \<le> h" "perm_on l h xs ys"
        and c: "\<And>a b. l \<le> a \<Longrightarrow> a < j \<Longrightarrow> j \<le> b \<Longrightarrow> b \<le> h \<Longrightarrow> f (ys ! nat a) (ys ! nat b) \<le> 0"
      using part_ext_spec [of l h xs st] lh less.prems by auto
    let ?w = "w' @ (if l < j - 1 then [(l, j - 1)] else []) @ (if j < h then [(j, h)] else [])"
    have inv: "work_inv f low hi ys ?w"
      by (rule work_step [OF less.prems(1) [unfolded w] less.prems(2,3) p(2-4)]) (use c in auto)
    have "\<exists>zs. fifo_ext st f ys ?w = Some zs \<and> perm_on low hi ys zs \<and> sorted_on f zs low hi"
      by (rule less.hyps [OF _ inv])
        (use less.prems p lh perm_on_length [OF p(4)] perm_on_set [OF p(4)] in \<open>auto simp: w\<close>)
    with p(1) perm_on_mono [OF p(4), of low hi] lh show ?thesis
      by (auto simp: w fifo_ext.simps(2) intro: perm_on_trans)
  qed
qed

lemma nonrec_ext_sorts:
  assumes "0 \<le> low" "hi < int (length xs)" "\<forall>x \<in> set xs. st x = x"
  shows "\<exists>ys. nonrec_ext st f xs low hi = Some ys \<and> perm_on low hi xs ys \<and> sorted_on f ys low hi"
proof (cases "low < hi")
  case True
  then have "work_inv f low hi xs [(low, hi)]" by (auto simp: work_inv_def segs_ok_def)
  from fifo_ext_sorts [OF this assms] True show ?thesis by (simp add: nonrec_ext_def)
next
  case False
  then show ?thesis by (auto simp: nonrec_ext_def sorted_on_def)
qed

end

lemma sorted_on_whole:
  "sorted_on f xs 0 (int (length xs) - 1) \<longleftrightarrow> sorted_wrt (\<lambda>a b. f a b \<le> 0) xs"
proof
  assume s: "sorted_on f xs 0 (int (length xs) - 1)"
  show "sorted_wrt (\<lambda>a b. f a b \<le> 0) xs"
    unfolding sorted_wrt_iff_nth_less
  proof (intro allI impI)
    fix i j assume "i < j" "j < length xs"
    with s [unfolded sorted_on_def, rule_format, of "int i" "int j"] show "f (xs ! i) (xs ! j) \<le> 0" by simp
  qed
qed (auto simp: sorted_on_def sorted_wrt_iff_nth_less)

section \<open>The array-based iteration\<close>

text \<open>The entries from \<open>jump\<close> to \<open>tot\<close> are the list of segments, everything behind is still 0.\<close>

definition seg_rep :: "nat \<Rightarrow> int list \<Rightarrow> int list \<Rightarrow> int \<Rightarrow> int \<Rightarrow> (int \<times> int) list \<Rightarrow> bool" where
  "seg_rep n al ah jump tot w \<longleftrightarrow> length al = n \<and> length ah = n \<and> 0 \<le> jump \<and> int (length w) = tot + 1 - jump \<and>
     (\<forall>k < length w. al ! (nat jump + k) = fst (w ! k) \<and> ah ! (nat jump + k) = snd (w ! k)) \<and>
     (\<forall>k. nat (tot + 1) \<le> k \<and> k < n \<longrightarrow> ah ! k = 0)"

lemma seg_rep_end: "seg_rep n al ah jump tot [] \<Longrightarrow> jump < int n \<Longrightarrow> rd ah jump = Some 0"
  by (auto simp: seg_rep_def rd_def)

lemma seg_rep_pop:
  assumes "seg_rep n al ah jump tot ((l, h) # w)"
  shows "seg_rep n al ah (jump + 1) tot w"
    and "tot < int n \<Longrightarrow> rd al jump = Some l \<and> rd ah jump = Some h"
proof -
  have a: "al ! (nat jump + k) = fst (((l, h) # w) ! k) \<and> ah ! (nat jump + k) = snd (((l, h) # w) ! k)"
    if "k < Suc (length w)" for k using assms that by (auto simp: seg_rep_def)
  show "seg_rep n al ah (jump + 1) tot w"
    using assms a [of "Suc _"] by (auto simp: seg_rep_def nat_add_distrib)
  show "tot < int n \<Longrightarrow> rd al jump = Some l \<and> rd ah jump = Some h"
    using assms a [of 0] by (auto simp: seg_rep_def rd_def)
qed

lemma seg_rep_push:
  assumes r: "seg_rep n al ah jump tot w" and b: "c \<longrightarrow> tot + 1 < int n"
  shows "\<exists>al' ah'. push_seg c l h (al, ah, tot) = Some (al', ah', if c then tot + 1 else tot) \<and>
           seg_rep n al' ah' jump (if c then tot + 1 else tot) (w @ (if c then [(l, h)] else []))"
proof (cases c)
  case True
  have t: "0 \<le> tot + 1" "tot + 1 < int n" "nat (tot + 1) = nat jump + length w"
    using r b True by (auto simp: seg_rep_def)
  let ?al = "al[nat (tot + 1) := l]" and ?ah = "ah[nat (tot + 1) := h]"
  have "push_seg c l h (al, ah, tot) = Some (?al, ?ah, tot + 1)"
    using r t True by (simp add: push_seg_def wr_def seg_rep_def)
  moreover have "seg_rep n ?al ?ah jump (tot + 1) (w @ [(l, h)])"
    using r t by (auto simp: seg_rep_def nth_append nth_list_update less_Suc_eq)
  ultimately show ?thesis using True by simp
qed (use r in \<open>simp add: push_seg_def\<close>)

text \<open>The segments done and the elements of the waiting ones bound the entries ever written.\<close>

lemma improve_loop_fifo:
  assumes "seg_rep n al ah jump tot w" "\<forall>(l, h) \<in> set w. 0 \<le> l \<and> l < h" "jump + (\<Sum>(l, h) \<leftarrow> w. h - l) < int n"
  shows "improve_loop st f xs al ah tot jump = fifo_ext st f xs w"
  using assms
proof (induction "n - nat jump" arbitrary: xs al ah tot jump w rule: less_induct)
  case less
  note p = less.prems
  have many: "int (length v) \<le> (\<Sum>(l, h) \<leftarrow> v. h - l)" if "\<forall>(l, h) \<in> set v. 0 \<le> l \<and> (l::int) < h" for v
    using that by (induction v) auto
  show ?case
  proof (cases w)
    case Nil
    then show ?thesis using p seg_rep_end by (auto simp: improve_loop.simps)
  next
    case (Cons s w')
    obtain l h where w: "w = (l, h) # w'" using Cons by (cases s) auto
    have lh: "0 \<le> l" "l < h" using p(2) w by auto
    have tot: "tot + 1 = jump + int (length w)" "0 \<le> jump" using p(1) by (auto simp: seg_rep_def)
    have jump: "jump < int n" using many [OF p(2)] p(3) w by simp
    have rds: "rd al jump = Some l" "rd ah jump = Some h"
      using seg_rep_pop(2) [OF p(1) [unfolded w]] many [OF p(2)] p(3) tot by auto
    note pop = seg_rep_pop(1) [OF p(1) [unfolded w]]
    show ?thesis
    proof (cases "part_ext st f xs l h")
      case None
      then show ?thesis using rds lh by (simp add: improve_loop.simps w fifo_ext.simps(2))
    next
      case (Some r)
      obtain ys j where r: "r = (ys, j)" by (cases r)
      have j: "l < j" "j \<le> h" using part_ext_bound [of st f xs l h ys j] Some r lh by auto
      have room: "jump + 1 + int (length w') + (h - l) \<le> int n"
        using many [of w'] p(2,3) w by auto
      let ?c = "l < j - 1" and ?d = "j < h"
      let ?t = "if ?c then tot + 1 else tot"
      obtain al1 ah1 where 1: "push_seg ?c l (j - 1) (al, ah, tot) = Some (al1, ah1, ?t)"
          "seg_rep n al1 ah1 (jump + 1) ?t (w' @ (if ?c then [(l, j - 1)] else []))"
        using seg_rep_push [OF pop, of ?c l "j - 1"] tot w room j by auto
      have "?d \<longrightarrow> ?t + 1 < int n" using tot w room j by auto
      from seg_rep_push [OF 1(2) this, of j h] obtain al2 ah2 t2 where 2: "push_seg ?d j h (al1, ah1, ?t) = Some (al2, ah2, t2)"
          "seg_rep n al2 ah2 (jump + 1) t2 ((w' @ (if ?c then [(l, j - 1)] else [])) @ (if ?d then [(j, h)] else []))"
        by blast
      have "improve_loop st f ys al2 ah2 t2 (jump + 1)
          = fifo_ext st f ys ((w' @ (if ?c then [(l, j - 1)] else [])) @ (if ?d then [(j, h)] else []))"
        by (rule less.hyps [OF _ 2(2)]) (use p w j lh jump tot in \<open>auto simp: nat_add_distrib\<close>)
      then show ?thesis
        using rds lh Some r 1(1) 2(1) by (simp add: improve_loop.simps [of st f xs] w fifo_ext.simps(2))
    qed
  qed
qed

lemma improve_ext_eq:
  assumes "0 \<le> low" and "hi - low + 1 < 2 ^ 30"
  shows "improve_ext st f xs low hi = nonrec_ext st f xs low hi"
proof (cases "low < hi")
  case True
  let ?n = "nat (hi - low + 1)"
  have n: "nat ((hi - low + 1) * 4 mod 2 ^ 32 div 4) = ?n" using True assms(2) by (simp add: mod_pos_pos_trivial)
  have "seg_rep ?n ((replicate ?n 0)[0 := low]) ((replicate ?n 0)[0 := hi]) 0 0 [(low, hi)]"
    using True by (auto simp: seg_rep_def)
  from improve_loop_fifo [OF this] True assms show ?thesis
    unfolding improve_ext_def n by (simp add: nonrec_ext_def wr_def Let_def)
qed (simp add: improve_ext_def nonrec_ext_def)

text \<open>With \<open>2 ^ 30\<close> elements the arrays have no entry.\<close>

lemma improve_ext_wraps: "hi - low + 1 = 2 ^ 30 \<Longrightarrow> improve_ext st f xs low hi = None"
  by (simp add: improve_ext_def wr_def)

section \<open>Arrays of \<^verbatim>\<open>long\<close>\<close>

interpretation longs: comparator cmp_long
  by unfold_locales (auto simp: cmp_long_def split: if_splits)

lemma cmp_long_le: "cmp_long a b \<le> 0 \<longleftrightarrow> a \<le> b" and cmp_long_ge: "0 \<le> cmp_long a b \<longleftrightarrow> b \<le> a"
  by (auto simp: cmp_long_def)

definition fits_int :: "int \<Rightarrow> bool" where
  "fits_int v \<longleftrightarrow> - (2 ^ 31) \<le> v \<and> v < 2 ^ 31"

lemma tmp_int_fits: "fits_int v \<Longrightarrow> tmp_int v = v"
  by (simp add: tmp_int_def fits_int_def signed_take_bit_int_eq_self)

lemma sorted_long: "sorted_on cmp_long xs 0 (int (length xs) - 1) \<longleftrightarrow> sorted xs"
  by (simp add: sorted_on_whole cmp_long_le)

text \<open>The inner loops of the two programs stop at the same places.\<close>

lemma seek_down_qs_eq:
  "i \<le> j \<Longrightarrow> 0 \<le> i \<Longrightarrow> j < int (length xs) \<Longrightarrow> seek_down_qs p xs i j = seek_down cmp_long p xs i j"
proof (induction p xs i j rule: seek_down_qs.induct)
  case (1 p xs i j)
  have d: "rd xs j = Some (xs ! nat j)" using "1.prems" by (simp add: rd_def)
  show ?case
    using "1.IH" [OF _ d] "1.prems" d
    by (auto simp: seek_down_qs.simps [of p xs i j] seek_down.simps [of cmp_long p xs i j] cmp_long_le not_less)
qed

lemma seek_up_qs_eq:
  "i \<le> j \<Longrightarrow> 0 \<le> i \<Longrightarrow> j < int (length xs) \<Longrightarrow> seek_up_qs p xs i j = seek_up cmp_long p xs i j"
proof (induction p xs i j rule: seek_up_qs.induct)
  case (1 p xs i j)
  have d: "rd xs i = Some (xs ! nat i)" using "1.prems" by (simp add: rd_def)
  show ?case
    using "1.IH" [OF _ d] "1.prems" d
    by (auto simp: seek_up_qs.simps [of p xs i j] seek_up.simps [of cmp_long p xs i j] cmp_long_ge not_less)
qed

lemma swap_at_length: "swap_at st xs i j = Some ys \<Longrightarrow> length ys = length xs"
  by (auto simp: swap_at_def rd_def wr_def bind_eq_Some_conv split: if_splits)

lemma part_loop_qs_eq:
  "0 \<le> i \<Longrightarrow> j < int (length xs) \<Longrightarrow> part_loop_qs p xs i j = part_loop tmp_int cmp_long p xs i j"
proof (induction p xs i j rule: part_loop_qs.induct)
  case (1 p xs i j)
  show ?case
  proof (cases "i < j")
    case True
    then obtain j1 where d: "seek_down_qs p xs i j = Some j1" "seek_down cmp_long p xs i j = Some j1" "i \<le> j1" "j1 \<le> j"
      using seek_down_qs_eq [of i j xs p] seek_down_spec [of i j xs cmp_long p] "1.prems" by auto
    then obtain i1 where u: "seek_up_qs p xs i j1 = Some i1" "seek_up cmp_long p xs i j1 = Some i1" "i \<le> i1"
      using seek_up_qs_eq [of i j1 xs p] seek_up_spec [of i j1 xs cmp_long p] "1.prems" by auto
    have "part_loop_qs p zs (i1 + 1) (j1 - 1) = part_loop tmp_int cmp_long p zs (i1 + 1) (j1 - 1)"
      if "i1 < j1" "swap_at tmp_int xs i1 j1 = Some zs" for zs
      using "1.IH" [OF True d(1) u(1) that] "1.prems" d u swap_at_length [OF that(2)] by simp
    then show ?thesis
      using d u True
      by (auto simp: part_loop_qs.simps [of p xs i j] part_loop.simps [of tmp_int cmp_long p xs i j] split: option.splits)
  next
    case False
    then show ?thesis by (simp add: part_loop_qs.simps [of p xs i j] part_loop.simps [of tmp_int cmp_long p xs i j])
  qed
qed

lemma partition_qs_spec:
  assumes b: "0 \<le> low" "low < hi" "hi < int (length xs)" and st: "\<forall>x \<in> set xs. fits_int x"
  shows "\<exists>ys j. partition_qs xs low hi = Some (ys, j) \<and> low \<le> j \<and> j \<le> hi \<and> perm_on low hi xs ys \<and>
     (\<forall>a. low \<le> a \<and> a < j \<longrightarrow> ys ! nat a \<le> ys ! nat j) \<and> (\<forall>a. j < a \<and> a \<le> hi \<longrightarrow> ys ! nat j \<le> ys ! nat a)"
proof -
  let ?p = "xs ! nat low"
  obtain ys i j where r: "part_loop tmp_int cmp_long ?p xs (low + 1) hi = Some (ys, i, j)" "perm_on (low + 1) hi xs ys"
      "low + 1 \<le> i" "j \<le> hi" "i \<le> j + 1" "j \<le> i"
      "\<And>k. low + 1 \<le> k \<Longrightarrow> k < i \<Longrightarrow> ys ! nat k \<le> ?p" "\<And>k. j < k \<Longrightarrow> k \<le> hi \<Longrightarrow> ?p \<le> ys ! nat k"
    using part_loop_spec [of "low + 1" hi xs tmp_int cmp_long ?p] b st tmp_int_fits
    by (auto simp: cmp_long_le cmp_long_ge)
  have j: "low < j" using part_loop_bound [OF r(1)] b by auto
  have len: "length ys = length xs" and py: "perm_on low hi xs ys"
    using r(2) perm_on_mono [OF r(2), of low hi] by (auto simp: perm_on_length)
  have plow: "ys ! nat low = ?p" using perm_on_outside [OF r(2), of low] b by auto
  have rdx: "rd xs low = Some ?p" using b by (auto simp: rd_def)
  have rdy: "rd ys k = Some (ys ! nat k)" if "low \<le> k" "k \<le> hi" for k using b len that by (auto simp: rd_def)
  have sw: "swap_at tmp_int ys low k = Some (ys[nat low := ys ! nat k, nat k := ys ! nat low])"
      "perm_on low hi xs (ys[nat low := ys ! nat k, nat k := ys ! nat low])" if "low \<le> k" "k \<le> hi" for k
    using swap_at_eq [of low ys k tmp_int] perm_on_swap [of low low hi k ys] perm_on_trans [OF py] st plow tmp_int_fits
      b len that by auto
  have pt: "partition_qs xs low hi = (if i = j then
       if ys ! nat j < ?p then Some (ys[nat low := ys ! nat j, nat j := ys ! nat low], j)
       else if ?p < ys ! nat j then
         if ys ! nat (j - 1) < ?p then Some (ys[nat low := ys ! nat (j - 1), nat (j - 1) := ys ! nat low], j - 1)
         else Some (ys, j - 1)
       else Some (ys, j)
     else Some (ys[nat low := ys ! nat j, nat j := ys ! nat low], j))"
    using rdx rdy [of low] rdy [of j] rdy [of "j - 1"] sw(1) [of j] sw(1) [of "j - 1"] r(1,4,5,6) j b plow
      part_loop_qs_eq [of "low + 1" hi xs ?p]
    by (auto simp: partition_qs_def)
  let ?good = "\<lambda>zs k. low \<le> k \<and> k \<le> hi \<and> perm_on low hi xs zs \<and>
     (\<forall>a. low \<le> a \<and> a < k \<longrightarrow> zs ! nat a \<le> zs ! nat k) \<and> (\<forall>a. k < a \<and> a \<le> hi \<longrightarrow> zs ! nat k \<le> zs ! nat a)"
  have swapped: "?good (ys[nat low := ys ! nat k, nat k := ys ! nat low]) k"
    if "low < k" "k \<le> hi" "ys ! nat k \<le> ?p" "\<And>a. low < a \<Longrightarrow> a < k \<Longrightarrow> ys ! nat a \<le> ?p" "\<And>a. k < a \<Longrightarrow> a \<le> hi \<Longrightarrow> ?p \<le> ys ! nat a" for k
    using sw(2) [of k] that b len plow by (auto simp: nth_list_update nat_eq_iff)
  have kept: "?good ys k"
    if "low \<le> k" "k \<le> hi" "ys ! nat k = ?p" "\<And>a. low < a \<Longrightarrow> a < k \<Longrightarrow> ys ! nat a \<le> ?p" "\<And>a. k < a \<Longrightarrow> a \<le> hi \<Longrightarrow> ?p \<le> ys ! nat a" for k
    using that py plow by (auto simp: le_less)
  consider (swap) "i \<noteq> j \<or> ys ! nat j < ?p" | (eq) "i = j" "ys ! nat j = ?p"
    | (prev) "i = j" "?p < ys ! nat j" "ys ! nat (j - 1) < ?p" | (stay) "i = j" "?p < ys ! nat j" "?p \<le> ys ! nat (j - 1)"
    by linarith
  then show ?thesis
  proof cases
    case swap
    then have "ys ! nat j \<le> ?p" using r(5-7) j by (cases "i = j") auto
    then have "?good (ys[nat low := ys ! nat j, nat j := ys ! nat low]) j"
      using r(3-8) j by (intro swapped) auto
    with pt swap show ?thesis by auto
  next
    case eq
    then have "?good ys j" using r(3-8) j by (intro kept) auto
    with pt eq show ?thesis by auto
  next
    case prev
    then have "low < j - 1" using j plow by (cases "j - 1 = low") auto
    moreover have "?p \<le> ys ! nat a" if "j - 1 < a" "a \<le> hi" for a using r(8) [of a] that prev by (cases "a = j") auto
    ultimately have "?good (ys[nat low := ys ! nat (j - 1), nat (j - 1) := ys ! nat low]) (j - 1)"
      using r(3-7) prev by (intro swapped) auto
    with pt prev show ?thesis by auto
  next
    case stay
    have "ys ! nat (j - 1) = ?p" using stay r(7) [of "j - 1"] j plow by (cases "j - 1 = low") auto
    moreover have "?p \<le> ys ! nat a" if "j - 1 < a" "a \<le> hi" for a using r(8) [of a] that stay by (cases "a = j") auto
    ultimately have "?good ys (j - 1)" using r(3-7) j stay by (intro kept) auto
    with pt stay show ?thesis by auto
  qed
qed

lemma quicksort_sorts:
  assumes "0 \<le> l" "h < int (length xs)" "\<forall>x \<in> set xs. fits_int x"
  shows "\<exists>ys. quicksort xs l h = Some ys \<and> perm_on l h xs ys \<and> sorted_on cmp_long ys l h"
  using assms
proof (induction "nat (h - l)" arbitrary: xs l h rule: less_induct)
  case less
  note b = less.prems
  show ?case
  proof (cases "l < h")
    case False
    then show ?thesis by (auto simp: quicksort.simps [of xs l h] sorted_on_def)
  next
    case True
    obtain ys j where p: "partition_qs xs l h = Some (ys, j)" "l \<le> j" "j \<le> h" "perm_on l h xs ys"
        and lo: "\<And>a. l \<le> a \<Longrightarrow> a < j \<Longrightarrow> ys ! nat a \<le> ys ! nat j" and hi: "\<And>a. j < a \<Longrightarrow> a \<le> h \<Longrightarrow> ys ! nat j \<le> ys ! nat a"
      using partition_qs_spec [of l h xs] b True by auto
    have len: "length ys = length xs" using p(4) by (rule perm_on_length)
    obtain zs where z: "quicksort ys l (j - 1) = Some zs" "perm_on l (j - 1) ys zs" "sorted_on cmp_long zs l (j - 1)"
      using less.hyps [of "j - 1" l ys] b p True len perm_on_set [OF p(4)] by auto
    have lz: "length zs = length xs" using len perm_on_length [OF z(2)] by simp
    have "ys ! nat a \<le> ys ! nat c" if "l \<le> a" "a < j" "j \<le> c" "c \<le> h" for a c
      using lo [of a] hi [of c] that by (cases "c = j") auto
    then have cz: "zs ! nat a \<le> zs ! nat c" if "l \<le> a" "a < j" "j \<le> c" "c \<le> h" for a c
      using longs.split_perm_left [OF z(2), of h a c] b p len that by (auto simp: cmp_long_le)
    have hz: "zs ! nat j \<le> zs ! nat a" if "j < a" "a \<le> h" for a
      using hi [OF that] perm_on_outside [OF z(2), of a] perm_on_outside [OF z(2), of j] that b p len by auto
    obtain ws where w: "quicksort zs (j + 1) h = Some ws" "perm_on (j + 1) h zs ws" "sorted_on cmp_long ws (j + 1) h"
      using less.hyps [of h "j + 1" zs] b p True lz perm_on_set [OF p(4)] perm_on_set [OF z(2)] by auto
    have out: "ws ! nat a = zs ! nat a" if "l \<le> a" "a \<le> j" for a
      using perm_on_outside [OF w(2), of a] that b p lz by auto
    have hw: "zs ! nat k \<le> ws ! nat a" if "l \<le> k" "k \<le> j" "j < a" "a \<le> h" for a k
      using perm_on_all [OF w(2), where P = "\<lambda>v. zs ! nat k \<le> v" and k = a] cz [of k] hz that b p lz
      by (cases "k = j") auto
    have "sorted_on cmp_long ws l h"
      unfolding sorted_on_def cmp_long_le
    proof (intro allI impI)
      fix a c assume ac: "l \<le> a \<and> a < c \<and> c \<le> h"
      consider "c < j" | "a < j" "c = j" | "a \<le> j" "j < c" | "j < a" using ac by linarith
      then show "ws ! nat a \<le> ws ! nat c"
        using ac z(3) w(3) out [of a] out [of c] hw [of a c] cz [of a j] p(3)
        by cases (auto simp: sorted_on_def cmp_long_le)
    qed
    moreover have "perm_on l h xs ws"
      using p(2-4) perm_on_mono [OF z(2), of l h] perm_on_mono [OF w(2), of l h] by (auto intro: perm_on_trans)
    moreover have "quicksort xs l h = Some ws" using True p(1) z(1) w(1) by (simp add: quicksort.simps [of xs l h])
    ultimately show ?thesis by blast
  qed
qed

text \<open>The test of the programs: it reports the places where the array descends.\<close>

lemma unit_test_loop_eq:
  "0 \<le> i \<Longrightarrow> len \<le> int (length arr) \<Longrightarrow>
   \<exists>out'. unit_test_loop arr len i r out =
     Some (if \<forall>k. i \<le> k \<and> k < len - 1 \<longrightarrow> arr ! nat k \<le> arr ! nat (k + 1) then r else 0, out')"
proof (induction arr len i r out rule: unit_test_loop.induct)
  case (1 arr len i r out)
  show ?case
  proof (cases "i < len - 1")
    case False
    then show ?thesis by (auto simp: unit_test_loop.simps [of arr len i r out])
  next
    case True
    then have rds: "rd arr i = Some (arr ! nat i)" "rd arr (i + 1) = Some (arr ! nat (i + 1))"
      using "1.prems" by (auto simp: rd_def)
    have split: "(\<forall>k. i \<le> k \<and> k < len - 1 \<longrightarrow> arr ! nat k \<le> arr ! nat (k + 1)) \<longleftrightarrow>
        arr ! nat i \<le> arr ! nat (i + 1) \<and> (\<forall>k. i + 1 \<le> k \<and> k < len - 1 \<longrightarrow> arr ! nat k \<le> arr ! nat (k + 1))"
      using True by (metis add1_zle_eq order.order_iff_strict)
    show ?thesis
      unfolding split using "1.IH" [OF True rds] "1.prems" True rds
      by (auto simp: unit_test_loop.simps [of arr len i r out] not_less)
  qed
qed

section \<open>Properties\<close>

text \<open>
  C36. \<^verbatim>\<open>quicksort\<close> of \<^verbatim>\<open>quicksort/quicksort.c\<close> terminates inside the array, leaves a permutation of
  it and sorts it, for every array whose values fit into an \<^verbatim>\<open>int\<close>.
\<close>

theorem quicksort_correct:
  assumes "\<forall>x \<in> set xs. fits_int x"
  shows "\<exists>ys. quicksort xs 0 (int (length xs) - 1) = Some ys \<and> mset ys = mset xs \<and> sorted ys"
  using quicksort_sorts [of 0 "int (length xs) - 1" xs] assms sorted_long [symmetric]
  by (fastforce simp: perm_on_def)

text \<open>
  The recursive and the two iterative sorts of \<^verbatim>\<open>cluster/quicksort/main.c\<close> sort every non-empty
  array of less than \<open>2 ^ 30\<close> elements whose values fit into an \<^verbatim>\<open>int\<close>.
\<close>

theorem cluster_sorts_correct:
  assumes "\<forall>x \<in> set xs. fits_int x" and "xs \<noteq> []" and "length xs < 2 ^ 30"
  shows "\<exists>ys. quick_sort xs 0 (int (length xs) - 1) = Some ys \<and>
           quick_sort_non_recursive_cl xs 0 (int (length xs) - 1) = Some ys \<and>
           quick_sort_non_recursive_improve xs 0 (int (length xs) - 1) = Some ys \<and>
           mset ys = mset xs \<and> sorted ys"
proof -
  have st: "\<forall>x \<in> set xs. tmp_int x = x" using assms(1) tmp_int_fits by auto
  let ?h = "int (length xs) - 1"
  obtain ys where y: "nonrec_ext tmp_int cmp_long xs 0 ?h = Some ys" "perm_on 0 ?h xs ys" "sorted_on cmp_long ys 0 ?h"
    using longs.nonrec_ext_sorts [of 0 ?h xs tmp_int] st by auto
  have srt: "sorted zs" if "perm_on 0 ?h xs zs" "sorted_on cmp_long zs 0 ?h" for zs
    using that sorted_long [of zs] by (simp add: perm_on_length)
  have "quick_sort xs 0 ?h = Some ys"
  proof (cases "length xs = 1")
    case True
    then obtain a where a: "xs = [a]" by (auto simp: length_Suc_conv)
    have "quick_sort [a] 0 0 = Some [a]"
      by (simp add: quick_sort_def qsort_ext.simps part_ext_def part_loop.simps rd_def cmp_long_def)
    moreover have "ys = [a]" using y(1) by (simp add: a nonrec_ext_def)
    ultimately show ?thesis by (simp add: a)
  next
    case False
    then obtain zs where z: "qsort_ext tmp_int cmp_long xs 0 ?h = Some zs" "perm_on 0 ?h xs zs" "sorted_on cmp_long zs 0 ?h"
      using longs.qsort_ext_sorts [of 0 ?h xs tmp_int] st assms(2) by (cases xs) auto
    then have "zs = ys" using y srt by (metis perm_on_def properties_for_sort)
    with z show ?thesis by (simp add: quick_sort_def)
  qed
  then show ?thesis
    using y srt [OF y(2,3)] improve_ext_eq [of 0 ?h tmp_int cmp_long xs] assms(3)
    by (auto simp: quick_sort_non_recursive_cl_def quick_sort_non_recursive_improve_def perm_on_def)
qed

text \<open>
  C37. \<^verbatim>\<open>quick_sort_non_recursive_improve\<close>, which keeps the segments in two arrays, on less than \<open>2 ^ 30\<close> elements
  never leaves these arrays and does what \<^verbatim>\<open>quick_sort_non_recursive\<close> does with a linked list, on every array,
  truncated values included. The bound is exact: with \<open>2 ^ 30\<close> elements the size of the arrays wraps to 0, and
  the first write is outside them.
\<close>

theorem improve_equivalent:
  assumes "0 \<le> low"
  shows "(hi - low + 1 < 2 ^ 30 \<longrightarrow>
      quick_sort_non_recursive_improve xs low hi = quick_sort_non_recursive_cl xs low hi) \<and>
    (hi - low + 1 = 2 ^ 30 \<longrightarrow> quick_sort_non_recursive_improve xs low hi = None)"
  unfolding quick_sort_non_recursive_improve_def quick_sort_non_recursive_cl_def
  using improve_ext_eq [OF assms] improve_ext_wraps by blast

text \<open>
  \<^verbatim>\<open>quick_sort_non_recursive\<close> of \<^verbatim>\<open>quicksort/quicksort.c\<close> does not sort: an array whose first
  element is less than all others is returned as it is, in whatever order the others are.
\<close>

theorem quick_sort_non_recursive_unsorted:
  assumes "\<forall>y \<in> set xs. x < y"
  shows "quick_sort_non_recursive (x # xs) 0 (int (length xs)) = Some (x # xs)"
proof -
  let ?xs = "x # xs" and ?h = "int (length xs)"
  have down: "seek_down_qs x ?xs 1 (int k) = Some 1" if "1 \<le> k" "k \<le> length xs" for k
    using that
  proof (induction k)
    case (Suc k)
    show ?case
    proof (cases "k = 0")
      case False
      have "x < xs ! k" using Suc.prems assms by auto
      then show ?thesis using Suc False
        by (subst seek_down_qs.simps) (auto simp: rd_def nat_add_distrib)
    qed (simp add: seek_down_qs.simps)
  qed simp
  have "partition_qs ?xs 0 ?h = Some (?xs, 0)" if "xs \<noteq> []"
  proof -
    have "x < xs ! 0" using assms that by auto
    moreover have "length xs = 1 \<or> 1 < length xs" using that by (cases xs) auto
    ultimately show ?thesis
      using down [of "length xs"] that
      by (cases "length xs = 1")
        (auto simp: partition_qs_def rd_def part_loop_qs.simps [of x ?xs 1] seek_up_qs.simps [of x ?xs 1 1] Suc_le_eq)
  qed
  then show ?thesis by (cases "xs = []") (auto simp: quick_sort_non_recursive_def fifo_qs.simps(2))
qed

text \<open>
  \<^verbatim>\<open>unit_test\<close> returns 1 exactly on sorted arrays, and never reads outside them.
\<close>

theorem unit_test_correct: "\<exists>out. unit_test arr (int (length arr)) = Some (if sorted arr then 1 else 0, out)"
proof -
  have "(\<forall>k. 0 \<le> k \<and> k < int (length arr) - 1 \<longrightarrow> arr ! nat k \<le> arr ! nat (k + 1)) \<longleftrightarrow> sorted arr"
  proof
    assume a: "\<forall>k. 0 \<le> k \<and> k < int (length arr) - 1 \<longrightarrow> arr ! nat k \<le> arr ! nat (k + 1)"
    show "sorted arr" unfolding sorted_iff_nth_Suc
    proof (intro allI impI)
      fix i assume "Suc i < length arr"
      with a [rule_format, of "int i"] show "arr ! i \<le> arr ! Suc i" by (simp add: nat_add_distrib)
    qed
  next
    assume "sorted arr"
    then show "\<forall>k. 0 \<le> k \<and> k < int (length arr) - 1 \<longrightarrow> arr ! nat k \<le> arr ! nat (k + 1)"
      by (auto simp: sorted_iff_nth_mono)
  qed
  with unit_test_loop_eq [of 0 "int (length arr)" arr 1 "[]"] show ?thesis by (simp add: unit_test_def)
qed

section \<open>Witnesses\<close>

theorem quicksort_correct_witness:
  "\<exists>ys. quicksort [3, 1, 2] 0 2 = Some ys \<and> mset ys = mset [3, 1, 2] \<and> sorted ys"
  using quicksort_correct [of "[3, 1, 2]"] by (simp add: fits_int_def)

theorem cluster_sorts_correct_witness:
  "\<exists>ys. quick_sort [2, 3, 1] 0 2 = Some ys \<and> mset ys = mset [2, 3, 1] \<and> sorted ys"
  using cluster_sorts_correct [of "[2, 3, 1]"] by (auto simp: fits_int_def)

theorem improve_equivalent_witness:
  "quick_sort_non_recursive_improve [5, 2 ^ 40, 1] 0 2 = quick_sort_non_recursive_cl [5, 2 ^ 40, 1] 0 2"
  using improve_equivalent [of 0 2 "[5, 2 ^ 40, 1]"] by simp

theorem quick_sort_non_recursive_unsorted_witness:
  "quick_sort_non_recursive [1, 3, 2] 0 2 = Some [1, 3, 2] \<and> \<not> sorted [1, 3, 2 :: int]"
  using quick_sort_non_recursive_unsorted [of "[3, 2]" 1] by simp

end
