(* ===== verification/CText.thy ===== *)
theory CText
  imports Prelude
begin

text \<open>
  Text in C: string literals, \<^verbatim>\<open>printf\<close> and \<^verbatim>\<open>sscanf\<close> of decimal numbers, \<^verbatim>\<open>strcmp\<close>,
  \<^verbatim>\<open>strtok\<close>, \<^verbatim>\<open>strstr\<close> and \<^verbatim>\<open>fgets\<close>, with the facts the components share: a printed number is
  read back, \<^verbatim>\<open>strcmp\<close> is a total order of strings, \<^verbatim>\<open>strtok\<close> makes progress and finds the fields.
\<close>

section \<open>Literals and numbers\<close>

definition lit :: "string \<Rightarrow> bytes" where
  "lit s = map of_char s"

lemma length_lit [simp]: "length (lit s) = length s"
  by (simp add: lit_def)

text \<open>\<^verbatim>\<open>%d\<close> and \<^verbatim>\<open>%u\<close>: decimal digits\<close>

fun dec :: "nat \<Rightarrow> bytes" where
  "dec n = (if n < 10 then [48 + of_nat n] else dec (n div 10) @ [48 + of_nat (n mod 10)])"

declare dec.simps [simp del]

definition sdec :: "int \<Rightarrow> bytes" where
  "sdec i = (if i < 0 then 45 # dec (nat (- i)) else dec (nat i))"

lemma length_dec: "n < 10 ^ k \<Longrightarrow> 0 < k \<Longrightarrow> length (dec n) \<le> k"
proof (induction n arbitrary: k rule: dec.induct)
  case (1 n)
  show ?case
  proof (cases "n < 10")
    case True
    with 1 show ?thesis by (subst dec.simps) simp
  next
    case False
    with 1(2) obtain j where k: "k = Suc j" "0 < j" by (cases k; cases "k - 1") auto
    then have "n div 10 < 10 ^ j" using 1(2) by (simp add: less_mult_imp_div_less mult.commute)
    with 1(1) [OF False _ k(2)] k(1) False show ?thesis by (subst dec.simps) simp
  qed
qed

text \<open>
  \<^verbatim>\<open>sscanf(p, "%d", &data)\<close>: the value of \<open>data\<close> afterwards. Without a number at the start of \<open>p\<close> it
  keeps its old value; a number that is no \<^verbatim>\<open>int\<close> is undefined.
\<close>

definition isspace :: "byte \<Rightarrow> bool" where
  "isspace b \<longleftrightarrow> b = 32 \<or> (9 \<le> b \<and> b \<le> 13)"

definition isdigit :: "byte \<Rightarrow> bool" where
  "isdigit b \<longleftrightarrow> 48 \<le> b \<and> b \<le> 57"

definition num_val :: "bytes \<Rightarrow> int" where
  "num_val ds = foldl (\<lambda>n d. 10 * n + (uint d - 48)) 0 ds"

definition is_int :: "int \<Rightarrow> bool" where
  "is_int v \<longleftrightarrow> - (2 ^ 31) \<le> v \<and> v < 2 ^ 31"

definition scan_d :: "bytes \<Rightarrow> int \<Rightarrow> int option" where
  "scan_d p data =
     (let t = dropWhile isspace p;
          neg = (t \<noteq> [] \<and> hd t = 45);
          u = (if t \<noteq> [] \<and> (hd t = 45 \<or> hd t = 43) then tl t else t);
          ds = takeWhile isdigit u;
          v = (if neg then - num_val ds else num_val ds)
      in if ds = [] then Some data else if is_int v then Some v else None)"

lemma digit_byte: "k < 10 \<Longrightarrow> isdigit (48 + of_nat k) \<and> uint (48 + of_nat k :: byte) = 48 + int k"
proof -
  assume "k < 10"
  then have "k \<in> {0, 1, 2, 3, 4, 5, 6, 7, 8, 9}" by auto
  then show ?thesis by (auto simp: isdigit_def)
qed

lemma dec_digits: "dec n \<noteq> [] \<and> (\<forall>b \<in> set (dec n). isdigit b) \<and> num_val (dec n) = int n"
proof (induction n rule: dec.induct)
  case (1 n)
  show ?case
  proof (cases "n < 10")
    case True
    then show ?thesis using digit_byte [of n] by (simp add: dec.simps [of n] num_val_def)
  next
    case False
    have "num_val (dec n) = 10 * num_val (dec (n div 10)) + int (n mod 10)"
      using digit_byte [of "n mod 10"] False by (simp add: dec.simps [of n] num_val_def)
    moreover have "10 * int (n div 10) + int (n mod 10) = int n"
      by (metis mult_div_mod_eq of_nat_add of_nat_mult of_nat_numeral)
    ultimately show ?thesis using 1 [OF False] False digit_byte [of "n mod 10"] by (simp add: dec.simps [of n])
  qed
qed

lemma not_digit: "isdigit b \<Longrightarrow> \<not> isspace b \<and> b \<noteq> 45 \<and> b \<noteq> 43 \<and> b \<noteq> 9 \<and> b \<noteq> 10 \<and> b \<noteq> 0"
  by (auto simp: isdigit_def isspace_def word_le_nat_alt)

lemma scan_d_sdec: "is_int v \<Longrightarrow> scan_d (sdec v) data = Some v"
proof -
  assume v: "is_int v"
  have tw: "takeWhile isdigit (dec n) = dec n" for n
    using dec_digits [of n] by (simp add: takeWhile_eq_all_conv)
  obtain d ds where d: "dec (nat v) = d # ds" "isdigit d" using dec_digits [of "nat v"] by (cases "dec (nat v)") auto
  show ?thesis
  proof (cases "v < 0")
    case True
    have "\<not> isspace 45" by (simp add: isspace_def)
    then show ?thesis using True v dec_digits [of "nat (- v)"] by (simp add: scan_d_def sdec_def Let_def tw)
  next
    case False
    have ds: "takeWhile isdigit ds = ds" using tw [of "nat v"] d by simp
    show ?thesis using False v not_digit [OF d(2)] dec_digits [of "nat v"]
      by (simp add: scan_d_def sdec_def Let_def d(1) ds)
  qed
qed

lemma sdec_plain: "sdec v \<noteq> [] \<and> (\<forall>b \<in> set (sdec v). b \<noteq> 9 \<and> b \<noteq> 10 \<and> b \<noteq> 0)"
  using dec_digits [of "nat (- v)"] dec_digits [of "nat v"] by (auto simp: sdec_def dest: not_digit)

section \<open>Strings\<close>

text \<open>\<^verbatim>\<open>strcmp\<close> of the strings in two lists of bytes, a NUL behind them\<close>

fun c_strcmp :: "bytes \<Rightarrow> bytes \<Rightarrow> int" where
  "c_strcmp [] [] = 0"
| "c_strcmp [] (b # bs) = - uint b"
| "c_strcmp (a # as) [] = uint a"
| "c_strcmp (a # as) (b # bs) = (if a \<noteq> b then uint a - uint b else if a = 0 then 0 else c_strcmp as bs)"

lemma c_strcmp_swap: "c_strcmp b a = - c_strcmp a b"
  by (induction a b rule: c_strcmp.induct) auto

lemma c_strcmp_trans: "c_strcmp a b \<le> 0 \<Longrightarrow> c_strcmp b c \<le> 0 \<Longrightarrow> c_strcmp a c \<le> 0"
proof (induction a b arbitrary: c rule: c_strcmp.induct)
  case (4 a as b bs)
  have eq: "x = y" if "uint x \<le> uint y" "uint y \<le> uint x" for x y :: byte
    using that by (intro word_uint_eqI) simp
  show ?case
  proof (cases c)
    case Nil
    with 4 show ?thesis using uint_nonnegative [of a] by (auto split: if_splits simp: uint_0_iff)
  next
    case (Cons x xs)
    consider "a = b" "b = x" | "a = b" "b \<noteq> x" | "a \<noteq> b" "b = x" | "a \<noteq> b" "b \<noteq> x" by blast
    then show ?thesis
    proof cases
      case 4
      have "uint a \<le> uint b" "uint b \<le> uint x" using "4.prems" 4 Cons by auto
      moreover have "a \<noteq> x" using calculation eq [of a b] 4 by auto
      ultimately show ?thesis using Cons by simp
    qed (use 4 Cons in \<open>auto split: if_splits\<close>)
  qed
qed (case_tac c, auto simp: uint_0_iff split: if_splits)+

lemma c_strcmp_eq: "c_strcmp a b = 0 \<longleftrightarrow> c_str a = c_str b"
  by (induction a b rule: c_strcmp.induct) (auto simp: c_str_def uint_0_iff dest: word_uint_eqI)

text \<open>
  \<^verbatim>\<open>strtok\<close> on the rest of a string: the next token and what is left behind the delimiter that
  ended it. \<open>D\<close> tells the delimiters.
\<close>

definition strtok :: "(byte \<Rightarrow> bool) \<Rightarrow> bytes \<Rightarrow> (bytes \<times> bytes) option" where
  "strtok D s = (let t = dropWhile D s in
     if t = [] then None else Some (takeWhile (\<lambda>b. \<not> D b) t, tl (dropWhile (\<lambda>b. \<not> D b) t)))"

lemma strtok_shorter: "strtok D s = Some (t, r) \<Longrightarrow> t \<noteq> [] \<and> length r < length s"
proof -
  assume a: "strtok D s = Some (t, r)"
  let ?u = "dropWhile D s"
  from a have u: "?u \<noteq> []" "t = takeWhile (\<lambda>b. \<not> D b) ?u" "r = tl (dropWhile (\<lambda>b. \<not> D b) ?u)"
    by (auto simp: strtok_def Let_def split: if_splits)
  then have "\<not> D (hd ?u)" by (metis hd_dropWhile)
  with u have t: "t \<noteq> []" by (cases ?u) auto
  have "length t + length (dropWhile (\<lambda>b. \<not> D b) ?u) = length ?u"
    using u by (metis length_append takeWhile_dropWhile_id)
  moreover have "0 < length t" using t by simp
  ultimately have "length (dropWhile (\<lambda>b. \<not> D b) ?u) < length s" using length_dropWhile_le [of D s] by linarith
  then show ?thesis using t u(3) by simp
qed

lemma strtok_field:
  assumes "t \<noteq> []" "\<forall>b \<in> set t. \<not> D b" "D d"
  shows "strtok D (t @ d # s) = Some (t, s)" and "strtok D t = Some (t, [])"
proof -
  obtain x xs where t: "t = x # xs" "\<not> D x" using assms by (cases t) auto
  show "strtok D (t @ d # s) = Some (t, s)"
    using assms t by (simp add: strtok_def Let_def takeWhile_append dropWhile_append)
  show "strtok D t = Some (t, [])"
    using assms t by (simp add: strtok_def Let_def takeWhile_eq_all_conv [THEN iffD2] dropWhile_eq_Nil_conv [THEN iffD2])
qed

text \<open>\<^verbatim>\<open>fgets(buf, n, fp)\<close>: the bytes read, up to \<open>n - 1\<close> and through the first newline, and the rest\<close>

definition fgets :: "nat \<Rightarrow> bytes \<Rightarrow> bytes \<times> bytes" where
  "fgets n s = (let k = min (n - 1) (Suc (length (takeWhile (\<lambda>b. b \<noteq> 10) s))) in (take k s, drop k s))"

text \<open>\<^verbatim>\<open>strstr(s, w)\<close>: the rest of \<open>s\<close> from the first occurrence of \<open>w\<close> on\<close>

fun strstr :: "bytes \<Rightarrow> bytes \<Rightarrow> bytes option" where
  "strstr s w = (if take (length w) s = w then Some s else case s of [] \<Rightarrow> None | b # bs \<Rightarrow> strstr bs w)"

text \<open>\<^verbatim>\<open>sprintf\<close> into a cleared array of \<open>n\<close> bytes: the string, if it fits with its NUL\<close>

definition fit :: "nat \<Rightarrow> bytes \<Rightarrow> bytes option" where
  "fit n s = (if length s < n then Some s else None)"

end
