(* ===== verification/LcsCommon.thy ===== *)
theory LcsCommon
  imports Quicksort CText "HOL-Library.Signed_Division"
begin

text \<open>
  \<^verbatim>\<open>cluster/common/lcs_common.c\<close>: the helpers of the cluster programs. Strings are the bytes before
  their NUL; arrays of fixed size are checked for overflow (\<^term>\<open>None\<close>). The file system, the
  directories and the programs started with \<^verbatim>\<open>popen\<close> are arguments. The sorts are instances of the
  algorithm of \<open>Quicksort\<close>.

  Shown: the sorts sort by \<^verbatim>\<open>strcmp\<close> and by the callback; the merge of the call statistics gives one
  row per date and hour with the sums of the columns, in order, and its output is read back by the
  collector; lists of table names are read back; directory listings are sorted, and overrun their
  array from the 63rd entry on; of the output of a program only the first line is returned.
\<close>

section \<open>Commands and files\<close>

text \<open>The commands handed to \<^verbatim>\<open>popen\<close>, built in arrays of 2048 and 1024 bytes.\<close>

definition lcs_create_dir :: "bytes \<Rightarrow> bytes option" where
  "lcs_create_dir dirpath = fit 2048 (lit ''mkdir -p '' @ dirpath)"

definition lcs_commpre_env :: "bytes \<Rightarrow> bytes \<Rightarrow> bytes option" where
  "lcs_commpre_env templatedir targetdir =
     fit 1024 (lit ''cp -f '' @ [34] @ templatedir @ [34] @ lit ''/lcs.db '' @ [34] @ targetdir @ [34])"

text \<open>\<^verbatim>\<open>lcs_file_text(path, text, err)\<close>: \<^verbatim>\<open>*err\<close> if it is set, and the new \<^verbatim>\<open>*text\<close>; the size is an \<^verbatim>\<open>unsigned int\<close>\<close>

definition lcs_file_text :: "(bytes \<Rightarrow> bytes option) \<Rightarrow> bytes \<Rightarrow> int option \<times> bytes option" where
  "lcs_file_text files path =
     (case files path of None \<Rightarrow> (Some 1, None)
      | Some c \<Rightarrow> (None, Some (take (length c mod 2 ^ 32) c @ [0])))"

text \<open>
  \<^verbatim>\<open>lcs_bash_cmdext(cmd, text, err)\<close>: \<open>out\<close> is what the program prints (\<^term>\<open>None\<close>: it could not be
  started), \<open>text\<close> the string in \<^verbatim>\<open>*text\<close> (\<^term>\<open>None\<close>: a null pointer). The loop ends when less than
  1024 bytes were read.
\<close>

lemma fgets_progress: "fgets 1024 out = (tmp, rest) \<Longrightarrow> \<not> length (c_str tmp) < 1024 \<Longrightarrow> length rest < length out"
  by (cases out) (auto simp: fgets_def Let_def c_str_def)

function bash_loop :: "bytes \<Rightarrow> bytes \<Rightarrow> bytes" where
  "bash_loop out text =
     (let (tmp, rest) = fgets 1024 out; t = c_str tmp in
      if length t < 1024 then text @ t else bash_loop rest (text @ t))"
  by auto
termination
  by (relation "measure (\<lambda>(out, text). length out)") (auto dest: fgets_progress [OF sym])

definition lcs_bash_cmdext :: "bytes option \<Rightarrow> bytes option \<Rightarrow> bytes option" where
  "lcs_bash_cmdext out text =
     (case out of None \<Rightarrow> text | Some s \<Rightarrow> Some (bash_loop s (case text of None \<Rightarrow> [] | Some t \<Rightarrow> t)))"

text \<open>
  \<^verbatim>\<open>lcs_comm_moving\<close>: the file it writes and the command it runs, or \<^verbatim>\<open>*err = 1\<close> (\<open>Inl\<close>) when the
  file cannot be opened. The lines and paths are built in arrays of 1024 bytes.
\<close>

definition lcs_comm_moving ::
  "(bytes \<Rightarrow> bool) \<Rightarrow> bytes \<Rightarrow> bytes \<Rightarrow> bytes \<Rightarrow> bytes \<Rightarrow> (int + bytes \<times> bytes \<times> bytes) option" where
  "lcs_comm_moving can_open templatedir targetdir tables insertprocess = do {
     listtab \<leftarrow> fit 1024 (lit ''tables_0001:'' @ tables @ [10]);
     target \<leftarrow> fit 1024 (lit ''targetdir_0002:'' @ targetdir @ [10]);
     templ \<leftarrow> fit 1024 (lit ''templatedir_0003:'' @ templatedir @ [10]);
     pathcfg \<leftarrow> fit 1024 (targetdir @ lit ''/insert.cfg'');
     if \<not> can_open pathcfg then Some (Inl 1)
     else do {
       cmd \<leftarrow> fit 1024 (insertprocess @ [32] @ pathcfg);
       Some (Inr (pathcfg, listtab @ target @ templ, cmd))
     }
   }"

text \<open>\<^verbatim>\<open>lcs_comm_get_process(path, result, err)\<close>: what is appended to \<open>result\<close>\<close>

definition lcs_comm_get_process :: "(bytes \<Rightarrow> bool) \<Rightarrow> bytes \<Rightarrow> bytes option" where
  "lcs_comm_get_process exists path = do {
     tmp \<leftarrow> fit 1024 path;
     case strstr path (lit ''lcs_'') of None \<Rightarrow> Some path
     | Some p \<Rightarrow> do {
         tmppath \<leftarrow> fit 1024 (lit ''./'' @ p);
         Some (if exists tmppath then tmppath else path)
       }
   }"

section \<open>Strings and lists\<close>

text \<open>\<^verbatim>\<open>lcs_comm_replace(src, nwe, old, err)\<close>, the loop over the array to the first NUL\<close>

fun lcs_comm_replace :: "bytes \<Rightarrow> byte \<Rightarrow> byte \<Rightarrow> bytes option" where
  "lcs_comm_replace [] nwe old = None"
| "lcs_comm_replace (b # bs) nwe old =
     (if b = 0 then Some (b # bs)
      else map_option (Cons (if b = old then nwe else b)) (lcs_comm_replace bs nwe old))"

text \<open>the nodes \<^verbatim>\<open>LCS_COMM_TABLES\<close> in their order, by their \<^verbatim>\<open>name[64]\<close>\<close>

definition comma_nl :: "byte \<Rightarrow> bool" where
  "comma_nl b \<longleftrightarrow> b = 44 \<or> b = 10"

function lcs_cgen_list :: "bytes \<Rightarrow> bytes list \<Rightarrow> bytes list option" where
  "lcs_cgen_list tables root =
     (case strtok comma_nl tables of None \<Rightarrow> Some root
      | Some (pch, rest) \<Rightarrow>
        if pch \<noteq> [] then case fit 64 pch of None \<Rightarrow> None | Some n \<Rightarrow> lcs_cgen_list rest (root @ [n])
        else lcs_cgen_list rest root)"
  by pat_completeness auto
termination
  by (relation "measure (\<lambda>(tables, root). length tables)") (auto dest: strtok_shorter)

declare lcs_cgen_list.simps [simp del] bash_loop.simps [simp del]

text \<open>\<^verbatim>\<open>lcs_cclear_list\<close>: the list afterwards and the nodes given back, in order\<close>

fun lcs_cclear_list :: "bytes list \<Rightarrow> bytes list \<Rightarrow> bytes list \<times> bytes list" where
  "lcs_cclear_list [] freed = ([], freed)"
| "lcs_cclear_list (p # root) freed = lcs_cclear_list root (freed @ [p])"

text \<open>\<^verbatim>\<open>lcs_comm_hash\<close>: \<^verbatim>\<open>%\<close> keeps the sign of the number and is undefined for 0\<close>

definition lcs_comm_hash :: "bytes \<Rightarrow> int \<Rightarrow> int \<Rightarrow> int option" where
  "lcs_comm_hash p index sz = do { i \<leftarrow> scan_d p index; if sz = 0 then None else Some (i smod sz) }"

section \<open>Sorting\<close>

definition lcs_partition :: "bytes list \<Rightarrow> int \<Rightarrow> int \<Rightarrow> (bytes list \<times> int) option" where
  "lcs_partition = part_ext id c_strcmp"

definition lcs_quick_sort :: "bytes list \<Rightarrow> int \<Rightarrow> int \<Rightarrow> bytes list option" where
  "lcs_quick_sort = qsort_ext id c_strcmp"

definition lcs_partition_ext :: "'a list \<Rightarrow> int \<Rightarrow> int \<Rightarrow> ('a \<Rightarrow> 'a \<Rightarrow> int) \<Rightarrow> ('a list \<times> int) option" where
  "lcs_partition_ext data low hi f = part_ext id f data low hi"

definition lcs_quick_sort_ext :: "'a list \<Rightarrow> int \<Rightarrow> int \<Rightarrow> ('a \<Rightarrow> 'a \<Rightarrow> int) \<Rightarrow> 'a list option" where
  "lcs_quick_sort_ext data low hi f = qsort_ext id f data low hi"

section \<open>Directories\<close>

text \<open>
  A directory is the sequence \<^verbatim>\<open>readdir\<close> gives: the name of each entry and what \<^verbatim>\<open>stat\<close> says of it
  (\<^term>\<open>None\<close>: it fails). The names wanted are stored in an array of 62 pointers; the path of an entry
  is built in an array of 1024 bytes. \<open>e\<close> is \<^verbatim>\<open>*err\<close>.
\<close>

datatype ftype = Dir | Reg | Other

type_synonym dirent = "bytes \<times> ftype option"

fun scan_dir :: "ftype \<Rightarrow> bytes \<Rightarrow> dirent list \<Rightarrow> int \<Rightarrow> bytes list \<Rightarrow> (int \<times> bytes list) option" where
  "scan_dir want path [] e acc = Some (e, acc)"
| "scan_dir want path ((d_name, st) # ds) e acc =
     (if c_strcmp d_name (lit ''.'') = 0 \<or> c_strcmp d_name (lit ''..'') = 0 then scan_dir want path ds e acc
      else case fit 1024 (path @ lit ''/'' @ d_name) of None \<Rightarrow> None | Some tmp \<Rightarrow>
        case st of None \<Rightarrow> scan_dir want path ds 1 acc
        | Some t \<Rightarrow>
            if t = want then (if length acc < 62 then scan_dir want path ds e (acc @ [d_name]) else None)
            else scan_dir want path ds e acc)"

text \<open>
  The result of the three functions: \<^verbatim>\<open>*err\<close> and the names (\<^term>\<open>None\<close>: \<^verbatim>\<open>*result\<close> is left as it
  was); \<^verbatim>\<open>lcs_comm_subdir_ext\<close> also gives their number, \<^verbatim>\<open>lcs_comm_subdir\<close> sorts them.
\<close>

definition lcs_comm_subdir_ext ::
  "(bytes \<Rightarrow> dirent list option) \<Rightarrow> bytes \<Rightarrow> int \<Rightarrow> (int \<times> (bytes list \<times> int) option) option" where
  "lcs_comm_subdir_ext opendir path e =
     (case opendir path of None \<Rightarrow> Some (1, None)
      | Some ds \<Rightarrow> do { (e', names) \<leftarrow> scan_dir Dir path ds e []; Some (e', Some (names, int (length names))) })"

definition lcs_comm_subdir ::
  "(bytes \<Rightarrow> dirent list option) \<Rightarrow> bytes \<Rightarrow> int \<Rightarrow> (int \<times> bytes list option) option" where
  "lcs_comm_subdir opendir path e =
     (case opendir path of None \<Rightarrow> Some (1, None)
      | Some ds \<Rightarrow> do {
          (e', names) \<leftarrow> scan_dir Dir path ds e [];
          sorted \<leftarrow> lcs_quick_sort names 0 (int (length names) - 1);
          Some (e', Some sorted)
        })"

definition lcs_comm_list_files ::
  "(bytes \<Rightarrow> dirent list option) \<Rightarrow> bytes \<Rightarrow> int \<Rightarrow> (int \<times> bytes list option) option" where
  "lcs_comm_list_files opendir path e =
     (case opendir path of None \<Rightarrow> Some (1, None) | Some ds \<Rightarrow> map_option (map_prod id Some) (scan_dir Reg path ds e []))"

section \<open>The call statistics\<close>

text \<open>a row of \<^verbatim>\<open>LCS_MERGE_COUNTING\<close>; the strings are those in \<^verbatim>\<open>date[12]\<close> and \<^verbatim>\<open>hour[4]\<close>\<close>

record LCS_MERGE_COUNTING =
  date :: bytes
  hour :: bytes
  totalcall :: int
  totalfullchannel :: int
  viettelauto :: int
  viettelfull :: int
  mobileauto :: int
  mobilefull :: int
  vinaauto :: int
  vinafull :: int

type_synonym row = LCS_MERGE_COUNTING

definition lcs_merge_counting_cb :: "row \<Rightarrow> row \<Rightarrow> int" where
  "lcs_merge_counting_cb a b =
     (let r = c_strcmp (date a) (date b) in if r \<noteq> 0 then r else c_strcmp (hour a) (hour b))"

text \<open>\<^verbatim>\<open>arr[m]->totalcall += arr[l]->totalcall; ...\<close>: an overflow is undefined\<close>

definition add_int :: "int \<Rightarrow> int \<Rightarrow> int option" where
  "add_int a b = (if is_int (a + b) then Some (a + b) else None)"

definition row_add :: "row \<Rightarrow> row \<Rightarrow> row option" where
  "row_add a b = do {
     c1 \<leftarrow> add_int (totalcall a) (totalcall b);
     c2 \<leftarrow> add_int (totalfullchannel a) (totalfullchannel b);
     c3 \<leftarrow> add_int (viettelauto a) (viettelauto b);
     c4 \<leftarrow> add_int (viettelfull a) (viettelfull b);
     c5 \<leftarrow> add_int (mobileauto a) (mobileauto b);
     c6 \<leftarrow> add_int (mobilefull a) (mobilefull b);
     c7 \<leftarrow> add_int (vinaauto a) (vinaauto b);
     c8 \<leftarrow> add_int (vinafull a) (vinafull b);
     Some (a\<lparr>totalcall := c1, totalfullchannel := c2, viettelauto := c3, viettelfull := c4,
             mobileauto := c5, mobilefull := c6, vinaauto := c7, vinafull := c8\<rparr>)
   }"

text \<open>the line \<^verbatim>\<open>fprintf\<close> writes for a row\<close>

definition row_line :: "row \<Rightarrow> bytes" where
  "row_line r = date r @ [9] @ hour r @ [9] @ sdec (totalcall r) @ [9] @ sdec (totalfullchannel r) @ [9] @
     sdec (viettelauto r) @ [9] @ sdec (viettelfull r) @ [9] @ sdec (mobileauto r) @ [9] @
     sdec (mobilefull r) @ [9] @ sdec (vinaauto r) @ [9] @ sdec (vinafull r) @ [10]"

text \<open>the inner loop that looks for the last row with the date and hour of its predecessor\<close>

function group_end :: "row list \<Rightarrow> int \<Rightarrow> int \<Rightarrow> int option" where
  "group_end arr n i =
     (if i = n - 1 then Some i
      else case rd arr i of None \<Rightarrow> None | Some a \<Rightarrow>
        case rd arr (i + 1) of None \<Rightarrow> None | Some b \<Rightarrow>
        if c_strcmp (date a) (date b) \<noteq> 0 then Some i
        else if c_strcmp (hour a) (hour b) \<noteq> 0 then Some i
        else group_end arr n (i + 1))"
  by auto
termination
  by (relation "measure (\<lambda>(arr, n, i). nat (int (length arr) - i))") (auto simp: rd_def split: if_splits)

lemma group_end_le: "group_end arr n i = Some i' \<Longrightarrow> i \<le> i'"
  by (induction arr n i rule: group_end.induct)
    (subst (asm) (2) group_end.simps, fastforce split: option.splits if_splits)

text \<open>\<^verbatim>\<open>for (l = m+1; l <= i; ++l)\<close>; \<open>acc\<close> is the row \<^verbatim>\<open>arr[m]\<close>\<close>

function add_rows :: "row list \<Rightarrow> row \<Rightarrow> int \<Rightarrow> int \<Rightarrow> row option" where
  "add_rows arr acc l i =
     (if l \<le> i then
        case rd arr l of None \<Rightarrow> None | Some r \<Rightarrow>
        case row_add acc r of None \<Rightarrow> None | Some acc' \<Rightarrow> add_rows arr acc' (l + 1) i
      else Some acc)"
  by auto
termination by (relation "measure (\<lambda>(arr, acc, l, i). nat (i + 1 - l))") auto

declare group_end.simps [simp del] add_rows.simps [simp del]

text \<open>the rows written, in order\<close>

function merge_loop :: "row list \<Rightarrow> int \<Rightarrow> int \<Rightarrow> row list option" where
  "merge_loop arr n i =
     (if i < n then
        case group_end arr n i of None \<Rightarrow> None | Some i' \<Rightarrow>
        case rd arr i of None \<Rightarrow> None | Some r \<Rightarrow>
        case add_rows arr r (i + 1) i' of None \<Rightarrow> None | Some acc \<Rightarrow>
        map_option (Cons acc) (merge_loop arr n (i' + 1))
      else Some [])"
  by auto
termination
  by (relation "measure (\<lambda>(arr, n, i). nat (n - i))") (auto dest: group_end_le)

declare merge_loop.simps [simp del]

text \<open>
  \<^verbatim>\<open>lcs_merge005_list(root, n, filepath, err)\<close>: what the file holds afterwards (\<^term>\<open>Some None\<close>: it
  could not be opened). The array has \<open>n + 1\<close> entries.
\<close>

definition lcs_merge005_list :: "bool \<Rightarrow> row list \<Rightarrow> int \<Rightarrow> bytes option option" where
  "lcs_merge005_list can_open root n =
     (if n + 1 < int (length root) then None
      else do {
        arr \<leftarrow> lcs_quick_sort_ext root 0 (int (length root) - 1) lcs_merge_counting_cb;
        if \<not> can_open then Some None
        else do { rows \<leftarrow> merge_loop arr n 0; Some (Some (concat (map row_line rows))) }
      })"

definition tab_nl :: "byte \<Rightarrow> bool" where
  "tab_nl b \<longleftrightarrow> b = 9 \<or> b = 10"

text \<open>\<^verbatim>\<open>p = strtok(0, "\t\n"); sscanf(p, "%d", &data);\<close> a missing token is a null pointer\<close>

definition next_int :: "bytes \<Rightarrow> int \<Rightarrow> (int \<times> bytes) option" where
  "next_int s data = do {
     (p, s') \<leftarrow> strtok tab_nl s;
     v \<leftarrow> scan_d p data;
     Some (v, s')
   }"

text \<open>one turn of the loop behind the date: the row, the last number and the rest of the text\<close>

definition read_row :: "bytes \<Rightarrow> bytes \<Rightarrow> int \<Rightarrow> (row \<times> int \<times> bytes) option" where
  "read_row p s data = do {
     d \<leftarrow> fit 12 p;
     (q, s0) \<leftarrow> strtok tab_nl s;
     h \<leftarrow> fit 4 q;
     (c1, s1) \<leftarrow> next_int s0 data;
     (c2, s2) \<leftarrow> next_int s1 c1;
     (c3, s3) \<leftarrow> next_int s2 c2;
     (c4, s4) \<leftarrow> next_int s3 c3;
     (c5, s5) \<leftarrow> next_int s4 c4;
     (c6, s6) \<leftarrow> next_int s5 c5;
     (c7, s7) \<leftarrow> next_int s6 c6;
     (c8, s8) \<leftarrow> next_int s7 c7;
     Some (\<lparr>date = d, hour = h, totalcall = c1, totalfullchannel = c2, viettelauto = c3, viettelfull = c4,
            mobileauto = c5, mobilefull = c6, vinaauto = c7, vinafull = c8\<rparr>, c8, s8)
   }"

lemma next_int_shorter: "next_int s d = Some (v, s') \<Longrightarrow> length s' \<le> length s"
  by (auto simp: next_int_def bind_eq_Some_conv dest!: strtok_shorter)

lemma read_row_shorter: "read_row p s d = Some (r, v, s') \<Longrightarrow> length s' \<le> length s"
  by (auto simp: read_row_def bind_eq_Some_conv dest!: next_int_shorter strtok_shorter)

function collect_loop :: "bytes \<Rightarrow> int \<Rightarrow> row list \<Rightarrow> row list option" where
  "collect_loop s data root =
     (case strtok tab_nl s of None \<Rightarrow> Some root
      | Some (p, s1) \<Rightarrow>
        case read_row p s1 data of None \<Rightarrow> None
        | Some (r, data', s2) \<Rightarrow> collect_loop s2 data' (root @ [r]))"
  by pat_completeness auto
termination
  by (relation "measure (\<lambda>(s, data, root). length s)") (fastforce dest: strtok_shorter read_row_shorter)+

declare collect_loop.simps [simp del]

text \<open>
  \<^verbatim>\<open>lcs_hcollect005_sum(path, text, err)\<close>: what is written to the file (\<^term>\<open>None\<close>: nothing), and
  whether the last loop reads a node it has just given back: \<^verbatim>\<open>free(node); node = node->next;\<close>.
\<close>

definition lcs_hcollect005_sum :: "bool \<Rightarrow> bytes \<Rightarrow> (bytes option \<times> bool) option" where
  "lcs_hcollect005_sum can_open text = do {
     root \<leftarrow> collect_loop text 0 [];
     w \<leftarrow> (if 0 < length root then lcs_merge005_list can_open root (int (length root)) else Some None);
     Some (w, root \<noteq> [])
   }"

section \<open>Comparisons\<close>

interpretation str: comparator c_strcmp
proof
  show "c_strcmp a b \<le> 0 \<longleftrightarrow> 0 \<le> c_strcmp b a" for a b
    using c_strcmp_swap [of a b] by linarith
qed (rule c_strcmp_trans)

definition row_key :: "row \<Rightarrow> bytes \<times> bytes" where
  "row_key r = (c_str (date r), c_str (hour r))"

lemma cb_eq: "lcs_merge_counting_cb a b = 0 \<longleftrightarrow> row_key a = row_key b"
  by (auto simp: lcs_merge_counting_cb_def row_key_def Let_def c_strcmp_eq)

lemma cb_swap: "lcs_merge_counting_cb b a = - lcs_merge_counting_cb a b"
  using c_strcmp_swap [of "date a" "date b"] c_strcmp_swap [of "hour a" "hour b"]
  by (auto simp: lcs_merge_counting_cb_def Let_def)

interpretation rows: comparator lcs_merge_counting_cb
proof
  show "lcs_merge_counting_cb a b \<le> 0 \<longleftrightarrow> 0 \<le> lcs_merge_counting_cb b a" for a b
    using cb_swap [of a b] by linarith
next
  fix a b c
  assume ab: "lcs_merge_counting_cb a b \<le> 0" and bc: "lcs_merge_counting_cb b c \<le> 0"
  let ?d = "\<lambda>x y. c_strcmp (date x) (date y)"
  have le: "?d a b \<le> 0" "?d b c \<le> 0" using ab bc by (auto simp: lcs_merge_counting_cb_def Let_def split: if_splits)
  have ac: "?d a c \<le> 0" using le by (rule c_strcmp_trans)
  show "lcs_merge_counting_cb a c \<le> 0"
  proof (cases "?d a c = 0")
    case False
    with ac show ?thesis by (simp add: lcs_merge_counting_cb_def Let_def)
  next
    case True
    then have "?d c a \<le> 0" using c_strcmp_swap [of "date c" "date a"] by simp
    then have "?d b a \<le> 0" "?d c b \<le> 0" using le c_strcmp_trans by blast+
    then have "?d a b = 0" "?d b c = 0"
      using le c_strcmp_swap [of "date a" "date b"] c_strcmp_swap [of "date b" "date c"] by auto
    then have "c_strcmp (hour a) (hour b) \<le> 0" "c_strcmp (hour b) (hour c) \<le> 0"
      using ab bc by (auto simp: lcs_merge_counting_cb_def)
    then have "c_strcmp (hour a) (hour c) \<le> 0" by (rule c_strcmp_trans)
    with True show ?thesis by (simp add: lcs_merge_counting_cb_def)
  qed
qed

text \<open>A whole array, of at least one element, is sorted with any comparison.\<close>

lemma qsort_one: "qsort_ext st f [a] 0 0 = Some (if f a a < 0 then [st a] else [a])"
  by (simp add: qsort_ext.simps part_ext_def part_loop.simps rd_def wr_def swap_at_def)

context comparator
begin

lemma qsort_whole:
  assumes "xs \<noteq> []"
  shows "\<exists>ys. qsort_ext id f xs 0 (int (length xs) - 1) = Some ys \<and> mset ys = mset xs \<and> sorted_wrt (\<lambda>a b. f a b \<le> 0) ys"
proof (cases "length xs = 1")
  case True
  then obtain a where "xs = [a]" by (auto simp: length_Suc_conv)
  then show ?thesis by (simp add: qsort_one)
next
  case False
  with assms have "0 < int (length xs) - 1" by (cases xs) auto
  then obtain ys where y: "qsort_ext id f xs 0 (int (length xs) - 1) = Some ys"
      "perm_on 0 (int (length xs) - 1) xs ys" "sorted_on f ys 0 (int (length xs) - 1)"
    using qsort_ext_sorts [of 0 "int (length xs) - 1" xs id] by auto
  then show ?thesis using sorted_on_whole [of f ys] by (auto simp: perm_on_def)
qed

end

section \<open>Tables and directories\<close>

lemma cgen_fields:
  assumes "\<forall>t \<in> set ts. t \<noteq> [] \<and> length t < 64 \<and> (\<forall>b \<in> set t. \<not> comma_nl b)" "comma_nl d"
  shows "lcs_cgen_list (concat (map (\<lambda>t. t @ [d]) ts)) root = Some (root @ ts)"
  using assms
proof (induction ts arbitrary: root)
  case Nil
  then show ?case by (simp add: lcs_cgen_list.simps strtok_def)
next
  case (Cons t ts)
  then show ?case
    by (subst lcs_cgen_list.simps) (simp add: strtok_field(1) fit_def)
qed

text \<open>the entries of the wanted type other than the directory itself and its parent\<close>

definition entries :: "ftype \<Rightarrow> dirent list \<Rightarrow> bytes list" where
  "entries want ds = map fst (filter (\<lambda>(n, st). st = Some want \<and> c_strcmp n (lit ''.'') \<noteq> 0 \<and> c_strcmp n (lit ''..'') \<noteq> 0) ds)"

lemma scan_dir_entries:
  assumes "\<forall>(n, st) \<in> set ds. length path + length n < 1023" and "length acc \<le> 62"
  shows "if length acc + length (entries want ds) \<le> 62
    then \<exists>e'. scan_dir want path ds e acc = Some (e', acc @ entries want ds)
    else scan_dir want path ds e acc = None"
  using assms
proof (induction ds arbitrary: e acc)
  case (Cons d ds)
  obtain n st where d: "d = (n, st)" by (cases d)
  have fits: "fit 1024 (path @ lit ''/'' @ n) \<noteq> None" using Cons.prems d by (auto simp: fit_def)
  have IH: "\<And>e acc. length acc \<le> 62 \<Longrightarrow> if length acc + length (entries want ds) \<le> 62
    then \<exists>e'. scan_dir want path ds e acc = Some (e', acc @ entries want ds)
    else scan_dir want path ds e acc = None" using Cons by auto
  show ?case
  proof (cases "st = Some want \<and> c_strcmp n (lit ''.'') \<noteq> 0 \<and> c_strcmp n (lit ''..'') \<noteq> 0")
    case True
    then show ?thesis
      using fits IH [of "acc @ [n]" e] Cons.prems(2) d
      by (cases "length acc < 62") (auto simp: entries_def split: option.splits)
  next
    case False
    then have w: "entries want (d # ds) = entries want ds" by (auto simp: entries_def d)
    have "\<exists>e1. scan_dir want path (d # ds) e acc = scan_dir want path ds e1 acc"
      using False fits d by (auto split: option.splits)
    then show ?thesis using IH [OF Cons.prems(2)] w by metis
  qed
qed (simp add: entries_def)

section \<open>Merging\<close>

definition counts :: "row \<Rightarrow> int list" where
  "counts r = [totalcall r, totalfullchannel r, viettelauto r, viettelfull r,
     mobileauto r, mobilefull r, vinaauto r, vinafull r]"

definition col :: "nat \<Rightarrow> row list \<Rightarrow> int" where
  "col k rs = (\<Sum>r \<leftarrow> rs. counts r ! k)"

lemma row_add_counts:
  assumes "\<And>k. k < 8 \<Longrightarrow> is_int (counts a ! k + counts b ! k)"
  shows "\<exists>c. row_add a b = Some c \<and> date c = date a \<and> hour c = hour a \<and>
           (\<forall>k < 8. counts c ! k = counts a ! k + counts b ! k)"
proof -
  have ok: "is_int (totalcall a + totalcall b)" "is_int (totalfullchannel a + totalfullchannel b)"
    "is_int (viettelauto a + viettelauto b)" "is_int (viettelfull a + viettelfull b)"
    "is_int (mobileauto a + mobileauto b)" "is_int (mobilefull a + mobilefull b)"
    "is_int (vinaauto a + vinaauto b)" "is_int (vinafull a + vinafull b)"
    using assms [of 0] assms [of 1] assms [of 2] assms [of 3] assms [of 4] assms [of 5] assms [of 6] assms [of 7]
    by (auto simp: counts_def)
  have lt8: "k < 8 \<Longrightarrow> k \<in> {0, 1, 2, 3, 4, 5, 6, 7}" for k :: nat by auto
  show ?thesis using ok by (auto simp: row_add_def add_int_def counts_def dest!: lt8)
qed

text \<open>the loops over the array as recursions over the rows behind the index\<close>

fun sum_rows :: "row \<Rightarrow> row list \<Rightarrow> row option" where
  "sum_rows acc [] = Some acc"
| "sum_rows acc (r # rs) = do { a \<leftarrow> row_add acc r; sum_rows a rs }"

lemma rd_at: "rd (pre @ r # rest) (int (length pre)) = Some r"
  by (simp add: rd_def)

lemma add_rows_list:
  "add_rows (pre @ seg @ post) acc (int (length pre)) (int (length pre + length seg) - 1) = sum_rows acc seg"
proof (induction seg arbitrary: pre acc)
  case Nil
  then show ?case by (simp add: add_rows.simps)
next
  case (Cons r seg)
  have "add_rows (pre @ (r # seg) @ post) a (int (length pre) + 1) (int (length pre + length (r # seg)) - 1) = sum_rows a seg" for a
    using Cons.IH [of "pre @ [r]" a] by (simp add: add.commute)
  then show ?case
    by (subst add_rows.simps) (simp add: rd_at split: option.splits)
qed

lemma group_end_list:
  assumes "\<forall>x \<in> set seg. row_key x = row_key r" and "post = [] \<or> row_key (hd post) \<noteq> row_key r"
    and "n = int (length (pre @ r # seg @ post))"
  shows "group_end (pre @ r # seg @ post) n (int (length pre)) = Some (int (length pre + length seg))"
  using assms
proof (induction seg arbitrary: pre r)
  case Nil
  show ?case
  proof (cases post)
    case Nil
    with Nil.prems(3) show ?thesis by (simp add: group_end.simps)
  next
    case (Cons p ps)
    have "rd (pre @ r # p # ps) (int (length pre) + 1) = Some p" using rd_at [of "pre @ [r]" p ps] by (simp add: add.commute)
    with Nil Cons show ?thesis
      by (subst group_end.simps) (auto simp: rd_at row_key_def c_strcmp_eq)
  qed
next
  case (Cons x seg)
  have "rd (pre @ r # x # seg @ post) (int (length pre) + 1) = Some x"
    using rd_at [of "pre @ [r]" x "seg @ post"] by (simp add: add.commute)
  moreover have "group_end (pre @ r # x # seg @ post) n (int (length pre) + 1) = Some (int (length pre + length (x # seg)))"
    using Cons.IH [of x "pre @ [r]"] Cons.prems by (simp add: add.commute)
  moreover have "row_key x = row_key r" using Cons.prems by simp
  ultimately show ?case using Cons.prems(3)
    by (subst group_end.simps) (simp add: rd_at row_key_def c_strcmp_eq)
qed

function merge_rows :: "row list \<Rightarrow> row list option" where
  "merge_rows [] = Some []"
| "merge_rows (r # rs) = do {
     acc \<leftarrow> sum_rows r (takeWhile (\<lambda>x. row_key x = row_key r) rs);
     map_option (Cons acc) (merge_rows (dropWhile (\<lambda>x. row_key x = row_key r) rs))
   }"
  by pat_completeness auto
termination by (relation "measure length") (auto simp: le_imp_less_Suc length_dropWhile_le)

lemma merge_loop_list: "merge_loop (pre @ rest) (int (length (pre @ rest))) (int (length pre)) = merge_rows rest"
proof (induction rest arbitrary: pre rule: merge_rows.induct)
  case 1
  then show ?case by (simp add: merge_loop.simps)
next
  case (2 r rs)
  let ?P = "\<lambda>x. row_key x = row_key r"
  define seg post where "seg = takeWhile ?P rs" and "post = dropWhile ?P rs"
  have rs: "rs = seg @ post" by (simp add: seg_def post_def)
  have post: "post = [] \<or> row_key (hd post) \<noteq> row_key r" using hd_dropWhile [of ?P rs] by (auto simp: post_def)
  have seg: "\<forall>x \<in> set seg. row_key x = row_key r" unfolding seg_def by (auto dest: set_takeWhileD)
  let ?arr = "pre @ r # seg @ post"
  have g: "group_end ?arr (int (length ?arr)) (int (length pre)) = Some (int (length pre + length seg))"
    by (rule group_end_list [OF seg post refl])
  have a: "add_rows ?arr r (int (length pre) + 1) (int (length pre + length seg)) = sum_rows r seg"
    using add_rows_list [of "pre @ [r]" seg post r] by (simp add: add.commute)
  have m: "merge_loop ?arr (int (length ?arr)) (int (length pre + length seg) + 1) = merge_rows post"
    if "sum_rows r seg = Some acc" for acc
    using 2 [folded seg_def post_def, OF that, of "pre @ r # seg"] by (simp add: ac_simps)
  have "merge_loop ?arr (int (length ?arr)) (int (length pre)) =
      (case sum_rows r seg of None \<Rightarrow> None | Some acc \<Rightarrow> map_option (Cons acc) (merge_rows post))"
    using g a m by (subst merge_loop.simps) (simp add: rd_at split: option.splits)
  then show ?case by (simp add: rs [symmetric] seg_def [symmetric] post_def [symmetric] Option.bind_eq_Some_conv split: option.splits)
qed

lemma col_Cons [simp]: "col k [] = 0" "col k (r # rs) = counts r ! k + col k rs"
  by (simp_all add: col_def)

lemma col_append: "col k (xs @ ys) = col k xs + col k ys"
  by (simp add: col_def)

definition nonneg :: "row list \<Rightarrow> bool" where
  "nonneg rs \<longleftrightarrow> (\<forall>r \<in> set rs. \<forall>k < 8. 0 \<le> counts r ! k)"

lemma nonneg_Cons [simp]: "nonneg []" "nonneg (r # rs) \<longleftrightarrow> (\<forall>k < 8. 0 \<le> counts r ! k) \<and> nonneg rs"
  by (auto simp: nonneg_def)

lemma col_nonneg: "nonneg rs \<Longrightarrow> k < 8 \<Longrightarrow> 0 \<le> col k rs"
  by (induction rs) auto

lemma sum_rows_col:
  assumes "nonneg (acc # rs)" "\<And>k. k < 8 \<Longrightarrow> counts acc ! k + col k rs < 2 ^ 31"
  shows "\<exists>c. sum_rows acc rs = Some c \<and> date c = date acc \<and> hour c = hour acc \<and>
           (\<forall>k < 8. counts c ! k = counts acc ! k + col k rs)"
  using assms
proof (induction rs arbitrary: acc)
  case (Cons r rs)
  have "is_int (counts acc ! k + counts r ! k)" if "k < 8" for k
  proof -
    have "0 \<le> counts acc ! k + counts r ! k" using Cons.prems(1) that by simp
    moreover have "counts acc ! k + counts r ! k < 2 ^ 31"
      using Cons.prems(1) Cons.prems(2) [OF that] col_nonneg [of rs k] that by simp
    ultimately show ?thesis by (simp add: is_int_def)
  qed
  then obtain a where a: "row_add acc r = Some a" "date a = date acc" "hour a = hour acc"
      "\<forall>k < 8. counts a ! k = counts acc ! k + counts r ! k" using row_add_counts by blast
  have "\<exists>c. sum_rows a rs = Some c \<and> date c = date a \<and> hour c = hour a \<and>
      (\<forall>k < 8. counts c ! k = counts a ! k + col k rs)"
    by (rule Cons.IH) (use Cons.prems a in \<open>auto simp: add.assoc\<close>)
  with a show ?case by (auto simp: add.assoc)
qed simp

lemma cb_less_trans:
  assumes "lcs_merge_counting_cb a b < 0" "lcs_merge_counting_cb b c \<le> 0"
  shows "lcs_merge_counting_cb a c < 0"
proof (rule ccontr)
  assume "\<not> ?thesis"
  then have "lcs_merge_counting_cb c a \<le> 0" using cb_swap [of a c] by simp
  then have "lcs_merge_counting_cb b a \<le> 0" using assms(2) rows.cmp_trans by blast
  then show False using assms(1) cb_swap [of a b] by simp
qed

lemma cb_key: "row_key a = row_key a' \<Longrightarrow> lcs_merge_counting_cb a b \<le> 0 \<longleftrightarrow> lcs_merge_counting_cb a' b \<le> 0"
  using cb_eq [of a a'] cb_eq [of a' a] rows.cmp_trans [of a a' b] rows.cmp_trans [of a' a b] by auto

text \<open>In a sorted list the rows behind the first group come strictly after it.\<close>

lemma sorted_group:
  assumes "sorted_wrt (\<lambda>a b. lcs_merge_counting_cb a b \<le> 0) (r # rs)"
    and "x \<in> set (dropWhile (\<lambda>x. row_key x = row_key r) rs)"
  shows "lcs_merge_counting_cb r x < 0"
proof -
  let ?P = "\<lambda>x. row_key x = row_key r"
  obtain h ys where d: "dropWhile ?P rs = h # ys" using assms(2) by (cases "dropWhile ?P rs") auto
  have h: "\<not> ?P h" using hd_dropWhile [of ?P rs] d by simp
  have hin: "h \<in> set rs" using d by (metis list.set_intros(1) set_dropWhileD)
  have "sorted_wrt (\<lambda>a b. lcs_merge_counting_cb a b \<le> 0) (takeWhile ?P rs @ h # ys)"
    using assms(1) d by (metis sorted_wrt.simps(2) takeWhile_dropWhile_id)
  then have ys: "\<forall>y \<in> set ys. lcs_merge_counting_cb h y \<le> 0" by (simp add: sorted_wrt_append)
  have "lcs_merge_counting_cb r h \<le> 0" using assms(1) hin by simp
  then have less: "lcs_merge_counting_cb r h < 0" using h cb_eq [of r h] by force
  show ?thesis using assms(2) d less ys cb_less_trans [OF less] by auto
qed

lemma filter_split: "filter Q xs = filter Q (takeWhile P xs) @ filter Q (dropWhile P xs)"
  by (metis filter_append takeWhile_dropWhile_id)

lemma merge_rows_spec:
  assumes "sorted_wrt (\<lambda>a b. lcs_merge_counting_cb a b \<le> 0) rs" "nonneg rs" "\<And>k. k < 8 \<Longrightarrow> col k rs < 2 ^ 31"
  shows "\<exists>out. merge_rows rs = Some out \<and> sorted_wrt (\<lambda>a b. lcs_merge_counting_cb a b < 0) out \<and>
    row_key ` set out = row_key ` set rs \<and>
    (\<forall>q \<in> set out. (\<exists>r \<in> set rs. date q = date r \<and> hour q = hour r) \<and>
       (\<forall>k < 8. counts q ! k = col k (filter (\<lambda>r. row_key r = row_key q) rs)))"
  using assms
proof (induction rs rule: merge_rows.induct)
  case (2 r rs)
  let ?P = "\<lambda>x. row_key x = row_key r"
  let ?seg = "takeWhile ?P rs" and ?post = "dropWhile ?P rs"
  have rs: "rs = ?seg @ ?post" by simp
  have nn: "nonneg ?seg" "nonneg ?post" using "2.prems"(2) by (auto simp: nonneg_def dest: set_takeWhileD set_dropWhileD)
  have c: "col k rs = col k ?seg + col k ?post" for k using col_append [of k ?seg ?post] by simp
  obtain acc where acc: "sum_rows r ?seg = Some acc" "date acc = date r" "hour acc = hour r"
      "\<forall>k < 8. counts acc ! k = counts r ! k + col k ?seg"
  proof -
    have "counts r ! k + col k ?seg < 2 ^ 31" if "k < 8" for k
      using "2.prems"(3) [OF that] c [of k] col_nonneg [OF nn(2) that] by simp
    moreover have "nonneg (r # ?seg)" using nn(1) "2.prems"(2) by simp
    ultimately show thesis using sum_rows_col [of r ?seg] that by blast
  qed
  have srt: "sorted_wrt (\<lambda>a b. lcs_merge_counting_cb a b \<le> 0) ?post"
    unfolding dropWhile_eq_drop by (rule sorted_wrt_drop) (use "2.prems"(1) in simp)
  have "col k ?post < 2 ^ 31" if "k < 8" for k
  proof -
    have "0 \<le> counts r ! k" using "2.prems"(2) that by simp
    then show ?thesis using "2.prems"(3) [OF that] c [of k] col_nonneg [OF nn(1) that] by simp
  qed
  then obtain out where out: "merge_rows ?post = Some out" "sorted_wrt (\<lambda>a b. lcs_merge_counting_cb a b < 0) out"
      "row_key ` set out = row_key ` set ?post"
      "\<forall>q \<in> set out. (\<exists>r \<in> set ?post. date q = date r \<and> hour q = hour r) \<and>
         (\<forall>k < 8. counts q ! k = col k (filter (\<lambda>r. row_key r = row_key q) ?post))"
    using "2.IH" [OF acc(1) srt nn(2)] by auto
  have post: "lcs_merge_counting_cb r x < 0" if "x \<in> set ?post" for x
    by (rule sorted_group [OF "2.prems"(1) that])
  have seg: "\<forall>x \<in> set ?seg. ?P x" by (auto dest: set_takeWhileD)
  have key: "row_key acc = row_key r" using acc by (simp add: row_key_def)
  have pkey: "row_key x \<noteq> row_key r" if "x \<in> set ?post" for x
    using post [OF that] cb_eq [of r x] by auto
  have okey: "row_key q \<noteq> row_key r" if "q \<in> set out" for q
  proof -
    have "row_key q \<in> row_key ` set ?post" unfolding out(3) [symmetric] using that by (rule imageI)
    then obtain x where "row_key q = row_key x" "x \<in> set ?post" by (rule imageE)
    with pkey [of x] show ?thesis by metis
  qed
  have "lcs_merge_counting_cb acc q < 0" if "q \<in> set out" for q
  proof -
    obtain x where "x \<in> set ?post" "date q = date x" "hour q = hour x" using out(4) \<open>q \<in> set out\<close> by blast
    with post [of x] acc(2,3) show ?thesis by (simp add: lcs_merge_counting_cb_def Let_def split: if_splits)
  qed
  then have "sorted_wrt (\<lambda>a b. lcs_merge_counting_cb a b < 0) (acc # out)" using out(2) by simp
  moreover have "row_key ` set (acc # out) = row_key ` set (r # rs)"
  proof -
    have "row_key ` set rs = row_key ` set ?seg \<union> row_key ` set ?post"
      by (metis image_Un set_append takeWhile_dropWhile_id)
    moreover have "row_key ` set ?seg \<subseteq> {row_key r}" using seg by blast
    ultimately have "insert (row_key r) (row_key ` set rs) = insert (row_key r) (row_key ` set ?post)" by blast
    then show ?thesis using key out(3) by simp
  qed
  moreover have "filter ?P (r # rs) = r # ?seg"
  proof -
    have "filter ?P ?seg = ?seg" unfolding filter_id_conv by (rule seg)
    moreover have "filter ?P ?post = []" unfolding filter_empty_conv using pkey by blast
    ultimately show ?thesis using filter_split [of ?P rs ?P] by simp
  qed
  then have "\<forall>k < 8. counts acc ! k = col k (filter (\<lambda>x. row_key x = row_key acc) (r # rs))"
    using acc(4) key by simp
  moreover have "filter (\<lambda>x. row_key x = row_key q) (r # rs) = filter (\<lambda>x. row_key x = row_key q) ?post"
    if "q \<in> set out" for q
  proof -
    have "filter (\<lambda>x. row_key x = row_key q) ?seg = []"
      unfolding filter_empty_conv using seg okey [OF that] by metis
    then show ?thesis using okey [OF that] filter_split [of "\<lambda>x. row_key x = row_key q" rs ?P] by simp
  qed
  moreover have "\<exists>x \<in> set (r # rs). date q = date x \<and> hour q = hour x" if "q \<in> set (acc # out)" for q
  proof (cases "q = acc")
    case True
    with acc(2,3) show ?thesis by simp
  next
    case False
    with that obtain x where "x \<in> set ?post" "date q = date x" "hour q = hour x" using out(4) by auto
    then show ?thesis using set_dropWhileD [of x ?P rs] by auto
  qed
  moreover have "merge_rows (r # rs) = Some (acc # out)" using acc(1) out(1) by simp
  moreover have "\<forall>q \<in> set out. \<forall>k < 8. counts q ! k = col k (filter (\<lambda>x. row_key x = row_key q) ?post)"
    using out(4) by blast
  ultimately show ?case by (intro exI [of _ "acc # out"]) simp
qed simp


lemma col_mset: "col k xs = (\<Sum>r \<in># mset xs. counts r ! k)"
  by (induction xs) auto

lemma col_perm: "mset xs = mset ys \<Longrightarrow> col k (filter P xs) = col k (filter P ys)"
  by (simp add: col_mset)

section \<open>Reading rows\<close>

text \<open>a row that can be stored and read back: fields that fit, are not empty and hold no delimiter\<close>

definition row_ok :: "row \<Rightarrow> bool" where
  "row_ok r \<longleftrightarrow> date r \<noteq> [] \<and> length (date r) < 12 \<and> hour r \<noteq> [] \<and> length (hour r) < 4 \<and>
     (\<forall>b \<in> set (date r) \<union> set (hour r). \<not> tab_nl b) \<and> (\<forall>c \<in> set (counts r). is_int c)"

lemma next_int_sdec: "is_int v \<Longrightarrow> tab_nl d \<Longrightarrow> next_int (sdec v @ d # s) data = Some (v, s)"
  using sdec_plain [of v] strtok_field(1) [of "sdec v" tab_nl d s]
  by (auto simp: next_int_def scan_d_sdec tab_nl_def)

lemma read_row_line:
  assumes "row_ok r"
  shows "\<exists>s1. strtok tab_nl (row_line r @ s) = Some (date r, s1) \<and>
           read_row (date r) s1 data = Some (r, vinafull r, s)"
proof -
  have t: "tab_nl 9" "tab_nl 10" by (auto simp: tab_nl_def)
  have ok: "is_int (totalcall r)" "is_int (totalfullchannel r)" "is_int (viettelauto r)" "is_int (viettelfull r)"
    "is_int (mobileauto r)" "is_int (mobilefull r)" "is_int (vinaauto r)" "is_int (vinafull r)"
    and f: "date r \<noteq> []" "length (date r) < 12" "\<forall>b \<in> set (date r). \<not> tab_nl b"
      "hour r \<noteq> []" "length (hour r) < 4" "\<forall>b \<in> set (hour r). \<not> tab_nl b"
    using assms by (auto simp: row_ok_def counts_def)
  show ?thesis
    using strtok_field(1) [OF f(1,3) t(1)] strtok_field(1) [OF f(4,6) t(1)] f(2,5)
    by (simp add: row_line_def read_row_def fit_def next_int_sdec ok t)
qed

lemma collect_lines:
  "\<forall>r \<in> set rs. row_ok r \<Longrightarrow> collect_loop (concat (map row_line rs)) data root = Some (root @ rs)"
proof (induction rs arbitrary: data root)
  case Nil
  then show ?case by (simp add: collect_loop.simps strtok_def)
next
  case (Cons r rs)
  then obtain s1 where "strtok tab_nl (concat (map row_line (r # rs))) = Some (date r, s1)"
      "read_row (date r) s1 data = Some (r, vinafull r, concat (map row_line rs))"
    using read_row_line [of r "concat (map row_line rs)" data] by auto
  with Cons show ?case by (subst collect_loop.simps) simp
qed

section \<open>Properties\<close>

text \<open>
  \<^verbatim>\<open>lcs_quick_sort\<close> leaves every array of at least one string permuted and ascending in the
  order of \<^verbatim>\<open>strcmp\<close>, without leaving the array.
\<close>

theorem lcs_quick_sort_correct:
  assumes "xs \<noteq> []"
  shows "\<exists>ys. lcs_quick_sort xs 0 (int (length xs) - 1) = Some ys \<and> mset ys = mset xs \<and>
           sorted_wrt (\<lambda>a b. c_strcmp a b \<le> 0) ys"
  using str.qsort_whole [OF assms] by (simp add: lcs_quick_sort_def)

lemma merge005:
  assumes "root \<noteq> []" "nonneg root" "\<forall>k < 8. col k root < 2 ^ 31"
  shows "\<exists>out. lcs_merge005_list True root (int (length root)) = Some (Some (concat (map row_line out))) \<and>
    sorted_wrt (\<lambda>a b. lcs_merge_counting_cb a b < 0) out \<and> row_key ` set out = row_key ` set root \<and>
    (\<forall>q \<in> set out. (\<exists>r \<in> set root. date q = date r \<and> hour q = hour r) \<and>
       (\<forall>k < 8. counts q ! k = col k (filter (\<lambda>r. row_key r = row_key q) root)))"
proof -
  obtain arr where a: "qsort_ext id lcs_merge_counting_cb root 0 (int (length root) - 1) = Some arr"
      "mset arr = mset root" "sorted_wrt (\<lambda>a b. lcs_merge_counting_cb a b \<le> 0) arr"
    using rows.qsort_whole [OF assms(1)] by auto
  have s: "set arr = set root" "length arr = length root" using a(2) by (metis set_mset_mset, metis size_mset)
  have c: "col k (filter P arr) = col k (filter P root)" for k P using col_perm [OF a(2)] .
  obtain out where o: "merge_rows arr = Some out" "sorted_wrt (\<lambda>a b. lcs_merge_counting_cb a b < 0) out"
      "row_key ` set out = row_key ` set arr"
      "\<forall>q \<in> set out. (\<exists>r \<in> set arr. date q = date r \<and> hour q = hour r) \<and>
         (\<forall>k < 8. counts q ! k = col k (filter (\<lambda>r. row_key r = row_key q) arr))"
    using merge_rows_spec [OF a(3)] assms(2,3) s c [where P = "\<lambda>_. True"] by (auto simp: nonneg_def)
  have "merge_loop arr (int (length root)) 0 = Some out" using merge_loop_list [of "[]" arr] s o(1) by simp
  then show ?thesis using a(1) o s c by (auto simp: lcs_merge005_list_def lcs_quick_sort_ext_def)
qed

text \<open>
  \<^verbatim>\<open>lcs_merge005_list\<close> writes one line for every date and hour that occurs, in strictly ascending
  order, and each of its eight columns is the sum of that column over all rows of that date and hour,
  for counts that are not negative and whose totals fit into an \<^verbatim>\<open>int\<close>.
\<close>

theorem merge005_correct:
  assumes "root \<noteq> []" "nonneg root" "\<forall>k < 8. col k root < 2 ^ 31"
  shows "\<exists>out. lcs_merge005_list True root (int (length root)) = Some (Some (concat (map row_line out))) \<and>
    sorted_wrt (\<lambda>a b. lcs_merge_counting_cb a b < 0) out \<and> row_key ` set out = row_key ` set root \<and>
    (\<forall>q \<in> set out. \<forall>k < 8. counts q ! k = col k (filter (\<lambda>r. row_key r = row_key q) root))"
proof -
  obtain out where o: "lcs_merge005_list True root (int (length root)) = Some (Some (concat (map row_line out)))"
    "sorted_wrt (\<lambda>a b. lcs_merge_counting_cb a b < 0) out" "row_key ` set out = row_key ` set root"
    "\<forall>q \<in> set out. (\<exists>r \<in> set root. date q = date r \<and> hour q = hour r) \<and>
       (\<forall>k < 8. counts q ! k = col k (filter (\<lambda>r. row_key r = row_key q) root))"
    using merge005 [OF assms] by (elim exE conjE)
  then show ?thesis by (intro exI [of _ out]) simp
qed

text \<open>
  What \<^verbatim>\<open>lcs_merge005_list\<close> writes is read back by the collector: the lines of rows whose fields fit
  are parsed to the same rows.
\<close>

theorem rows_roundtrip:
  assumes "\<forall>r \<in> set rs. row_ok r"
  shows "collect_loop (concat (map row_line rs)) 0 [] = Some rs"
  using collect_lines [OF assms] by simp

text \<open>
  \<^verbatim>\<open>lcs_hcollect005_sum\<close> reads freed memory on every text with at least one row: its last loop
  takes the next pointer out of the node it has just given back.
\<close>

theorem hcollect_use_after_free:
  assumes "lcs_hcollect005_sum can_open text = Some (w, uaf)"
  shows "uaf \<longleftrightarrow> strtok tab_nl text \<noteq> None"
proof -
  have grow: "\<exists>more. root' = root @ more" if "collect_loop s d root = Some root'" for s d root root'
    using that
  proof (induction s d root rule: collect_loop.induct)
    case (1 s d root)
    then show ?case by (subst (asm) (2) collect_loop.simps) (fastforce split: option.splits)
  qed
  obtain root where r: "collect_loop text 0 [] = Some root" "uaf = (root \<noteq> [])"
    using assms by (auto simp: lcs_hcollect005_sum_def bind_eq_Some_conv)
  show ?thesis
  proof (cases "strtok tab_nl text")
    case None
    with r show ?thesis by (simp add: collect_loop.simps)
  next
    case (Some x)
    from r(1) Some have "\<exists>q s d. collect_loop s d [q] = Some root"
      by (subst (asm) collect_loop.simps) (cases x, auto split: option.splits prod.splits)
    then obtain q s d where "collect_loop s d [q] = Some root" by blast
    with grow Some r(2) show ?thesis by fastforce
  qed
qed

text \<open>
  \<^verbatim>\<open>lcs_cgen_list\<close> appends to its list exactly the names of a text in which every name, not empty and
  shorter than 64 bytes, is followed by a comma or a newline.
\<close>

theorem cgen_list_roundtrip:
  assumes "\<forall>t \<in> set ts. t \<noteq> [] \<and> length t < 64 \<and> (\<forall>b \<in> set t. \<not> comma_nl b)" "comma_nl d"
  shows "lcs_cgen_list (concat (map (\<lambda>t. t @ [d]) ts)) root = Some (root @ ts)"
  using assms by (rule cgen_fields)

text \<open>
  \<^verbatim>\<open>lcs_comm_subdir\<close> on a directory with 1 to 62 subdirectories gives their names sorted by
  \<^verbatim>\<open>strcmp\<close>; with more it writes behind its array of 62 pointers, and with none it sorts an empty range
  and reads in front of the array.
\<close>

theorem subdir_sorted:
  assumes "opendir path = Some ds" "\<forall>(n, st) \<in> set ds. length path + length n < 1023"
  shows "if 1 \<le> length (entries Dir ds) \<and> length (entries Dir ds) \<le> 62
    then \<exists>e' names. lcs_comm_subdir opendir path e = Some (e', Some names) \<and> mset names = mset (entries Dir ds) \<and>
           sorted_wrt (\<lambda>a b. c_strcmp a b \<le> 0) names
    else lcs_comm_subdir opendir path e = None"
proof (cases "entries Dir ds = []")
  case True
  have "lcs_quick_sort [] 0 (-1) = None"
    by (simp add: lcs_quick_sort_def qsort_ext.simps part_ext_def rd_def)
  with True assms scan_dir_entries [OF assms(2), of "[]" Dir e] show ?thesis
    by (auto simp: lcs_comm_subdir_def)
next
  case False
  with assms(1) scan_dir_entries [OF assms(2), of "[]" Dir e] str.qsort_whole [OF False] show ?thesis
    by (auto simp: lcs_comm_subdir_def lcs_quick_sort_def Suc_le_eq split: if_splits)
qed

text \<open>
  \<^verbatim>\<open>lcs_bash_cmdext\<close> returns no more than the first line of what a program prints, whatever
  follows: its loop always ends after one turn, since \<^verbatim>\<open>fgets\<close> never gives 1024 bytes.
\<close>

theorem bash_cmdext_first_line:
  assumes "10 \<notin> set l" "length l < 1023" "0 \<notin> set l"
  shows "lcs_bash_cmdext (Some (l @ 10 # rest)) (Some text) = Some (text @ l @ [10])"
proof -
  have "fgets 1024 (l @ 10 # rest) = (l @ [10], rest)"
  proof -
    have "takeWhile (\<lambda>b. b \<noteq> 10) (l @ 10 # rest) = l"
      using assms(1) by (subst takeWhile_append2) auto
    then show ?thesis using assms(2) by (simp add: fgets_def Let_def)
  qed
  moreover have "c_str (l @ [10]) = l @ [10]"
    using assms(3) by (auto simp: c_str_def takeWhile_eq_all_conv)
  ultimately show ?thesis using assms(2) by (simp add: lcs_bash_cmdext_def bash_loop.simps)
qed

section \<open>Witnesses\<close>

definition demo_row :: row where
  "demo_row = \<lparr>date = lit ''2016-01-02'', hour = lit ''07'', totalcall = 5, totalfullchannel = 1, viettelauto = 2,
     viettelfull = 0, mobileauto = 3, mobilefull = 1, vinaauto = 0, vinafull = 0\<rparr>"

lemma demo_counts: "counts demo_row = [5, 1, 2, 0, 3, 1, 0, 0]"
  by (simp add: counts_def demo_row_def)

lemma demo_count_range: "k < 8 \<Longrightarrow> 0 \<le> counts demo_row ! k \<and> counts demo_row ! k \<le> 5"
proof -
  assume "k < 8"
  then have "counts demo_row ! k \<in> set (counts demo_row)" by (intro nth_mem) (simp add: counts_def)
  then show ?thesis by (auto simp: demo_counts)
qed

lemma demo_row_ok: "row_ok demo_row"
  by (simp add: row_ok_def demo_counts is_int_def) (simp add: demo_row_def lit_def tab_nl_def)

theorem lcs_quick_sort_correct_witness:
  "\<exists>ys. lcs_quick_sort [[98], [97, 99], [97]] 0 2 = Some ys \<and> mset ys = mset [[98], [97, 99], [97]] \<and>
     sorted_wrt (\<lambda>a b. c_strcmp a b \<le> 0) ys"
  using lcs_quick_sort_correct [of "[[98], [97, 99], [97]]"] by simp

theorem merge005_correct_witness:
  "\<exists>out. lcs_merge005_list True [demo_row, demo_row] 2 = Some (Some (concat (map row_line out))) \<and>
     row_key ` set out = {row_key demo_row}"
proof -
  have "nonneg [demo_row, demo_row]" "\<forall>k < 8. col k [demo_row, demo_row] < 2 ^ 31"
    using demo_count_range by fastforce+
  from merge005_correct [OF _ this] show ?thesis by auto
qed

theorem rows_roundtrip_witness:
  "row_ok demo_row \<and> collect_loop (row_line demo_row @ row_line demo_row) 0 [] = Some [demo_row, demo_row]"
  using rows_roundtrip [of "[demo_row, demo_row]"] demo_row_ok by simp

theorem hcollect_use_after_free_witness:
  "\<exists>w. lcs_hcollect005_sum False (row_line demo_row) = Some (w, True)"
proof -
  have "collect_loop (row_line demo_row) 0 [] = Some [demo_row]"
    using collect_lines [of "[demo_row]" 0 "[]"] demo_row_ok by simp
  then obtain w where w: "lcs_hcollect005_sum False (row_line demo_row) = Some (w, True)"
    using qsort_one [of id lcs_merge_counting_cb demo_row]
    by (simp add: lcs_hcollect005_sum_def lcs_merge005_list_def lcs_quick_sort_ext_def)
  from hcollect_use_after_free [OF this] w show ?thesis by blast
qed

theorem cgen_list_roundtrip_witness:
  "lcs_cgen_list [97, 44, 98, 99, 44] [[100]] = Some [[100], [97], [98, 99]]"
  using cgen_list_roundtrip [of "[[97], [98, 99]]" 44 "[[100]]"] by (simp add: comma_nl_def)

theorem subdir_sorted_witness:
  "\<exists>e' names. lcs_comm_subdir (\<lambda>_. Some [([98], Some Dir), ([120], Some Reg), ([97], Some Dir)]) [112] 0 = Some (e', Some names) \<and>
     mset names = {#[98], [97]#} \<and> sorted_wrt (\<lambda>a b. c_strcmp a b \<le> 0) names"
proof -
  have "entries Dir [([98], Some Dir), ([120], Some Reg), ([97], Some Dir)] = [[98], [97]]"
    by (simp add: entries_def lit_def)
  with subdir_sorted [of "\<lambda>_. Some [([98], Some Dir), ([120], Some Reg), ([97], Some Dir)]" "[112]" _ 0, OF refl]
  show ?thesis by simp
qed

theorem bash_cmdext_first_line_witness:
  "lcs_bash_cmdext (Some [104, 105, 10, 120, 121, 10]) (Some []) = Some [104, 105, 10]"
  using bash_cmdext_first_line [of "[104, 105]" "[120, 121, 10]" "[]"] by simp

end
