(* ===== verification/CfgText.thy ===== *)
theory CfgText
  imports LcsCommon
begin

text \<open>
  The configuration texts of the cluster programs: words separated by white space, each a key that
  ends in a colon and a value, copied with \<^verbatim>\<open>memcpy\<close> into an array of a struct that was cleared
  before. Every program reads them with the same loop; what it does with a word is an argument here
  and a definition of the program in the theories that follow.

  Shown: a text of lines \<open>key value\<close> is read word by word; a key is found in a word exactly when the
  word was written for it; a value that is shorter than its array is the string read from it later.
\<close>

section \<open>Arrays that hold strings\<close>

text \<open>the string in an array; with no NUL in it, a reader would leave the array\<close>

definition fld :: "bytes \<Rightarrow> bytes option" where
  "fld b = (if 0 \<in> set b then Some (c_str b) else None)"

text \<open>\<^verbatim>\<open>sprintf(b, "%s", s)\<close> and \<^verbatim>\<open>strcat(b, s)\<close>\<close>

definition sprintf_to :: "bytes \<Rightarrow> bytes \<Rightarrow> bytes option" where
  "sprintf_to b s = mem_write b 0 (s @ [0])"

definition strcat_to :: "bytes \<Rightarrow> bytes \<Rightarrow> bytes option" where
  "strcat_to b s = do { c \<leftarrow> fld b; mem_write b (length c) (s @ [0]) }"

text \<open>a string at the start of a cleared array of \<open>n\<close> bytes\<close>

definition pad :: "nat \<Rightarrow> bytes \<Rightarrow> bytes" where
  "pad n s = s @ zeros (n - length s)"

lemma length_pad [simp]: "length s \<le> n \<Longrightarrow> length (pad n s) = n"
  by (simp add: pad_def)

lemma pad_Nil: "pad n [] = zeros n"
  by (simp add: pad_def)

lemma c_str_append_zero: "0 \<notin> set s \<Longrightarrow> c_str (s @ 0 # q) = s"
  by (auto simp: c_str_def takeWhile_append)

lemma c_str_plain: "0 \<notin> set s \<Longrightarrow> c_str s = s"
  by (auto simp: c_str_def takeWhile_eq_all_conv)

lemma fld_pad: "length s < n \<Longrightarrow> 0 \<notin> set s \<Longrightarrow> fld (pad n s) = Some s"
  by (cases "n - length s") (auto simp: fld_def pad_def c_str_append_zero)

lemma fld_zeros: "0 < n \<Longrightarrow> fld (zeros n) = Some []"
  using fld_pad [of "[]" n] by (simp add: pad_Nil)

lemma mem_write_zeros: "length s \<le> n \<Longrightarrow> mem_write (zeros n) 0 s = Some (pad n s)"
  by (simp add: mem_write_def pad_def)

lemma mem_write_pad: "length s' \<le> n \<Longrightarrow> length s = length s' \<Longrightarrow> mem_write (pad n s) 0 s' = Some (pad n s')"
  by (simp add: mem_write_def pad_def)

lemma sprintf_zeros: "length s < n \<Longrightarrow> sprintf_to (zeros n) s = Some (pad n s)"
proof -
  assume "length s < n"
  then obtain k where "n - length s = Suc k" by (cases "n - length s") auto
  then show ?thesis using \<open>length s < n\<close> by (simp add: sprintf_to_def mem_write_zeros pad_def)
qed

section \<open>The loop over the words\<close>

definition blank :: "byte \<Rightarrow> bool" where
  "blank b \<longleftrightarrow> b = 32 \<or> b = 13 \<or> b = 10"

function cfg_loop :: "(bytes \<Rightarrow> 'a \<Rightarrow> 'a option) \<Rightarrow> bytes \<Rightarrow> 'a \<Rightarrow> 'a option" where
  "cfg_loop item s info =
     (case strtok blank s of None \<Rightarrow> Some info
      | Some (pch, rest) \<Rightarrow>
          case item pch info of None \<Rightarrow> None | Some info' \<Rightarrow> cfg_loop item rest info')"
  by pat_completeness auto
termination
  by (relation "measure (\<lambda>(item, s, info). length s)") (auto dest: strtok_shorter)

declare cfg_loop.simps [simp del]

text \<open>
  \<^verbatim>\<open>lcs_file_text\<close> and the loop. Without the file the first call is \<^verbatim>\<open>strtok(0, ...)\<close> before any
  string was given to it, which is undefined.
\<close>

definition cfg_file :: "(bytes \<Rightarrow> 'a \<Rightarrow> 'a option) \<Rightarrow> (bytes \<Rightarrow> bytes option) \<Rightarrow> bytes \<Rightarrow> 'a \<Rightarrow> 'a option" where
  "cfg_file item files path info =
     (case snd (lcs_file_text files path) of None \<Rightarrow> None
      | Some text \<Rightarrow> cfg_loop item (c_str text) info)"

text \<open>\<^verbatim>\<open>strstr(item, base)\<close> and \<^verbatim>\<open>memcpy(field, &item[strlen(base)], strlen(item) - strlen(base))\<close>\<close>

definition has :: "bytes \<Rightarrow> string \<Rightarrow> bool" where
  "has item base \<longleftrightarrow> strstr item (lit base) \<noteq> None"

definition cfg_copy :: "bytes \<Rightarrow> bytes \<Rightarrow> string \<Rightarrow> bytes option" where
  "cfg_copy field item base = mem_write field 0 (drop (length base) item)"

section \<open>Words and keys\<close>

text \<open>what a value may hold to be read back, and the form of a key\<close>

definition word :: "bytes \<Rightarrow> bool" where
  "word v \<longleftrightarrow> (\<forall>b \<in> set v. \<not> blank b \<and> b \<noteq> 58 \<and> b \<noteq> 0)"

definition key :: "bytes \<Rightarrow> bool" where
  "key k \<longleftrightarrow> k \<noteq> [] \<and> last k = 58 \<and> word (butlast k)"

lemma word_Nil [simp]: "word []"
  by (simp add: word_def)

lemma word_append [simp]: "word (a @ b) \<longleftrightarrow> word a \<and> word b"
  by (auto simp: word_def)

lemma word_no_zero: "word v \<Longrightarrow> 0 \<notin> set v"
  by (auto simp: word_def)

declare strstr.simps [simp del]

lemma strstr_iff: "strstr s w \<noteq> None \<longleftrightarrow> (\<exists>p q. s = p @ w @ q)"
proof (induction s)
  case Nil
  show ?case by (cases w) (auto simp: strstr.simps)
next
  case (Cons b s)
  show ?case
  proof (cases "take (length w) (b # s) = w")
    case True
    then have "b # s = [] @ w @ drop (length w) (b # s)" using append_take_drop_id [of "length w" "b # s"] by simp
    then show ?thesis using True by (subst strstr.simps) (auto simp del: append_Nil)
  next
    case False
    then have "(\<exists>p q. b # s = p @ w @ q) \<longleftrightarrow> (\<exists>p q. s = p @ w @ q)"
      by (auto simp: Cons_eq_append_conv)
    then show ?thesis using False Cons.IH by (subst strstr.simps) simp
  qed
qed

lemma has_key:
  assumes "key k" and "key (lit b)" and "word v"
  shows "has (k @ v) b \<longleftrightarrow> (\<exists>p. k = p @ lit b)"
proof
  obtain k' b' where kb: "k = k' @ [58]" "lit b = b' @ [58]" "58 \<notin> set k'"
    using assms by (metis append_butlast_last_id key_def word_def)
  assume "has (k @ v) b"
  then obtain p q where "k @ v = p @ lit b @ q" unfolding has_def strstr_iff by blast
  then have "k' @ 58 # v = (p @ b') @ 58 # q" using kb by simp
  moreover have "58 \<notin> set v" using assms(3) by (auto simp: word_def)
  ultimately have "k' = p @ b'" using kb(3) by (subst (asm) append_Cons_eq_iff) auto
  then show "\<exists>p. k = p @ lit b" using kb by auto
next
  assume "\<exists>p. k = p @ lit b"
  then obtain p where "k @ v = p @ lit b @ v" by auto
  then show "has (k @ v) b" unfolding has_def strstr_iff by blast
qed

text \<open>
  The keys of a program, as the literals of its source: each ends in its only colon, and no key is the
  end of another. Then a word holds the key it was written with and no other.
\<close>

definition ends :: "string \<Rightarrow> string \<Rightarrow> bool" where
  "ends k b \<longleftrightarrow> rev (take (length b) (rev k)) = b"

definition skey :: "string \<Rightarrow> bool" where
  "skey k \<longleftrightarrow> (case rev k of [] \<Rightarrow> False
     | c # cs \<Rightarrow> c = CHR '':'' \<and> list_all (\<lambda>d. d \<notin> set [CHR '':'', CHR '' '', CHR 0x0D, CHR 0x0A, CHR 0x00]) cs)"

definition key_set :: "string list \<Rightarrow> bool" where
  "key_set ks \<longleftrightarrow> list_all skey ks \<and> list_all (\<lambda>a. list_all (\<lambda>b. ends a b \<longrightarrow> a = b) ks) ks"

lemma of_char_byte: "(of_char c :: byte) = of_char d \<longleftrightarrow> c = d"
proof -
  have u: "uint (of_char c :: byte) = of_char c" for c
    by (cases c) (simp add: uint_word_of_int_eq)
  show ?thesis using u [of c] u [of d] by (metis of_char_eq_iff)
qed

lemma lit_eq: "lit a = lit b \<longleftrightarrow> a = b"
proof -
  have "inj (of_char :: char \<Rightarrow> byte)" by (simp add: inj_def of_char_byte)
  then show ?thesis by (simp add: lit_def inj_map_eq_map)
qed

lemma lit_no_zero: "0 \<in> set (lit k) \<longleftrightarrow> CHR 0x00 \<in> set k"
proof -
  have z: "(0 :: byte) = of_char CHR 0x00" by simp
  have "(0 :: byte) \<in> of_char ` set k \<longleftrightarrow> CHR 0x00 \<in> set k"
    unfolding z by (metis (no_types, lifting) image_iff of_char_byte)
  then show ?thesis by (simp add: lit_def)
qed

lemma lit_append: "lit (a @ b) = lit a @ lit b"
  by (simp add: lit_def)

lemma skey_key: "skey k \<Longrightarrow> key (lit k)"
proof -
  assume s: "skey k"
  then obtain cs where k: "k = rev cs @ [CHR '':'']"
    and cs: "\<forall>d \<in> set cs. d \<noteq> CHR '':'' \<and> d \<noteq> CHR '' '' \<and> d \<noteq> CHR 0x0D \<and> d \<noteq> CHR 0x0A \<and> d \<noteq> CHR 0x00"
    by (auto simp: skey_def list_all_iff split: list.splits)
  have c: "of_char CHR '':'' = (58 :: byte)" "of_char CHR '' '' = (32 :: byte)" "of_char CHR 0x0D = (13 :: byte)"
    "of_char CHR 0x0A = (10 :: byte)" "of_char CHR 0x00 = (0 :: byte)" by simp_all
  have "\<not> blank (of_char d) \<and> of_char d \<noteq> (58 :: byte) \<and> of_char d \<noteq> (0 :: byte)" if "d \<in> set cs" for d
    unfolding blank_def c [symmetric] of_char_byte using cs that by blast
  then show ?thesis by (simp add: k key_def lit_def word_def)
qed

lemma key_set_skey: "key_set ks \<Longrightarrow> k \<in> set ks \<Longrightarrow> skey k"
  by (auto simp: key_set_def list_all_iff)

lemma has_iff:
  assumes "key_set ks" and "a \<in> set ks" and "b \<in> set ks" and "word v"
  shows "has (lit a @ v) b \<longleftrightarrow> a = b"
proof -
  have k: "key (lit a)" "key (lit b)" using assms by (auto simp: key_set_def list_all_iff intro: skey_key)
  have "ends a b" if "lit a = p @ lit b" for p
  proof -
    have "drop (length p) (lit a) = lit b" using that by simp
    then have "lit (drop (length p) a) = lit b" by (simp add: lit_def drop_map)
    then have "a = take (length p) a @ b" by (metis append_take_drop_id lit_eq)
    then show ?thesis by (metis append_eq_conv_conj ends_def rev_append rev_rev_ident length_rev)
  qed
  then have "has (lit a @ v) b \<Longrightarrow> a = b"
    using has_key [OF k assms(4)] assms(1-3) by (auto simp: key_set_def list_all_iff)
  moreover have "has (lit a @ v) a" using has_key [OF k(1) k(1) assms(4)] by (metis append_Nil)
  ultimately show ?thesis by blast
qed

lemma cfg_copy_key: "cfg_copy field (lit k @ v) k = mem_write field 0 v"
  by (simp add: cfg_copy_def)

lemma key_bytes: "key k \<Longrightarrow> b \<in> set k \<Longrightarrow> \<not> blank b \<and> b \<noteq> 0"
proof -
  assume k: "key k" "b \<in> set k"
  obtain k' where "k = k' @ [58]" "word k'" using k(1) by (metis append_butlast_last_id key_def)
  then have "b = 58 \<or> b \<in> set k'" using k(2) by auto
  then show ?thesis
  proof
    assume "b = 58"
    then show ?thesis by (simp add: blank_def)
  next
    assume "b \<in> set k'"
    then show ?thesis using \<open>word k'\<close> by (simp add: word_def)
  qed
qed

lemma cfg_loop_line:
  assumes "key k" and "word v"
  shows "cfg_loop f (k @ v @ 10 # s) i = (case f (k @ v) i of None \<Rightarrow> None | Some i' \<Rightarrow> cfg_loop f s i')"
    and "cfg_loop f (k @ v) i = f (k @ v) i"
proof -
  have ne: "k @ v \<noteq> []" using assms(1) by (simp add: key_def)
  have nb: "\<forall>b \<in> set (k @ v). \<not> blank b" using assms key_bytes by (auto simp: word_def)
  have "blank 10" by (simp add: blank_def)
  note t = strtok_field [OF ne nb this]
  show "cfg_loop f (k @ v @ 10 # s) i = (case f (k @ v) i of None \<Rightarrow> None | Some i' \<Rightarrow> cfg_loop f s i')"
    using t(1) [of s] by (simp add: cfg_loop.simps [of f "k @ v @ 10 # s"])
  have "cfg_loop f [] i' = Some i'" for i' by (simp add: cfg_loop.simps strtok_def)
  then show "cfg_loop f (k @ v) i = f (k @ v) i"
    using t(2) by (simp add: cfg_loop.simps [of f "k @ v"] split: option.splits)
qed

text \<open>a file of such lines that is small enough to be read in whole\<close>

lemma cfg_file_text:
  assumes "files path = Some text" and "0 \<notin> set text" and "length text < 2 ^ 32"
  shows "cfg_file f files path i = cfg_loop f text i"
  using assms by (simp add: cfg_file_def lcs_file_text_def c_str_append_zero)

end
