(* ===== verification/LcsTime.thy ===== *)
theory LcsTime
  imports LcsCommon
begin

text \<open>
  The time functions of \<^verbatim>\<open>cluster/common/lcs_common.c\<close>, with the part of the C library they rest on:
  the proleptic Gregorian calendar, \<^verbatim>\<open>mktime\<close> and \<^verbatim>\<open>localtime\<close> in a time zone, and \<^verbatim>\<open>strptime\<close> and
  \<^verbatim>\<open>strftime\<close> for the one format \<^verbatim>\<open>%Y-%m-%d %H:%M:%S\<close>. A zone is its standard offset from UTC and, for
  each instant, what daylight saving adds to it. The sources clear \<^verbatim>\<open>tm_isdst\<close>, so \<^verbatim>\<open>mktime\<close> takes
  every time for standard time.

  Shown: days and dates correspond, one to one and in order; a time printed and read back is the same
  time, moved by the daylight saving in force; \<^verbatim>\<open>strcmp\<close> of two printed times orders them by time.
\<close>

section \<open>The calendar\<close>

definition leap :: "int \<Rightarrow> bool" where
  "leap y \<longleftrightarrow> (y mod 4 = 0 \<and> y mod 100 \<noteq> 0) \<or> y mod 400 = 0"

definition year_days :: "int \<Rightarrow> int" where
  "year_days y = (if leap y then 366 else 365)"

definition month_days :: "int \<Rightarrow> int \<Rightarrow> int" where
  "month_days y m =
     (if m = 2 then if leap y then 29 else 28
      else if m = 4 \<or> m = 6 \<or> m = 9 \<or> m = 11 then 30 else 31)"

text \<open>days before a year, counted from 1 January of the year 1, and before a month of a year\<close>

definition before_year :: "int \<Rightarrow> int" where
  "before_year y = 365 * (y - 1) + (y - 1) div 4 - (y - 1) div 100 + (y - 1) div 400"

function before_month :: "int \<Rightarrow> int \<Rightarrow> int" where
  "before_month y m = (if m \<le> 1 then 0 else before_month y (m - 1) + month_days y (m - 1))"
  by auto
termination by (relation "measure (\<lambda>(y, m). nat m)") auto

text \<open>days since 1 January 1970\<close>

definition day_number :: "int \<Rightarrow> int \<Rightarrow> int \<Rightarrow> int" where
  "day_number y m d = before_year y + before_month y m + d - 1 - 719162"

function split_year :: "int \<Rightarrow> int \<Rightarrow> int \<times> int" where
  "split_year y n = (if n < year_days y then (y, n) else split_year (y + 1) (n - year_days y))"
  by auto
termination
  by (relation "measure (\<lambda>(y, n). nat n)") (auto simp: year_days_def split: if_splits)

function split_month :: "int \<Rightarrow> int \<Rightarrow> int \<Rightarrow> int \<times> int" where
  "split_month y m n =
     (if n < month_days y m \<or> 12 \<le> m then (m, n) else split_month y (m + 1) (n - month_days y m))"
  by auto
termination by (relation "measure (\<lambda>(y, m, n). nat (12 - m))") auto

declare before_month.simps [simp del] split_year.simps [simp del] split_month.simps [simp del]

text \<open>the date of a day: the search starts at the multiple of 400 years counted from 2000\<close>

definition date_of :: "int \<Rightarrow> int \<times> int \<times> int" where
  "date_of n =
     (let e = (n - 10957) div 146097;
          (y, r) = split_year (2000 + 400 * e) ((n - 10957) mod 146097);
          (m, d) = split_month y 1 r
      in (y, m, d + 1))"

definition valid_date :: "int \<Rightarrow> int \<Rightarrow> int \<Rightarrow> bool" where
  "valid_date y m d \<longleftrightarrow> 1 \<le> m \<and> m \<le> 12 \<and> 1 \<le> d \<and> d \<le> month_days y m"

section \<open>Times in a zone\<close>

record tm =
  tm_year :: int
  tm_mon :: int
  tm_mday :: int
  tm_hour :: int
  tm_min :: int
  tm_sec :: int

record zone =
  std_off :: int
  dst_off :: "int \<Rightarrow> int"

definition zero_tm :: tm where
  "zero_tm = \<lparr>tm_year = 0, tm_mon = 0, tm_mday = 0, tm_hour = 0, tm_min = 0, tm_sec = 0\<rparr>"

definition mktime :: "zone \<Rightarrow> tm \<Rightarrow> int" where
  "mktime z t = 86400 * day_number (tm_year t + 1900) (tm_mon t + 1) (tm_mday t) +
     3600 * tm_hour t + 60 * tm_min t + tm_sec t - std_off z"

text \<open>the seconds a clock in the zone shows, counted like UTC\<close>

definition local_secs :: "zone \<Rightarrow> int \<Rightarrow> int" where
  "local_secs z t = t + std_off z + dst_off z t"

definition tm_of :: "int \<Rightarrow> tm" where
  "tm_of l =
     (let (y, m, d) = date_of (l div 86400); s = l mod 86400
      in \<lparr>tm_year = y - 1900, tm_mon = m - 1, tm_mday = d,
          tm_hour = s div 3600, tm_min = s mod 3600 div 60, tm_sec = s mod 60\<rparr>)"

definition localtime :: "zone \<Rightarrow> int \<Rightarrow> tm" where
  "localtime z t = tm_of (local_secs z t)"

section \<open>Printing and reading\<close>

definition d2 :: "int \<Rightarrow> bytes" where
  "d2 n = [48 + of_int (n div 10), 48 + of_int (n mod 10)]"

definition show_tm :: "tm \<Rightarrow> bytes" where
  "show_tm t = sdec (tm_year t + 1900) @ 45 # d2 (tm_mon t + 1) @ 45 # d2 (tm_mday t) @ 32 #
     d2 (tm_hour t) @ 58 # d2 (tm_min t) @ 58 # d2 (tm_sec t)"

text \<open>
  \<^verbatim>\<open>strptime\<close>: a number of at most \<open>n\<close> digits between \<open>lo\<close> and \<open>hi\<close>, behind white space; it stops
  before a digit that would make it exceed \<open>hi\<close>. A failure leaves the fields read so far.
\<close>

fun more_digits :: "int \<Rightarrow> nat \<Rightarrow> int \<Rightarrow> bytes \<Rightarrow> int \<times> bytes" where
  "more_digits hi 0 v s = (v, s)"
| "more_digits hi (Suc n) v [] = (v, [])"
| "more_digits hi (Suc n) v (b # s) =
     (if v * 10 \<le> hi \<and> isdigit b then more_digits hi n (v * 10 + (uint b - 48)) s else (v, b # s))"

definition get_number :: "int \<Rightarrow> int \<Rightarrow> nat \<Rightarrow> bytes \<Rightarrow> (int \<times> bytes) option" where
  "get_number lo hi n s =
     (case dropWhile isspace s of [] \<Rightarrow> None
      | b # r \<Rightarrow>
          if \<not> isdigit b then None
          else let (v, r') = more_digits hi (n - 1) (uint b - 48) r
               in if lo \<le> v \<and> v \<le> hi then Some (v, r') else None)"

datatype conv = Num int int nat "int \<Rightarrow> tm \<Rightarrow> tm" | Chr byte | White

fun strptime :: "conv list \<Rightarrow> bytes \<Rightarrow> tm \<Rightarrow> tm" where
  "strptime [] s t = t"
| "strptime (Num lo hi n upd # fmt) s t =
     (case get_number lo hi n s of None \<Rightarrow> t | Some (v, s') \<Rightarrow> strptime fmt s' (upd v t))"
| "strptime (Chr c # fmt) s t =
     (case s of [] \<Rightarrow> t | b # s' \<Rightarrow> if b = c then strptime fmt s' t else t)"
| "strptime (White # fmt) s t = strptime fmt (dropWhile isspace s) t"

definition time_format :: "conv list" where
  "time_format =
     [Num 0 9999 4 (\<lambda>v t. t\<lparr>tm_year := v - 1900\<rparr>), Chr 45,
      Num 1 12 2 (\<lambda>v t. t\<lparr>tm_mon := v - 1\<rparr>), Chr 45,
      Num 1 31 2 (\<lambda>v t. t\<lparr>tm_mday := v\<rparr>), White,
      Num 0 23 2 (\<lambda>v t. t\<lparr>tm_hour := v\<rparr>), Chr 58,
      Num 0 59 2 (\<lambda>v t. t\<lparr>tm_min := v\<rparr>), Chr 58,
      Num 0 61 2 (\<lambda>v t. t\<lparr>tm_sec := v\<rparr>)]"

section \<open>The functions of the program\<close>

definition lcs_str2_time :: "zone \<Rightarrow> bytes \<Rightarrow> int" where
  "lcs_str2_time z str = mktime z (strptime time_format str zero_tm)"

text \<open>\<^verbatim>\<open>strftime\<close> into 20 bytes: what does not fit leaves the array undefined\<close>

definition lcs_time2_str :: "zone \<Rightarrow> int \<Rightarrow> bytes option" where
  "lcs_time2_str z t = fit 20 (show_tm (localtime z t))"

section \<open>Days and dates\<close>

lemma year_days_pos: "365 \<le> year_days y"
  by (simp add: year_days_def)

lemma month_days_bounds: "28 \<le> month_days y m \<and> month_days y m \<le> 31"
  by (simp add: month_days_def)

lemma div_step:
  assumes "0 < k"
  shows "(y :: int) div k = (y - 1) div k + (if y mod k = 0 then 1 else 0)"
proof (cases "y mod k = 0")
  case True
  then have "y - 1 = k * (y div k - 1) + (k - 1)" using mult_div_mod_eq [of k y] by (simp add: algebra_simps)
  then have "(y - 1) div k = y div k - 1" by (rule int_div_pos_eq) (use assms in auto)
  then show ?thesis using True by simp
next
  case False
  then have r: "0 \<le> y mod k - 1" "y mod k - 1 < k"
    using pos_mod_sign [OF assms, of y] pos_mod_bound [OF assms, of y] by linarith+
  have "y - 1 = k * (y div k) + (y mod k - 1)" using mult_div_mod_eq [of k y] by linarith
  then have "(y - 1) div k = y div k" by (rule int_div_pos_eq) (use r in auto)
  then show ?thesis using False by simp
qed

lemma before_year_step: "before_year (y + 1) = before_year y + year_days y"
proof -
  have 100: "y mod 4 = 0" if "y mod 100 = 0" using that by presburger
  have 400: "y mod 100 = 0" if "y mod 400 = 0" using that by presburger
  have d: "y div 4 = (y - 1) div 4 + (if y mod 4 = 0 then 1 else 0)"
    "y div 100 = (y - 1) div 100 + (if y mod 100 = 0 then 1 else 0)"
    "y div 400 = (y - 1) div 400 + (if y mod 400 = 0 then 1 else 0)" by (rule div_step, simp)+
  have "before_year (y + 1) = before_year y + 365 + (if y mod 4 = 0 then 1 else 0) -
      (if y mod 100 = 0 then 1 else 0) + (if y mod 400 = 0 then 1 else 0)"
    unfolding before_year_def add_diff_cancel d by (simp only: right_diff_distrib)
  also have "\<dots> = before_year y + year_days y"
  proof (cases "y mod 400 = 0")
    case True
    then show ?thesis using 400 100 by (simp only: year_days_def leap_def if_True simp_thms)
  next
    case n400: False
    show ?thesis
    proof (cases "y mod 100 = 0")
      case True
      then show ?thesis using n400 True 100 [OF True]
        by (simp only: year_days_def leap_def if_True if_False simp_thms)
    next
      case False
      then show ?thesis using n400
        by (cases "y mod 4 = 0") (simp_all only: year_days_def leap_def if_True if_False simp_thms)
    qed
  qed
  finally show ?thesis .
qed

lemma before_year_mono: "y < y' \<Longrightarrow> before_year y + year_days y \<le> before_year y'"
proof (induction y' rule: int_gr_induct)
  case base
  then show ?case by (simp add: before_year_step)
next
  case (step i)
  then show ?case using year_days_pos [of i] by (simp add: before_year_step)
qed

lemma before_year_era: "before_year (2000 + 400 * e) = 730119 + 146097 * e"
proof -
  have "(1999 + 400 * e) div 4 = 499 + 100 * e" by (rule int_div_pos_eq [of _ _ _ 3]) auto
  moreover have "(1999 + 400 * e) div 100 = 19 + 4 * e" by (rule int_div_pos_eq [of _ _ _ 99]) auto
  moreover have "(1999 + 400 * e) div 400 = 4 + e" by (rule int_div_pos_eq [of _ _ _ 399]) auto
  ultimately show ?thesis by (simp add: before_year_def)
qed

lemma before_month_step: "1 \<le> m \<Longrightarrow> before_month y (m + 1) = before_month y m + month_days y m"
  by (simp add: before_month.simps [of y "m + 1"])

lemma before_month_mono: "m < m' \<Longrightarrow> 1 \<le> m \<Longrightarrow> before_month y m + month_days y m \<le> before_month y m'"
proof (induction m' rule: int_gr_induct)
  case base
  then show ?case by (simp add: before_month_step)
next
  case (step i)
  then show ?case using month_days_bounds [of y i] by (simp add: before_month_step)
qed

lemma before_month_13: "before_month y 13 = year_days y"
proof -
  have "before_month y 13 = sum_list (map (month_days y) [1, 2, 3, 4, 5, 6, 7, 8, 9, 10, 11, 12])"
    using before_month_step [of 1 y] before_month_step [of 2 y] before_month_step [of 3 y]
      before_month_step [of 4 y] before_month_step [of 5 y] before_month_step [of 6 y]
      before_month_step [of 7 y] before_month_step [of 8 y] before_month_step [of 9 y]
      before_month_step [of 10 y] before_month_step [of 11 y] before_month_step [of 12 y]
    by (simp add: before_month.simps [of y 1])
  also have "\<dots> = year_days y" by (simp add: month_days_def year_days_def)
  finally show ?thesis .
qed

lemma split_year_correct:
  "0 \<le> n \<Longrightarrow> split_year y n = (y', n') \<Longrightarrow>
   before_year y' + n' = before_year y + n \<and> 0 \<le> n' \<and> n' < year_days y'"
proof (induction y n rule: split_year.induct)
  case (1 y n)
  show ?case
  proof (cases "n < year_days y")
    case True
    then show ?thesis using 1(2,3) by (simp add: split_year.simps [of y n])
  next
    case False
    then show ?thesis using 1 by (simp add: split_year.simps [of y n] before_year_step)
  qed
qed

lemma split_month_correct:
  "0 \<le> n \<Longrightarrow> 1 \<le> m \<Longrightarrow> m \<le> 12 \<Longrightarrow> before_month y m + n < year_days y \<Longrightarrow> split_month y m n = (m', n') \<Longrightarrow>
   before_month y m' + n' = before_month y m + n \<and> 0 \<le> n' \<and> n' < month_days y m' \<and> 1 \<le> m' \<and> m' \<le> 12"
proof (induction y m n rule: split_month.induct)
  case (1 y m n)
  have "n < month_days y m" if "m = 12"
    using 1(5) that before_month_step [of 12 y] by (simp add: before_month_13)
  then show ?case
    using 1 by (cases "n < month_days y m \<or> 12 \<le> m") (auto simp: split_month.simps [of y m n] before_month_step)
qed

lemma date_of_correct:
  "date_of n = (y, m, d) \<Longrightarrow> valid_date y m d \<and> day_number y m d = n"
proof -
  assume a: "date_of n = (y, m, d)"
  let ?e = "(n - 10957) div 146097" and ?r = "(n - 10957) mod 146097"
  obtain y' r where sy: "split_year (2000 + 400 * ?e) ?r = (y', r)" by force
  obtain m' k where sm: "split_month y' 1 r = (m', k)" by force
  have y: "y = y'" "m = m'" "d = k + 1" using a sy sm by (auto simp: date_of_def Let_def)
  have r: "before_year y' + r = before_year (2000 + 400 * ?e) + ?r" "0 \<le> r" "r < year_days y'"
    using split_year_correct [OF _ sy] by auto
  have "146097 * ?e + ?r = n - 10957" by simp
  then have n: "before_year y' + r = 719162 + n" using r(1) by (simp add: before_year_era)
  have "before_month y' m' + k = r \<and> 0 \<le> k \<and> k < month_days y' m' \<and> 1 \<le> m' \<and> m' \<le> 12"
    using split_month_correct [OF r(2) _ _ _ sm] r(3) by (simp add: before_month.simps [of y' 1])
  then show ?thesis using y n by (auto simp: valid_date_def day_number_def)
qed

lemma within_year: "valid_date y m d \<Longrightarrow> 0 \<le> before_month y m + d - 1 \<and> before_month y m + d - 1 < year_days y"
proof -
  assume v: "valid_date y m d"
  have "before_month y m + month_days y m \<le> year_days y"
    using before_month_mono [of m 13 y] v by (simp add: valid_date_def before_month_13)
  moreover have "0 \<le> before_month y m"
    using before_month_mono [of 1 m y] v month_days_bounds [of y 1]
    by (cases "m = 1") (auto simp: valid_date_def before_month.simps [of y 1])
  ultimately show ?thesis using v by (auto simp: valid_date_def)
qed

text \<open>Dates are ordered like their days.\<close>

definition date_less :: "int \<times> int \<times> int \<Rightarrow> int \<times> int \<times> int \<Rightarrow> bool" where
  "date_less = (\<lambda>(y, m, d) (y', m', d'). y < y' \<or> (y = y' \<and> (m < m' \<or> (m = m' \<and> d < d'))))"

lemma day_number_mono:
  assumes "valid_date y m d" and "valid_date y' m' d'" and "date_less (y, m, d) (y', m', d')"
  shows "day_number y m d < day_number y' m' d'"
proof -
  consider "y < y'" | "y = y'" "m < m'" | "y = y'" "m = m'" "d < d'" using assms(3) by (auto simp: date_less_def)
  then show ?thesis
  proof cases
    case 1
    then show ?thesis using before_year_mono [OF 1] within_year [OF assms(1)] within_year [OF assms(2)]
      by (simp add: day_number_def)
  next
    case 2
    then show ?thesis using before_month_mono [of m m' y] assms(1,2) by (simp add: valid_date_def day_number_def)
  qed (simp add: day_number_def)
qed

lemma date_less_total: "date_less a b \<or> a = b \<or> date_less b a"
  by (cases a; cases b) (auto simp: date_less_def)

lemma day_number_less:
  assumes "valid_date y m d" and "valid_date y' m' d'"
  shows "day_number y m d < day_number y' m' d' \<longleftrightarrow> date_less (y, m, d) (y', m', d')"
  using assms date_less_total [of "(y, m, d)" "(y', m', d')"] day_number_mono
  by (metis less_irrefl less_asym prod.inject)

lemma date_of_day_number: "valid_date y m d \<Longrightarrow> date_of (day_number y m d) = (y, m, d)"
proof -
  assume v: "valid_date y m d"
  obtain y' m' d' where e: "date_of (day_number y m d) = (y', m', d')" by (cases "date_of (day_number y m d)") auto
  then have v': "valid_date y' m' d'" "day_number y' m' d' = day_number y m d" using date_of_correct by blast+
  then show ?thesis
    using e date_less_total [of "(y, m, d)" "(y', m', d')"] day_number_mono v by (metis less_irrefl)
qed

lemma date_of_mono:
  assumes "n < n'"
  shows "date_less (date_of n) (date_of n')"
proof -
  obtain y m d y' m' d' where e: "date_of n = (y, m, d)" "date_of n' = (y', m', d')"
    by (cases "date_of n"; cases "date_of n'") auto
  then show ?thesis using assms day_number_less [of y m d y' m' d'] date_of_correct by fastforce
qed

section \<open>Times and their fields\<close>

definition valid_tm :: "tm \<Rightarrow> bool" where
  "valid_tm t \<longleftrightarrow> valid_date (tm_year t + 1900) (tm_mon t + 1) (tm_mday t) \<and>
     0 \<le> tm_hour t \<and> tm_hour t < 24 \<and> 0 \<le> tm_min t \<and> tm_min t < 60 \<and> 0 \<le> tm_sec t \<and> tm_sec t < 60"

definition secs_of :: "tm \<Rightarrow> int" where
  "secs_of t = 86400 * day_number (tm_year t + 1900) (tm_mon t + 1) (tm_mday t) +
     3600 * tm_hour t + 60 * tm_min t + tm_sec t"

lemma mktime_secs: "mktime z t = secs_of t - std_off z"
  by (simp add: mktime_def secs_of_def)

lemma hms: "0 \<le> s \<Longrightarrow> s < 86400 \<Longrightarrow>
  3600 * (s div 3600) + 60 * (s mod 3600 div 60) + s mod 60 = s \<and> s div 3600 < 24 \<and> s mod 3600 div 60 < 60"
  for s :: int
proof -
  assume s: "0 \<le> s" "s < 86400"
  have "s mod 60 = s mod 3600 mod 60" by (simp add: mod_mod_cancel)
  then have "60 * (s mod 3600 div 60) + s mod 60 = s mod 3600" by simp
  moreover have "3600 * (s div 3600) + s mod 3600 = s" by simp
  moreover have "s mod 3600 < 3600" "0 \<le> s mod 3600" by simp_all
  ultimately show ?thesis using s by linarith
qed

lemma tm_of_correct: "valid_tm (tm_of l) \<and> secs_of (tm_of l) = l"
proof -
  obtain y m d where e: "date_of (l div 86400) = (y, m, d)" by (cases "date_of (l div 86400)") auto
  have v: "valid_date y m d" "day_number y m d = l div 86400" using date_of_correct [OF e] by auto
  obtain k s where l: "l div 86400 = k" "l mod 86400 = s" "0 \<le> s" "s < 86400" "l = 86400 * k + s"
    using mult_div_mod_eq [of 86400 l] by (metis pos_mod_bound pos_mod_sign zero_less_numeral)
  obtain h i j where s: "s div 3600 = h" "s mod 3600 div 60 = i" "s mod 60 = j" "h < 24" "i < 60" "3600 * h + 60 * i + j = s"
    using hms [OF l(3,4)] by blast
  have nn: "0 \<le> h" "0 \<le> i" "0 \<le> j" "j < 60" using s(1,2,3) l(3) by (auto simp: pos_imp_zdiv_nonneg_iff)
  have "tm_of l = \<lparr>tm_year = y - 1900, tm_mon = m - 1, tm_mday = d, tm_hour = h, tm_min = i, tm_sec = j\<rparr>"
    by (simp add: tm_of_def e l(2) s(1-3) Let_def)
  then show ?thesis using v l(1,5) s(4-6) nn by (simp add: valid_tm_def secs_of_def)
qed

lemma tm_of_secs_of: "valid_tm t \<Longrightarrow> tm_of (secs_of t) = t"
proof -
  assume v: "valid_tm t"
  let ?n = "day_number (tm_year t + 1900) (tm_mon t + 1) (tm_mday t)"
  let ?s = "3600 * tm_hour t + 60 * tm_min t + tm_sec t"
  have s: "0 \<le> ?s" "?s < 86400" using v by (auto simp: valid_tm_def)
  have l: "secs_of t = 86400 * ?n + ?s" by (simp add: secs_of_def)
  have n: "secs_of t div 86400 = ?n" by (rule int_div_pos_eq [OF l s])
  have m: "secs_of t mod 86400 = ?s" by (rule int_mod_pos_eq [OF l s])
  have h: "?s div 3600 = tm_hour t" "?s mod 3600 = 60 * tm_min t + tm_sec t"
    using v by (auto simp: valid_tm_def intro!: int_div_pos_eq int_mod_pos_eq)
  have i: "(60 * tm_min t + tm_sec t) div 60 = tm_min t"
    using v by (intro int_div_pos_eq [of _ _ _ "tm_sec t"]) (auto simp: valid_tm_def)
  have j: "?s mod 60 = tm_sec t"
    using v by (intro int_mod_pos_eq [of _ _ "60 * tm_hour t + tm_min t"]) (auto simp: valid_tm_def)
  have "valid_date (tm_year t + 1900) (tm_mon t + 1) (tm_mday t)" using v by (simp add: valid_tm_def)
  then show ?thesis by (simp add: tm_of_def n m h i j date_of_day_number Let_def)
qed

section \<open>Printing and reading back\<close>

lemma digit_val: "0 \<le> k \<Longrightarrow> k < 10 \<Longrightarrow> isdigit (48 + of_int k) \<and> uint (48 + of_int k :: byte) = 48 + k"
  using digit_byte [of "nat k"] by simp

lemma d2_digits:
  assumes "0 \<le> n" and "n < 100"
  shows "isdigit (48 + of_int (n div 10))" "isdigit (48 + of_int (n mod 10))"
    "uint (48 + of_int (n div 10) :: byte) = 48 + n div 10" "uint (48 + of_int (n mod 10) :: byte) = 48 + n mod 10"
proof -
  have d: "0 \<le> n div 10" "n div 10 < 10" "0 \<le> n mod 10" "n mod 10 < 10"
    using assms by (simp_all add: pos_imp_zdiv_nonneg_iff)
  show "isdigit (48 + of_int (n div 10))" "isdigit (48 + of_int (n mod 10))"
    "uint (48 + of_int (n div 10) :: byte) = 48 + n div 10" "uint (48 + of_int (n mod 10) :: byte) = 48 + n mod 10"
    using digit_val [OF d(1,2)] digit_val [OF d(3,4)] by blast+
qed

lemma get_number_d2:
  assumes "lo \<le> n" and "n \<le> hi" and "0 \<le> n" and "n < 100"
  shows "get_number lo hi 2 (d2 n @ s) = Some (n, s)"
proof -
  obtain a b where n: "n div 10 = a" "n mod 10 = b" "n = 10 * a + b" "0 \<le> b"
    using mult_div_mod_eq [of 10 n] by (metis pos_mod_sign zero_less_numeral)
  have d: "isdigit (48 + of_int a)" "isdigit (48 + of_int b)"
    "uint (48 + of_int a :: byte) = 48 + a" "uint (48 + of_int b :: byte) = 48 + b"
    using d2_digits [OF assms(3,4)] n(1,2) by auto
  have "\<not> isspace (48 + of_int a)" using not_digit d(1) by blast
  then have "get_number lo hi 2 (d2 n @ s) =
      (let (v, r) = more_digits hi (Suc 0) a ((48 + of_int b) # s) in if lo \<le> v \<and> v \<le> hi then Some (v, r) else None)"
    using d by (simp add: get_number_def d2_def n(1,2))
  also have "more_digits hi (Suc 0) a ((48 + of_int b) # s) = (n, s)"
    using d n(3,4) assms(2) by simp
  finally show ?thesis using assms by simp
qed

lemma more_digits_dec:
  assumes "\<And>b. b \<in> set ds \<Longrightarrow> isdigit b" and "0 \<le> v" and "foldl (\<lambda>n d. 10 * n + (uint d - 48)) v ds \<le> hi"
    and "length ds \<le> n" and "s = [] \<or> \<not> isdigit (hd s)"
  shows "more_digits hi n v (ds @ s) = (foldl (\<lambda>n d. 10 * n + (uint d - 48)) v ds, s)"
  using assms
proof (induction ds arbitrary: n v)
  case Nil
  then show ?case by (cases n; cases s) auto
next
  case (Cons d ds)
  obtain n' where n: "n = Suc n'" "length ds \<le> n'" using Cons.prems(4) by (cases n) auto
  have u: "0 \<le> uint d - 48"
  proof -
    have "uint (48 :: byte) \<le> uint d" using Cons.prems(1) [of d] by (simp add: isdigit_def word_le_def)
    then show ?thesis by simp
  qed
  have mono: "v' \<le> foldl (\<lambda>n d. 10 * n + (uint d - 48)) v' ds" if "0 \<le> v'" for v'
    using that Cons.prems(1)
  proof (induction ds arbitrary: v')
    case (Cons e es)
    have "uint (48 :: byte) \<le> uint e" using Cons.prems(2) [of e] by (simp add: isdigit_def word_le_def)
    then have "v' \<le> 10 * v' + (uint e - 48)" "0 \<le> 10 * v' + (uint e - 48)" using Cons.prems(1) by simp_all
    then show ?case using Cons.IH [of "10 * v' + (uint e - 48)"] Cons.prems(2) by force
  qed simp
  have "v * 10 \<le> hi" using mono [of "10 * v + (uint d - 48)"] Cons.prems(2,3) u by simp
  then show ?case
    using Cons.IH [of "v * 10 + (uint d - 48)" n'] Cons.prems n u by (simp add: mult.commute)
qed

lemma get_number_year:
  assumes "0 \<le> y" and "y \<le> 9999" and "s = [] \<or> \<not> isdigit (hd s)"
  shows "get_number 0 9999 4 (sdec y @ s) = Some (y, s)"
proof -
  obtain d ds where e: "sdec y = d # ds" "\<And>b. b \<in> set (d # ds) \<Longrightarrow> isdigit b" "num_val (d # ds) = y"
    using dec_digits [of "nat y"] assms(1) by (cases "dec (nat y)") (auto simp: sdec_def)
  have "length (dec (nat y)) \<le> 4" using assms by (intro length_dec) auto
  then have l: "length ds \<le> 3" using e(1) assms(1) by (simp add: sdec_def)
  have d: "isdigit d" "\<not> isspace d" using e(2) [of d] not_digit by auto
  have u: "0 \<le> uint d - 48"
  proof -
    have "uint (48 :: byte) \<le> uint d" using d(1) by (simp add: isdigit_def word_le_def)
    then show ?thesis by simp
  qed
  have "more_digits 9999 3 (uint d - 48) (ds @ s) = (y, s)"
    using more_digits_dec [of ds "uint d - 48" 9999 3 s] e(2,3) u l assms by (simp add: num_val_def)
  then show ?thesis using assms d by (simp add: get_number_def e(1))
qed

lemma strptime_show:
  assumes "valid_tm t" and "0 \<le> tm_year t + 1900" and "tm_year t + 1900 \<le> 9999"
  shows "strptime time_format (show_tm t) zero_tm = t"
proof -
  have b: "1 \<le> tm_mon t + 1" "tm_mon t + 1 \<le> 12" "1 \<le> tm_mday t" "tm_mday t \<le> 31"
    using assms(1) month_days_bounds [of "tm_year t + 1900" "tm_mon t + 1"]
    by (auto simp: valid_tm_def valid_date_def)
  have h: "0 \<le> tm_hour t" "tm_hour t \<le> 23" "0 \<le> tm_min t" "tm_min t \<le> 59" "0 \<le> tm_sec t" "tm_sec t \<le> 61"
    using assms(1) by (auto simp: valid_tm_def)
  have w: "dropWhile isspace (d2 n @ s) = d2 n @ s" if "0 \<le> n" "n < 100" for n s
    using d2_digits(1) [OF that] not_digit by (simp add: d2_def)
  have "get_number 0 61 2 (d2 (tm_sec t)) = Some (tm_sec t, [])"
    using get_number_d2 [of 0 "tm_sec t" 61 "[]"] h by simp
  then show ?thesis
    using get_number_year [of "tm_year t + 1900" "45 # d2 (tm_mon t + 1) @ 45 # d2 (tm_mday t) @ 32 #
        d2 (tm_hour t) @ 58 # d2 (tm_min t) @ 58 # d2 (tm_sec t)"] assms(2,3) b h
    by (simp add: time_format_def show_tm_def get_number_d2 w isdigit_def isspace_def zero_tm_def)
qed

text \<open>the years a printed time may have: four digits, and 0 to 9999\<close>

definition year_of :: "int \<Rightarrow> int" where
  "year_of l = tm_year (tm_of l) + 1900"

lemma length_d2 [simp]: "length (d2 n) = 2"
  by (simp add: d2_def)

lemma show_tm_fits:
  assumes "0 \<le> tm_year t + 1900" and "tm_year t + 1900 \<le> 9999"
  shows "fit 20 (show_tm t) = Some (show_tm t)"
proof -
  have "length (dec (nat (tm_year t + 1900))) \<le> 4" using assms by (intro length_dec) auto
  then show ?thesis using assms(1) by (simp add: fit_def show_tm_def sdec_def)
qed

text \<open>C13. A time printed and read back.\<close>

theorem time_roundtrip:
  assumes "0 \<le> year_of (local_secs z t)" and "year_of (local_secs z t) \<le> 9999"
  shows "\<exists>s. lcs_time2_str z t = Some s \<and> lcs_str2_time z s = t + dst_off z t"
proof -
  let ?t = "localtime z t"
  have v: "valid_tm ?t" "secs_of ?t = local_secs z t" using tm_of_correct by (auto simp: localtime_def)
  have y: "0 \<le> tm_year ?t + 1900" "tm_year ?t + 1900 \<le> 9999"
    using assms by (auto simp: year_of_def localtime_def)
  have "lcs_time2_str z t = Some (show_tm ?t)" using show_tm_fits [OF y] by (simp add: lcs_time2_str_def)
  moreover have "lcs_str2_time z (show_tm ?t) = t + dst_off z t"
    using strptime_show [OF v(1) y] v(2) by (simp add: lcs_str2_time_def mktime_secs local_secs_def)
  ultimately show ?thesis by blast
qed

section \<open>Order\<close>

text \<open>a date as \<^verbatim>\<open>YYYY-MM-DD\<close>\<close>

definition show_date :: "int \<Rightarrow> bytes" where
  "show_date n = (let (y, m, d) = date_of n in sdec y @ 45 # d2 m @ 45 # d2 d)"

lemma show_tm_date:
  "show_tm (tm_of l) = show_date (l div 86400) @ 32 # d2 (l mod 86400 div 3600) @ 58 #
     d2 (l mod 86400 mod 3600 div 60) @ 58 # d2 (l mod 86400 mod 60)"
  by (cases "date_of (l div 86400)") (simp add: show_tm_def tm_of_def show_date_def Let_def)

lemma midnight: "show_tm (tm_of (86400 * n)) = show_date n @ lit '' 00:00:00''"
  by (simp add: show_tm_date d2_def lit_def)

lemma d2_nat: "d2 (int k) = [48 + of_nat (k div 10), 48 + of_nat (k mod 10)]"
proof -
  have "int k div 10 = int (k div 10)" "int k mod 10 = int (k mod 10)" by (simp_all add: zdiv_int zmod_int)
  then show ?thesis by (simp add: d2_def)
qed

lemma sdec_year:
  assumes "1000 \<le> y" and "y \<le> 9999"
  shows "sdec y = d2 (y div 100) @ d2 (y mod 100)"
proof -
  obtain k where k: "y = int k" "1000 \<le> k" "k \<le> 9999" using assms nonneg_int_cases [of y] by auto
  have "k div 10 div 10 div 10 < 10" "\<not> k < 10" "\<not> k div 10 < 10" "\<not> k div 10 div 10 < 10" using k by auto
  then have "dec k = [48 + of_nat (k div 10 div 10 div 10), 48 + of_nat (k div 10 div 10 mod 10),
      48 + of_nat (k div 10 mod 10), 48 + of_nat (k mod 10)]"
    by (simp add: dec.simps [of k] dec.simps [of "k div 10"]
        dec.simps [of "k div 10 div 10"] dec.simps [of "k div 10 div 10 div 10"])
  moreover have "k mod 100 div 10 = k div 10 mod 10" "k mod 100 mod 10 = k mod 10"
    using mod_mult2_eq [of k 10 10] by (simp_all add: mod_mod_cancel)
  moreover have "k div 10 div 10 = k div 100" by (simp flip: div_mult2_eq)
  ultimately have "dec k = d2 (int (k div 100)) @ d2 (int (k mod 100))" unfolding d2_nat by (simp only: append.simps)
  then show ?thesis using k by (simp add: sdec_def zdiv_int zmod_int)
qed

lemma c_strcmp_head: "c \<noteq> 0 \<Longrightarrow> c_strcmp (c # u) (c # v) = c_strcmp u v"
  by simp

lemma c_strcmp_d2:
  assumes "0 \<le> a" and "a < 100" and "0 \<le> b" and "b < 100"
  shows "a = b \<Longrightarrow> c_strcmp (d2 a @ u) (d2 b @ v) = c_strcmp u v"
    and "a < b \<Longrightarrow> c_strcmp (d2 a @ u) (d2 b @ v) < 0"
proof -
  obtain a1 a2 where a: "a div 10 = a1" "a mod 10 = a2" "a = 10 * a1 + a2" "0 \<le> a2" "a2 < 10"
    using mult_div_mod_eq [of 10 a] by (metis pos_mod_sign pos_mod_bound zero_less_numeral)
  obtain b1 b2 where b: "b div 10 = b1" "b mod 10 = b2" "b = 10 * b1 + b2" "0 \<le> b2" "b2 < 10"
    using mult_div_mod_eq [of 10 b] by (metis pos_mod_sign pos_mod_bound zero_less_numeral)
  have da: "uint (48 + of_int a1 :: byte) = 48 + a1" "uint (48 + of_int a2 :: byte) = 48 + a2"
    "isdigit (48 + of_int a1)" "isdigit (48 + of_int a2)"
    using d2_digits [OF assms(1,2)] a(1,2) by auto
  have db: "uint (48 + of_int b1 :: byte) = 48 + b1" "uint (48 + of_int b2 :: byte) = 48 + b2"
    using d2_digits [OF assms(3,4)] b(1,2) by auto
  have nz: "48 + of_int a1 \<noteq> (0 :: byte)" "48 + of_int a2 \<noteq> (0 :: byte)" using da(3,4) not_digit by blast+
  show "a = b \<Longrightarrow> c_strcmp (d2 a @ u) (d2 b @ v) = c_strcmp u v"
    using nz a(1,2) by (auto simp: d2_def)
  assume lt: "a < b"
  show "c_strcmp (d2 a @ u) (d2 b @ v) < 0"
  proof (cases "a1 = b1")
    case True
    then have "a2 < b2" using lt a b by simp
    then have "48 + of_int a2 \<noteq> (48 + of_int b2 :: byte)" using da(2) db(2) by (metis add_left_cancel less_irrefl)
    then show ?thesis using True nz da db \<open>a2 < b2\<close> by (simp add: d2_def a(1,2) b(1,2))
  next
    case False
    then have l: "a1 < b1" using lt a b by linarith
    then have "48 + of_int a1 \<noteq> (48 + of_int b1 :: byte)" using da(1) db(1) by (metis add_left_cancel less_irrefl)
    then show ?thesis using da db l by (simp add: d2_def a(1,2) b(1,2))
  qed
qed

lemma date_bounds:
  assumes "date_of n = (y, m, d)"
  shows "0 \<le> m" "m < 100" "0 \<le> d" "d < 100"
  using date_of_correct [OF assms] month_days_bounds [of y m] by (auto simp: valid_date_def)

definition year_of_day :: "int \<Rightarrow> int" where
  "year_of_day n = fst (date_of n)"

definition ymd_day :: "int \<Rightarrow> bool" where
  "ymd_day n \<longleftrightarrow> 1000 \<le> year_of_day n \<and> year_of_day n \<le> 9999"

lemma ymd_year: "ymd_day n \<Longrightarrow> date_of n = (y, m, d) \<Longrightarrow> 1000 \<le> y \<and> y \<le> 9999"
  by (simp add: ymd_day_def year_of_day_def)

lemma length_show_date: "ymd_day n \<Longrightarrow> length (show_date n) = 10"
  using ymd_year [of n] by (cases "date_of n") (simp add: show_date_def sdec_year)

lemma c_strcmp_dates:
  assumes "ymd_day n" and "ymd_day n'" and "n < n'"
  shows "c_strcmp (show_date n @ u) (show_date n' @ v) < 0"
proof -
  obtain y m d y' m' d' where e: "date_of n = (y, m, d)" "date_of n' = (y', m', d')"
    by (cases "date_of n"; cases "date_of n'") auto
  have Y: "1000 \<le> y" "y \<le> 9999" "1000 \<le> y'" "y' \<le> 9999" using ymd_year assms e by blast+
  have c: "0 \<le> y div 100" "y div 100 < 100" "0 \<le> y' div 100" "y' div 100 < 100"
    "0 \<le> y mod 100" "y mod 100 < 100" "0 \<le> y' mod 100" "y' mod 100 < 100" using Y by auto
  note b = date_bounds [OF e(1)] date_bounds [OF e(2)]
  have s: "show_date n @ u = d2 (y div 100) @ d2 (y mod 100) @ 45 # d2 m @ 45 # d2 d @ u"
    "show_date n' @ v = d2 (y' div 100) @ d2 (y' mod 100) @ 45 # d2 m' @ 45 # d2 d' @ v"
    using Y by (simp_all add: show_date_def e sdec_year)
  have "date_less (y, m, d) (y', m', d')" using date_of_mono [OF assms(3)] e by simp
  then consider "y div 100 < y' div 100" | "y div 100 = y' div 100" "y mod 100 < y' mod 100"
    | "y = y'" "m < m'" | "y = y'" "m = m'" "d < d'"
    unfolding date_less_def
    by (smt (verit) case_prod_conv mult_div_mod_eq zdiv_mono1)
  then show ?thesis
    unfolding s by cases (simp_all add: c_strcmp_d2 c b)
qed

lemma c_strcmp_date_times:
  assumes "ymd_day n" and "ymd_day n'"
  shows "c_strcmp (show_date n) (show_date n') < 0 \<longleftrightarrow> n < n'"
    and "c_strcmp (show_date n) (show_date n') = 0 \<longleftrightarrow> n = n'"
    and "c_strcmp (show_date n) (show_date n') \<le> 0 \<longleftrightarrow> n \<le> n'"
proof -
  have lt: "n < n' \<Longrightarrow> c_strcmp (show_date n) (show_date n') < 0"
    using c_strcmp_dates [OF assms, of "[]" "[]"] by simp
  have gt: "n' < n \<Longrightarrow> c_strcmp (show_date n) (show_date n') > 0"
    using c_strcmp_dates [OF assms(2,1), of "[]" "[]"] c_strcmp_swap [of "show_date n" "show_date n'"] by simp
  have eq: "n = n' \<Longrightarrow> c_strcmp (show_date n) (show_date n') = 0" by (simp add: c_strcmp_eq)
  show "c_strcmp (show_date n) (show_date n') < 0 \<longleftrightarrow> n < n'"
    "c_strcmp (show_date n) (show_date n') = 0 \<longleftrightarrow> n = n'"
    "c_strcmp (show_date n) (show_date n') \<le> 0 \<longleftrightarrow> n \<le> n'"
    using lt gt eq by (smt (verit))+
qed

text \<open>\<^verbatim>\<open>YYYY-MM-DD HH:MM:SS\<close> for a number of seconds shown by the clock\<close>

definition show_secs :: "int \<Rightarrow> bytes" where
  "show_secs l = show_tm (tm_of l)"

definition ymd_secs :: "int \<Rightarrow> bool" where
  "ymd_secs l \<longleftrightarrow> ymd_day (l div 86400)"

lemma c_strcmp_same_prefix: "0 \<notin> set p \<Longrightarrow> c_strcmp (p @ u) (p @ v) = c_strcmp u v"
  by (induction p) auto

lemma show_date_no_zero:
  assumes "ymd_day n"
  shows "0 \<notin> set (show_date n)" and "\<And>b. b \<in> set (show_date n) \<Longrightarrow> isdigit b \<or> b = 45"
proof -
  obtain y m d where e: "date_of n = (y, m, d)" by (cases "date_of n") auto
  have Y: "1000 \<le> y" "y \<le> 9999" using ymd_year assms e by blast+
  have c: "0 \<le> y div 100" "y div 100 < 100" "0 \<le> y mod 100" "y mod 100 < 100" using Y by auto
  have D: "isdigit b" if "b \<in> set (d2 k)" "0 \<le> k" "k < 100" for b k
    using that d2_digits [of k] by (auto simp: d2_def)
  have "isdigit b \<or> b = 45" if "b \<in> set (show_date n)" for b
    using that D [of b "y div 100"] D [of b "y mod 100"] D [of b m] D [of b d] c date_bounds [OF e]
    by (auto simp: show_date_def e sdec_year [OF Y])
  then show "\<And>b. b \<in> set (show_date n) \<Longrightarrow> isdigit b \<or> b = 45" .
  then show "0 \<notin> set (show_date n)" using not_digit [of 0] by force
qed

lemma c_strcmp_secs:
  assumes "ymd_secs l" and "ymd_secs l'" and "l < l'"
  shows "c_strcmp (show_secs l) (show_secs l') < 0"
proof -
  let ?s = "l mod 86400" and ?s' = "l' mod 86400"
  show ?thesis
  proof (cases "l div 86400 < l' div 86400")
    case True
    then show ?thesis using c_strcmp_dates assms(1,2) by (simp add: show_secs_def show_tm_date ymd_secs_def)
  next
    case False
    have "l div 86400 \<le> l' div 86400" by (rule zdiv_mono1) (use assms(3) in simp_all)
    with False have d: "l div 86400 = l' div 86400" by linarith
    have lt: "?s < ?s'" using d assms(3) mult_div_mod_eq [of 86400 l] mult_div_mod_eq [of 86400 l'] by linarith
    have r: "0 \<le> ?s" "?s < 86400" "0 \<le> ?s'" "?s' < 86400" by simp_all
    obtain h i j where a: "?s div 3600 = h" "?s mod 3600 div 60 = i" "?s mod 60 = j" "h < 24" "i < 60"
      "3600 * h + 60 * i + j = ?s" using hms [OF r(1,2)] by blast
    obtain h' i' j' where a': "?s' div 3600 = h'" "?s' mod 3600 div 60 = i'" "?s' mod 60 = j'" "h' < 24" "i' < 60"
      "3600 * h' + 60 * i' + j' = ?s'" using hms [OF r(3,4)] by blast
    have nn: "0 \<le> x div 3600 \<and> 0 \<le> x mod 3600 div 60 \<and> 0 \<le> x mod 60 \<and> x mod 60 < 60" if "0 \<le> x" for x :: int
      using that by (simp add: pos_imp_zdiv_nonneg_iff)
    have n: "0 \<le> h" "0 \<le> i" "0 \<le> j" "j < 60" "0 \<le> h'" "0 \<le> i'" "0 \<le> j'" "j' < 60"
      using nn [OF r(1)] nn [OF r(3)] unfolding a(1-3) a'(1-3) by blast+
    have "h < h' \<or> (h = h' \<and> (i < i' \<or> (i = i' \<and> j < j')))" using lt a(4-6) a'(4-6) n by linarith
    moreover have "c_strcmp (d2 j) (d2 j') < 0" if "j < j'"
      using c_strcmp_d2(2) [of j j' "[]" "[]"] that n by simp
    ultimately have "c_strcmp (32 # d2 h @ 58 # d2 i @ 58 # d2 j) (32 # d2 h' @ 58 # d2 i' @ 58 # d2 j') < 0"
      using a(4,5) a'(4,5) n by (auto simp: c_strcmp_d2)
    then show ?thesis
      using assms(1) show_date_no_zero(1) [of "l div 86400"] d
      by (simp add: show_secs_def show_tm_date ymd_secs_def a(1-3) a'(1-3) c_strcmp_same_prefix)
  qed
qed

lemma c_strcmp_secs_iff:
  assumes "ymd_secs l" and "ymd_secs l'"
  shows "0 < c_strcmp (show_secs l) (show_secs l') \<longleftrightarrow> l' < l"
    and "c_strcmp (show_secs l) (show_secs l') \<le> 0 \<longleftrightarrow> l \<le> l'"
proof -
  have "l < l' \<Longrightarrow> c_strcmp (show_secs l) (show_secs l') < 0" using c_strcmp_secs assms by blast
  moreover have "l' < l \<Longrightarrow> c_strcmp (show_secs l) (show_secs l') > 0"
    using c_strcmp_secs [OF assms(2,1)] c_strcmp_swap [of "show_secs l" "show_secs l'"] by simp
  moreover have "l = l' \<Longrightarrow> c_strcmp (show_secs l) (show_secs l') = 0" by (simp add: c_strcmp_eq)
  ultimately show "0 < c_strcmp (show_secs l) (show_secs l') \<longleftrightarrow> l' < l"
    "c_strcmp (show_secs l) (show_secs l') \<le> 0 \<longleftrightarrow> l \<le> l'" by (smt (verit))+
qed

lemma ymd_bounds:
  assumes "ymd_secs l"
  shows "0 \<le> tm_year (tm_of l) + 1900" and "tm_year (tm_of l) + 1900 \<le> 9999"
  using assms by (auto simp: ymd_secs_def ymd_day_def year_of_day_def tm_of_def Let_def split: prod.splits)

lemma lcs_time2_str_secs: "ymd_secs (local_secs z t) \<Longrightarrow> lcs_time2_str z t = Some (show_secs (local_secs z t))"
  using show_tm_fits ymd_bounds by (simp add: lcs_time2_str_def show_secs_def localtime_def)

lemma lcs_str2_time_secs: "ymd_secs l \<Longrightarrow> lcs_str2_time z (show_secs l) = l - std_off z"
  using strptime_show [of "tm_of l"] ymd_bounds tm_of_correct [of l]
  by (simp add: lcs_str2_time_def show_secs_def mktime_secs)

lemma take_show_secs: "ymd_secs l \<Longrightarrow> take 10 (show_secs l) = show_date (l div 86400)"
  by (simp add: show_secs_def show_tm_date ymd_secs_def length_show_date)

section \<open>Example\<close>

theorem time_roundtrip_witness:
  "\<exists>s. lcs_time2_str \<lparr>std_off = 25200, dst_off = (\<lambda>_. 0)\<rparr> 1509210000 = Some s \<and>
     lcs_str2_time \<lparr>std_off = 25200, dst_off = (\<lambda>_. 0)\<rparr> s = 1509210000"
proof -
  let ?z = "\<lparr>std_off = 25200, dst_off = (\<lambda>_. 0)\<rparr>"
  have "0 \<le> year_of (local_secs ?z 1509210000)" "year_of (local_secs ?z 1509210000) \<le> 9999" by code_simp+
  then show ?thesis using time_roundtrip [of ?z 1509210000] by simp
qed

end
