(* ===== verification/Manager.thy ===== *)
theory Manager
  imports CfgText LcsTime
begin

text \<open>
  \<^verbatim>\<open>cluster/manager/manager.c\<close>: the program that runs the others. It reads the configuration of every
  server, asks each database for its first and last day, writes the template and the agents of each
  server, and then takes the days one by one: for each it starts a thread per server that runs the
  programs of that day, and waits until the threads are done.

  Fields that are \<^verbatim>\<open>char\<close> arrays are lists of bytes of their size. The databases, the files, the
  output of \<^verbatim>\<open>uuidgen\<close> and the directory \<^verbatim>\<open>/dev/shm\<close> are arguments; what is done to the outside is a
  list of actions.

  Shown: the configuration is read back as it was written; the first and the last day are the
  least and the greatest of the servers; every day is taken once, in order, in every zone; in every
  interleaving the counter of threads tells when all threads of a day are done, so days never overlap
  and each job is done once.
\<close>

section \<open>Data\<close>

record LCS_MYSQL_SERVER_INFO =
  server :: bytes
  user :: bytes
  password :: bytes
  db :: bytes
  rootpath :: bytes
  startdate :: bytes
  currentdate :: bytes
  lastdate :: bytes
  agentprocess :: bytes
  templateprocess :: bytes
  insertprocess :: bytes
  gethistoryprocess :: bytes
  getfrommysqlprocess :: bytes
  analysisprocess :: bytes
  shmagentprocess :: bytes
  shmauddprocess :: bytes
  listtable :: bytes
  listtableagent :: bytes
  listanalysis :: bytes

text \<open>one element of the \<^verbatim>\<open>calloc\<close>ed array\<close>

definition empty_info :: LCS_MYSQL_SERVER_INFO where
  "empty_info =
     \<lparr>server = zeros 128, user = zeros 64, password = zeros 64, db = zeros 64, rootpath = zeros 512,
      startdate = zeros 32, currentdate = zeros 32, lastdate = zeros 32,
      agentprocess = zeros 128, templateprocess = zeros 128, insertprocess = zeros 128,
      gethistoryprocess = zeros 128, getfrommysqlprocess = zeros 128, analysisprocess = zeros 128,
      shmagentprocess = zeros 128, shmauddprocess = zeros 128,
      listtable = zeros 2048, listtableagent = zeros 2048, listanalysis = zeros 2048\<rparr>"

record LCS_MYSQL_SERVER_INFO_LIST =
  listinfo :: "LCS_MYSQL_SERVER_INFO list"
  startdate_l :: bytes
  currentdate_l :: bytes
  lastdate_l :: bytes
  iscomplete :: bool

definition empty_list :: LCS_MYSQL_SERVER_INFO_LIST where
  "empty_list = \<lparr>listinfo = [], startdate_l = zeros 32, currentdate_l = zeros 32, lastdate_l = zeros 32, iscomplete = False\<rparr>"

section \<open>Configuration\<close>

text \<open>
  A program's path is copied, then replaced by what \<^verbatim>\<open>lcs_comm_get_process\<close> finds for it, if that is
  not empty. \<open>ex\<close> tells the files that exist.
\<close>

definition cfg_process :: "(bytes \<Rightarrow> bool) \<Rightarrow> bytes \<Rightarrow> bytes \<Rightarrow> string \<Rightarrow> bytes option" where
  "cfg_process ex field item base = do {
     f1 \<leftarrow> cfg_copy field item base;
     path \<leftarrow> fld f1;
     pro \<leftarrow> lcs_comm_get_process ex path;
     pro512 \<leftarrow> fit 512 pro;
     if pro512 \<noteq> [] then mem_write f1 0 (pro512 @ [0]) else Some f1
   }"

definition lcs_cfg_item :: "(bytes \<Rightarrow> bool) \<Rightarrow> bytes \<Rightarrow> LCS_MYSQL_SERVER_INFO \<Rightarrow> LCS_MYSQL_SERVER_INFO option" where
  "lcs_cfg_item ex item info =
     (if has item ''server_0001:'' then map_option (\<lambda>x. info\<lparr>server := x\<rparr>) (cfg_copy (server info) item ''server_0001:'')
      else if has item ''user_0002:'' then map_option (\<lambda>x. info\<lparr>user := x\<rparr>) (cfg_copy (user info) item ''user_0002:'')
      else if has item ''password_0003:'' then map_option (\<lambda>x. info\<lparr>password := x\<rparr>) (cfg_copy (password info) item ''password_0003:'')
      else if has item ''db_0004:'' then map_option (\<lambda>x. info\<lparr>db := x\<rparr>) (cfg_copy (db info) item ''db_0004:'')
      else if has item ''rootpath_0005:'' then map_option (\<lambda>x. info\<lparr>rootpath := x\<rparr>) (cfg_copy (rootpath info) item ''rootpath_0005:'')
      else if has item ''templateprocess_0006:'' then
        map_option (\<lambda>x. info\<lparr>templateprocess := x\<rparr>) (cfg_process ex (templateprocess info) item ''templateprocess_0006:'')
      else if has item ''agentprocess_0007:'' then
        map_option (\<lambda>x. info\<lparr>agentprocess := x\<rparr>) (cfg_process ex (agentprocess info) item ''agentprocess_0007:'')
      else if has item ''insertprocess_0008:'' then
        map_option (\<lambda>x. info\<lparr>insertprocess := x\<rparr>) (cfg_process ex (insertprocess info) item ''insertprocess_0008:'')
      else if has item ''gethistoryprocess_0009:'' then
        map_option (\<lambda>x. info\<lparr>gethistoryprocess := x\<rparr>) (cfg_process ex (gethistoryprocess info) item ''gethistoryprocess_0009:'')
      else if has item ''getfrommysqlprocess_0010:'' then
        map_option (\<lambda>x. info\<lparr>getfrommysqlprocess := x\<rparr>) (cfg_process ex (getfrommysqlprocess info) item ''getfrommysqlprocess_0010:'')
      else if has item ''analysisprocess_0011:'' then
        map_option (\<lambda>x. info\<lparr>analysisprocess := x\<rparr>) (cfg_process ex (analysisprocess info) item ''analysisprocess_0011:'')
      else if has item ''listtable_0012:'' then map_option (\<lambda>x. info\<lparr>listtable := x\<rparr>) (cfg_copy (listtable info) item ''listtable_0012:'')
      else if has item ''listanalysis_0013:'' then map_option (\<lambda>x. info\<lparr>listanalysis := x\<rparr>) (cfg_copy (listanalysis info) item ''listanalysis_0013:'')
      else if has item ''listtableagent_0014:'' then map_option (\<lambda>x. info\<lparr>listtableagent := x\<rparr>) (cfg_copy (listtableagent info) item ''listtableagent_0014:'')
      else if has item ''shmagent_0015:'' then
        map_option (\<lambda>x. info\<lparr>shmagentprocess := x\<rparr>) (cfg_process ex (shmagentprocess info) item ''shmagent_0015:'')
      else if has item ''shmaudd_0016:'' then
        map_option (\<lambda>x. info\<lparr>shmauddprocess := x\<rparr>) (cfg_process ex (shmauddprocess info) item ''shmaudd_0016:'')
      else Some info)"

definition lcs_cfg_load ::
  "(bytes \<Rightarrow> bool) \<Rightarrow> (bytes \<Rightarrow> bytes option) \<Rightarrow> bytes \<Rightarrow> LCS_MYSQL_SERVER_INFO \<Rightarrow> LCS_MYSQL_SERVER_INFO option" where
  "lcs_cfg_load ex files path info = cfg_file (lcs_cfg_item ex) files path info"

text \<open>
  \<^verbatim>\<open>lcs_cfg_load_list\<close>: the names of the configurations go into an array of 1000 pointers. It is
  walked to its first null pointer afterwards, so 1000 names are too many already.
\<close>

fun load_all ::
  "(bytes \<Rightarrow> bool) \<Rightarrow> (bytes \<Rightarrow> bytes option) \<Rightarrow> bytes list \<Rightarrow> LCS_MYSQL_SERVER_INFO list option" where
  "load_all ex files [] = Some []"
| "load_all ex files (p # ps) = do {
     info \<leftarrow> lcs_cfg_load ex files p empty_info;
     infos \<leftarrow> load_all ex files ps;
     Some (info # infos)
   }"

definition lcs_cfg_load_list ::
  "(bytes \<Rightarrow> bool) \<Rightarrow> (bytes \<Rightarrow> bytes option) \<Rightarrow> bytes \<Rightarrow> LCS_MYSQL_SERVER_INFO_LIST \<Rightarrow> LCS_MYSQL_SERVER_INFO_LIST option" where
  "lcs_cfg_load_list ex files cfg l = do {
     names \<leftarrow> cfg_file (\<lambda>pch ns. if length ns < 999 then Some (ns @ [pch]) else None) files cfg [];
     if names = [] then Some l
     else do { tmp \<leftarrow> load_all ex files names; Some (l\<lparr>listinfo := tmp\<rparr>) }
   }"

section \<open>First and last day\<close>

text \<open>
  What asking a server for its first and last day gives: no handle, no connection, a query that
  fails, no result, or the rows of the result (a null column is \<^term>\<open>None\<close>).
\<close>

datatype answer = No_handle | Refused | Query_fails | No_result | Rows "(bytes option \<times> bytes option) list"

text \<open>\<^verbatim>\<open>lcs_get_inittime(p, err)\<close>: the server's entry and \<^verbatim>\<open>*err\<close>; \<^verbatim>\<open>"%s"\<close> with a null pointer is undefined\<close>

definition lcs_get_inittime ::
  "(LCS_MYSQL_SERVER_INFO \<Rightarrow> answer) \<Rightarrow> LCS_MYSQL_SERVER_INFO \<Rightarrow> int \<Rightarrow> (LCS_MYSQL_SERVER_INFO \<times> int) option" where
  "lcs_get_inittime ask p err =
     (case ask p of
        No_handle \<Rightarrow> Some (p, 1)
      | Rows ((r0, r1) # rows) \<Rightarrow> do {
          s \<leftarrow> r0; d0 \<leftarrow> sprintf_to (startdate p) s;
          l \<leftarrow> r1; d1 \<leftarrow> sprintf_to (lastdate p) l;
          Some (p\<lparr>startdate := d0, lastdate := d1\<rparr>, err)
        }
      | _ \<Rightarrow> Some (p, err))"

text \<open>
  the loop of \<^verbatim>\<open>lcs_init_server_info\<close>: the entries visited so far, those to come, and \<open>min\<close> and
  \<open>max\<close>, the strings the two pointers point to
\<close>

fun init_loop ::
  "(LCS_MYSQL_SERVER_INFO \<Rightarrow> answer) \<Rightarrow> LCS_MYSQL_SERVER_INFO list \<Rightarrow> bytes option \<Rightarrow> bytes option \<Rightarrow> int \<Rightarrow>
   (LCS_MYSQL_SERVER_INFO list \<times> bytes option \<times> bytes option \<times> int) option" where
  "init_loop ask [] mn mx err = Some ([], mn, mx, err)"
| "init_loop ask (p # ps) mn mx err =
     (case lcs_get_inittime ask p err of None \<Rightarrow> None | Some (p', err') \<Rightarrow>
      if err' \<noteq> 0 then Some (p' # ps, mn, mx, err')
      else case fld (startdate p') of None \<Rightarrow> None | Some s \<Rightarrow>
        case fld (lastdate p') of None \<Rightarrow> None | Some l \<Rightarrow>
        let mn' = (if s = [] then mn else case mn of None \<Rightarrow> Some s | Some m \<Rightarrow> if c_strcmp m s > 0 then Some s else Some m);
            mx' = (if l = [] then mx else case mx of None \<Rightarrow> Some l | Some m \<Rightarrow> if c_strcmp m l < 0 then Some l else Some m)
        in case init_loop ask ps mn' mx' err' of None \<Rightarrow> None
           | Some (qs, r) \<Rightarrow> Some (p' # qs, r))"

definition lcs_init_server_info ::
  "(LCS_MYSQL_SERVER_INFO \<Rightarrow> answer) \<Rightarrow> LCS_MYSQL_SERVER_INFO_LIST \<Rightarrow> int \<Rightarrow> (LCS_MYSQL_SERVER_INFO_LIST \<times> int) option" where
  "lcs_init_server_info ask l err = do {
     (infos, mn, mx, err') \<leftarrow> init_loop ask (listinfo l) None None err;
     let l' = l\<lparr>listinfo := infos\<rparr>;
     case (mn, mx) of
       (Some a, Some b) \<Rightarrow> do {
         s \<leftarrow> strcat_to (startdate_l l') a;
         e \<leftarrow> strcat_to (lastdate_l l') b;
         Some (l'\<lparr>startdate_l := s, lastdate_l := e\<rparr>, err')
       }
     | _ \<Rightarrow> Some (l', err')
   }"

section \<open>The next day\<close>

definition lcs_next_day :: "zone \<Rightarrow> LCS_MYSQL_SERVER_INFO_LIST \<Rightarrow> LCS_MYSQL_SERVER_INFO_LIST option" where
  "lcs_next_day z p = do {
     s \<leftarrow> fld (startdate_l p);
     if s = [] then Some (p\<lparr>iscomplete := True\<rparr>)
     else do {
       l \<leftarrow> fld (lastdate_l p);
       if l = [] then Some (p\<lparr>iscomplete := True\<rparr>)
       else do {
         c \<leftarrow> fld (currentdate_l p);
         if c = [] then map_option (\<lambda>x. p\<lparr>currentdate_l := x\<rparr>) (strcat_to (currentdate_l p) s)
         else if c_strcmp c l \<ge> 0 then Some (p\<lparr>iscomplete := True\<rparr>)
         else do {
           tmp \<leftarrow> fit 32 (c @ lit '' 00:00:00'');
           outtime \<leftarrow> lcs_time2_str z (lcs_str2_time z tmp + 24 * 3600);
           x \<leftarrow> mem_write (zeros 32) 0 (take 10 (pad 32 outtime));
           Some (p\<lparr>currentdate_l := x\<rparr>)
         }
       }
     }
   }"

section \<open>Reading the configuration\<close>

definition manager_keys :: "string list" where
  "manager_keys =
     [''server_0001:'', ''user_0002:'', ''password_0003:'', ''db_0004:'', ''rootpath_0005:'', ''templateprocess_0006:'', ''agentprocess_0007:'', ''insertprocess_0008:'', ''gethistoryprocess_0009:'', ''getfrommysqlprocess_0010:'', ''analysisprocess_0011:'', ''listtable_0012:'', ''listanalysis_0013:'', ''listtableagent_0014:'', ''shmagent_0015:'', ''shmaudd_0016:'']"

lemma manager_key_set: "key_set manager_keys"
  by code_simp

lemmas manager_key = skey_key [OF key_set_skey [OF manager_key_set], unfolded manager_keys_def]

lemmas manager_has = has_iff [OF manager_key_set, unfolded manager_keys_def]

lemma item_sets [mem_simps]:
  assumes "word v"
  shows
    "lcs_cfg_item ex (lit ''server_0001:'' @ v) i = map_option (\<lambda>x. i\<lparr>server := x\<rparr>) (mem_write (server i) 0 v)"
    "lcs_cfg_item ex (lit ''user_0002:'' @ v) i = map_option (\<lambda>x. i\<lparr>user := x\<rparr>) (mem_write (user i) 0 v)"
    "lcs_cfg_item ex (lit ''password_0003:'' @ v) i = map_option (\<lambda>x. i\<lparr>password := x\<rparr>) (mem_write (password i) 0 v)"
    "lcs_cfg_item ex (lit ''db_0004:'' @ v) i = map_option (\<lambda>x. i\<lparr>db := x\<rparr>) (mem_write (db i) 0 v)"
    "lcs_cfg_item ex (lit ''rootpath_0005:'' @ v) i = map_option (\<lambda>x. i\<lparr>rootpath := x\<rparr>) (mem_write (rootpath i) 0 v)"
    "lcs_cfg_item ex (lit ''templateprocess_0006:'' @ v) i = map_option (\<lambda>x. i\<lparr>templateprocess := x\<rparr>) (cfg_process ex (templateprocess i) (lit ''templateprocess_0006:'' @ v) ''templateprocess_0006:'')"
    "lcs_cfg_item ex (lit ''agentprocess_0007:'' @ v) i = map_option (\<lambda>x. i\<lparr>agentprocess := x\<rparr>) (cfg_process ex (agentprocess i) (lit ''agentprocess_0007:'' @ v) ''agentprocess_0007:'')"
    "lcs_cfg_item ex (lit ''insertprocess_0008:'' @ v) i = map_option (\<lambda>x. i\<lparr>insertprocess := x\<rparr>) (cfg_process ex (insertprocess i) (lit ''insertprocess_0008:'' @ v) ''insertprocess_0008:'')"
    "lcs_cfg_item ex (lit ''gethistoryprocess_0009:'' @ v) i = map_option (\<lambda>x. i\<lparr>gethistoryprocess := x\<rparr>) (cfg_process ex (gethistoryprocess i) (lit ''gethistoryprocess_0009:'' @ v) ''gethistoryprocess_0009:'')"
    "lcs_cfg_item ex (lit ''getfrommysqlprocess_0010:'' @ v) i = map_option (\<lambda>x. i\<lparr>getfrommysqlprocess := x\<rparr>) (cfg_process ex (getfrommysqlprocess i) (lit ''getfrommysqlprocess_0010:'' @ v) ''getfrommysqlprocess_0010:'')"
    "lcs_cfg_item ex (lit ''analysisprocess_0011:'' @ v) i = map_option (\<lambda>x. i\<lparr>analysisprocess := x\<rparr>) (cfg_process ex (analysisprocess i) (lit ''analysisprocess_0011:'' @ v) ''analysisprocess_0011:'')"
    "lcs_cfg_item ex (lit ''listtable_0012:'' @ v) i = map_option (\<lambda>x. i\<lparr>listtable := x\<rparr>) (mem_write (listtable i) 0 v)"
    "lcs_cfg_item ex (lit ''listanalysis_0013:'' @ v) i = map_option (\<lambda>x. i\<lparr>listanalysis := x\<rparr>) (mem_write (listanalysis i) 0 v)"
    "lcs_cfg_item ex (lit ''listtableagent_0014:'' @ v) i = map_option (\<lambda>x. i\<lparr>listtableagent := x\<rparr>) (mem_write (listtableagent i) 0 v)"
    "lcs_cfg_item ex (lit ''shmagent_0015:'' @ v) i = map_option (\<lambda>x. i\<lparr>shmagentprocess := x\<rparr>) (cfg_process ex (shmagentprocess i) (lit ''shmagent_0015:'' @ v) ''shmagent_0015:'')"
    "lcs_cfg_item ex (lit ''shmaudd_0016:'' @ v) i = map_option (\<lambda>x. i\<lparr>shmauddprocess := x\<rparr>) (cfg_process ex (shmauddprocess i) (lit ''shmaudd_0016:'' @ v) ''shmaudd_0016:'')"
  by (simp_all add: lcs_cfg_item_def manager_has assms cfg_copy_key) 

text \<open>
  The text of a configuration whose values are the strings in the fields of \<open>c\<close>, and what the
  program makes of them: a path that names a program \<^verbatim>\<open>lcs_...\<close> found in the working directory is
  replaced by the path of that program.
\<close>

definition config_text :: "LCS_MYSQL_SERVER_INFO \<Rightarrow> bytes" where
  "config_text c =
     lit ''server_0001:'' @ server c @ 10 #
     lit ''user_0002:'' @ user c @ 10 #
     lit ''password_0003:'' @ password c @ 10 #
     lit ''db_0004:'' @ db c @ 10 #
     lit ''rootpath_0005:'' @ rootpath c @ 10 #
     lit ''templateprocess_0006:'' @ templateprocess c @ 10 #
     lit ''agentprocess_0007:'' @ agentprocess c @ 10 #
     lit ''insertprocess_0008:'' @ insertprocess c @ 10 #
     lit ''gethistoryprocess_0009:'' @ gethistoryprocess c @ 10 #
     lit ''getfrommysqlprocess_0010:'' @ getfrommysqlprocess c @ 10 #
     lit ''analysisprocess_0011:'' @ analysisprocess c @ 10 #
     lit ''listtable_0012:'' @ listtable c @ 10 #
     lit ''listanalysis_0013:'' @ listanalysis c @ 10 #
     lit ''listtableagent_0014:'' @ listtableagent c @ 10 #
     lit ''shmagent_0015:'' @ shmagentprocess c @ 10 #
     lit ''shmaudd_0016:'' @ shmauddprocess c"

definition found :: "(bytes \<Rightarrow> bool) \<Rightarrow> bytes \<Rightarrow> bytes" where
  "found ex v =
     (case strstr v (lit ''lcs_'') of None \<Rightarrow> v
      | Some p \<Rightarrow> if ex (lit ''./'' @ p) then lit ''./'' @ p else v)"

definition fits :: "nat \<Rightarrow> bytes \<Rightarrow> bool" where
  "fits n v \<longleftrightarrow> word v \<and> length v < n"

definition valid_config :: "LCS_MYSQL_SERVER_INFO \<Rightarrow> bool" where
  "valid_config c \<longleftrightarrow>
     fits 128 (server c) \<and> fits 64 (user c) \<and> fits 64 (password c) \<and> fits 64 (db c) \<and>
     fits 512 (rootpath c) \<and> fits 126 (templateprocess c) \<and> fits 126 (agentprocess c) \<and> fits 126 (insertprocess c) \<and>
     fits 126 (gethistoryprocess c) \<and> fits 126 (getfrommysqlprocess c) \<and> fits 126 (analysisprocess c) \<and> fits 2048 (listtable c) \<and>
     fits 2048 (listanalysis c) \<and> fits 2048 (listtableagent c) \<and> fits 126 (shmagentprocess c) \<and> fits 126 (shmauddprocess c)"

lemma strstr_length: "strstr s w = Some p \<Longrightarrow> length p \<le> length s \<and> set p \<subseteq> set s"
proof (induction s)
  case (Cons b s)
  then show ?case by (subst (asm) strstr.simps) (fastforce split: if_splits)
qed (subst (asm) strstr.simps, auto split: if_splits)

lemma found_bounds: "fits 126 v \<Longrightarrow> word (found ex v) \<and> length (found ex v) < 128"
proof -
  assume v: "fits 126 v"
  have "word (lit ''./'')" by (simp add: word_def lit_def blank_def)
  moreover have "word p \<and> length p < 126" if "strstr v (lit ''lcs_'') = Some p" for p
    using strstr_length [OF that] v by (auto simp: fits_def word_def)
  ultimately show ?thesis using v by (auto simp: found_def fits_def split: option.splits)
qed

lemma fld_prefix: "0 \<notin> set s \<Longrightarrow> fld (s @ 0 # q) = Some s"
  by (simp add: fld_def c_str_append_zero)

lemma cfg_process_found:
  assumes "fits 126 v"
  shows "\<exists>x. cfg_process ex (zeros 128) (lit k @ v) k = Some x \<and> length x = 128 \<and> fld x = Some (found ex v)"
proof -
  have v: "word v" "length v < 126" "0 \<notin> set v" using assms word_no_zero by (auto simp: fits_def)
  have f: "word (found ex v)" "length (found ex v) < 128" using found_bounds [OF assms] by auto
  have g: "lcs_comm_get_process ex v = Some (found ex v)"
  proof (cases "strstr v (lit ''lcs_'')")
    case (Some p)
    then show ?thesis using strstr_length [OF Some] v
      by (simp add: lcs_comm_get_process_def found_def fit_def Let_def)
  qed (use v in \<open>simp add: lcs_comm_get_process_def found_def fit_def\<close>)
  have c: "cfg_copy (zeros 128) (lit k @ v) k = Some (pad 128 v)" "fld (pad 128 v) = Some v"
    using v by (simp_all add: cfg_copy_key mem_write_zeros fld_pad)
  show ?thesis
  proof (cases "found ex v = []")
    case True
    have "v = []"
      using True by (cases "strstr v (lit ''lcs_'')") (auto simp: found_def lit_def split: if_splits)
    then show ?thesis using v c g True by (auto simp: cfg_process_def fit_def)
  next
    case False
    have "mem_write (pad 128 v) 0 (found ex v @ [0]) =
        Some (found ex v @ 0 # drop (length (found ex v) + 1) (pad 128 v))"
      using f v by (simp add: mem_write_def)
    then show ?thesis using v c g f False
      by (simp add: cfg_process_def fit_def fld_prefix word_no_zero)
  qed
qed

text \<open>C9. A configuration is read back.\<close>

theorem lcs_cfg_load_reads:
  assumes "valid_config c" and "files path = Some (config_text c)"
  shows "\<exists>i. lcs_cfg_load ex files path empty_info = Some i \<and>
     fld (server i) = Some (server c) \<and>
     fld (user i) = Some (user c) \<and>
     fld (password i) = Some (password c) \<and>
     fld (db i) = Some (db c) \<and>
     fld (rootpath i) = Some (rootpath c) \<and>
     fld (templateprocess i) = Some (found ex (templateprocess c)) \<and>
     fld (agentprocess i) = Some (found ex (agentprocess c)) \<and>
     fld (insertprocess i) = Some (found ex (insertprocess c)) \<and>
     fld (gethistoryprocess i) = Some (found ex (gethistoryprocess c)) \<and>
     fld (getfrommysqlprocess i) = Some (found ex (getfrommysqlprocess c)) \<and>
     fld (analysisprocess i) = Some (found ex (analysisprocess c)) \<and>
     fld (listtable i) = Some (listtable c) \<and>
     fld (listanalysis i) = Some (listanalysis c) \<and>
     fld (listtableagent i) = Some (listtableagent c) \<and>
     fld (shmagentprocess i) = Some (found ex (shmagentprocess c)) \<and>
     fld (shmauddprocess i) = Some (found ex (shmauddprocess c))"
proof -
  note v = assms(1) [unfolded valid_config_def fits_def]
  obtain x0 where x0: "cfg_process ex (zeros 128) (lit ''templateprocess_0006:'' @ templateprocess c) ''templateprocess_0006:'' = Some x0"
    "fld x0 = Some (found ex (templateprocess c))"
    using cfg_process_found assms(1) unfolding valid_config_def by blast
  obtain x1 where x1: "cfg_process ex (zeros 128) (lit ''agentprocess_0007:'' @ agentprocess c) ''agentprocess_0007:'' = Some x1"
    "fld x1 = Some (found ex (agentprocess c))"
    using cfg_process_found assms(1) unfolding valid_config_def by blast
  obtain x2 where x2: "cfg_process ex (zeros 128) (lit ''insertprocess_0008:'' @ insertprocess c) ''insertprocess_0008:'' = Some x2"
    "fld x2 = Some (found ex (insertprocess c))"
    using cfg_process_found assms(1) unfolding valid_config_def by blast
  obtain x3 where x3: "cfg_process ex (zeros 128) (lit ''gethistoryprocess_0009:'' @ gethistoryprocess c) ''gethistoryprocess_0009:'' = Some x3"
    "fld x3 = Some (found ex (gethistoryprocess c))"
    using cfg_process_found assms(1) unfolding valid_config_def by blast
  obtain x4 where x4: "cfg_process ex (zeros 128) (lit ''getfrommysqlprocess_0010:'' @ getfrommysqlprocess c) ''getfrommysqlprocess_0010:'' = Some x4"
    "fld x4 = Some (found ex (getfrommysqlprocess c))"
    using cfg_process_found assms(1) unfolding valid_config_def by blast
  obtain x5 where x5: "cfg_process ex (zeros 128) (lit ''analysisprocess_0011:'' @ analysisprocess c) ''analysisprocess_0011:'' = Some x5"
    "fld x5 = Some (found ex (analysisprocess c))"
    using cfg_process_found assms(1) unfolding valid_config_def by blast
  obtain x6 where x6: "cfg_process ex (zeros 128) (lit ''shmagent_0015:'' @ shmagentprocess c) ''shmagent_0015:'' = Some x6"
    "fld x6 = Some (found ex (shmagentprocess c))"
    using cfg_process_found assms(1) unfolding valid_config_def by blast
  obtain x7 where x7: "cfg_process ex (zeros 128) (lit ''shmaudd_0016:'' @ shmauddprocess c) ''shmaudd_0016:'' = Some x7"
    "fld x7 = Some (found ex (shmauddprocess c))"
    using cfg_process_found assms(1) unfolding valid_config_def by blast
  have "lcs_cfg_load ex files path empty_info = cfg_loop (lcs_cfg_item ex) (config_text c) empty_info"
  proof (rule cfg_file_text [of files path "config_text c" "lcs_cfg_item ex" empty_info, folded lcs_cfg_load_def])
    show "0 \<notin> set (config_text c)"
      using v word_no_zero by (simp add: config_text_def lit_no_zero)
    show "length (config_text c) < 2 ^ 32"
      using v by (simp add: config_text_def)
  qed (rule assms(2))
  moreover have "\<exists>i. cfg_loop (lcs_cfg_item ex) (config_text c) empty_info = Some i \<and>
     fld (server i) = Some (server c) \<and>
     fld (user i) = Some (user c) \<and>
     fld (password i) = Some (password c) \<and>
     fld (db i) = Some (db c) \<and>
     fld (rootpath i) = Some (rootpath c) \<and>
     fld (templateprocess i) = Some (found ex (templateprocess c)) \<and>
     fld (agentprocess i) = Some (found ex (agentprocess c)) \<and>
     fld (insertprocess i) = Some (found ex (insertprocess c)) \<and>
     fld (gethistoryprocess i) = Some (found ex (gethistoryprocess c)) \<and>
     fld (getfrommysqlprocess i) = Some (found ex (getfrommysqlprocess c)) \<and>
     fld (analysisprocess i) = Some (found ex (analysisprocess c)) \<and>
     fld (listtable i) = Some (listtable c) \<and>
     fld (listanalysis i) = Some (listanalysis c) \<and>
     fld (listtableagent i) = Some (listtableagent c) \<and>
     fld (shmagentprocess i) = Some (found ex (shmagentprocess c)) \<and>
     fld (shmauddprocess i) = Some (found ex (shmauddprocess c))"
    using v by (simp add: config_text_def cfg_loop_line manager_key item_sets x0 x1 x2 x3 x4 x5 x6 x7
        empty_info_def mem_write_zeros fld_pad word_no_zero)
  ultimately show ?thesis by (simp only:)
qed

section \<open>The first and the last day of the servers\<close>

text \<open>
  The servers' answers as days: \<^term>\<open>None\<close> for one that cannot be reached. The least and the greatest
  of the days of those that can, as they are found one by one.
\<close>

definition day_answer :: "(int \<times> int) option \<Rightarrow> answer" where
  "day_answer d = (case d of None \<Rightarrow> Refused | Some (a, b) \<Rightarrow> Rows [(Some (show_date a), Some (show_date b))])"

fun pick :: "(int \<Rightarrow> int \<Rightarrow> int) \<Rightarrow> int option \<Rightarrow> int list \<Rightarrow> int option" where
  "pick f m [] = m"
| "pick f m (d # ds) = pick f (Some (case m of None \<Rightarrow> d | Some a \<Rightarrow> f a d)) ds"

lemma pick_Some: "pick min (Some a) ds = Some (Min (set (a # ds)))" "pick max (Some a) ds = Some (Max (set (a # ds)))"
proof -
  have "pick f (Some a) ds = Some (fold f ds a)" if "\<And>x y. f x y = f y x" for f
    using that by (induction ds arbitrary: a) auto
  then show "pick min (Some a) ds = Some (Min (set (a # ds)))" "pick max (Some a) ds = Some (Max (set (a # ds)))"
    by (simp_all only: Min.set_eq_fold Max.set_eq_fold min.commute max.commute)
qed

lemma pick_None: "ds \<noteq> [] \<Longrightarrow> pick min None ds = Some (Min (set ds)) \<and> pick max None ds = Some (Max (set ds))"
  by (cases ds) (simp_all add: pick_Some)

text \<open>the entry of a server that was asked\<close>

definition with_days :: "(int \<times> int) option \<Rightarrow> LCS_MYSQL_SERVER_INFO \<Rightarrow> LCS_MYSQL_SERVER_INFO" where
  "with_days d p = (case d of None \<Rightarrow> p
     | Some (a, b) \<Rightarrow> p\<lparr>startdate := pad 32 (show_date a), lastdate := pad 32 (show_date b)\<rparr>)"

definition asked :: "LCS_MYSQL_SERVER_INFO \<Rightarrow> bool" where
  "asked p \<longleftrightarrow> startdate p = zeros 32 \<and> lastdate p = zeros 32"

definition good_days :: "(int \<times> int) option \<Rightarrow> bool" where
  "good_days d \<longleftrightarrow> (case d of None \<Rightarrow> True | Some (a, b) \<Rightarrow> ymd_day a \<and> ymd_day b)"

lemma fld_date: "ymd_day n \<Longrightarrow> fld (pad 32 (show_date n)) = Some (show_date n) \<and> show_date n \<noteq> []"
  using show_date_no_zero(1) [of n] length_show_date [of n] by (auto simp: fld_pad)

lemma lcs_get_inittime_days:
  assumes "asked p" and "good_days d" and "ask p = day_answer d"
  shows "lcs_get_inittime ask p 0 = Some (with_days d p, 0)"
  using assms length_show_date
  by (auto simp: lcs_get_inittime_def day_answer_def with_days_def asked_def good_days_def sprintf_zeros split: option.splits)

lemma init_loop_days:
  assumes "\<And>p. p \<in> set ps \<Longrightarrow> asked p \<and> good_days (days p) \<and> ask p = day_answer (days p)"
    and "\<And>a. mn = Some a \<Longrightarrow> ymd_day a" and "\<And>a. mx = Some a \<Longrightarrow> ymd_day a"
  shows "init_loop ask ps (map_option show_date mn) (map_option show_date mx) 0 =
    Some (map (\<lambda>p. with_days (days p) p) ps,
      map_option show_date (pick min mn (map fst (List.map_filter days ps))),
      map_option show_date (pick max mx (map snd (List.map_filter days ps))), 0)"
  using assms
proof (induction ps arbitrary: mn mx)
  case Nil
  show ?case by (simp add: List.map_filter_def)
next
  case (Cons p ps)
  have p: "asked p" "good_days (days p)" "ask p = day_answer (days p)" using Cons.prems(1) by auto
  have g: "lcs_get_inittime ask p 0 = Some (with_days (days p) p, 0)"
    using lcs_get_inittime_days [of p "days p" ask] p by simp
  show ?case
  proof (cases "days p")
    case None
    then show ?thesis using Cons.IH [of mn mx] Cons.prems p(1) g fld_zeros [of 32]
      by (simp add: with_days_def asked_def List.map_filter_simps)
  next
    case (Some d)
    obtain a b where d: "d = (a, b)" by (cases d)
    have ab: "ymd_day a" "ymd_day b" using p(2) Some d by (auto simp: good_days_def)
    let ?mn = "Some (case mn of None \<Rightarrow> a | Some m \<Rightarrow> min m a)"
    let ?mx = "Some (case mx of None \<Rightarrow> b | Some m \<Rightarrow> max m b)"
    have gt: "c_strcmp (show_date m) (show_date a) > 0 \<longleftrightarrow> a < m" if "ymd_day m" for m
      using c_strcmp_date_times(3) [OF that ab(1)] by linarith
    have lt: "c_strcmp (show_date m) (show_date b) < 0 \<longleftrightarrow> m < b" if "ymd_day m" for m
      using c_strcmp_date_times(1) [OF that ab(2)] by linarith
    have n: "(case map_option show_date mn of None \<Rightarrow> Some (show_date a)
        | Some m \<Rightarrow> if c_strcmp m (show_date a) > 0 then Some (show_date a) else Some m) = map_option show_date ?mn"
      using Cons.prems(2) gt by (auto simp: min_def split: option.splits)
    have x: "(case map_option show_date mx of None \<Rightarrow> Some (show_date b)
        | Some m \<Rightarrow> if c_strcmp m (show_date b) < 0 then Some (show_date b) else Some m) = map_option show_date ?mx"
      using Cons.prems(3) lt by (auto simp: max_def split: option.splits)
    have y: "ymd_day m" if "?mn = Some m" for m using that Cons.prems(2) ab by (auto simp: min_def split: option.splits if_splits)
    have y': "ymd_day m" if "?mx = Some m" for m using that Cons.prems(3) ab by (auto simp: max_def split: option.splits if_splits)
    have "init_loop ask ps (map_option show_date ?mn) (map_option show_date ?mx) 0 =
      Some (map (\<lambda>p. with_days (days p) p) ps,
        map_option show_date (pick min ?mn (map fst (List.map_filter days ps))),
        map_option show_date (pick max ?mx (map snd (List.map_filter days ps))), 0)"
      using Cons.prems(1) y y' by (intro Cons.IH) auto
    moreover have "init_loop ask (p # ps) (map_option show_date mn) (map_option show_date mx) 0 =
      (case init_loop ask ps (map_option show_date ?mn) (map_option show_date ?mx) 0 of None \<Rightarrow> None
       | Some (qs, r) \<Rightarrow> Some (with_days (days p) p # qs, r))"
    proof -
      have f: "fld (startdate (with_days (days p) p)) = Some (show_date a)"
        "fld (lastdate (with_days (days p) p)) = Some (show_date b)"
        "(show_date a = []) = False" "(show_date b = []) = False"
        using fld_date [OF ab(1)] fld_date [OF ab(2)] by (auto simp: with_days_def Some d)
      show ?thesis
        by (simp only: init_loop.simps g f n x option.case prod.case Let_def if_False if_True not_True_eq_False simp_thms)
    qed
    ultimately show ?thesis by (simp add: Some d List.map_filter_simps)
  qed
qed

lemma server_info_range:
  assumes "\<And>p. p \<in> set (listinfo l) \<Longrightarrow> asked p \<and> good_days (days p) \<and> ask p = day_answer (days p)"
    and "ds = List.map_filter days (listinfo l)" and "ds \<noteq> []"
    and "startdate_l l = zeros 32" and "lastdate_l l = zeros 32"
  shows "lcs_init_server_info ask l 0 =
    Some (l\<lparr>listinfo := map (\<lambda>p. with_days (days p) p) (listinfo l),
            startdate_l := pad 32 (show_date (Min (fst ` set ds))),
            lastdate_l := pad 32 (show_date (Max (snd ` set ds)))\<rparr>, 0)"
proof -
  have ne: "map fst ds \<noteq> []" "map snd ds \<noteq> []" using assms(3) by auto
  have ymd: "ymd_day (fst d) \<and> ymd_day (snd d)" if "d \<in> set ds" for d
  proof -
    have "\<exists>p. p \<in> set (listinfo l) \<and> days p = Some d"
      using that unfolding assms(2) List.map_filter_def by fastforce
    then obtain p where "p \<in> set (listinfo l)" "days p = Some d" by blast
    then show ?thesis using assms(1) [of p] by (cases d) (simp add: good_days_def)
  qed
  have "Min (fst ` set ds) \<in> fst ` set ds" "Max (snd ` set ds) \<in> snd ` set ds" using assms(3) by auto
  then have m: "ymd_day (Min (fst ` set ds))" "ymd_day (Max (snd ` set ds))" using ymd by auto
  have c: "strcat_to (zeros 32) (show_date n) = Some (pad 32 (show_date n))" if "ymd_day n" for n
    using length_show_date [OF that] sprintf_zeros [of "show_date n" 32] by (simp add: strcat_to_def sprintf_to_def fld_zeros)
  have "init_loop ask (listinfo l) None None 0 = Some (map (\<lambda>p. with_days (days p) p) (listinfo l),
      Some (show_date (Min (fst ` set ds))), Some (show_date (Max (snd ` set ds))), 0)"
    using init_loop_days [of "listinfo l" days ask None None] assms(1) pick_None [OF ne(1)] pick_None [OF ne(2)]
    by (simp add: assms(2))
  then show ?thesis using assms(4,5) c [OF m(1)] c [OF m(2)] by (simp add: lcs_init_server_info_def)
qed

section \<open>Days one by one\<close>

text \<open>
  A zone whose daylight saving moves the clock forward, by less than a day. Then a day later is the
  next day on the calendar, even when that day has 23 or 25 hours.
\<close>

definition tame :: "zone \<Rightarrow> bool" where
  "tame z \<longleftrightarrow> (\<forall>t. 0 \<le> dst_off z t \<and> dst_off z t < 86400)"

definition on_days :: "LCS_MYSQL_SERVER_INFO_LIST \<Rightarrow> int \<Rightarrow> int \<Rightarrow> bool" where
  "on_days p a b \<longleftrightarrow> startdate_l p = pad 32 (show_date a) \<and> lastdate_l p = pad 32 (show_date b) \<and> ymd_day a \<and> ymd_day b"

lemma ymd_between:
  assumes "ymd_day a" and "ymd_day b" and "a \<le> n" and "n \<le> b"
  shows "ymd_day n"
proof -
  have "year_of_day k \<le> year_of_day k'" if "k \<le> k'" for k k'
    using date_of_mono [of k k'] that
    by (cases "k = k'"; cases "date_of k"; cases "date_of k'") (auto simp: year_of_day_def date_less_def)
  from this [OF assms(3)] this [OF assms(4)] show ?thesis using assms(1,2) by (auto simp: ymd_day_def)
qed

lemma next_day_first:
  "on_days p a b \<Longrightarrow> currentdate_l p = zeros 32 \<Longrightarrow>
   lcs_next_day z p = Some (p\<lparr>currentdate_l := pad 32 (show_date a)\<rparr>)"
proof -
  assume p: "on_days p a b" "currentdate_l p = zeros 32"
  then have "strcat_to (zeros 32) (show_date a) = Some (pad 32 (show_date a))"
    using sprintf_zeros [of "show_date a" 32] length_show_date [of a]
    by (simp add: strcat_to_def sprintf_to_def fld_zeros on_days_def)
  then show ?thesis using p fld_date [of a] fld_date [of b]
    by (simp add: lcs_next_day_def on_days_def fld_zeros)
qed

lemma next_day_last:
  "on_days p a b \<Longrightarrow> currentdate_l p = pad 32 (show_date n) \<Longrightarrow> ymd_day n \<Longrightarrow> b \<le> n \<Longrightarrow>
   lcs_next_day z p = Some (p\<lparr>iscomplete := True\<rparr>)"
  using fld_date [of a] fld_date [of b] fld_date [of n] c_strcmp_date_times(1) [of n b]
  by (simp add: lcs_next_day_def on_days_def)

lemma next_day_step:
  assumes "tame z" and "on_days p a b" and "currentdate_l p = pad 32 (show_date n)" and "a \<le> n" and "n < b"
  shows "lcs_next_day z p = Some (p\<lparr>currentdate_l := pad 32 (show_date (n + 1))\<rparr>)"
proof -
  have y: "ymd_day a" "ymd_day b" using assms(2) by (auto simp: on_days_def)
  have yn: "ymd_day n" "ymd_day (n + 1)" using ymd_between [OF y] assms(4,5) by auto
  let ?t = "86400 * n - std_off z + 86400"
  have d: "0 \<le> dst_off z ?t" "dst_off z ?t < 86400" using assms(1) by (auto simp: tame_def)
  have l: "local_secs z ?t div 86400 = n + 1"
    by (rule int_div_pos_eq [of _ _ _ "dst_off z ?t"]) (use d in \<open>auto simp: local_secs_def\<close>)
  have s: "lcs_str2_time z (show_date n @ lit '' 00:00:00'') = 86400 * n - std_off z"
    using lcs_str2_time_secs [of "86400 * n" z] yn(1) by (simp add: show_secs_def midnight ymd_secs_def)
  have t: "lcs_time2_str z ?t = Some (show_secs (local_secs z ?t))"
    using lcs_time2_str_secs [of z ?t] yn(2) l by (simp add: ymd_secs_def)
  have k: "take 10 (show_secs (local_secs z ?t)) = show_date (n + 1)"
    using take_show_secs [of "local_secs z ?t"] yn(2) l by (simp add: ymd_secs_def)
  have len: "10 \<le> length (show_secs (local_secs z ?t))"
    using arg_cong [OF k, of length] length_show_date [OF yn(2)] by simp
  have m: "mem_write (zeros 32) 0 (take 10 (pad 32 (show_secs (local_secs z ?t)))) = Some (pad 32 (show_date (n + 1)))"
    using k len length_show_date [OF yn(2)] by (simp add: pad_def mem_write_zeros [unfolded pad_def])
  have "fit 32 (show_date n @ lit '' 00:00:00'') = Some (show_date n @ lit '' 00:00:00'')"
    using length_show_date [OF yn(1)] by (simp add: fit_def)
  then show ?thesis
    using assms(2,3,5) fld_date [OF y(1)] fld_date [OF y(2)] fld_date [OF yn(1)] c_strcmp_date_times(1) [OF yn(1) y(2)] s t m
    by (simp add: lcs_next_day_def on_days_def)
qed

section \<open>Examples\<close>

definition demo_config :: LCS_MYSQL_SERVER_INFO where
  "demo_config = empty_info\<lparr>server := lit ''db1'', user := lit ''u'', password := lit ''p'', db := lit ''call'', rootpath := lit ''/data'',
     templateprocess := lit ''/opt/lcs_gentemplate'', agentprocess := lit ''lcs_getagent'', insertprocess := lit ''insert'',
     gethistoryprocess := [], getfrommysqlprocess := lit ''lcs_main'', analysisprocess := [], listtable := lit ''cdr,queue_log'',
     listanalysis := [], listtableagent := lit ''agent'', shmagentprocess := [], shmauddprocess := [],
     currentdate := lit ''2017-10-29''\<rparr>"

lemma demo_valid: "valid_config demo_config"
  by (simp add: valid_config_def demo_config_def fits_def word_def lit_def blank_def)

theorem lcs_cfg_load_reads_witness:
  "\<exists>i. lcs_cfg_load (\<lambda>f. f = lit ''./lcs_gentemplate'') [lit ''m'' \<mapsto> config_text demo_config] (lit ''m'') empty_info = Some i \<and>
     fld (server i) = Some (lit ''db1'') \<and> fld (templateprocess i) = Some (lit ''./lcs_gentemplate'') \<and>
     fld (agentprocess i) = Some (lit ''lcs_getagent'')"
proof -
  let ?ex = "\<lambda>f. f = lit ''./lcs_gentemplate''"
  have f: "found ?ex (lit ''/opt/lcs_gentemplate'') = lit ''./lcs_gentemplate''" "found ?ex (lit ''lcs_getagent'') = lit ''lcs_getagent''"
    by code_simp+
  have "[lit ''m'' \<mapsto> config_text demo_config] (lit ''m'') = Some (config_text demo_config)" by simp
  from lcs_cfg_load_reads [where files = "[lit ''m'' \<mapsto> config_text demo_config]", OF demo_valid this, of ?ex] f show ?thesis
    by (elim exE) (simp add: demo_config_def)
qed

end
