(* ===== verification/ManagerJobs.thy ===== *)
theory ManagerJobs
  imports Manager
begin

text \<open>
  The jobs of \<^verbatim>\<open>cluster/manager/manager.c\<close>: for each program it runs, the manager writes a
  configuration file named by \<^verbatim>\<open>uuidgen\<close>, runs the program on it and removes the file. What a function
  does to the outside is the list of its actions, in order.

  The output of each call of \<^verbatim>\<open>uuidgen\<close>, the files that can be opened, \<^verbatim>\<open>USER\<close>, the entries of
  \<^verbatim>\<open>/dev/shm\<close> and what the stack holds where a local array is not initialised are arguments. No
  function called here sets \<^verbatim>\<open>*err\<close>.

  Shown: which shared memory objects are unlinked, and what the history of a day is called when the
  array its name is built in is not cleared.
\<close>

datatype act = Write bytes bytes | Run bytes | Remove bytes | Unlink bytes

record menv =
  uuids :: "nat \<Rightarrow> bytes option"
  opens :: "bytes \<Rightarrow> bool"
  usr :: "bytes option"
  shm :: "bytes \<Rightarrow> dirent list option"
  stack :: bytes

text \<open>
  \<^verbatim>\<open>lcs_bash_cmdext("uuidgen", path, err); (*path)[strlen(*path) - 1] = 0;\<close>: the name of the file.
  Without a program to start it is a null pointer; an empty output is cut in front of its start.
\<close>

definition gen_path :: "bytes option \<Rightarrow> bytes option option" where
  "gen_path u = (case lcs_bash_cmdext u None of None \<Rightarrow> Some None
     | Some t \<Rightarrow> if t = [] then None else Some (Some (butlast t)))"

text \<open>the file is written if it can be opened; its name is returned in any case\<close>

definition gen_file :: "bytes option \<Rightarrow> (bytes \<Rightarrow> bool) \<Rightarrow> bytes option \<Rightarrow> (bytes option \<times> act list) option" where
  "gen_file u can_open text = do {
     path \<leftarrow> gen_path u;
     case path of None \<Rightarrow> Some (None, [])
     | Some f \<Rightarrow> if can_open f then do { t \<leftarrow> text; Some (Some f, [Write f t]) } else Some (Some f, [])
   }"

section \<open>Configuration files\<close>

definition lcs_gen_template_config ::
  "bytes option \<Rightarrow> (bytes \<Rightarrow> bool) \<Rightarrow> LCS_MYSQL_SERVER_INFO \<Rightarrow> (bytes option \<times> act list) option" where
  "lcs_gen_template_config u can_open p = gen_file u can_open (do {
     s \<leftarrow> fld (server p); us \<leftarrow> fld (user p); pw \<leftarrow> fld (password p); d \<leftarrow> fld (db p);
     r \<leftarrow> fld (rootpath p); t \<leftarrow> fld (listtable p);
     Some (lit ''server:'' @ s @ 10 # lit ''user:'' @ us @ 10 # lit ''password:'' @ pw @ 10 # lit ''db:'' @ d @ 10 #
       lit ''path:'' @ (r @ 47 # s @ 47 # d @ lit ''/template'') @ 10 #
       lit ''pathtemplate:'' @ lit ''template.sql'' @ 10 # lit ''listtable:'' @ t)
   })"

definition lcs_gen_agent_config ::
  "bytes option \<Rightarrow> (bytes \<Rightarrow> bool) \<Rightarrow> LCS_MYSQL_SERVER_INFO \<Rightarrow> (bytes option \<times> act list) option" where
  "lcs_gen_agent_config u can_open p = gen_file u can_open (do {
     s \<leftarrow> fld (server p); us \<leftarrow> fld (user p); pw \<leftarrow> fld (password p); d \<leftarrow> fld (db p);
     r \<leftarrow> fld (rootpath p); t \<leftarrow> fld (listtableagent p); i \<leftarrow> fld (insertprocess p);
     Some (lit ''server:'' @ s @ 10 # lit ''user:'' @ us @ 10 # lit ''password:'' @ pw @ 10 # lit ''db:'' @ d @ 10 #
       lit ''pathtemplate_0001:'' @ (r @ 47 # s @ 47 # d @ lit ''/template'') @ 10 #
       lit ''pathagent_0002:'' @ (r @ 47 # s @ 47 # d @ lit ''/agent'') @ 10 #
       lit ''listtable_0003:'' @ t @ 10 # lit ''insertprocess_0004:'' @ i)
   })"

text \<open>\<^verbatim>\<open>strcat(tmp, p->currentdate)\<close> into the array \<open>tmp\<close>, and its dashes replaced\<close>

definition dashed :: "bytes \<Rightarrow> byte \<Rightarrow> LCS_MYSQL_SERVER_INFO \<Rightarrow> bytes option" where
  "dashed tmp c p = do {
     d \<leftarrow> fld (currentdate p);
     t \<leftarrow> strcat_to tmp d;
     t' \<leftarrow> lcs_comm_replace t c 45;
     fld t'
   }"

text \<open>here \<^verbatim>\<open>tmp\<close> is the local array of 32 bytes as it is found\<close>

definition lcs_get_history_cfg ::
  "bytes option \<Rightarrow> (bytes \<Rightarrow> bool) \<Rightarrow> bytes \<Rightarrow> LCS_MYSQL_SERVER_INFO \<Rightarrow> (bytes option \<times> act list) option" where
  "lcs_get_history_cfg u can_open tmp p = gen_file u can_open (do {
     s \<leftarrow> fld (server p); us \<leftarrow> fld (user p); pw \<leftarrow> fld (password p); d \<leftarrow> fld (db p);
     c \<leftarrow> fld (currentdate p); t \<leftarrow> dashed tmp 47 p;
     r \<leftarrow> fld (rootpath p); i \<leftarrow> fld (insertprocess p);
     Some (lit ''server:'' @ s @ 10 # lit ''user:'' @ us @ 10 # lit ''password:'' @ pw @ 10 # lit ''db:'' @ d @ 10 #
       lit ''date_0001:'' @ c @ 10 #
       lit ''pathhistory_0002:'' @ (r @ 47 # s @ 47 # d @ 47 # t) @ 10 #
       lit ''listtable_0003:'' @ lit ''DND_History,agent_history,auto_dial_detail'' @ 10 #
       lit ''pathtemplate_0004:'' @ (r @ 47 # s @ 47 # d @ lit ''/template'') @ 10 #
       lit ''insertprocess_0005:'' @ i)
   })"

definition lcs_get_from_mysql_cfg ::
  "bytes option \<Rightarrow> (bytes \<Rightarrow> bool) \<Rightarrow> LCS_MYSQL_SERVER_INFO \<Rightarrow> (bytes option \<times> act list) option" where
  "lcs_get_from_mysql_cfg u can_open p = gen_file u can_open (do {
     s \<leftarrow> fld (server p); us \<leftarrow> fld (user p); pw \<leftarrow> fld (password p); d \<leftarrow> fld (db p);
     r \<leftarrow> fld (rootpath p); c \<leftarrow> fld (currentdate p); i \<leftarrow> fld (insertprocess p);
     Some (lit ''server:'' @ s @ 10 # lit ''user:'' @ us @ 10 # lit ''password:'' @ pw @ 10 # lit ''db:'' @ d @ 10 #
       lit ''path:'' @ r @ 10 # lit ''date_0011:'' @ c @ 10 # lit ''step:'' @ lit ''60'' @ 10 #
       lit ''max_duration:'' @ lit ''900'' @ 10 # lit ''insertprocess_0009:'' @ i)
   })"

definition lcs_gen_analysis_cfg ::
  "bytes option \<Rightarrow> (bytes \<Rightarrow> bool) \<Rightarrow> LCS_MYSQL_SERVER_INFO \<Rightarrow> (bytes option \<times> act list) option" where
  "lcs_gen_analysis_cfg u can_open p = gen_file u can_open (do {
     r \<leftarrow> fld (rootpath p); s \<leftarrow> fld (server p); d \<leftarrow> fld (db p); l \<leftarrow> fld (listanalysis p); c \<leftarrow> fld (currentdate p);
     Some (lit ''root_path_0001:'' @ r @ 10 # lit ''server_0002:'' @ s @ 10 # lit ''dbname_0003:'' @ d @ 10 #
       lit ''list_ana_0004:'' @ l @ 10 # lit ''date_0005:'' @ c @ 10 # lit ''week_0006:'' @ c @ 10 #
       lit ''month_0007:'' @ 10 # lit ''year_0008:'')
   })"

definition lcs_man_shm_agent_cfg ::
  "bytes option \<Rightarrow> (bytes \<Rightarrow> bool) \<Rightarrow> bytes \<Rightarrow> LCS_MYSQL_SERVER_INFO \<Rightarrow> (bytes option \<times> act list) option" where
  "lcs_man_shm_agent_cfg u can_open k p = gen_file u can_open (do {
     r \<leftarrow> fld (rootpath p); s \<leftarrow> fld (server p); d \<leftarrow> fld (db p);
     Some (lit ''dbpath_0001:'' @ (r @ 47 # s @ 47 # d @ lit ''/agent'') @ 10 # lit ''prefixshmkey_0002:'' @ k)
   })"

text \<open>\<^verbatim>\<open>char date[12]\<close> is filled and changed before the name of the file is made\<close>

definition lcs_man_shm_audd_cfg ::
  "bytes option \<Rightarrow> (bytes \<Rightarrow> bool) \<Rightarrow> bytes \<Rightarrow> LCS_MYSQL_SERVER_INFO \<Rightarrow> (bytes option \<times> act list) option" where
  "lcs_man_shm_audd_cfg u can_open k p = do {
     t \<leftarrow> dashed (zeros 12) 47 p;
     gen_file u can_open (do {
       r \<leftarrow> fld (rootpath p); s \<leftarrow> fld (server p); d \<leftarrow> fld (db p);
       Some (lit ''dbpath_0001:'' @ (r @ 47 # s @ 47 # d @ 47 # t) @ 10 # lit ''prefixshmkey_0002:'' @ k)
     })
   }"

section \<open>Programs\<close>

text \<open>the command, built in 1024 bytes, is run and the file removed, if there is a name for it\<close>

definition run_on :: "bytes option \<times> act list \<Rightarrow> (bytes \<Rightarrow> bytes option) \<Rightarrow> act list option" where
  "run_on r cmd_of = (case r of (None, acts) \<Rightarrow> Some acts
     | (Some f, acts) \<Rightarrow> do { c \<leftarrow> cmd_of f; cmd \<leftarrow> fit 1024 c; Some (acts @ [Run cmd, Remove f]) })"

definition lcs_gen_template :: "bytes option \<Rightarrow> (bytes \<Rightarrow> bool) \<Rightarrow> LCS_MYSQL_SERVER_INFO \<Rightarrow> act list option" where
  "lcs_gen_template u can_open p = do {
     r \<leftarrow> lcs_gen_template_config u can_open p;
     run_on r (\<lambda>f. do { t \<leftarrow> fld (templateprocess p); Some (t @ 32 # f @ lit '' > /dev/null'') })
   }"

definition lcs_get_agent :: "bytes option \<Rightarrow> (bytes \<Rightarrow> bool) \<Rightarrow> LCS_MYSQL_SERVER_INFO \<Rightarrow> act list option" where
  "lcs_get_agent u can_open p = do {
     r \<leftarrow> lcs_gen_agent_config u can_open p;
     run_on r (\<lambda>f. do { t \<leftarrow> fld (agentprocess p); Some (t @ 32 # f @ lit '' > /dev/null'') })
   }"

definition lcs_get_history :: "bytes option \<Rightarrow> (bytes \<Rightarrow> bool) \<Rightarrow> bytes \<Rightarrow> LCS_MYSQL_SERVER_INFO \<Rightarrow> act list option" where
  "lcs_get_history u can_open tmp p = do {
     r \<leftarrow> lcs_get_history_cfg u can_open tmp p;
     run_on r (\<lambda>f. do { t \<leftarrow> fld (gethistoryprocess p); Some (t @ 32 # f @ lit '' > /dev/null'') })
   }"

text \<open>the output goes to a log named by the day and the server\<close>

definition logged :: "bytes \<Rightarrow> bytes \<Rightarrow> string \<Rightarrow> LCS_MYSQL_SERVER_INFO \<Rightarrow> bytes option" where
  "logged process f log p = do {
     t \<leftarrow> fld process; c \<leftarrow> fld (currentdate p); s \<leftarrow> fld (server p);
     Some (t @ 32 # f @ lit '' > '' @ lit log @ c @ 46 # s)
   }"

definition lcs_get_from_mysql :: "bytes option \<Rightarrow> (bytes \<Rightarrow> bool) \<Rightarrow> LCS_MYSQL_SERVER_INFO \<Rightarrow> act list option" where
  "lcs_get_from_mysql u can_open p = do {
     r \<leftarrow> lcs_get_from_mysql_cfg u can_open p;
     run_on r (\<lambda>f. logged (getfrommysqlprocess p) f ''getfrommysql.log.'' p)
   }"

definition lcs_man_shm_agent :: "bytes option \<Rightarrow> (bytes \<Rightarrow> bool) \<Rightarrow> bytes \<Rightarrow> LCS_MYSQL_SERVER_INFO \<Rightarrow> act list option" where
  "lcs_man_shm_agent u can_open k p = do {
     r \<leftarrow> lcs_man_shm_agent_cfg u can_open k p;
     run_on r (\<lambda>f. logged (shmagentprocess p) f ''shmagent.log.'' p)
   }"

definition lcs_man_shm_audd :: "bytes option \<Rightarrow> (bytes \<Rightarrow> bool) \<Rightarrow> bytes \<Rightarrow> LCS_MYSQL_SERVER_INFO \<Rightarrow> act list option" where
  "lcs_man_shm_audd u can_open k p = do {
     r \<leftarrow> lcs_man_shm_audd_cfg u can_open k p;
     run_on r (\<lambda>f. logged (shmauddprocess p) f ''shmaudd.log.'' p)
   }"

text \<open>
  \<^verbatim>\<open>sprintf(key, "%s.%s.%s_%s", getenv("USER"), ...)\<close> into 1024 bytes, for the objects of a day;
  without \<^verbatim>\<open>USER\<close> the argument is a null pointer
\<close>

definition shm_key :: "bytes option \<Rightarrow> LCS_MYSQL_SERVER_INFO \<Rightarrow> bytes option" where
  "shm_key us p = do {
     t \<leftarrow> dashed (zeros 12) 95 p;
     u \<leftarrow> us; s \<leftarrow> fld (server p); d \<leftarrow> fld (db p);
     fit 1024 (u @ 46 # s @ 46 # d @ 95 # t)
   }"

definition lcs_manager_shm :: "menv \<Rightarrow> LCS_MYSQL_SERVER_INFO \<Rightarrow> act list option" where
  "lcs_manager_shm e p = do {
     k \<leftarrow> shm_key (usr e) p;
     a \<leftarrow> lcs_man_shm_agent (uuids e 2) (opens e) k p;
     b \<leftarrow> lcs_man_shm_audd (uuids e 3) (opens e) k p;
     Some (a @ b)
   }"

definition lcs_man_shm_unlink :: "menv \<Rightarrow> LCS_MYSQL_SERVER_INFO \<Rightarrow> act list option" where
  "lcs_man_shm_unlink e p = do {
     k \<leftarrow> shm_key (usr e) p;
     (er, result) \<leftarrow> lcs_comm_list_files (shm e) (lit ''/dev/shm'') 0;
     case result of None \<Rightarrow> Some []
     | Some names \<Rightarrow> Some (map Unlink (filter (\<lambda>n. strstr n k \<noteq> None) names))
   }"

definition lcs_run_analysis :: "menv \<Rightarrow> LCS_MYSQL_SERVER_INFO \<Rightarrow> act list option" where
  "lcs_run_analysis e p = do {
     a \<leftarrow> lcs_manager_shm e p;
     r \<leftarrow> lcs_gen_analysis_cfg (uuids e 4) (opens e) p;
     b \<leftarrow> run_on r (\<lambda>f. logged (analysisprocess p) f ''analysis.log.'' p);
     c \<leftarrow> lcs_man_shm_unlink e p;
     Some (a @ b @ c)
   }"

text \<open>\<^verbatim>\<open>lcs_thread_spec_date(arg)\<close>, up to the last step, \<^verbatim>\<open>lcs_decrease_count()\<close>\<close>

definition lcs_thread_spec_date :: "menv \<Rightarrow> LCS_MYSQL_SERVER_INFO \<Rightarrow> act list option" where
  "lcs_thread_spec_date e p = do {
     a \<leftarrow> lcs_get_history (uuids e 0) (opens e) (stack e) p;
     b \<leftarrow> lcs_get_from_mysql (uuids e 1) (opens e) p;
     c \<leftarrow> lcs_run_analysis e p;
     Some (a @ b @ c)
   }"

text \<open>
  the first loop of \<^verbatim>\<open>lcs_start_bdata\<close>: the templates and the agents of the servers. \<open>err\<close> is what
  the start left in \<^verbatim>\<open>*err\<close>: if it is set, the loop ends after the first template and nothing follows.
\<close>

fun prepare_loop ::
  "(nat \<Rightarrow> bytes option) \<Rightarrow> (bytes \<Rightarrow> bool) \<Rightarrow> int \<Rightarrow> nat \<Rightarrow> LCS_MYSQL_SERVER_INFO list \<Rightarrow> act list option" where
  "prepare_loop us can_open err i [] = Some []"
| "prepare_loop us can_open err i (p # ps) = do {
     a \<leftarrow> lcs_gen_template (us (2 * i)) can_open p;
     if err \<noteq> 0 then Some a
     else do {
       b \<leftarrow> lcs_get_agent (us (2 * i + 1)) can_open p;
       c \<leftarrow> prepare_loop us can_open err (i + 1) ps;
       Some (a @ b @ c)
     }
   }"

section \<open>Commands to the manager\<close>

text \<open>
  \<^verbatim>\<open>lcs_hdl_cmd()\<close>: the text of the command file, and \<^verbatim>\<open>LCS_APP_EXITED\<close> before and after. Its loop in
  \<^verbatim>\<open>main\<close> ends when the flag is set.
\<close>

definition lcs_hdl_cmd :: "(bytes \<Rightarrow> bytes option) \<Rightarrow> byte \<Rightarrow> byte" where
  "lcs_hdl_cmd files exited =
     (case snd (lcs_file_text files (lit ''get-mysql.cmd'')) of None \<Rightarrow> exited
      | Some cmd \<Rightarrow> if strstr (c_str cmd) (lit ''LCS_EXIT'') \<noteq> None then 1 else exited)"

end
