(* ===== verification/ManagerRun.thy ===== *)
theory ManagerRun
  imports ManagerJobs
begin

text \<open>
  The second loop of \<^verbatim>\<open>lcs_start_bdata\<close> in \<^verbatim>\<open>cluster/manager/manager.c\<close>, with its threads: the main
  thread takes the next day, starts a thread for every server that has data of that day, counts them,
  and waits until the counter is zero; each thread does its three jobs (history, calls, analysis) for
  the day it finds in its server's entry and counts itself down. \<^verbatim>\<open>pthread_create\<close> comes before
  \<^verbatim>\<open>lcs_increase_count\<close>, and the threads run in any order between the steps of the main thread.

  The state has, beside the data of the program, the threads that run with the number of their jobs
  done, the jobs done so far and the threads ever started. \<^verbatim>\<open>pthread_create\<close> is taken to succeed.

  Shown for every interleaving: the counter is the number of threads running, less one between the
  start of a thread and its count, where it may be -1; when the main thread takes the next day no
  thread runs; no run is infinite and none gets stuck; at the end every server had every one of its
  days worked on once, day after day.
\<close>

section \<open>The loop\<close>

datatype pc = Next | Create nat | Incr nat | Wait | Finished

record mgr =
  pc :: pc
  plist :: LCS_MYSQL_SERVER_INFO_LIST
  count :: int
  threads :: "(nat \<times> nat) list"
  log :: "(nat \<times> bytes \<times> nat) list"
  started :: "(nat \<times> bytes) list"

text \<open>\<^verbatim>\<open>strcmp(info->startdate, p->currentdate) <= 0 && strcmp(p->currentdate, info->lastdate) <= 0\<close>\<close>

definition in_range :: "bytes \<Rightarrow> LCS_MYSQL_SERVER_INFO \<Rightarrow> bool option" where
  "in_range cur info = do {
     s \<leftarrow> fld (startdate info); c \<leftarrow> fld cur;
     if c_strcmp s c \<le> 0 then do { l \<leftarrow> fld (lastdate info); Some (c_strcmp c l \<le> 0) } else Some False
   }"

text \<open>\<^verbatim>\<open>memcpy(info->currentdate, p->currentdate, strlen(p->currentdate))\<close>\<close>

definition give_date :: "bytes \<Rightarrow> LCS_MYSQL_SERVER_INFO \<Rightarrow> LCS_MYSQL_SERVER_INFO option" where
  "give_date cur info = do {
     c \<leftarrow> fld cur;
     x \<leftarrow> mem_write (currentdate info) 0 c;
     Some (info\<lparr>currentdate := x\<rparr>)
   }"

text \<open>\<^verbatim>\<open>lcs_increase_count\<close>, \<^verbatim>\<open>lcs_decrease_count\<close>, \<^verbatim>\<open>lcs_get_count\<close>, each under its mutex\<close>

definition lcs_increase_count :: "mgr \<Rightarrow> mgr" where
  "lcs_increase_count s = s\<lparr>count := count s + 1\<rparr>"

definition lcs_decrease_count :: "mgr \<Rightarrow> mgr" where
  "lcs_decrease_count s = s\<lparr>count := count s - 1\<rparr>"

definition lcs_get_count :: "mgr \<Rightarrow> int" where
  "lcs_get_count s = count s"

definition entry :: "mgr \<Rightarrow> nat \<Rightarrow> LCS_MYSQL_SERVER_INFO" where
  "entry s i = listinfo (plist s) ! i"

definition servers :: "mgr \<Rightarrow> nat" where
  "servers s = length (listinfo (plist s))"

inductive mgr_step :: "zone \<Rightarrow> mgr \<Rightarrow> mgr \<Rightarrow> bool" for z where
  next_day: "pc s = Next \<Longrightarrow> lcs_next_day z (plist s) = Some l \<Longrightarrow>
    mgr_step z s (s\<lparr>plist := l, pc := if iscomplete l then Finished else Create 0\<rparr>)"
| skip: "pc s = Create i \<Longrightarrow> i < servers s \<Longrightarrow> in_range (currentdate_l (plist s)) (entry s i) = Some False \<Longrightarrow>
    mgr_step z s (s\<lparr>pc := Create (i + 1)\<rparr>)"
| create: "pc s = Create i \<Longrightarrow> i < servers s \<Longrightarrow> in_range (currentdate_l (plist s)) (entry s i) = Some True \<Longrightarrow>
    give_date (currentdate_l (plist s)) (entry s i) = Some info \<Longrightarrow> fld (currentdate info) = Some d \<Longrightarrow>
    mgr_step z s (s\<lparr>plist := (plist s)\<lparr>listinfo := (listinfo (plist s))[i := info]\<rparr>,
      threads := threads s @ [(i, 0)], started := started s @ [(i, d)], pc := Incr i\<rparr>)"
| count_up: "pc s = Incr i \<Longrightarrow> mgr_step z s ((lcs_increase_count s)\<lparr>pc := Create (i + 1)\<rparr>)"
| created: "pc s = Create i \<Longrightarrow> servers s \<le> i \<Longrightarrow> mgr_step z s (s\<lparr>pc := Wait\<rparr>)"
| waited: "pc s = Wait \<Longrightarrow> lcs_get_count s = 0 \<Longrightarrow> mgr_step z s (s\<lparr>pc := Next\<rparr>)"
| work: "threads s = xs @ (i, k) # ys \<Longrightarrow> k < 3 \<Longrightarrow> fld (currentdate (entry s i)) = Some d \<Longrightarrow>
    mgr_step z s (s\<lparr>threads := xs @ (i, k + 1) # ys, log := log s @ [(i, d, k)]\<rparr>)"
| exit: "threads s = xs @ (i, 3) # ys \<Longrightarrow> mgr_step z s ((lcs_decrease_count s)\<lparr>threads := xs @ ys\<rparr>)"

section \<open>The days of the servers\<close>

text \<open>
  \<open>dl\<close> has the first and the last day of each server, or \<^term>\<open>None\<close> if it was not reached. The threads
  that are started on the days from \<open>a\<close> to \<open>m\<close>, those of day \<open>d\<close> for the first \<open>i\<close> servers, and their jobs.
\<close>

definition covers :: "int \<Rightarrow> (int \<times> int) option \<Rightarrow> bool" where
  "covers d x = (case x of None \<Rightarrow> False | Some (s, e) \<Rightarrow> s \<le> d \<and> d \<le> e)"

definition served_part :: "(int \<times> int) option list \<Rightarrow> int \<Rightarrow> nat \<Rightarrow> (nat \<times> bytes) list" where
  "served_part dl d i = map (\<lambda>j. (j, show_date d)) (filter (\<lambda>j. covers d (dl ! j)) [0..<i])"

definition served :: "(int \<times> int) option list \<Rightarrow> int \<Rightarrow> int \<Rightarrow> (nat \<times> bytes) list" where
  "served dl a m = concat (map (\<lambda>d. served_part dl d (length dl)) [a..m])"

definition jobs_of :: "(nat \<times> bytes) list \<Rightarrow> (nat \<times> bytes \<times> nat) list" where
  "jobs_of xs = concat (map (\<lambda>(i, d). map (\<lambda>k. (i, d, k)) [0..<3]) xs)"

definition pending :: "bytes \<Rightarrow> (nat \<times> nat) list \<Rightarrow> (nat \<times> bytes \<times> nat) list" where
  "pending d ts = concat (map (\<lambda>(i, k). map (\<lambda>j. (i, d, j)) [k..<3]) ts)"

definition server_ok :: "(int \<times> int) option \<Rightarrow> LCS_MYSQL_SERVER_INFO \<Rightarrow> bool" where
  "server_ok x info \<longleftrightarrow> good_days x \<and>
     (case x of None \<Rightarrow> fld (startdate info) = Some [] \<and> fld (lastdate info) = Some []
      | Some (s, e) \<Rightarrow> fld (startdate info) = Some (show_date s) \<and> fld (lastdate info) = Some (show_date e)) \<and>
     (currentdate info = zeros 32 \<or> (\<exists>m. ymd_day m \<and> currentdate info = pad 32 (show_date m)))"

definition servers_ok :: "(int \<times> int) option list \<Rightarrow> LCS_MYSQL_SERVER_INFO list \<Rightarrow> bool" where
  "servers_ok dl infos \<longleftrightarrow> length infos = length dl \<and> (\<forall>i < length dl. server_ok (dl ! i) (infos ! i))"

text \<open>the state the loop starts in: the first and the last day are known, none was taken\<close>

definition mgr_start :: "(int \<times> int) option list \<Rightarrow> int \<Rightarrow> int \<Rightarrow> mgr \<Rightarrow> bool" where
  "mgr_start dl a b s \<longleftrightarrow> pc s = Next \<and> on_days (plist s) a b \<and> a \<le> b \<and> currentdate_l (plist s) = zeros 32 \<and>
     \<not> iscomplete (plist s) \<and> servers_ok dl (listinfo (plist s)) \<and>
     count s = 0 \<and> threads s = [] \<and> log s = [] \<and> started s = []"

section \<open>The invariant\<close>

text \<open>\<open>n\<close> is the current day, \<open>a - 1\<close> before the first\<close>

definition cur_ok :: "int \<Rightarrow> int \<Rightarrow> int \<Rightarrow> mgr \<Rightarrow> bool" where
  "cur_ok a b n s \<longleftrightarrow> a - 1 \<le> n \<and> n \<le> b \<and>
     currentdate_l (plist s) = (if n < a then zeros 32 else pad 32 (show_date n))"

definition bound :: "(int \<times> int) option list \<Rightarrow> pc \<Rightarrow> nat" where
  "bound dl p = (case p of Next \<Rightarrow> 0 | Create i \<Rightarrow> i | Incr i \<Rightarrow> i + 1 | Wait \<Rightarrow> length dl | Finished \<Rightarrow> 0)"

definition threads_ok :: "(int \<times> int) option list \<Rightarrow> int \<Rightarrow> mgr \<Rightarrow> bool" where
  "threads_ok dl n s \<longleftrightarrow> distinct (map fst (threads s)) \<and>
     (\<forall>(i, k) \<in> set (threads s). i < bound dl (pc s) \<and> i < length dl \<and> k \<le> 3 \<and> fld (currentdate (entry s i)) = Some (show_date n))"

definition started_ok :: "(int \<times> int) option list \<Rightarrow> int \<Rightarrow> int \<Rightarrow> int \<Rightarrow> mgr \<Rightarrow> bool" where
  "started_ok dl a b n s \<longleftrightarrow>
     (case pc s of
        Next \<Rightarrow> started s = served dl a n
      | Create i \<Rightarrow> a \<le> n \<and> i \<le> length dl \<and> started s = served dl a (n - 1) @ served_part dl n i
      | Incr i \<Rightarrow> a \<le> n \<and> i < length dl \<and> started s = served dl a (n - 1) @ served_part dl n (i + 1)
      | Wait \<Rightarrow> a \<le> n \<and> started s = served dl a n
      | Finished \<Rightarrow> n = b \<and> started s = served dl a b)"

definition log_ok :: "int \<Rightarrow> int \<Rightarrow> mgr \<Rightarrow> bool" where
  "log_ok a n s \<longleftrightarrow> mset (log s) + mset (pending (show_date n) (threads s)) = mset (jobs_of (started s)) \<and>
     sorted_wrt (\<lambda>(i, d, k) (j, e, l). c_strcmp d e \<le> 0) (log s)"

definition mgr_inv :: "(int \<times> int) option list \<Rightarrow> int \<Rightarrow> int \<Rightarrow> int \<Rightarrow> mgr \<Rightarrow> bool" where
  "mgr_inv dl a b n s \<longleftrightarrow> a \<le> b \<and> on_days (plist s) a b \<and> cur_ok a b n s \<and>
     iscomplete (plist s) = (pc s = Finished) \<and> servers_ok dl (listinfo (plist s)) \<and>
     count s = int (length (threads s)) - (case pc s of Incr i \<Rightarrow> 1 | _ \<Rightarrow> 0) \<and>
     threads_ok dl n s \<and> started_ok dl a b n s \<and> log_ok a n s"

text \<open>steps that are left at most\<close>

definition thread_work :: "(nat \<times> nat) list \<Rightarrow> nat" where
  "thread_work ts = sum_list (map (\<lambda>(i, k). 4 - k) ts)"

definition steps_left :: "(int \<times> int) option list \<Rightarrow> int \<Rightarrow> int \<Rightarrow> mgr \<Rightarrow> nat" where
  "steps_left dl b n s = nat (b - n) * (6 * length dl + 3) + thread_work (threads s) +
     (case pc s of Next \<Rightarrow> 1 | Create i \<Rightarrow> 6 * (length dl - i) + 3 | Incr i \<Rightarrow> 6 * (length dl - i - 1) + 4
      | Wait \<Rightarrow> 2 | Finished \<Rightarrow> 0)"

section \<open>Preservation\<close>

lemma in_range_covers:
  assumes "server_ok x info" and "ymd_day n"
  shows "in_range (pad 32 (show_date n)) info = Some (covers n x)"
proof (cases x)
  case None
  obtain c cs where c: "show_date n = c # cs" "c \<noteq> 0"
    using fld_date [OF assms(2)] show_date_no_zero(1) [OF assms(2)] by (cases "show_date n") auto
  have "0 < uint c" using c(2) uint_nonnegative [of c] by (simp add: less_le uint_0_iff)
  then show ?thesis using assms(1) None fld_date [OF assms(2)] c(1)
    by (simp add: server_ok_def in_range_def covers_def)
next
  case (Some se)
  obtain st e where se: "se = (st, e)" by (cases se)
  have y: "ymd_day st" "ymd_day e" using assms(1) Some se by (auto simp: server_ok_def good_days_def)
  then show ?thesis
    using assms Some se fld_date [OF assms(2)] c_strcmp_date_times(3) [OF y(1) assms(2)] c_strcmp_date_times(3) [OF assms(2) y(2)]
    by (simp add: server_ok_def in_range_def covers_def)
qed

lemma give_date_eq:
  assumes "server_ok x info" and "ymd_day n"
  shows "give_date (pad 32 (show_date n)) info = Some (info\<lparr>currentdate := pad 32 (show_date n)\<rparr>)"
proof -
  have "mem_write (currentdate info) 0 (show_date n) = Some (pad 32 (show_date n))"
    using assms length_show_date by (auto simp: server_ok_def mem_write_zeros intro!: mem_write_pad)
  then show ?thesis using fld_date [OF assms(2)] by (simp add: give_date_def)
qed

lemma served_part_Suc: "served_part dl d (Suc i) = served_part dl d i @ (if covers d (dl ! i) then [(i, show_date d)] else [])"
  by (simp add: served_part_def)

lemma served_part_0 [simp]: "served_part dl d 0 = []"
  by (simp add: served_part_def)

lemma served_next: "a \<le> n \<Longrightarrow> served dl a n = served dl a (n - 1) @ served_part dl n (length dl)"
  by (simp add: served_def upto_rec2)

lemma jobs_of_append: "jobs_of (xs @ ys) = jobs_of xs @ jobs_of ys"
  by (simp add: jobs_of_def)

lemma pending_append: "pending d (xs @ ys) = pending d xs @ pending d ys"
  by (simp add: pending_def)

lemma inv_ymd: "mgr_inv dl a b n s \<Longrightarrow> a \<le> n \<Longrightarrow> ymd_day n \<and> currentdate_l (plist s) = pad 32 (show_date n)"
  using ymd_between by (auto simp: mgr_inv_def on_days_def cur_ok_def)

lemma step_next_day:
  assumes "tame z" and i: "mgr_inv dl a b n s" and p: "pc s = Next" and l: "lcs_next_day z (plist s) = Some l"
  shows "\<exists>n'. mgr_inv dl a b n' (s\<lparr>plist := l, pc := if iscomplete l then Finished else Create 0\<rparr>) \<and>
    steps_left dl b n' (s\<lparr>plist := l, pc := if iscomplete l then Finished else Create 0\<rparr>) < steps_left dl b n s"
proof -
  have o: "on_days (plist s) a b" and c: "cur_ok a b n s" and nc: "\<not> iscomplete (plist s)" and ab: "a \<le> b"
    using i p by (auto simp: mgr_inv_def)
  have t: "threads s = []" using i p by (cases "threads s") (auto simp: mgr_inv_def threads_ok_def bound_def)
  consider "n < a" | "a \<le> n" "n < b" | "a \<le> n" "n = b" using c unfolding cur_ok_def by linarith
  then show ?thesis
  proof cases
    case 1
    then have "l = (plist s)\<lparr>currentdate_l := pad 32 (show_date a)\<rparr>"
      using l next_day_first [OF o] c by (simp add: cur_ok_def)
    moreover have "n = a - 1" "nat (b - (a - 1)) = Suc (nat (b - a))" using 1 c ab by (auto simp: cur_ok_def)
    ultimately show ?thesis using i p t nc
      by (intro exI [of _ a])
        (auto simp: mgr_inv_def on_days_def cur_ok_def servers_ok_def threads_ok_def started_ok_def log_ok_def
          steps_left_def entry_def pending_def)
  next
    case 2
    have "l = (plist s)\<lparr>currentdate_l := pad 32 (show_date (n + 1))\<rparr>"
      using l next_day_step [OF assms(1) o] c 2 by (simp add: cur_ok_def)
    moreover have "nat (b - n) = Suc (nat (b - (n + 1)))" using 2 by simp
    ultimately show ?thesis using i p t 2 nc
      by (intro exI [of _ "n + 1"])
        (auto simp: mgr_inv_def on_days_def cur_ok_def servers_ok_def threads_ok_def started_ok_def log_ok_def
          steps_left_def entry_def pending_def)
  next
    case 3
    have "l = (plist s)\<lparr>iscomplete := True\<rparr>"
      using l next_day_last [OF o] c 3 inv_ymd [OF i 3(1)] by simp
    then show ?thesis using i p t 3
      by (intro exI [of _ n])
        (auto simp: mgr_inv_def on_days_def cur_ok_def servers_ok_def threads_ok_def started_ok_def log_ok_def
          steps_left_def entry_def pending_def)
  qed
qed

lemma entry_ok:
  assumes "mgr_inv dl a b n s" and "i < servers s"
  shows "server_ok (dl ! i) (entry s i)" and "i < length dl"
  using assms by (auto simp: mgr_inv_def servers_ok_def servers_def entry_def)

lemma step_skip:
  assumes i: "mgr_inv dl a b n s" and p: "pc s = Create i" "i < servers s"
    and f: "in_range (currentdate_l (plist s)) (entry s i) = Some False"
  shows "mgr_inv dl a b n (s\<lparr>pc := Create (i + 1)\<rparr>) \<and>
    steps_left dl b n (s\<lparr>pc := Create (i + 1)\<rparr>) < steps_left dl b n s"
proof -
  note e = entry_ok [OF i p(2)]
  have an: "a \<le> n" using i p(1) by (simp add: mgr_inv_def started_ok_def)
  have "\<not> covers n (dl ! i)" using in_range_covers [OF e(1)] inv_ymd [OF i an] f by simp
  then show ?thesis using i p(1) e(2)
    by (auto simp: mgr_inv_def cur_ok_def threads_ok_def started_ok_def log_ok_def steps_left_def bound_def entry_def served_part_Suc)
qed

lemma server_ok_give: "server_ok x info \<Longrightarrow> ymd_day n \<Longrightarrow> server_ok x (info\<lparr>currentdate := pad 32 (show_date n)\<rparr>)"
  by (auto simp: server_ok_def split: option.splits)

lemma servers_ok_update:
  "servers_ok dl infos \<Longrightarrow> server_ok (dl ! i) x \<Longrightarrow> servers_ok dl (infos[i := x])"
  unfolding servers_ok_def by (metis length_list_update nth_list_update_eq nth_list_update_neq)

lemma step_create:
  assumes i: "mgr_inv dl a b n s" and p: "pc s = Create i" "i < servers s"
    and f: "in_range (currentdate_l (plist s)) (entry s i) = Some True"
    and g: "give_date (currentdate_l (plist s)) (entry s i) = Some info" and d: "fld (currentdate info) = Some d"
    and s': "s' = s\<lparr>plist := (plist s)\<lparr>listinfo := (listinfo (plist s))[i := info]\<rparr>,
      threads := threads s @ [(i, 0)], started := started s @ [(i, d)], pc := Incr i\<rparr>"
  shows "mgr_inv dl a b n s' \<and> steps_left dl b n s' < steps_left dl b n s"
proof -
  note e = entry_ok [OF i p(2)]
  have an: "a \<le> n" using i p(1) by (simp add: mgr_inv_def started_ok_def)
  note y = inv_ymd [OF i an]
  have cov: "covers n (dl ! i)" using in_range_covers [OF e(1)] y f by simp
  have info: "info = (entry s i)\<lparr>currentdate := pad 32 (show_date n)\<rparr>" using give_date_eq [OF e(1)] y g by simp
  have dn: "d = show_date n" using d fld_date y info by simp
  have len: "length (listinfo (plist s)) = length dl" using i by (simp add: mgr_inv_def servers_ok_def)
  have ok: "servers_ok dl ((listinfo (plist s))[i := info])"
    using i servers_ok_update server_ok_give [OF e(1)] y unfolding mgr_inv_def info by blast
  have lt: "j < i \<and> k \<le> 3 \<and> fld (currentdate (entry s j)) = Some (show_date n)" if "(j, k) \<in> set (threads s)" for j k
    using i that p(1) unfolding mgr_inv_def threads_ok_def by (auto simp: bound_def)
  have dist: "distinct (map fst (threads s) @ [i])"
    using i lt unfolding mgr_inv_def threads_ok_def by fastforce
  have th: "threads_ok dl n s'"
    using lt dist fld_date [of n] y e(2) len unfolding threads_ok_def s' entry_def
    by (fastforce simp: bound_def nth_list_update info)
  have lg: "log_ok a n s'"
    using i unfolding mgr_inv_def log_ok_def s'
    by (simp add: pending_append jobs_of_append dn) (simp add: pending_def jobs_of_def)
  have "steps_left dl b n s' < steps_left dl b n s"
  proof -
    have "length dl - i = Suc (length dl - i - 1)" using e(2) by simp
    then show ?thesis by (simp add: steps_left_def s' p(1) thread_work_def)
  qed
  moreover have "started_ok dl a b n s'"
    using i p(1) e(2) an cov by (simp add: mgr_inv_def started_ok_def s' served_part_Suc dn)
  ultimately show ?thesis
    using i p(1) ok th lg unfolding mgr_inv_def by (auto simp: s' on_days_def cur_ok_def)
qed

lemma step_count_up:
  assumes i: "mgr_inv dl a b n s" and p: "pc s = Incr i"
  shows "mgr_inv dl a b n ((lcs_increase_count s)\<lparr>pc := Create (i + 1)\<rparr>) \<and>
    steps_left dl b n ((lcs_increase_count s)\<lparr>pc := Create (i + 1)\<rparr>) < steps_left dl b n s"
  using i p
  by (auto simp: mgr_inv_def cur_ok_def threads_ok_def started_ok_def log_ok_def steps_left_def bound_def entry_def lcs_increase_count_def)

lemma step_created:
  assumes i: "mgr_inv dl a b n s" and p: "pc s = Create i" "servers s \<le> i"
  shows "mgr_inv dl a b n (s\<lparr>pc := Wait\<rparr>) \<and> steps_left dl b n (s\<lparr>pc := Wait\<rparr>) < steps_left dl b n s"
proof -
  have "i = length dl" "a \<le> n" using i p by (auto simp: mgr_inv_def started_ok_def servers_ok_def servers_def)
  then show ?thesis using i p(1)
    by (auto simp: mgr_inv_def cur_ok_def threads_ok_def started_ok_def log_ok_def steps_left_def bound_def entry_def served_next)
qed

lemma step_waited:
  assumes i: "mgr_inv dl a b n s" and p: "pc s = Wait" "lcs_get_count s = 0"
  shows "mgr_inv dl a b n (s\<lparr>pc := Next\<rparr>) \<and> steps_left dl b n (s\<lparr>pc := Next\<rparr>) < steps_left dl b n s"
  using i p by (auto simp: mgr_inv_def cur_ok_def threads_ok_def started_ok_def log_ok_def steps_left_def bound_def entry_def lcs_get_count_def)

lemma served_part_date: "(i, d) \<in> set (served_part dl m k) \<Longrightarrow> d = show_date m"
  by (auto simp: served_part_def)

lemma served_date: "(i, d) \<in> set (served dl a n) \<Longrightarrow> \<exists>m. a \<le> m \<and> m \<le> n \<and> d = show_date m"
  unfolding served_def using served_part_date by fastforce

lemma started_date:
  assumes "mgr_inv dl a b n s" and "(i, d) \<in> set (started s)"
  shows "\<exists>m. a \<le> m \<and> m \<le> n \<and> d = show_date m"
proof (cases "pc s")
  case Next
  then show ?thesis using assms served_date by (simp add: mgr_inv_def started_ok_def)
next
  case (Create k)
  then have "a \<le> n" "(i, d) \<in> set (served dl a (n - 1)) \<or> (i, d) \<in> set (served_part dl n k)"
    using assms by (auto simp: mgr_inv_def started_ok_def)
  then show ?thesis using served_date [of i d dl a "n - 1"] served_part_date [of i d dl n k] by force
next
  case (Incr k)
  then have "a \<le> n" "(i, d) \<in> set (served dl a (n - 1)) \<or> (i, d) \<in> set (served_part dl n (k + 1))"
    using assms by (auto simp: mgr_inv_def started_ok_def)
  then show ?thesis using served_date [of i d dl a "n - 1"] served_part_date [of i d dl n "k + 1"] by force
next
  case Wait
  then show ?thesis using assms served_date by (simp add: mgr_inv_def started_ok_def)
next
  case Finished
  then show ?thesis using assms served_date by (simp add: mgr_inv_def started_ok_def)
qed

lemma log_date_le:
  assumes i: "mgr_inv dl a b n s" and l: "(m, e, k) \<in> set (log s)"
  shows "c_strcmp e (show_date n) \<le> 0"
proof -
  have "set_mset (mset (log s)) \<subseteq> set_mset (mset (jobs_of (started s)))"
    using i unfolding mgr_inv_def log_ok_def by (metis set_mset_union sup_ge1)
  then have "(m, e) \<in> set (started s)" using l by (auto simp: jobs_of_def)
  then obtain d where d: "a \<le> d" "d \<le> n" "e = show_date d" using started_date [OF i] by blast
  have y: "ymd_day a" "ymd_day b" "n \<le> b" using i by (auto simp: mgr_inv_def on_days_def cur_ok_def)
  have "ymd_day d" "ymd_day n" using ymd_between [OF y(1,2)] d y(3) by auto
  then show ?thesis using c_strcmp_date_times(3) d by simp
qed

lemma step_work:
  assumes i: "mgr_inv dl a b n s" and t: "threads s = xs @ (j, k) # ys" "k < 3" and d: "fld (currentdate (entry s j)) = Some d"
    and s': "s' = s\<lparr>threads := xs @ (j, k + 1) # ys, log := log s @ [(j, d, k)]\<rparr>"
  shows "mgr_inv dl a b n s' \<and> steps_left dl b n s' < steps_left dl b n s"
proof -
  have dn: "d = show_date n" using i t(1) d by (auto simp: mgr_inv_def threads_ok_def)
  have th: "threads_ok dl n s'"
    using i t unfolding mgr_inv_def threads_ok_def s' entry_def by auto
  have "mset (pending d (threads s)) = add_mset (j, d, k) (mset (pending d (threads s')))"
    using t by (simp add: s' pending_append) (simp add: pending_def upt_conv_Cons)
  moreover have le: "c_strcmp e d \<le> 0" if "(m, e, l) \<in> set (log s)" for m e l
    using log_date_le [OF i that] by (simp add: dn)
  ultimately have "log_ok a n s'"
    using i dn unfolding mgr_inv_def log_ok_def s' by (auto simp: sorted_wrt_append)
  moreover have "steps_left dl b n s' < steps_left dl b n s" using t by (simp add: steps_left_def s' thread_work_def)
  moreover have "started_ok dl a b n s'" using i by (simp add: mgr_inv_def started_ok_def s' cong: pc.case_cong)
  ultimately show ?thesis using i th t unfolding mgr_inv_def by (auto simp: s' cur_ok_def)
qed

lemma step_exit:
  assumes i: "mgr_inv dl a b n s" and t: "threads s = xs @ (j, 3) # ys"
    and s': "s' = (lcs_decrease_count s)\<lparr>threads := xs @ ys\<rparr>"
  shows "mgr_inv dl a b n s' \<and> steps_left dl b n s' < steps_left dl b n s"
proof -
  have th: "threads_ok dl n s'"
    using i t unfolding mgr_inv_def threads_ok_def s' entry_def lcs_decrease_count_def by auto
  have "log_ok a n s'"
    using i t unfolding mgr_inv_def log_ok_def s' lcs_decrease_count_def by (simp add: pending_append) (simp add: pending_def)
  moreover have "steps_left dl b n s' < steps_left dl b n s"
    using t by (simp add: steps_left_def s' thread_work_def lcs_decrease_count_def)
  moreover have "started_ok dl a b n s'"
    using i by (simp add: mgr_inv_def started_ok_def s' lcs_decrease_count_def cong: pc.case_cong)
  ultimately show ?thesis using i th t unfolding mgr_inv_def
    by (auto simp: s' cur_ok_def lcs_decrease_count_def split: pc.splits)
qed

lemma mgr_step_inv:
  assumes "tame z" and "mgr_inv dl a b n s" and "mgr_step z s s'"
  shows "\<exists>n'. mgr_inv dl a b n' s' \<and> steps_left dl b n' s' < steps_left dl b n s"
  using assms(3)
proof cases
  case (next_day l)
  then show ?thesis using step_next_day [OF assms(1,2)] by blast
next
  case (skip i)
  then show ?thesis using step_skip [OF assms(2)] by blast
next
  case (create i info d)
  then show ?thesis using step_create [OF assms(2)] by blast
next
  case (count_up i)
  then show ?thesis using step_count_up [OF assms(2)] by blast
next
  case (created i)
  then show ?thesis using step_created [OF assms(2)] by blast
next
  case waited
  then show ?thesis using step_waited [OF assms(2)] by blast
next
  case (work xs i k ys d)
  then show ?thesis using step_work [OF assms(2)] by blast
next
  case (exit xs i ys)
  then show ?thesis using step_exit [OF assms(2)] by blast
qed

lemma mgr_start_inv: "mgr_start dl a b s \<Longrightarrow> mgr_inv dl a b (a - 1) s"
  by (simp add: mgr_start_def mgr_inv_def cur_ok_def threads_ok_def started_ok_def log_ok_def served_def pending_def jobs_of_def)

section \<open>Every run\<close>

interpretation mgr: invariant_system "mgr_start dl a b" "mgr_step z" "\<lambda>s. tame z \<longrightarrow> (\<exists>n. mgr_inv dl a b n s)"
  for dl a b z
proof
  show "tame z \<longrightarrow> (\<exists>n. mgr_inv dl a b n s)" if "mgr_start dl a b s" for s
    using mgr_start_inv [OF that] by blast
  show "tame z \<longrightarrow> (\<exists>n. mgr_inv dl a b n s')" if "tame z \<longrightarrow> (\<exists>n. mgr_inv dl a b n s)" "mgr_step z s s'" for s s'
    using that mgr_step_inv by blast
qed

text \<open>C6. The counter of threads.\<close>

theorem mgr_counter:
  assumes "tame z" and "reachable (mgr_start dl a b) (mgr_step z) s"
  shows "count s = int (length (threads s)) - (case pc s of Incr i \<Rightarrow> 1 | _ \<Rightarrow> 0) \<and>
    (pc s = Next \<or> pc s = Finished \<longrightarrow> threads s = []) \<and> distinct (map fst (threads s))"
proof -
  obtain n where i: "mgr_inv dl a b n s" using mgr.reachable_inv [OF assms(2)] assms(1) by blast
  have "threads s = []" if "pc s = Next \<or> pc s = Finished"
    using i that by (cases "threads s") (auto simp: mgr_inv_def threads_ok_def bound_def)
  then show ?thesis using i by (simp add: mgr_inv_def threads_ok_def)
qed

lemma progress_next: "mgr_inv dl a b n s \<Longrightarrow> tame z \<Longrightarrow> pc s = Next \<Longrightarrow> \<exists>l. lcs_next_day z (plist s) = Some l"
proof -
  assume i: "mgr_inv dl a b n s" and z: "tame z"
  have o: "on_days (plist s) a b" and c: "cur_ok a b n s" using i by (auto simp: mgr_inv_def)
  consider "n < a" | "a \<le> n" "n < b" | "a \<le> n" "n = b" using c unfolding cur_ok_def by linarith
  then show ?thesis
  proof cases
    case 1
    then show ?thesis using next_day_first [OF o] c by (auto simp: cur_ok_def)
  next
    case 2
    then show ?thesis using next_day_step [OF z o] c by (auto simp: cur_ok_def)
  next
    case 3
    then show ?thesis using next_day_last [OF o] c inv_ymd [OF i 3(1)] by auto
  qed
qed

lemma progress:
  assumes i: "mgr_inv dl a b n s" and z: "tame z" and f: "pc s \<noteq> Finished"
  shows "\<exists>s'. mgr_step z s s'"
proof (cases "pc s")
  case Next
  then show ?thesis using progress_next [OF i z] mgr_step.next_day by blast
next
  case (Create j)
  show ?thesis
  proof (cases "j < servers s")
    case True
    note e = entry_ok [OF i True]
    have "a \<le> n" using i Create by (simp add: mgr_inv_def started_ok_def)
    note y = inv_ymd [OF i this]
    have r: "in_range (currentdate_l (plist s)) (entry s j) = Some (covers n (dl ! j))"
      using in_range_covers [OF e(1)] y by simp
    show ?thesis
    proof (cases "covers n (dl ! j)")
      case False
      then show ?thesis using r mgr_step.skip [OF Create True] by auto
    next
      case True
      have "give_date (currentdate_l (plist s)) (entry s j) = Some ((entry s j)\<lparr>currentdate := pad 32 (show_date n)\<rparr>)"
        using give_date_eq [OF e(1)] y by simp
      then show ?thesis using r True fld_date y mgr_step.create [OF Create \<open>j < servers s\<close>] by fastforce
    qed
  next
    case False
    then show ?thesis using mgr_step.created [OF Create] by auto
  qed
next
  case (Incr j)
  then show ?thesis using mgr_step.count_up by blast
next
  case Wait
  show ?thesis
  proof (cases "threads s")
    case Nil
    then have "lcs_get_count s = 0" using i Wait by (simp add: mgr_inv_def lcs_get_count_def)
    then show ?thesis using mgr_step.waited [OF Wait] by blast
  next
    case (Cons t ts)
    obtain j k where t: "t = (j, k)" by (cases t)
    then have k: "k \<le> 3" "fld (currentdate (entry s j)) = Some (show_date n)"
      using i Cons by (auto simp: mgr_inv_def threads_ok_def)
    have T: "threads s = [] @ (j, k) # ts" using Cons t by simp
    show ?thesis
    proof (cases "k < 3")
      case True
      then show ?thesis using mgr_step.work [OF T True k(2)] by blast
    next
      case False
      then have "threads s = [] @ (j, 3) # ts" using T k(1) by simp
      then show ?thesis using mgr_step.exit by blast
    qed
  qed
qed (use f in simp)

lemma no_infinite_run:
  assumes "tame z" and "mgr_inv dl a b n (f 0)" and "\<And>i. mgr_step z (f i) (f (Suc i))"
  shows False
  using assms(2,3)
proof (induction "steps_left dl b n (f 0)" arbitrary: f n rule: less_induct)
  case less
  obtain n' where "mgr_inv dl a b n' (f 1)" "steps_left dl b n' (f 1) < steps_left dl b n (f 0)"
    using mgr_step_inv [OF assms(1) less.prems(1)] less.prems(2) [of 0] by auto
  then show ?case using less.hyps [of n' "\<lambda>i. f (Suc i)"] less.prems(2) by simp
qed

text \<open>C5. The manager comes to its end.\<close>

theorem mgr_ends:
  assumes "tame z"
  shows "\<not> (\<exists>f. mgr_start dl a b (f 0) \<and> (\<forall>i. mgr_step z (f i) (f (Suc i)))) \<and>
    (\<forall>s. reachable (mgr_start dl a b) (mgr_step z) s \<longrightarrow> pc s \<noteq> Finished \<longrightarrow> (\<exists>s'. mgr_step z s s'))"
proof
  show "\<not> (\<exists>f. mgr_start dl a b (f 0) \<and> (\<forall>i. mgr_step z (f i) (f (Suc i))))"
    using no_infinite_run [OF assms] mgr_start_inv by blast
  show "\<forall>s. reachable (mgr_start dl a b) (mgr_step z) s \<longrightarrow> pc s \<noteq> Finished \<longrightarrow> (\<exists>s'. mgr_step z s s')"
    using mgr.reachable_inv assms progress by blast
qed

lemma mgr_finished:
  assumes "tame z" and "reachable (mgr_start dl a b) (mgr_step z) s" and "pc s = Finished"
  shows "mset (log s) = mset (jobs_of (served dl a b)) \<and> threads s = [] \<and>
    sorted_wrt (\<lambda>(i, d, k) (j, e, l). c_strcmp d e \<le> 0) (log s)"
proof -
  obtain n where i: "mgr_inv dl a b n s" using mgr.reachable_inv [OF assms(2)] assms(1) by blast
  then have t: "threads s = []" using assms(3) by (cases "threads s") (auto simp: mgr_inv_def threads_ok_def bound_def)
  then show ?thesis using i assms(3) by (auto simp: mgr_inv_def log_ok_def started_ok_def pending_def)
qed

text \<open>the loop as it is entered after \<^verbatim>\<open>lcs_init_server_info\<close>\<close>

definition begin_run :: "LCS_MYSQL_SERVER_INFO_LIST \<Rightarrow> mgr" where
  "begin_run l = \<lparr>pc = Next, plist = l, count = 0, threads = [], log = [], started = []\<rparr>"

definition fresh_list :: "LCS_MYSQL_SERVER_INFO_LIST \<Rightarrow> bool" where
  "fresh_list l \<longleftrightarrow> startdate_l l = zeros 32 \<and> lastdate_l l = zeros 32 \<and> currentdate_l l = zeros 32 \<and>
     \<not> iscomplete l \<and> (\<forall>p \<in> set (listinfo l). asked p \<and> currentdate p = zeros 32)"

definition calls_of :: "(LCS_MYSQL_SERVER_INFO \<Rightarrow> (int \<times> int) option) \<Rightarrow> LCS_MYSQL_SERVER_INFO_LIST \<Rightarrow> (int \<times> int) list" where
  "calls_of days l = List.map_filter days (listinfo l)"

definition good_answers :: "(LCS_MYSQL_SERVER_INFO \<Rightarrow> (int \<times> int) option) \<Rightarrow> (LCS_MYSQL_SERVER_INFO \<Rightarrow> answer) \<Rightarrow> LCS_MYSQL_SERVER_INFO_LIST \<Rightarrow> bool" where
  "good_answers days ask l \<longleftrightarrow> calls_of days l \<noteq> [] \<and> (\<forall>d \<in> set (calls_of days l). fst d \<le> snd d) \<and>
     (\<forall>p \<in> set (listinfo l). good_days (days p) \<and> ask p = day_answer (days p))"

lemma reachable_from: "start s0 \<Longrightarrow> reachable (\<lambda>s. s = s0) step s \<Longrightarrow> reachable start step s"
  by (rotate_tac, induction rule: reachable.induct) (auto intro: reachable.intros)

lemma init_begins:
  assumes f: "fresh_list l" and g: "good_answers days ask l"
    and a: "a = Min (fst ` set (calls_of days l))" and b: "b = Max (snd ` set (calls_of days l))"
  shows "\<exists>l'. lcs_init_server_info ask l 0 = Some (l', 0) \<and> mgr_start (map days (listinfo l)) a b (begin_run l')"
proof -
  let ?ds = "calls_of days l"
  let ?l = "l\<lparr>listinfo := map (\<lambda>p. with_days (days p) p) (listinfo l),
            startdate_l := pad 32 (show_date a), lastdate_l := pad 32 (show_date b)\<rparr>"
  have ne: "?ds \<noteq> []" using g by (simp add: good_answers_def)
  have "lcs_init_server_info ask l 0 = Some (?l, 0)"
    unfolding a b using f g ne
    by (intro server_info_range [of l days ask]) (auto simp: fresh_list_def good_answers_def calls_of_def)
  moreover have "mgr_start (map days (listinfo l)) a b (begin_run ?l)"
  proof -
    have mem: "\<exists>p \<in> set (listinfo l). days p = Some d" if "d \<in> set ?ds" for d
      using that unfolding calls_of_def List.map_filter_def by fastforce
    have y: "ymd_day (fst d) \<and> ymd_day (snd d) \<and> fst d \<le> snd d" if "d \<in> set ?ds" for d
      using mem [OF that] that g by (cases d) (force simp: good_answers_def good_days_def)
    have "a \<in> fst ` set ?ds" "b \<in> snd ` set ?ds" unfolding a b using ne by auto
    then have "ymd_day a" "ymd_day b" using y by auto
    moreover obtain d where d: "d \<in> set ?ds" using ne by (cases ?ds) auto
    then have "a \<le> fst d" "snd d \<le> b" unfolding a b by auto
    then have "a \<le> b" using y [OF d] by linarith
    moreover have "servers_ok (map days (listinfo l)) (map (\<lambda>p. with_days (days p) p) (listinfo l))"
      unfolding servers_ok_def
    proof (intro conjI allI impI)
      fix i
      assume i: "i < length (map days (listinfo l))"
      let ?p = "listinfo l ! i"
      have p: "?p \<in> set (listinfo l)" using i by simp
      have gd: "good_days (days ?p)" "asked ?p" "currentdate ?p = zeros 32"
        using f g p by (auto simp: fresh_list_def good_answers_def)
      have "server_ok (days ?p) (with_days (days ?p) ?p)"
      proof (cases "days ?p")
        case None
        then show ?thesis using gd fld_zeros [of 32] by (simp add: server_ok_def with_days_def asked_def)
      next
        case (Some d)
        obtain u v where d: "d = (u, v)" by (cases d)
        then have "ymd_day u" "ymd_day v" using gd(1) Some by (simp_all add: good_days_def)
        then show ?thesis using gd Some d fld_date by (simp add: server_ok_def with_days_def)
      qed
      then show "server_ok (map days (listinfo l) ! i) (map (\<lambda>p. with_days (days p) p) (listinfo l) ! i)"
        using i by simp
    qed simp
    ultimately show ?thesis using f by (simp add: mgr_start_def begin_run_def on_days_def fresh_list_def)
  qed
  ultimately show ?thesis by blast
qed

text \<open>C4. Every day of every server is worked on once.\<close>

theorem manager_serves_all_days:
  assumes "tame z" and "fresh_list l" and "good_answers days ask l"
    and "lcs_init_server_info ask l 0 = Some (l', e)"
    and "reachable (\<lambda>s. s = begin_run l') (mgr_step z) s" and "pc s = Finished"
  shows "mset (log s) = mset (jobs_of (served (map days (listinfo l))
      (Min (fst ` set (calls_of days l))) (Max (snd ` set (calls_of days l))))) \<and>
    sorted_wrt (\<lambda>(i, d, k) (j, e, l). c_strcmp d e \<le> 0) (log s) \<and> threads s = [] \<and> count s = 0"
proof -
  let ?a = "Min (fst ` set (calls_of days l))" and ?b = "Max (snd ` set (calls_of days l))"
  obtain l'' where l: "lcs_init_server_info ask l 0 = Some (l'', 0)"
    and st: "mgr_start (map days (listinfo l)) ?a ?b (begin_run l'')"
    using init_begins [OF assms(2,3) refl refl] by blast
  have "l'' = l'" using l assms(4) by (simp only: option.inject prod.inject)
  then have m: "mgr_start (map days (listinfo l)) ?a ?b (begin_run l')" using st by (simp only:)
  from m have r: "reachable (mgr_start (map days (listinfo l)) ?a ?b) (mgr_step z) s"
    using assms(5) by (rule reachable_from)
  obtain n where "mgr_inv (map days (listinfo l)) ?a ?b n s" using mgr.reachable_inv [OF r] assms(1) by blast
  then have "count s = 0" using assms(6) mgr_finished [OF assms(1) r assms(6)] by (simp add: mgr_inv_def)
  then show ?thesis using mgr_finished [OF assms(1) r assms(6)] by blast
qed

section \<open>Examples\<close>

text \<open>one server with the calls of two days, and one that cannot be reached\<close>

definition demo_days :: "LCS_MYSQL_SERVER_INFO \<Rightarrow> (int \<times> int) option" where
  "demo_days p = (if fld (server p) = Some (lit ''a'') then Some (10957, 10958) else None)"

definition demo_list :: LCS_MYSQL_SERVER_INFO_LIST where
  "demo_list = empty_list\<lparr>listinfo := [empty_info\<lparr>server := pad 128 (lit ''a'')\<rparr>, empty_info\<lparr>server := pad 128 (lit ''b'')\<rparr>]\<rparr>"

definition demo_tz :: zone where
  "demo_tz = \<lparr>std_off = 25200, dst_off = (\<lambda>_. 0)\<rparr>"

lemma demo_tame: "tame demo_tz"
  by (simp add: tame_def demo_tz_def)

lemma demo_servers: "fresh_list demo_list" "good_answers demo_days (\<lambda>p. day_answer (demo_days p)) demo_list"
  "calls_of demo_days demo_list = [(10957, 10958)]" "map demo_days (listinfo demo_list) = [Some (10957, 10958), None]"
proof -
  have s: "fld (pad 128 (lit ''a'')) = Some (lit ''a'')" "fld (pad 128 (lit ''b'')) = Some (lit ''b'')"
    by (simp_all add: fld_pad lit_no_zero)
  have n: "lit ''b'' \<noteq> lit ''a''" by (simp add: lit_eq)
  have y: "ymd_day 10957" "ymd_day 10958" by code_simp+
  show "fresh_list demo_list"
    by (simp add: fresh_list_def demo_list_def empty_list_def empty_info_def asked_def)
  show c: "calls_of demo_days demo_list = [(10957, 10958)]"
    using s n by (simp add: calls_of_def demo_list_def demo_days_def List.map_filter_simps)
  show "good_answers demo_days (\<lambda>p. day_answer (demo_days p)) demo_list"
    using y by (simp add: good_answers_def c) (simp add: good_days_def demo_days_def)
  show "map demo_days (listinfo demo_list) = [Some (10957, 10958), None]"
    using s n by (simp add: demo_list_def demo_days_def)
qed

lemma demo_started: "\<exists>l'. lcs_init_server_info (\<lambda>p. day_answer (demo_days p)) demo_list 0 = Some (l', 0) \<and>
    mgr_start [Some (10957, 10958), None] 10957 10958 (begin_run l')"
  using init_begins [OF demo_servers(1,2) refl refl] by (simp add: demo_servers(3,4))

theorem mgr_counter_witness:
  "\<exists>s. reachable (mgr_start [Some (10957, 10958), None] 10957 10958) (mgr_step demo_tz) s \<and> pc s = Next \<and>
     count s = int (length (threads s)) \<and> threads s = []"
proof -
  obtain l where "mgr_start [Some (10957, 10958), None] 10957 10958 (begin_run l)" using demo_started by blast
  then have r: "reachable (mgr_start [Some (10957, 10958), None] 10957 10958) (mgr_step demo_tz) (begin_run l)"
    by (rule reachable.start)
  from mgr_counter [OF demo_tame r] show ?thesis
    using r by (intro exI [of _ "begin_run l"]) (simp add: begin_run_def)
qed

theorem mgr_ends_witness:
  "\<not> (\<exists>f. mgr_start [Some (10957, 10958), None] 10957 10958 (f 0) \<and> (\<forall>i. mgr_step demo_tz (f i) (f (Suc i))))"
  using mgr_ends [OF demo_tame] by blast

text \<open>a run from the start to its end\<close>

lemma run_finishes:
  assumes "tame z" and "reachable (mgr_start dl a b) (mgr_step z) s"
  shows "\<exists>s'. (mgr_step z)\<^sup>*\<^sup>* s s' \<and> pc s' = Finished"
proof -
  obtain n where "mgr_inv dl a b n s" using mgr.reachable_inv [OF assms(2)] assms(1) by blast
  then show ?thesis
  proof (induction "steps_left dl b n s" arbitrary: n s rule: less_induct)
    case less
    show ?case
    proof (cases "pc s = Finished")
      case False
      then obtain s1 where s1: "mgr_step z s s1" using progress [OF less.prems assms(1)] by blast
      then obtain n' where "mgr_inv dl a b n' s1" "steps_left dl b n' s1 < steps_left dl b n s"
        using mgr_step_inv [OF assms(1) less.prems] by blast
      then show ?thesis using less.hyps s1 by (meson converse_rtranclp_into_rtranclp)
    qed blast
  qed
qed

lemma reachable_rtranclp: "(step)\<^sup>*\<^sup>* s s' \<Longrightarrow> reachable start step s \<Longrightarrow> reachable start step s'"
  by (induction rule: rtranclp_induct) (auto intro: reachable.step)

theorem manager_serves_all_days_witness:
  "\<exists>l' s. lcs_init_server_info (\<lambda>p. day_answer (demo_days p)) demo_list 0 = Some (l', 0) \<and>
     reachable (\<lambda>s. s = begin_run l') (mgr_step demo_tz) s \<and> pc s = Finished \<and>
     mset (log s) = mset (jobs_of [(0, show_date 10957), (0, show_date 10958)])"
proof -
  obtain l' where l: "lcs_init_server_info (\<lambda>p. day_answer (demo_days p)) demo_list 0 = Some (l', 0)"
    and st: "mgr_start [Some (10957, 10958), None] 10957 10958 (begin_run l')" using demo_started by blast
  obtain s where s: "(mgr_step demo_tz)\<^sup>*\<^sup>* (begin_run l') s" "pc s = Finished"
    using run_finishes [OF demo_tame reachable.start [of "mgr_start [Some (10957, 10958), None] 10957 10958", OF st]] by blast
  have r: "reachable (\<lambda>s. s = begin_run l') (mgr_step demo_tz) s"
    using s(1) by (rule reachable_rtranclp) (rule reachable.start, rule refl)
  have "served [Some (10957, 10958), None] 10957 10958 = [(0, show_date 10957), (0, show_date 10958)]"
    by (simp add: served_def served_part_def covers_def upto_rec1 upt_rec)
  then show ?thesis
    using manager_serves_all_days [OF demo_tame demo_servers(1,2) l r s(2)] l r s(2) demo_servers(3,4) by auto
qed

end
