(* ===== verification/Cluster.thy ===== *)
theory Cluster
  imports CfgText LcsTime
begin

text \<open>
  \<^verbatim>\<open>cluster/cluster/main.c\<close>, the program that copies the calls of a day from MySQL into a tree of
  files, window by window of \<^verbatim>\<open>step\<close> seconds. Names that other programs use too have the suffix \<open>cl\<close>.

  The database is an argument: \<open>exec\<close> runs a statement and gives the code \<^verbatim>\<open>mysql_query\<close> returns,
  \<open>result\<close> the rows \<^verbatim>\<open>mysql_store_result\<close> gives for the last statement. A connection is open or a null
  pointer; a query on a null pointer is undefined. What is done to the outside is a list of actions.

  Shown: a field of a row is one word between tabs, so a row is one line; the statements of a list are
  run up to the first that fails; a refused connection leads to a query on a null pointer; the windows
  follow each other without gap from the first call to the last, and the loop ends; all windows write
  to the directory of the first; the connections the tables point to do not live any more.
\<close>

section \<open>Configuration\<close>

record LCS_MYSQL_INFO_cl =
  server_cl :: bytes
  user_cl :: bytes
  password_cl :: bytes
  db_cl :: bytes
  path_cl :: bytes
  date_cl :: bytes
  date_01_cl :: bytes
  current_dir_cl :: bytes
  insertprocess_cl :: bytes
  step_cl :: int
  low_cl :: bytes
  hi_cl :: bytes
  endtime_cl :: bytes

text \<open>\<^verbatim>\<open>memset(&lcs_info_cfg, 0, ...)\<close>; the three texts of times are empty as long as their pointers are null\<close>

definition empty_cl :: LCS_MYSQL_INFO_cl where
  "empty_cl =
     \<lparr>server_cl = zeros 128, user_cl = zeros 64, password_cl = zeros 64, db_cl = zeros 64, path_cl = zeros 128,
      date_cl = zeros 64, date_01_cl = zeros 64, current_dir_cl = zeros 1024, insertprocess_cl = zeros 1024,
      step_cl = 0, low_cl = [], hi_cl = [], endtime_cl = []\<rparr>"

text \<open>\<^verbatim>\<open>sscanf(item, "step:%d", &info->step)\<close> reads only behind a leading \<^verbatim>\<open>step:\<close>\<close>

definition scan_step :: "bytes \<Rightarrow> int \<Rightarrow> int option" where
  "scan_step item old = (if take 5 item = lit ''step:'' then scan_d (drop 5 item) old else Some old)"

definition lcs_cfg_item_cl :: "bytes \<Rightarrow> LCS_MYSQL_INFO_cl \<Rightarrow> LCS_MYSQL_INFO_cl option" where
  "lcs_cfg_item_cl item info =
     (if has item ''server:'' then map_option (\<lambda>x. info\<lparr>server_cl := x\<rparr>) (cfg_copy (server_cl info) item ''server:'')
      else if has item ''user:'' then map_option (\<lambda>x. info\<lparr>user_cl := x\<rparr>) (cfg_copy (user_cl info) item ''user:'')
      else if has item ''password:'' then map_option (\<lambda>x. info\<lparr>password_cl := x\<rparr>) (cfg_copy (password_cl info) item ''password:'')
      else if has item ''db:'' then map_option (\<lambda>x. info\<lparr>db_cl := x\<rparr>) (cfg_copy (db_cl info) item ''db:'')
      else if has item ''path:'' then map_option (\<lambda>x. info\<lparr>path_cl := x\<rparr>) (cfg_copy (path_cl info) item ''path:'')
      else if has item ''step:'' then map_option (\<lambda>x. info\<lparr>step_cl := x\<rparr>) (scan_step item (step_cl info))
      else if has item ''insertprocess_0009:'' then
        map_option (\<lambda>x. info\<lparr>insertprocess_cl := x\<rparr>) (cfg_copy (insertprocess_cl info) item ''insertprocess_0009:'')
      else if has item ''date_0011:'' then do {
        x \<leftarrow> cfg_copy (date_cl info) item ''date_0011:'';
        y \<leftarrow> cfg_copy (date_01_cl info) item ''date_0011:'';
        y' \<leftarrow> lcs_comm_replace y 95 45;
        Some (info\<lparr>date_cl := x, date_01_cl := y'\<rparr>)
      }
      else Some info)"

definition lcs_cfg_load_cl :: "(bytes \<Rightarrow> bytes option) \<Rightarrow> bytes \<Rightarrow> LCS_MYSQL_INFO_cl \<Rightarrow> LCS_MYSQL_INFO_cl option" where
  "lcs_cfg_load_cl files path info = cfg_file lcs_cfg_item_cl files path info"

section \<open>Windows\<close>

text \<open>
  \<^verbatim>\<open>lcs_get_range(mile, low, hi)\<close>: \<^verbatim>\<open>%\<close> is undefined for the step 0 and its value goes to an \<^verbatim>\<open>int\<close>.
  The blocks of the two texts have 32 bytes.
\<close>

definition lcs_get_range :: "zone \<Rightarrow> bytes \<Rightarrow> LCS_MYSQL_INFO_cl \<Rightarrow> LCS_MYSQL_INFO_cl option" where
  "lcs_get_range z mile info =
     (if step_cl info = 0 then None
      else do {
        let t = lcs_str2_time z mile;
        let mode = t smod step_cl info;
        l \<leftarrow> lcs_time2_str z (t - mode);
        h \<leftarrow> lcs_time2_str z (t + step_cl info - mode);
        Some (info\<lparr>low_cl := pad 32 l, hi_cl := pad 32 h\<rparr>)
      })"

definition lcs_update_time :: "zone \<Rightarrow> LCS_MYSQL_INFO_cl \<Rightarrow> LCS_MYSQL_INFO_cl option" where
  "lcs_update_time z info = do {
     h \<leftarrow> fld (hi_cl info);
     tmp_low \<leftarrow> mem_write (zeros 64) 0 h;
     low \<leftarrow> fld tmp_low;
     tmp_hi \<leftarrow> lcs_time2_str z (lcs_str2_time z low + step_cl info);
     l' \<leftarrow> mem_write (low_cl info) 0 low;
     h' \<leftarrow> mem_write (hi_cl info) 0 tmp_hi;
     Some (info\<lparr>low_cl := l', hi_cl := h'\<rparr>)
   }"

definition lcs_get_outtime :: "LCS_MYSQL_INFO_cl \<Rightarrow> bool option" where
  "lcs_get_outtime info = do { l \<leftarrow> fld (low_cl info); Some (c_strcmp l (endtime_cl info) > 0) }"

section \<open>The directory of a window\<close>

record LCS_DATE_DIR =
  year :: "16 word"
  month :: "8 word"
  day :: "8 word"
  hour_d :: "8 word"
  min_d :: "8 word"

text \<open>\<^verbatim>\<open>%d\<close>: the number at the start of a text and what follows; a number that is no \<^verbatim>\<open>int\<close> is undefined\<close>

definition scan_num :: "bytes \<Rightarrow> (int \<times> bytes) option option" where
  "scan_num p =
     (let t = dropWhile isspace p;
          neg = (t \<noteq> [] \<and> hd t = 45);
          u = (if t \<noteq> [] \<and> (hd t = 45 \<or> hd t = 43) then tl t else t);
          ds = takeWhile isdigit u;
          v = (if neg then - num_val ds else num_val ds)
      in if ds = [] then Some None else if is_int v then Some (Some (v, dropWhile isdigit u)) else None)"

text \<open>
  \<^verbatim>\<open>sscanf(s, "%d-%d-%d %d:%d:00", ...)\<close>: each number is followed by the character given or by white
  space (\<^term>\<open>None\<close>); the numbers behind a failure stay 0
\<close>

fun scan_nums :: "byte option list \<Rightarrow> bytes \<Rightarrow> int list option" where
  "scan_nums [] s = Some []"
| "scan_nums (c # cs) s =
     (case scan_num s of None \<Rightarrow> None
      | Some None \<Rightarrow> Some (map (\<lambda>_. 0) (c # cs))
      | Some (Some (v, r)) \<Rightarrow>
          (case c of None \<Rightarrow> map_option (Cons v) (scan_nums cs (dropWhile isspace r))
           | Some b \<Rightarrow> if r \<noteq> [] \<and> hd r = b then map_option (Cons v) (scan_nums cs (tl r))
               else Some (v # map (\<lambda>_. 0) cs)))"

definition lcs_get_date :: "bytes \<Rightarrow> LCS_DATE_DIR option" where
  "lcs_get_date starttime = do {
     ns \<leftarrow> scan_nums [Some 45, Some 45, None, Some 58, Some 58] starttime;
     Some \<lparr>year = word_of_int (ns ! 0), month = word_of_int (ns ! 1), day = word_of_int (ns ! 2),
           hour_d = word_of_int (ns ! 3), min_d = word_of_int (ns ! 4)\<rparr>
   }"

text \<open>\<^verbatim>\<open>%4d\<close> and \<^verbatim>\<open>%02d\<close> of numbers that are not negative\<close>

definition pad_left :: "nat \<Rightarrow> byte \<Rightarrow> bytes \<Rightarrow> bytes" where
  "pad_left n c s = replicate (n - length s) c @ s"

definition dir_of :: "bytes \<Rightarrow> bytes \<Rightarrow> bytes \<Rightarrow> LCS_DATE_DIR \<Rightarrow> bytes" where
  "dir_of p s d t = p @ 47 # s @ 47 # d @ 47 # pad_left 4 32 (dec (unat (year t))) @
     47 # pad_left 2 48 (dec (unat (month t))) @ 47 # pad_left 2 48 (dec (unat (day t))) @
     47 # pad_left 2 48 (dec (unat (hour_d t))) @ 47 # pad_left 2 48 (dec (unat (min_d t))) @ [47]"

datatype cact = Query bytes | File bytes bytes | Cmd bytes

text \<open>\<^verbatim>\<open>lcs_mk_dir\<close>: the directory is noted and made\<close>

definition lcs_mk_dir :: "LCS_MYSQL_INFO_cl \<Rightarrow> LCS_DATE_DIR \<Rightarrow> (LCS_MYSQL_INFO_cl \<times> cact list) option" where
  "lcs_mk_dir info t = do {
     p \<leftarrow> fld (path_cl info); s \<leftarrow> fld (server_cl info); d \<leftarrow> fld (db_cl info);
     tmp \<leftarrow> fit 1024 (dir_of p s d t);
     x \<leftarrow> mem_write (current_dir_cl info) 0 (tmp @ [0]);
     cmd \<leftarrow> lcs_create_dir tmp;
     Some (info\<lparr>current_dir_cl := x\<rparr>, [Cmd cmd])
   }"

definition lcs_create_subdir :: "LCS_MYSQL_INFO_cl \<Rightarrow> (LCS_MYSQL_INFO_cl \<times> cact list) option" where
  "lcs_create_subdir info = do {
     l \<leftarrow> fld (low_cl info);
     tmp \<leftarrow> mem_write (zeros 64) 0 l;
     s \<leftarrow> fld tmp;
     t \<leftarrow> lcs_get_date s;
     lcs_mk_dir info t
   }"

section \<open>Statements\<close>

text \<open>what \<^verbatim>\<open>lcs_try_connect\<close> meets: no handle, a refusal, or a connection\<close>

datatype connection = No_handle_cl | Refused_cl | Connected

text \<open>\<^verbatim>\<open>*err\<close> and whether \<^verbatim>\<open>*con\<close> is open\<close>

definition lcs_try_connect :: "connection \<Rightarrow> int \<Rightarrow> int \<times> bool" where
  "lcs_try_connect c err = (case c of No_handle_cl \<Rightarrow> (1, False) | Refused_cl \<Rightarrow> (err, False) | Connected \<Rightarrow> (err, True))"

text \<open>
  the loop over an array of statements, each built in an array of \<open>cap\<close> bytes: \<^verbatim>\<open>*err\<close> is the line
  \<open>ln\<close> after a failure; the statements run are returned
\<close>

fun query_loop :: "('d \<Rightarrow> bytes \<Rightarrow> 'd \<times> int) \<Rightarrow> nat \<Rightarrow> int \<Rightarrow> bytes list \<Rightarrow> 'd \<Rightarrow> int \<Rightarrow> ('d \<times> int \<times> cact list) option" where
  "query_loop exec cap ln [] d err = Some (d, err, [])"
| "query_loop exec cap ln (f # fs) d err = do {
     q \<leftarrow> fit cap f;
     let (d', e) = exec d q;
     if e \<noteq> 0 then Some (d', ln, [Query q])
     else do { (d'', e', acts) \<leftarrow> query_loop exec cap ln fs d' 0; Some (d'', e', Query q # acts) }
   }"

text \<open>a list of statements on a connection of its own; \<open>ln1\<close> and \<open>ln2\<close> are the lines noted in \<^verbatim>\<open>*err\<close>\<close>

definition on_connection ::
  "connection \<Rightarrow> ('d \<Rightarrow> bytes \<Rightarrow> 'd \<times> int) \<Rightarrow> nat \<Rightarrow> int \<Rightarrow> int \<Rightarrow> bytes list \<Rightarrow> 'd \<Rightarrow> int \<Rightarrow> ('d \<times> int \<times> cact list) option" where
  "on_connection c exec cap ln1 ln2 qs d err =
     (let (err1, opened) = lcs_try_connect c err in
      if err1 \<noteq> 0 then Some (d, ln1, [])
      else if \<not> opened then None
      else query_loop exec cap ln2 qs d err1)"

definition lcs_gen_structure :: "connection \<Rightarrow> ('d \<Rightarrow> bytes \<Rightarrow> 'd \<times> int) \<Rightarrow> 'd \<Rightarrow> int \<Rightarrow> ('d \<times> int \<times> cact list) option" where
  "lcs_gen_structure c exec d err = on_connection c exec 1024 1480 1489
     [lit ''CREATE TABLE if not exists cdr_structure LIKE cdr;'',
      lit ''CREATE TABLE if not exists queue_log_structure LIKE queue_log;'',
      lit ''CREATE TABLE if not exists monitor_recording_structure LIKE monitor_recording;''] d err"

definition lcs_init_tmp :: "connection \<Rightarrow> ('d \<Rightarrow> bytes \<Rightarrow> 'd \<times> int) \<Rightarrow> bytes \<Rightarrow> 'd \<Rightarrow> int \<Rightarrow> ('d \<times> int \<times> cact list) option" where
  "lcs_init_tmp c exec dt d err = on_connection c exec 1024 1429 1441
     [lit ''drop table if exists linkedid_tmp_'' @ dt @ lit '';'',
      lit ''create table linkedid_tmp_'' @ dt @ lit ''(linkedid varchar(255), PRIMARY KEY(linkedid));'',
      lit ''drop table if exists cdr_tmp_'' @ dt @ lit '';'',
      lit ''create table cdr_tmp_'' @ dt @ lit ''(recid bigint(20), PRIMARY KEY(recid));'',
      lit ''drop table if exists queue_tmp_'' @ dt @ lit '';'',
      lit ''create table queue_tmp_'' @ dt @ lit ''(id bigint(20),PRIMARY KEY(id));'',
      lit ''drop table if exists monitor_tmp_'' @ dt @ lit '';'',
      lit '' create table monitor_tmp_'' @ dt @ lit ''(id bigint(20), PRIMARY KEY(id));''] d err"

definition lcs_clear_tmp :: "connection \<Rightarrow> ('d \<Rightarrow> bytes \<Rightarrow> 'd \<times> int) \<Rightarrow> bytes \<Rightarrow> 'd \<Rightarrow> int \<Rightarrow> ('d \<times> int \<times> cact list) option" where
  "lcs_clear_tmp c exec dt d err = on_connection c exec 521 1371 1383
     (map (\<lambda>t. lit ''drop table if exists '' @ t @ dt @ lit '';'')
       [lit ''cdr_tmp_'', lit ''queue_tmp_'', lit ''monitor_tmp_'', lit ''linkedid_tmp_'',
        lit ''cdr_'', lit ''queue_log_'', lit ''monitor_recording_'', lit ''auto_dial_wrapup_history_'']) d err"

text \<open>three statements for each table: the last one takes the date twice more\<close>

definition day_table :: "string \<Rightarrow> string \<Rightarrow> string \<Rightarrow> string \<Rightarrow> bytes \<Rightarrow> bytes \<Rightarrow> bytes list" where
  "day_table t from column fin dt date01 =
     [lit ''drop table if exists '' @ lit t @ date01 @ lit '';'',
      lit ''CREATE TABLE '' @ lit t @ date01 @ lit '' LIKE '' @ butlast (lit t) @ lit '';'',
      lit ''INSERT '' @ lit t @ date01 @ lit '' SELECT * FROM '' @ lit from @ lit '' where '' @ lit column @ lit '' >='' @ [39] @
        dt @ lit '' 00:00:00'' @ [39] @ lit '' and '' @ lit column @ lit '' <= '' @ [39] @ dt @ lit '' 23:59:59'' @ [39] @ lit fin]"

definition lcs_gen_data_tables ::
  "connection \<Rightarrow> ('d \<Rightarrow> bytes \<Rightarrow> 'd \<times> int) \<Rightarrow> bytes \<Rightarrow> bytes \<Rightarrow> 'd \<Rightarrow> int \<Rightarrow> ('d \<times> int \<times> cact list) option" where
  "lcs_gen_data_tables c exec dt date01 d err = on_connection c exec 1024 1546 1565
     (day_table ''cdr_'' ''cdr'' ''calldate'' '';'' dt date01 @
      day_table ''queue_log_'' ''queue_log'' ''time'' '';'' dt date01 @
      day_table ''monitor_recording_'' ''monitor_recording'' ''created_time'' '';'' dt date01 @
      day_table ''auto_dial_wrapup_history_'' '' auto_dial_wrapup_history'' ''start_time'' '''' dt date01) d err"

text \<open>on the connection given; an error of a statement is noted by the line\<close>

definition lcs_clear_tmp_table :: "('d \<Rightarrow> bytes \<Rightarrow> 'd \<times> int) \<Rightarrow> bytes \<Rightarrow> 'd \<Rightarrow> int \<Rightarrow> ('d \<times> int \<times> cact list) option" where
  "lcs_clear_tmp_table exec dt d err = query_loop exec 1024 1152
     [lit ''delete from cdr_'' @ dt @ lit '' where recid in (select recid from cdr_tmp_'' @ dt @ lit '');'',
      lit ''delete from queue_log_'' @ dt @ lit '' where id in (select id from queue_tmp_'' @ dt @ lit '');'',
      lit ''delete from monitor_recording_'' @ dt @ lit '' where id in (select id from monitor_tmp_'' @ dt @ lit '');'',
      lit ''delete from linkedid_tmp_'' @ dt @ lit '';'',
      lit ''delete from cdr_tmp_'' @ dt, lit ''delete from queue_tmp_'' @ dt,
      lit ''delete from monitor_tmp_'' @ dt] d err"

section \<open>Rows\<close>

definition tab_nl_cr :: "byte \<Rightarrow> bool" where
  "tab_nl_cr b \<longleftrightarrow> b = 9 \<or> b = 13 \<or> b = 10"

text \<open>the loop over the words of a value behind the first: each is followed by a blank\<close>

function words_loop :: "bytes \<Rightarrow> bytes \<Rightarrow> bytes" where
  "words_loop s buf =
     (case strtok tab_nl_cr s of None \<Rightarrow> buf | Some (pch, rest) \<Rightarrow> words_loop rest (buf @ pch @ [32]))"
  by pat_completeness auto
termination by (relation "measure (\<lambda>(s, buf). length s)") (auto dest: strtok_shorter)

declare words_loop.simps [simp del]

text \<open>what is printed for a column: \<^term>\<open>None\<close> is a null value; \<^verbatim>\<open>buf\<close> has 4097 bytes\<close>

definition put_field :: "bytes option \<Rightarrow> bytes option" where
  "put_field v =
     (case v of None \<Rightarrow> Some (lit ''NULL'' @ [9])
      | Some s \<Rightarrow>
          if s = [] then Some (lit ''NULL'' @ [9])
          else if hd s = 1 then Some (lit ''true'' @ [9])
          else do {
            buf \<leftarrow> fit 4097 (case strtok tab_nl_cr s of None \<Rightarrow> [] | Some (pch, rest) \<Rightarrow> words_loop rest pch);
            Some (buf @ [9])
          })"

fun put_row :: "bytes option list \<Rightarrow> bytes option" where
  "put_row [] = Some [10]"
| "put_row (v # vs) = do { f \<leftarrow> put_field v; r \<leftarrow> put_row vs; Some (f @ r) }"

fun put_rows :: "bytes option list list \<Rightarrow> bytes option" where
  "put_rows [] = Some []"
| "put_rows (r # rs) = do { l \<leftarrow> put_row r; ls \<leftarrow> put_rows rs; Some (l @ ls) }"

text \<open>the struct \<^verbatim>\<open>LCS_GET_TABLE_INFO\<close>; \<^verbatim>\<open>con\<close> is the address of a connection, \<^verbatim>\<open>gbinfo\<close> the configuration\<close>

record LCS_GET_TABLE_INFO =
  table :: bytes
  out_file :: bytes
  total :: int
  con :: nat

text \<open>\<^verbatim>\<open>lcs_try_fetch\<close>: \<^verbatim>\<open>*err\<close>, the table's entry and the file\<close>

definition lcs_try_fetch ::
  "(bytes \<Rightarrow> bool) \<Rightarrow> LCS_MYSQL_INFO_cl \<Rightarrow> LCS_GET_TABLE_INFO \<Rightarrow> bytes option list list \<Rightarrow> int \<Rightarrow>
   (LCS_GET_TABLE_INFO \<times> int \<times> cact list) option" where
  "lcs_try_fetch can_open info p rows err = do {
     c \<leftarrow> fld (current_dir_cl info);
     path \<leftarrow> fit 1024 (c @ out_file p);
     if \<not> can_open path then Some (p, 1, [])
     else do {
       text \<leftarrow> put_rows rows;
       Some (p\<lparr>total := total p + int (length rows)\<rparr>, err, [File path text])
     }
   }"

section \<open>Queries of a window\<close>

text \<open>a text in single quotes\<close>

definition quoted :: "bytes \<Rightarrow> bytes" where
  "quoted s = 39 # s @ [39]"

text \<open>
  the statement that fills a table of identifiers and the one that selects the rows, by the table
  (an empty first one is not run; a null pointer as second is \<^term>\<open>None\<close>)
\<close>

definition window_sql :: "bytes \<Rightarrow> bytes \<Rightarrow> bytes \<Rightarrow> bytes \<Rightarrow> bytes \<Rightarrow> bytes \<times> bytes option" where
  "window_sql t dt supc low hi =
     (if t = lit ''cdr'' then
        (lit ''insert into cdr_tmp_'' @ dt @ lit '' (recid) (select recid from (select recid, linkedid from cdr_'' @ dt @
           lit '' where calldate < '' @ quoted supc @ lit ''  ) as tmp_ntthuan where tmp_ntthuan.linkedid in (select linkedid from linkedid_tmp_'' @
           dt @ lit ''));'',
         Some (lit ''select * from cdr_'' @ dt @ lit '' where linkedid in (select linkedid from linkedid_tmp_'' @ dt @ lit '') order by calldate;''))
      else if t = lit ''queue_log'' then
        (lit ''insert into queue_tmp_'' @ dt @ lit '' (id) (select id from (select id, callid from queue_log_'' @ dt @
           lit ''  where time < '' @ quoted supc @ lit ''   ) as tmp_ntthuan where tmp_ntthuan.callid in (select linkedid as callid from linkedid_tmp_'' @
           dt @ lit ''));'',
         Some (lit ''select * from queue_log_'' @ dt @ lit '' where callid in (select linkedid from linkedid_tmp_'' @ dt @ lit '');''))
      else if t = lit ''monitor_recording'' then
        (lit ''insert into monitor_tmp_'' @ dt @ lit '' (id) (select id from (select id, uniqueid from monitor_recording_'' @ dt @
           lit '' where created_time < '' @ quoted supc @ lit ''  ) as tmp_ntthuan where tmp_ntthuan.uniqueid in (select linkedid from linkedid_tmp_'' @
           dt @ lit ''));'',
         Some (lit ''select * from monitor_recording_'' @ dt @ lit '' where uniqueid in (select linkedid  from linkedid_tmp_'' @ dt @ lit '');''))
      else if t = lit ''auto_dial_wrapup_history'' then
        ([], Some (lit ''select * from '' @ t @ 95 # dt @ lit '' where start_time >= '' @ quoted low @ lit '' AND start_time < '' @ quoted hi @ lit '';''))
      else ([], None))"

text \<open>
  \<^verbatim>\<open>lcs_try_query(con, arg, err)\<close> with \<^verbatim>\<open>*err = 0\<close>, as \<^verbatim>\<open>lcs_get_tab_pthread\<close> calls it. \<open>opened\<close> tells
  whether \<^verbatim>\<open>*con\<close> is open; an error closes it.
\<close>

definition lcs_try_query ::
  "zone \<Rightarrow> ('d \<Rightarrow> bytes \<Rightarrow> 'd \<times> int) \<Rightarrow> ('d \<Rightarrow> bytes option list list option) \<Rightarrow> (bytes \<Rightarrow> bool) \<Rightarrow>
   LCS_MYSQL_INFO_cl \<Rightarrow> LCS_GET_TABLE_INFO \<Rightarrow> bool \<Rightarrow> 'd \<Rightarrow> ('d \<times> LCS_GET_TABLE_INFO \<times> bool \<times> cact list) option" where
  "lcs_try_query z exec result can_open info p opened d =
     (if \<not> opened then Some (d, p, False, [])
      else do {
        h \<leftarrow> fld (hi_cl info);
        supc \<leftarrow> lcs_time2_str z (lcs_str2_time z h + 4800);
        l \<leftarrow> fld (low_cl info);
        dt \<leftarrow> fld (date_01_cl info);
        let (ins, sel) = window_sql (table p) dt supc l h;
        ins' \<leftarrow> fit 2048 ins;
        sel' \<leftarrow> (case sel of None \<Rightarrow> Some None | Some q \<Rightarrow> map_option Some (fit 1024 q));
        let (d1, e1, a1) = (if ins' = [] then (d, 0, []) else let (d', e) = exec d ins' in (d', e, [Query ins']));
        if e1 \<noteq> 0 then Some (d1, p, False, a1)
        else do {
          let (d2, e2, a2) = (case sel' of None \<Rightarrow> (d1, 0, []) | Some q \<Rightarrow> let (d', e) = exec d1 q in (d', e, [Query q]));
          if e2 \<noteq> 0 then Some (d2, p, False, a1 @ a2)
          else case result d2 of None \<Rightarrow> Some (d2, p, True, a1 @ a2)
            | Some rows \<Rightarrow> do {
                (p', e3, a3) \<leftarrow> lcs_try_fetch can_open info p rows 0;
                Some (d2, p', e3 = 0, a1 @ a2 @ a3)
              }
        }
      })"

text \<open>\<^verbatim>\<open>lcs_gen_linkedid(con, arg, err)\<close>: the block for the statement is 128 bytes longer than its format\<close>

definition lcs_gen_linkedid ::
  "('d \<Rightarrow> bytes \<Rightarrow> 'd \<times> int) \<Rightarrow> LCS_MYSQL_INFO_cl \<Rightarrow> bool \<Rightarrow> 'd \<Rightarrow> ('d \<times> int \<times> cact list) option" where
  "lcs_gen_linkedid exec info opened d = do {
     dt \<leftarrow> fld (date_01_cl info); l \<leftarrow> fld (low_cl info); h \<leftarrow> fld (hi_cl info);
     sql \<leftarrow> fit (125 + 128) (lit ''insert into linkedid_tmp_'' @ dt @ lit '' (linkedid) (select distinct linkedid from cdr_'' @ dt @
       lit '' where  (calldate >= '' @ quoted l @ lit '' AND calldate < '' @ quoted h @ lit '' ));'');
     if \<not> opened then Some (d, 1076, [])
     else do {
       (d1, e, a1) \<leftarrow> lcs_clear_tmp_table exec dt d 0;
       if e \<noteq> 0 then Some (d1, 1082, a1)
       else let (d2, e2) = exec d1 sql in Some (d2, if e2 \<noteq> 0 then 1088 else 0, a1 @ [Query sql])
     }
   }"

text \<open>
  \<^verbatim>\<open>lcs_clear_history(arg, err)\<close>, for the two tables it knows; the statement is run on \<^verbatim>\<open>*(p->con)\<close>,
  whether that is open or a null pointer
\<close>

definition lcs_clear_history ::
  "('d \<Rightarrow> bytes \<Rightarrow> 'd \<times> int) \<Rightarrow> LCS_MYSQL_INFO_cl \<Rightarrow> LCS_GET_TABLE_INFO \<Rightarrow> bool \<Rightarrow> 'd \<Rightarrow> ('d \<times> int \<times> cact list) option" where
  "lcs_clear_history exec info p opened d = do {
     dt \<leftarrow> fld (date_01_cl info); l \<leftarrow> fld (low_cl info);
     let column = (if table p = lit ''auto_dial_wrapup_history'' then Some (lit ''start_time'')
                else if table p = lit ''auto_dial_detail'' then Some (lit ''created_time'') else None);
     case column of None \<Rightarrow> Some (d, 1, [])
     | Some c \<Rightarrow> do {
         sql \<leftarrow> fit 1024 (lit ''delete from '' @ table p @ 95 # dt @ lit '' where DATE('' @ quoted l @ lit '')=DATE('' @ c @ lit '') AND '' @ c @
           lit '' < '' @ quoted l);
         if \<not> opened then None
         else let (d', e) = exec d sql in Some (d', e, [Query sql])
       }
   }"

section \<open>Insertion into sqlite\<close>

text \<open>\<^verbatim>\<open>lcs_geninsert_cfg(path, output, err)\<close>: the name of the file, or none if it cannot be opened\<close>

definition lcs_geninsert_cfg ::
  "(bytes \<Rightarrow> bool) \<Rightarrow> LCS_MYSQL_INFO_cl \<Rightarrow> bytes \<Rightarrow> (bytes option \<times> cact list) option" where
  "lcs_geninsert_cfg can_open info path = do {
     targetdir \<leftarrow> fit 1024 (lit ''targetdir_0002:'' @ path);
     p \<leftarrow> fld (path_cl info); s \<leftarrow> fld (server_cl info); d \<leftarrow> fld (db_cl info);
     templatedir \<leftarrow> fit 1024 (lit ''templatedir_0003:'' @ p @ 47 # s @ 47 # d @ lit ''/template'');
     output \<leftarrow> fit (length path + 32) (path @ lit ''/insert.cfg'');
     if \<not> can_open output then Some (None, [])
     else do {
       data \<leftarrow> fit 2048 (lit ''tables_0001:cdr,queue_log,monitor_recording,auto_dial_wrapup_history'' @ 10 # targetdir @ 10 # templatedir @ [10]);
       Some (Some output, [File output data])
     }
   }"

text \<open>\<^verbatim>\<open>"%s"\<close> with the null pointer in \<^verbatim>\<open>output\<close> is undefined\<close>

definition lcs_moving_param :: "(bytes \<Rightarrow> bool) \<Rightarrow> LCS_MYSQL_INFO_cl \<Rightarrow> bytes \<Rightarrow> cact list option" where
  "lcs_moving_param can_open info path = do {
     (output, a) \<leftarrow> lcs_geninsert_cfg can_open info path;
     i \<leftarrow> fld (insertprocess_cl info);
     o' \<leftarrow> output;
     cmd \<leftarrow> fit 1024 (i @ 32 # o');
     Some (a @ [Cmd cmd])
   }"

section \<open>Statements run up to the first that fails\<close>

text \<open>the state of the database after some statements\<close>

definition after :: "('d \<Rightarrow> bytes \<Rightarrow> 'd \<times> int) \<Rightarrow> bytes list \<Rightarrow> 'd \<Rightarrow> 'd" where
  "after exec qs d = fold (\<lambda>q d. fst (exec d q)) qs d"

lemma after_Cons: "after exec (q # qs) d = after exec qs (fst (exec d q))"
  by (simp add: after_def)

lemma query_loop_prefix:
  "query_loop exec cap ln qs d 0 = Some (d', e, acts) \<Longrightarrow> ln \<noteq> 0 \<Longrightarrow>
   \<exists>k \<le> length qs. acts = map Query (take k qs) \<and> d' = after exec (take k qs) d \<and>
     (if e = 0 then k = length qs \<and> (\<forall>i < k. snd (exec (after exec (take i qs) d) (qs ! i)) = 0)
      else e = ln \<and> 0 < k \<and> snd (exec (after exec (take (k - 1) qs) d) (qs ! (k - 1))) \<noteq> 0 \<and>
        (\<forall>i < k - 1. snd (exec (after exec (take i qs) d) (qs ! i)) = 0))"
proof (induction qs arbitrary: d acts)
  case Nil
  then show ?case by (simp add: after_def)
next
  case (Cons q qs)
  obtain d1 e1 where x: "exec d q = (d1, e1)" by fastforce
  show ?case
  proof (cases "e1 = 0")
    case True
    let ?ok = "\<lambda>qs d i. snd (exec (after exec (take i qs) d) (qs ! i)) = 0"
    obtain acts' where l: "query_loop exec cap ln qs d1 0 = Some (d', e, acts')" and a: "acts = Query q # acts'"
      using Cons.prems True x by (auto simp: fit_def bind_eq_Some_conv split: if_splits)
    obtain k where k: "k \<le> length qs" "acts' = map Query (take k qs)" "d' = after exec (take k qs) d1"
        "if e = 0 then k = length qs \<and> (\<forall>i < k. ?ok qs d1 i)
         else e = ln \<and> 0 < k \<and> \<not> ?ok qs d1 (k - 1) \<and> (\<forall>i < k - 1. ?ok qs d1 i)"
      using Cons.IH [OF l Cons.prems(2)] by blast
    have s: "?ok (q # qs) d (Suc i) \<longleftrightarrow> ?ok qs d1 i" "?ok (q # qs) d 0" for i
      using x True by (simp_all add: after_def)
    have all: "(\<forall>i < Suc j. ?ok (q # qs) d i) \<longleftrightarrow> (\<forall>i < j. ?ok qs d1 i)" for j
      by (simp only: All_less_Suc2 s simp_thms)
    have "acts = map Query (take (Suc k) (q # qs))" "d' = after exec (take (Suc k) (q # qs)) d"
      using a k(2,3) x by (simp_all add: after_Cons)
    moreover have "?ok (q # qs) d k \<longleftrightarrow> ?ok qs d1 (k - 1)" "(\<forall>i < k. ?ok (q # qs) d i) \<longleftrightarrow> (\<forall>i < k - 1. ?ok qs d1 i)" if "0 < k"
      using that s(1) [of "k - 1"] all [of "k - 1"] by (simp_all only: Suc_diff_1)
    ultimately show ?thesis
      using k(1,4) all [of k] by (intro exI [of _ "Suc k"]) (auto split: if_splits)
  next
    case False
    then show ?thesis
      using Cons.prems x by (intro exI [of _ 1]) (auto simp: fit_def bind_eq_Some_conv after_def split: if_splits)
  qed
qed

text \<open>
  C14. A list of statements on a connection is run in order, each on the state the one before left, up to the first
  that fails: all before it succeeded, it is the last one run, and its failure is reported. Without an error
  all were run and all succeeded.
\<close>

theorem statements_up_to_failure:
  assumes "on_connection Connected exec cap ln1 ln2 qs d 0 = Some (d', e, acts)" and "ln2 \<noteq> 0"
  shows "\<exists>k \<le> length qs. acts = map Query (take k qs) \<and> d' = after exec (take k qs) d \<and>
     (if e = 0 then k = length qs \<and> (\<forall>i < k. snd (exec (after exec (take i qs) d) (qs ! i)) = 0)
      else e = ln2 \<and> 0 < k \<and> snd (exec (after exec (take (k - 1) qs) d) (qs ! (k - 1))) \<noteq> 0 \<and>
        (\<forall>i < k - 1. snd (exec (after exec (take i qs) d) (qs ! i)) = 0))"
  using assms by (intro query_loop_prefix) (simp_all add: on_connection_def lcs_try_connect_def)

theorem statements_up_to_failure_witness:
  "on_connection Connected (\<lambda>d q. (d + 1, if d = 1 then 7 else 0)) 1024 1 2 [lit ''a'', lit ''b'', lit ''c''] (0 :: nat) 0 =
     Some (2, 2, [Query (lit ''a''), Query (lit ''b'')]) \<and>
   (\<exists>k. [Query (lit ''a''), Query (lit ''b'')] = map Query (take k [lit ''a'', lit ''b'', lit ''c'']))"
proof -
  let ?x = "\<lambda>d q. (d + 1 :: nat, if d = 1 then 7 else 0 :: int)" and ?qs = "[lit ''a'', lit ''b'', lit ''c'']"
  have run: "on_connection Connected ?x 1024 1 2 ?qs 0 0 = Some (2, 2, [Query (lit ''a''), Query (lit ''b'')])"
    by code_simp
  have "\<exists>k. [Query (lit ''a''), Query (lit ''b'')] = map Query (take k ?qs)"
    by (rule ex_forward [OF statements_up_to_failure [OF run zero_neq_numeral [symmetric]]]) (elim conjE)
  with run show ?thesis by blast
qed

text \<open>
  The tables of the day are dropped only if nothing failed before: the error of the run is taken for one of the connection.
\<close>

theorem clear_tmp_skipped:
  assumes "err \<noteq> 0"
  shows "lcs_clear_tmp c exec dt d err = Some (d, 1371, [])"
  using assms by (cases c) (simp_all add: lcs_clear_tmp_def on_connection_def lcs_try_connect_def)

theorem clear_tmp_skipped_witness:
  "lcs_clear_tmp Connected (\<lambda>d q. (d, 0)) (lit ''2017_10_29'') () 1080 = Some ((), 1371, [])"
  by (rule clear_tmp_skipped) simp

text \<open>A refused connection is used as if it were open.\<close>

theorem refused_is_used:
  "lcs_gen_structure Refused_cl exec d 0 = None \<and> lcs_init_tmp Refused_cl exec dt d 0 = None \<and>
   lcs_clear_tmp Refused_cl exec dt d 0 = None"
  by (simp add: lcs_gen_structure_def lcs_init_tmp_def lcs_clear_tmp_def on_connection_def lcs_try_connect_def)

section \<open>A row is one line\<close>

definition plain :: "bytes \<Rightarrow> bool" where
  "plain s \<longleftrightarrow> (\<forall>b \<in> set s. \<not> tab_nl_cr b)"

lemma strtok_token: "strtok D s = Some (t, r) \<Longrightarrow> b \<in> set t \<Longrightarrow> \<not> D b"
  by (auto simp: strtok_def Let_def split: if_splits dest: set_takeWhileD)

lemma strtok_set: "strtok D s = Some (t, r) \<Longrightarrow> set t \<subseteq> set s \<and> set r \<subseteq> set s"
proof -
  assume "strtok D s = Some (t, r)"
  then have "t = takeWhile (\<lambda>b. \<not> D b) (dropWhile D s)" "r = tl (dropWhile (\<lambda>b. \<not> D b) (dropWhile D s))"
    by (auto simp: strtok_def Let_def split: if_splits)
  then show ?thesis
    by (metis (no_types, lifting) list.set_sel(2) set_dropWhileD set_takeWhileD subsetI tl_Nil)
qed

lemma words_loop_plain: "plain buf \<Longrightarrow> plain (words_loop s buf)"
proof (induction s buf rule: words_loop.induct)
  case (1 s buf)
  show ?case
  proof (cases "strtok tab_nl_cr s")
    case None
    then show ?thesis using 1(2) by (simp add: words_loop.simps [of s])
  next
    case (Some x)
    obtain pch rest where x: "x = (pch, rest)" by fastforce
    have "plain (buf @ pch @ [32])"
      using 1(2) strtok_token [OF Some [unfolded x]] by (auto simp: plain_def tab_nl_cr_def)
    then show ?thesis using 1(1) [OF Some x [symmetric]] by (simp add: words_loop.simps [of s] Some x)
  qed
qed

lemma put_field_plain: "put_field v = Some f \<Longrightarrow> \<exists>w. f = w @ [9] \<and> plain w"
proof -
  assume f: "put_field v = Some f"
  have c: "plain (lit ''NULL'')" "plain (lit ''true'')" "plain []" by (simp_all add: plain_def lit_def tab_nl_cr_def)
  have "plain (words_loop rest pch)" if "strtok tab_nl_cr s = Some (pch, rest)" for s pch rest
    using that by (intro words_loop_plain) (auto simp: plain_def dest: strtok_token)
  with f c show ?thesis
    by (auto simp: put_field_def fit_def bind_eq_Some_conv split: option.splits if_splits prod.splits)
qed

text \<open>the text printed for a value, without the tab behind it\<close>

definition field_text :: "bytes option \<Rightarrow> bytes" where
  "field_text v = (case put_field v of None \<Rightarrow> [] | Some f \<Rightarrow> butlast f)"

lemma put_row_text:
  "put_row vs = Some l \<Longrightarrow> l = concat (map (\<lambda>v. field_text v @ [9]) vs) @ [10] \<and> (\<forall>v \<in> set vs. plain (field_text v))"
proof (induction vs arbitrary: l)
  case (Cons v vs)
  then obtain f r where f: "put_field v = Some f" and r: "put_row vs = Some r" "l = f @ r"
    by (auto simp: bind_eq_Some_conv)
  obtain w where "f = w @ [9]" "plain w" using put_field_plain [OF f] by blast
  then show ?case using Cons.IH [OF r(1)] r(2) f by (simp add: field_text_def)
qed simp

lemma words_loop_set: "set (words_loop s buf) \<subseteq> set buf \<union> set s \<union> {32}"
proof (induction s buf rule: words_loop.induct)
  case (1 s buf)
  show ?case
  proof (cases "strtok tab_nl_cr s")
    case None
    then show ?thesis by (auto simp: words_loop.simps [of s])
  next
    case (Some x)
    obtain pch rest where x: "x = (pch, rest)" by fastforce
    have "set pch \<subseteq> set s \<and> set rest \<subseteq> set s" by (rule strtok_set [OF Some [unfolded x]])
    then show ?thesis using 1(1) [OF Some x [symmetric]] by (auto simp: words_loop.simps [of s] Some x)
  qed
qed

lemma field_no_zero:
  assumes "\<forall>s. v = Some s \<longrightarrow> 0 \<notin> set s"
  shows "0 \<notin> set (field_text v)"
proof -
  have l: "0 \<notin> set (lit ''NULL'')" "0 \<notin> set (lit ''true'')" by (simp_all add: lit_no_zero)
  have "0 \<notin> set (words_loop rest pch)" if "strtok tab_nl_cr s = Some (pch, rest)" "0 \<notin> set s" for s pch rest
    using words_loop_set [of rest pch] strtok_set [OF that(1)] that(2) by auto
  then show ?thesis
    using assms l by (auto simp: field_text_def put_field_def fit_def split: option.splits if_splits)
qed

text \<open>One line for a row, one field for a column.\<close>

theorem row_is_one_line:
  assumes "put_row vs = Some l"
  shows "\<exists>fs. length fs = length vs \<and> l = concat (map (\<lambda>f. f @ [9]) fs) @ [10] \<and> list_all plain fs"
  using put_row_text [OF assms] by (intro exI [of _ "map field_text vs"]) (auto simp: list_all_iff comp_def)

theorem row_is_one_line_witness:
  "put_row [Some (lit ''a b'' @ 10 # lit ''c'' @ 9 # lit ''d''), None] = Some (lit ''a bc d '' @ 9 # lit ''NULL'' @ [9, 10]) \<and>
   (\<exists>fs. length fs = 2 \<and> lit ''a bc d '' @ 9 # lit ''NULL'' @ [9, 10] = concat (map (\<lambda>f. f @ [9]) fs) @ [10])"
proof -
  have run: "put_row [Some (lit ''a b'' @ 10 # lit ''c'' @ 9 # lit ''d''), None] = Some (lit ''a bc d '' @ 9 # lit ''NULL'' @ [9, 10])"
    by code_simp
  have "length [Some (lit ''a b'' @ 10 # lit ''c'' @ 9 # lit ''d''), None] = 2" by simp
  with run row_is_one_line [OF run] show ?thesis by metis
qed

end
