(* ===== verification/ClusterRun.thy ===== *)
theory ClusterRun
  imports Cluster
begin

text \<open>
  The loop of \<^verbatim>\<open>lcs_start_bdata\<close> in \<^verbatim>\<open>cluster/cluster/main.c\<close>: window after window the rows of four
  tables go to files and from there to sqlite, until the window starts behind the last call. \<^verbatim>\<open>LCS_APP_EXITED\<close> is set by this
  loop alone while it runs. The state keeps the actions in order and the windows gone through.

  A connection made by \<^verbatim>\<open>lcs_init_param\<close> lives in a local variable of that function; its address is
  what the table keeps. The model has the addresses that live, so that what is read through the table
  afterwards is undefined. Every use of a connection goes through the address the table keeps: the loop gets
  into no turn as the program is written (\<open>start_bdata_dangling\<close>). What is shown of the loop says what it does
  where the connections live, as they would if \<^verbatim>\<open>conn\<close> did not end with its function.
\<close>

section \<open>Connections of the tables\<close>

type_synonym store = "nat \<rightharpoonup> bool"

text \<open>
  \<^verbatim>\<open>lcs_init_param(table, out)\<close> whose local variable \<^verbatim>\<open>conn\<close> is at the address \<open>a\<close>: it lives while the
  function runs
\<close>

definition lcs_init_param :: "connection \<Rightarrow> nat \<Rightarrow> bytes \<Rightarrow> store \<Rightarrow> (LCS_GET_TABLE_INFO \<times> store) option" where
  "lcs_init_param c a t st = do {
     t64 \<leftarrow> fit 64 t;
     out \<leftarrow> fit 64 (t64 @ lit ''.data'');
     let st1 = st(a \<mapsto> False);
     let (err, conn) = lcs_try_connect c 0;
     let st2 = st1(a \<mapsto> conn);
     let p = \<lparr>table = t64, out_file = out, total = 0, con = a\<rparr>;
     Some (p, st2(a := None))
   }"

section \<open>One window\<close>

record 'd backup =
  info_b :: LCS_MYSQL_INFO_cl
  pc_b :: LCS_GET_TABLE_INFO
  pq_b :: LCS_GET_TABLE_INFO
  pm_b :: LCS_GET_TABLE_INFO
  pw_b :: LCS_GET_TABLE_INFO
  con_b :: store
  db_b :: 'd
  acts_b :: "cact list"
  windows_b :: "(bytes \<times> bytes) list"

text \<open>\<^verbatim>\<open>lcs_get_tab_pthread\<close>: the table's connection is read at its address, and what becomes of it is stored there\<close>

definition lcs_get_tab_pthread ::
  "zone \<Rightarrow> ('d \<Rightarrow> bytes \<Rightarrow> 'd \<times> int) \<Rightarrow> ('d \<Rightarrow> bytes option list list option) \<Rightarrow> (bytes \<Rightarrow> bool) \<Rightarrow>
   LCS_MYSQL_INFO_cl \<Rightarrow> LCS_GET_TABLE_INFO \<Rightarrow> store \<Rightarrow> 'd \<Rightarrow> ('d \<times> LCS_GET_TABLE_INFO \<times> store \<times> cact list) option" where
  "lcs_get_tab_pthread z exec result can_open info p st d = do {
     opened \<leftarrow> st (con p);
     (d', p', o', a) \<leftarrow> lcs_try_query z exec result can_open info p opened d;
     Some (d', p', st(con p \<mapsto> o'), a)
   }"

text \<open>the state after a turn of the loop, and whether the loop goes on\<close>

definition backup_turn ::
  "zone \<Rightarrow> ('d \<Rightarrow> bytes \<Rightarrow> 'd \<times> int) \<Rightarrow> ('d \<Rightarrow> bytes option list list option) \<Rightarrow> (bytes \<Rightarrow> bool) \<Rightarrow>
   'd backup \<Rightarrow> ('d backup \<times> bool) option" where
  "backup_turn z exec result can_open s = do {
     w0 \<leftarrow> con_b s (con (pw_b s));
     (d0, e0, a0) \<leftarrow> lcs_clear_history exec (info_b s) (pw_b s) w0 (db_b s);
     outtime \<leftarrow> lcs_get_outtime (info_b s);
     if outtime then Some (s\<lparr>db_b := d0, acts_b := acts_b s @ a0\<rparr>, False)
     else do {
       (d1, pc, st1, a1) \<leftarrow> lcs_get_tab_pthread z exec result can_open (info_b s) (pc_b s) (con_b s) d0;
       (d2, pq, st2, a2) \<leftarrow> lcs_get_tab_pthread z exec result can_open (info_b s) (pq_b s) st1 d1;
       (d3, pm, st3, a3) \<leftarrow> lcs_get_tab_pthread z exec result can_open (info_b s) (pm_b s) st2 d2;
       (d4, pw, st4, a4) \<leftarrow> lcs_get_tab_pthread z exec result can_open (info_b s) (pw_b s) st3 d3;
       dir \<leftarrow> fld (current_dir_cl (info_b s));
       a5 \<leftarrow> lcs_moving_param can_open (info_b s) dir;
       info' \<leftarrow> lcs_update_time z (info_b s);
       Some (s\<lparr>info_b := info', pc_b := pc, pq_b := pq, pm_b := pm, pw_b := pw, con_b := st4, db_b := d4,
               acts_b := acts_b s @ a0 @ a1 @ a2 @ a3 @ a4 @ a5,
               windows_b := windows_b s @ [(c_str (low_cl (info_b s)), c_str (hi_cl (info_b s)))]\<rparr>, True)
     }
   }"

text \<open>at most \<open>n\<close> turns\<close>

fun backup_loop ::
  "zone \<Rightarrow> ('d \<Rightarrow> bytes \<Rightarrow> 'd \<times> int) \<Rightarrow> ('d \<Rightarrow> bytes option list list option) \<Rightarrow> (bytes \<Rightarrow> bool) \<Rightarrow>
   nat \<Rightarrow> 'd backup \<Rightarrow> 'd backup option" where
  "backup_loop z exec result can_open 0 s = None"
| "backup_loop z exec result can_open (Suc n) s =
     (case backup_turn z exec result can_open s of None \<Rightarrow> None
      | Some (s', goes_on) \<Rightarrow> if goes_on then backup_loop z exec result can_open n s' else Some s')"

section \<open>The whole run\<close>

text \<open>
  \<^verbatim>\<open>lcs_start_bdata\<close> up to its loop: the structures and the tables of the day, the four tables, and
  \<^verbatim>\<open>lcs_init_circle(*(pc->con), pc, err)\<close>, which reads the connection of the first table. \<open>fr\<close> are
  the addresses of the variables of the four calls of \<^verbatim>\<open>lcs_init_param\<close>.
\<close>

definition lcs_init_circle ::
  "('d \<Rightarrow> bytes \<Rightarrow> 'd \<times> int) \<Rightarrow> LCS_MYSQL_INFO_cl \<Rightarrow> bool \<Rightarrow> 'd \<Rightarrow> ('d \<times> LCS_MYSQL_INFO_cl \<times> cact list) option" where
  "lcs_init_circle exec info opened d = do {
     (d1, e, a1) \<leftarrow> lcs_gen_linkedid exec info opened d;
     (info', a2) \<leftarrow> lcs_create_subdir info;
     Some (d1, info', a1 @ a2)
   }"

definition lcs_start_bdata ::
  "zone \<Rightarrow> ('d \<Rightarrow> bytes \<Rightarrow> 'd \<times> int) \<Rightarrow> ('d \<Rightarrow> bytes option list list option) \<Rightarrow> (bytes \<Rightarrow> bool) \<Rightarrow>
   (nat \<Rightarrow> connection) \<Rightarrow> (nat \<Rightarrow> nat) \<Rightarrow> nat \<Rightarrow> store \<Rightarrow> LCS_MYSQL_INFO_cl \<Rightarrow> 'd \<Rightarrow> int \<Rightarrow> 'd backup option" where
  "lcs_start_bdata z exec result can_open c fr n st info d err = do {
     dt \<leftarrow> fld (date_cl info); dt01 \<leftarrow> fld (date_01_cl info);
     (d1, e1, a1) \<leftarrow> lcs_gen_structure (c 0) exec d err;
     (d2, e2, a2) \<leftarrow> lcs_init_tmp (c 1) exec dt01 d1 e1;
     (d3, e3, a3) \<leftarrow> lcs_gen_data_tables (c 2) exec dt dt01 d2 e2;
     (pc, st1) \<leftarrow> lcs_init_param (c 3) (fr 0) (lit ''cdr'') st;
     (pq, st2) \<leftarrow> lcs_init_param (c 4) (fr 1) (lit ''queue_log'') st1;
     (pm, st3) \<leftarrow> lcs_init_param (c 5) (fr 2) (lit ''monitor_recording'') st2;
     (pw, st4) \<leftarrow> lcs_init_param (c 6) (fr 3) (lit ''auto_dial_wrapup_history'') st3;
     oc \<leftarrow> st4 (con pc);
     (d4, info', a4) \<leftarrow> lcs_init_circle exec info oc d3;
     backup_loop z exec result can_open n
       \<lparr>info_b = info', pc_b = pc, pq_b = pq, pm_b = pm, pw_b = pw, con_b = st4,
        db_b = d4, acts_b = a1 @ a2 @ a3 @ a4, windows_b = []\<rparr>
   }"

section \<open>The connections are gone\<close>

lemma init_param_gone:
  "lcs_init_param c a t st = Some (p, st') \<Longrightarrow> con p = a \<and> st' a = None \<and> (\<forall>x. x \<noteq> a \<longrightarrow> st' x = st x)"
  by (auto simp: lcs_init_param_def bind_eq_Some_conv Let_def split: prod.splits)

lemma params_gone:
  "lcs_init_param c1 a1 t1 st \<bind> (\<lambda>c. lcs_init_param c2 a2 t2 (snd c) \<bind> (\<lambda>q.
   lcs_init_param c3 a3 t3 (snd q) \<bind> (\<lambda>m. lcs_init_param c4 a4 t4 (snd m) \<bind> (\<lambda>w.
   snd w (con (fst c)) \<bind> k c q m w)))) = None"
proof -
  have "snd w (con (fst c)) = None"
    if "lcs_init_param c1 a1 t1 st = Some c" "lcs_init_param c2 a2 t2 (snd c) = Some q"
      "lcs_init_param c3 a3 t3 (snd q) = Some m" "lcs_init_param c4 a4 t4 (snd m) = Some w"
    for c q m w
  proof -
    have "snd q (con (fst c)) = None" using init_param_gone [of _ _ _ _ "fst c" "snd c"] init_param_gone [of _ _ _ _ "fst q" "snd q"] that(1,2)
      by (cases "con (fst c) = a2") auto
    then have "snd m (con (fst c)) = None" using init_param_gone [of _ _ _ _ "fst m" "snd m"] that(3)
      by (cases "con (fst c) = a3") auto
    then show ?thesis using init_param_gone [of _ _ _ _ "fst w" "snd w"] that(4)
      by (cases "con (fst c) = a4") auto
  qed
  then show ?thesis
    by (auto split: Option.bind_splits)
qed

text \<open>The first table's connection is read after it is gone.\<close>

theorem start_bdata_dangling:
  "lcs_start_bdata z exec result can_open c fr n st info d err = None"
  unfolding lcs_start_bdata_def split_beta params_gone by simp

section \<open>One directory\<close>











section \<open>A run that meets no failure\<close>

lemma length_show_secs: "ymd_secs l \<Longrightarrow> length (show_secs l) = 19"
  by (simp add: show_secs_def show_tm_date ymd_secs_def length_show_date)

lemma show_secs_no_zero: "ymd_secs l \<Longrightarrow> 0 \<notin> set (show_secs l)"
proof -
  assume y: "ymd_secs l"
  have Z: "0 \<notin> set (d2 k)" if "0 \<le> k" "k < 100" for k
    using that d2_digits(1,2) [of k] not_digit by (force simp: d2_def)
  show ?thesis
    using show_date_no_zero(1) [of "l div 86400"] y hms [of "l mod 86400"] Z
    by (auto simp: show_secs_def show_tm_date ymd_secs_def pos_imp_zdiv_nonneg_iff)
qed

lemma fld_secs: "ymd_secs l \<Longrightarrow> fld (pad 32 (show_secs l)) = Some (show_secs l)"
  by (simp add: fld_pad length_show_secs show_secs_no_zero)

text \<open>the server accepts every statement, the rows fit the buffers and the files open\<close>

definition serves :: "('d \<Rightarrow> bytes \<Rightarrow> 'd \<times> int) \<Rightarrow> ('d \<Rightarrow> bytes option list list option) \<Rightarrow> (bytes \<Rightarrow> bool) \<Rightarrow> bool" where
  "serves exec result can_open \<longleftrightarrow>
     (\<forall>d q. snd (exec d q) = 0) \<and> (\<forall>d rows. result d = Some rows \<longrightarrow> put_rows rows \<noteq> None) \<and> (\<forall>f. can_open f)"

text \<open>a table of the program whose connection is open\<close>

definition tables :: "bytes list" where
  "tables = [lit ''cdr'', lit ''queue_log'', lit ''monitor_recording'', lit ''auto_dial_wrapup_history'']"

definition table_ok :: "LCS_GET_TABLE_INFO \<Rightarrow> bool" where
  "table_ok p \<longleftrightarrow> table p \<in> set tables \<and> out_file p = table p @ lit ''.data''"

text \<open>the texts of the configuration fit the arrays they are printed to\<close>

definition texts_ok :: "LCS_MYSQL_INFO_cl \<Rightarrow> bool" where
  "texts_ok info \<longleftrightarrow>
     (\<exists>dt p s db i c. fld (date_01_cl info) = Some dt \<and> length dt < 64 \<and> fld (path_cl info) = Some p \<and> length p < 128 \<and>
        fld (server_cl info) = Some s \<and> length s < 128 \<and> fld (db_cl info) = Some db \<and> length db < 64 \<and>
        fld (insertprocess_cl info) = Some i \<and> fld (current_dir_cl info) = Some c \<and>
        length c < 990 \<and> length i + length c < 1010)"

text \<open>the window that starts at the local second \<open>l\<close>\<close>

definition window_at :: "int \<Rightarrow> LCS_MYSQL_INFO_cl \<Rightarrow> bool" where
  "window_at l info \<longleftrightarrow> low_cl info = pad 32 (show_secs l) \<and> hi_cl info = pad 32 (show_secs (l + step_cl info))"

lemma window_sql_fits:
  assumes "t \<in> set tables" and "length dt < 64" and "length supc = 19" and "length l = 19" and "length h = 19"
    and "window_sql t dt supc l h = (ins, sel)"
  shows "length ins < 2048 \<and> (\<exists>q. sel = Some q \<and> length q < 1024)"
  using assms by (auto simp: window_sql_def quoted_def tables_def split: if_splits)

lemma try_fetch_ok:
  assumes "table_ok p" and "fld (current_dir_cl info) = Some c" and "length c < 990" and "can_open (c @ out_file p)"
    and "put_rows rows \<noteq> None"
  shows "\<exists>p' acts. lcs_try_fetch can_open info p rows e = Some (p', e, acts) \<and> table_ok p' \<and> table p' = table p \<and> con p' = con p"
  using assms by (auto simp: lcs_try_fetch_def fit_def table_ok_def tables_def)

lemma try_query_ok:
  assumes srv: "serves exec result can_open" and p: "table_ok p" and t: "texts_ok info"
    and w: "window_at l info" and y: "ymd_secs l" "ymd_secs (l + step_cl info)" "ymd_secs (l + step_cl info + 4800)"
    and z: "\<And>t. dst_off z t = 0"
  shows "\<exists>d' p' acts. lcs_try_query z exec result can_open info p True d = Some (d', p', True, acts) \<and> table_ok p' \<and> table p' = table p \<and> con p' = con p"
proof -
  let ?l = "show_secs l" and ?h = "show_secs (l + step_cl info)" and ?s = "show_secs (l + step_cl info + 4800)"
  obtain dt c where dt: "fld (date_01_cl info) = Some dt" "length dt < 64"
    and c: "fld (current_dir_cl info) = Some c" "length c < 990" using t by (auto simp: texts_ok_def)
  have lh: "fld (low_cl info) = Some ?l" "fld (hi_cl info) = Some ?h"
    using w y by (simp_all add: window_at_def fld_secs)
  have sup: "lcs_time2_str z (lcs_str2_time z ?h + 4800) = Some ?s"
    using y lcs_time2_str_secs [of z "l + step_cl info + 4800 - std_off z"]
    by (simp add: lcs_str2_time_secs local_secs_def z algebra_simps)
  obtain ins sel where wq: "window_sql (table p) dt ?s ?l ?h = (ins, sel)" by fastforce
  then obtain q where q: "sel = Some q" "length q < 1024" "length ins < 2048"
    using window_sql_fits [OF _ dt(2) _ _ _ wq] p y by (auto simp: length_show_secs table_ok_def)
  have "\<exists>d''. exec d' x = (d'', 0)" for d' x using srv by (simp add: serves_def prod_eq_iff)
  then obtain d1 dq d2 where e: "exec d ins = (d1, 0)" "exec d q = (dq, 0)" "exec d1 q = (d2, 0)" by metis
  have fetch: "\<exists>p' acts. lcs_try_fetch can_open info p rows 0 = Some (p', 0, acts) \<and> table_ok p' \<and> table p' = table p \<and> con p' = con p"
    if "result d' = Some rows" for d' rows
    using try_fetch_ok [OF p c] that srv unfolding serves_def by blast
  note run = lcs_try_query_def lh sup dt wq q fit_def e Let_def
  show ?thesis
  proof (cases "ins = []")
    case True
    then show ?thesis using p fetch [of dq] by (cases "result dq") (auto simp: run)
  next
    case False
    then show ?thesis using p fetch [of d2] by (cases "result d2") (auto simp: run)
  qed
qed

lemma get_tab_ok:
  assumes "serves exec result can_open" and "table_ok p" and "texts_ok info"
    and "window_at l info" and "ymd_secs l" "ymd_secs (l + step_cl info)" "ymd_secs (l + step_cl info + 4800)"
    and "\<And>t. dst_off z t = 0" and "st (con p) = Some True"
  shows "\<exists>d' p' acts. lcs_get_tab_pthread z exec result can_open info p st d = Some (d', p', st, acts) \<and>
    table_ok p' \<and> table p' = table p \<and> con p' = con p"
  using try_query_ok [OF assms(1-8), of d] assms(9) by (auto simp: lcs_get_tab_pthread_def fun_upd_idem)

text \<open>a state of the loop: the window of the local second \<open>l\<close>, up to the call at \<open>e\<close>\<close>

definition run_ok :: "int \<Rightarrow> int \<Rightarrow> int \<Rightarrow> 'd backup \<Rightarrow> bool" where
  "run_ok w e l s \<longleftrightarrow>
     table_ok (pc_b s) \<and> table_ok (pq_b s) \<and> table_ok (pm_b s) \<and> table_ok (pw_b s) \<and>
     table (pw_b s) = lit ''auto_dial_wrapup_history'' \<and> (\<forall>p \<in> {pc_b s, pq_b s, pm_b s, pw_b s}. con_b s (con p) = Some True) \<and>
     texts_ok (info_b s) \<and> step_cl (info_b s) = w \<and> endtime_cl (info_b s) = show_secs e \<and> window_at l (info_b s)"

lemma clear_history_ok:
  assumes srv: "serves exec result can_open" and t: "texts_ok info" and p: "table p = lit ''auto_dial_wrapup_history''"
    and w: "window_at l info" and y: "ymd_secs l"
  shows "\<exists>d' a. lcs_clear_history exec info p True d = Some (d', 0, a)"
proof -
  obtain dt where dt: "fld (date_01_cl info) = Some dt" "length dt < 64" using t by (auto simp: texts_ok_def)
  have l: "fld (low_cl info) = Some (show_secs l)" using w y by (simp add: window_at_def fld_secs)
  have ok: "exec d' x = (fst (exec d' x), 0)" for d' x using srv by (simp add: serves_def prod_eq_iff)
  show ?thesis
    using dt y by (simp add: lcs_clear_history_def dt l p fit_def quoted_def length_show_secs Let_def) (subst ok, use dt in simp)
qed

lemma moving_param_ok:
  assumes "serves exec result can_open" and "texts_ok info" and "fld (current_dir_cl info) = Some c"
  shows "\<exists>a. lcs_moving_param can_open info c = Some a"
  using assms by (auto simp: lcs_moving_param_def lcs_geninsert_cfg_def texts_ok_def serves_def fit_def)

lemma update_time_ok:
  assumes w: "window_at l info" and y: "ymd_secs l" "ymd_secs (l + step_cl info)" "ymd_secs (l + 2 * step_cl info)"
    and z: "\<And>t. dst_off z t = 0"
  shows "lcs_update_time z info =
    Some (info\<lparr>low_cl := pad 32 (show_secs (l + step_cl info)), hi_cl := pad 32 (show_secs (l + 2 * step_cl info))\<rparr>)"
proof -
  let ?h = "show_secs (l + step_cl info)"
  have "fld (hi_cl info) = Some ?h" using w y by (simp add: window_at_def fld_secs)
  moreover have "mem_write (zeros 64) 0 ?h = Some (pad 64 ?h)" using y by (intro mem_write_zeros) (simp add: length_show_secs)
  moreover have "fld (pad 64 ?h) = Some ?h" using y by (intro fld_pad) (simp_all add: length_show_secs show_secs_no_zero)
  moreover have "lcs_time2_str z (lcs_str2_time z ?h + step_cl info) = Some (show_secs (l + 2 * step_cl info))"
    using y lcs_time2_str_secs [of z "l + 2 * step_cl info - std_off z"]
    by (simp add: lcs_str2_time_secs local_secs_def z algebra_simps)
  ultimately show ?thesis
    using w y by (simp add: lcs_update_time_def window_at_def mem_write_pad length_show_secs)
qed

lemma turn_goes_on:
  assumes srv: "serves exec result can_open" and s: "run_ok w e l s" and le: "l \<le> e"
    and y: "ymd_secs e" "ymd_secs l" "ymd_secs (l + w)" "ymd_secs (l + w + 4800)" "ymd_secs (l + 2 * w)"
    and z: "\<And>t. dst_off z t = 0"
  shows "\<exists>s'. backup_turn z exec result can_open s = Some (s', True) \<and> run_ok w e (l + w) s' \<and>
    windows_b s' = windows_b s @ [(show_secs l, show_secs (l + w))]"
proof -
  let ?i = "info_b s"
  note s' = s [unfolded run_ok_def]
  have st: "step_cl ?i = w" and wi: "window_at l ?i" and t: "texts_ok ?i" using s' by auto
  obtain d0 a0 where c: "lcs_clear_history exec ?i (pw_b s) True (db_b s) = Some (d0, 0, a0)"
    using clear_history_ok [OF srv t _ wi y(2)] s' by blast
  have lh: "fld (low_cl ?i) = Some (show_secs l)" "c_str (low_cl ?i) = show_secs l" "c_str (hi_cl ?i) = show_secs (l + w)"
    using wi y fld_secs [of l] fld_secs [of "l + w"] by (auto simp: window_at_def st fld_def split: if_splits)
  have out: "lcs_get_outtime ?i = Some False"
    using s' c_strcmp_secs_iff(1) [OF y(2,1)] le by (simp add: lcs_get_outtime_def lh)
  note q = get_tab_ok [OF srv _ t wi y(2) _ _ z, unfolded st, OF _ y(3,4)]
  obtain d1 p1 a1 where 1: "lcs_get_tab_pthread z exec result can_open ?i (pc_b s) (con_b s) d0 = Some (d1, p1, con_b s, a1)" "table_ok p1" "con p1 = con (pc_b s)"
    using q s' by blast
  obtain d2 p2 a2 where 2: "lcs_get_tab_pthread z exec result can_open ?i (pq_b s) (con_b s) d1 = Some (d2, p2, con_b s, a2)" "table_ok p2" "con p2 = con (pq_b s)"
    using q s' by blast
  obtain d3 p3 a3 where 3: "lcs_get_tab_pthread z exec result can_open ?i (pm_b s) (con_b s) d2 = Some (d3, p3, con_b s, a3)" "table_ok p3" "con p3 = con (pm_b s)"
    using q s' by blast
  obtain d4 p4 a4 where 4: "lcs_get_tab_pthread z exec result can_open ?i (pw_b s) (con_b s) d3 = Some (d4, p4, con_b s, a4)" "table_ok p4" "con p4 = con (pw_b s)"
      "table p4 = table (pw_b s)"
    using q s' by blast
  obtain dir where dir: "fld (current_dir_cl ?i) = Some dir" using t by (auto simp: texts_ok_def)
  obtain a5 where 5: "lcs_moving_param can_open ?i dir = Some a5" using moving_param_ok [OF srv t dir] by blast
  note u = update_time_ok [OF wi y(2) _ _ z, unfolded st, OF y(3,5)]
  show ?thesis
    using s' 1 2 3 4 5 u c out dir lh
    by (simp add: backup_turn_def run_ok_def texts_ok_def window_at_def algebra_simps)
qed

lemma turn_ends:
  assumes srv: "serves exec result can_open" and s: "run_ok w e l s" and lt: "e < l" and y: "ymd_secs e" "ymd_secs l"
  shows "\<exists>s'. backup_turn z exec result can_open s = Some (s', False) \<and> windows_b s' = windows_b s"
proof -
  let ?i = "info_b s"
  note s' = s [unfolded run_ok_def]
  obtain d0 a0 where c: "lcs_clear_history exec ?i (pw_b s) True (db_b s) = Some (d0, 0, a0)"
    using clear_history_ok [OF srv _ _ _ y(2)] s' by blast
  have "fld (low_cl ?i) = Some (show_secs l)" using s' y by (simp add: window_at_def fld_secs)
  then have "lcs_get_outtime ?i = Some True"
    using s' c_strcmp_secs_iff(1) [OF y(2,1)] lt by (simp add: lcs_get_outtime_def)
  then show ?thesis using s' c by (simp add: backup_turn_def)
qed

lemma loop_windows:
  assumes srv: "serves exec result can_open" and w: "0 < w" and z: "\<And>t. dst_off z t = 0"
    and y: "\<And>k. l0 \<le> k \<Longrightarrow> k \<le> e + 2 * w + 4800 \<Longrightarrow> ymd_secs k"
  shows "run_ok w e l s \<Longrightarrow> l0 \<le> l \<Longrightarrow> l0 \<le> e \<Longrightarrow> l \<le> e + w \<Longrightarrow> e < l + int m * w \<Longrightarrow> m = 0 \<or> l + int m * w \<le> e + w \<Longrightarrow> m < n \<Longrightarrow>
    \<exists>s'. backup_loop z exec result can_open n s = Some s' \<and> windows_b s' = windows_b s @
      map (\<lambda>k. (show_secs (l + int k * w), show_secs (l + int k * w + w))) [0..<m]"
proof (induction m arbitrary: l s n)
  case 0
  obtain n' where "n = Suc n'" using 0 by (cases n) auto
  have "e < l" using 0 by simp
  then have "\<exists>s'. backup_turn z exec result can_open s = Some (s', False) \<and> windows_b s' = windows_b s"
    using 0 w by (intro turn_ends [OF srv 0(1) _ y y]) auto
  then show ?case using \<open>n = Suc n'\<close> by auto
next
  case (Suc m)
  obtain n' where n: "n = Suc n'" "m < n'" using Suc.prems(7) by (cases n) auto
  have "0 \<le> int m * w" using w by simp
  then have le: "l \<le> e" using Suc.prems(6) by (simp add: algebra_simps)
  obtain s1 where s1: "backup_turn z exec result can_open s = Some (s1, True)" "run_ok w e (l + w) s1"
      "windows_b s1 = windows_b s @ [(show_secs l, show_secs (l + w))]"
    using turn_goes_on [OF srv Suc.prems(1) le y y y y y z] le w Suc.prems(2,3) by auto
  have "\<exists>s'. backup_loop z exec result can_open n' s1 = Some s' \<and> windows_b s' = windows_b s1 @
      map (\<lambda>k. (show_secs (l + w + int k * w), show_secs (l + w + int k * w + w))) [0..<m]"
    using Suc.IH [OF s1(2), of n'] Suc.prems le w n by (auto simp: algebra_simps)
  moreover have "[0..<Suc m] = 0 # map Suc [0..<m]" by (simp add: map_Suc_upt upt_conv_Cons del: upt_Suc)
  ultimately show ?case using s1 n by (auto simp: algebra_simps simp del: upt_Suc)
qed

text \<open>With connections that live and a server that answers, the loop ends, and it goes through the windows of \<open>windows_cover\<close>.\<close>

theorem backup_windows:
  assumes "serves exec result can_open" and "run_ok w e l s" and "0 < w" and "l \<le> e" and "\<And>t. dst_off z t = 0"
    and "\<And>k. l \<le> k \<Longrightarrow> k \<le> e + 2 * w + 4800 \<Longrightarrow> ymd_secs k" and "nat ((e - l) div w) + 1 < n"
  shows "\<exists>s'. backup_loop z exec result can_open n s = Some s' \<and> windows_b s' = windows_b s @
    map (\<lambda>k. (show_secs (l + int k * w), show_secs (l + int k * w + w))) [0..<nat ((e - l) div w) + 1]"
proof -
  let ?q = "(e - l) div w"
  have q: "0 \<le> ?q" using assms(3,4) by (simp add: pos_imp_zdiv_nonneg_iff)
  have "w * ?q \<le> e - l" "e - l < w * ?q + w"
    using assms(3) pos_mod_bound [of w "e - l"] pos_mod_sign [of w "e - l"] mult_div_mod_eq [of w "e - l"] by linarith+
  then have "e < l + int (nat ?q + 1) * w" "l + int (nat ?q + 1) * w \<le> e + w" using q by (simp_all add: algebra_simps)
  then show ?thesis
    using loop_windows [OF assms(1,3,5,6,2), where m = "nat ?q + 1" and n = n] assms(3,4,7) by auto
qed

section \<open>The first window\<close>

lemma range_window:
  assumes "0 < step_cl info" and "std_off z \<le> m" and z: "\<And>t. dst_off z t = 0"
  defines "l \<equiv> m - (m - std_off z) mod step_cl info"
  assumes y: "ymd_secs m" "ymd_secs l" "ymd_secs (l + step_cl info)"
  shows "\<exists>info'. lcs_get_range z (show_secs m) info = Some info' \<and> window_at l info'"
proof -
  have t: "(m - std_off z) smod step_cl info = (m - std_off z) mod step_cl info"
    using assms(1,2) by (cases "m = std_off z") (auto simp: signed_modulo_int_def)
  have "lcs_time2_str z (m - std_off z - (m - std_off z) mod step_cl info) = Some (show_secs l)"
    "lcs_time2_str z (m - std_off z + step_cl info - (m - std_off z) mod step_cl info) = Some (show_secs (l + step_cl info))"
    using lcs_time2_str_secs [of z "l - std_off z"] lcs_time2_str_secs [of z "l + step_cl info - std_off z"] y
    by (simp_all add: local_secs_def z l_def algebra_simps)
  then show ?thesis using assms(1) y(1) by (simp add: lcs_get_range_def Let_def lcs_str2_time_secs t window_at_def)
qed

lemma range_keeps:
  "lcs_get_range z t info = Some i \<Longrightarrow> step_cl i = step_cl info \<and> endtime_cl i = endtime_cl info"
  by (auto simp: lcs_get_range_def bind_eq_Some_conv Let_def split: if_splits)

lemma windows_from:
  assumes "0 < w" and z: "\<And>t. dst_off z t = 0" and y: "\<And>k. l \<le> k \<Longrightarrow> k \<le> l + int n * w + w \<Longrightarrow> ymd_secs k"
    and i0: "step_cl i0 = w" "window_at l i0"
  shows "k \<le> n \<Longrightarrow> \<exists>i. ((\<lambda>i. i \<bind> lcs_update_time z) ^^ k) (Some i0) = Some i \<and> step_cl i = w \<and>
    endtime_cl i = endtime_cl i0 \<and> window_at (l + int k * w) i"
proof (induction k)
  case 0
  then show ?case using i0 by simp
next
  case (Suc k)
  then obtain i where i: "((\<lambda>i. i \<bind> lcs_update_time z) ^^ k) (Some i0) = Some i" "step_cl i = w"
    "endtime_cl i = endtime_cl i0" "window_at (l + int k * w) i" by auto
  have "int (Suc k) * w \<le> int n * w" using Suc.prems assms(1) by (intro mult_right_mono) auto
  moreover have "0 \<le> int k * w" using assms(1) by simp
  moreover have "int (Suc k) * w = int k * w + w" by (simp add: algebra_simps)
  ultimately have "ymd_secs (l + int k * w)" "ymd_secs (l + int k * w + w)" "ymd_secs (l + int k * w + 2 * w)"
    using assms(1) by (intro y; linarith)+
  then have "lcs_update_time z i = Some (i\<lparr>low_cl := pad 32 (show_secs (l + int k * w + w)),
      hi_cl := pad 32 (show_secs (l + int k * w + 2 * w))\<rparr>)"
    using update_time_ok [OF i(4) _ _ _ z] i(2) by (simp add: add.assoc)
  then show ?case using i by (simp add: window_at_def algebra_simps)
qed

text \<open>how many windows start up to the last call\<close>

lemma last_window:
  fixes w l e :: int
  assumes "0 < w" and "l \<le> e"
  defines "n \<equiv> nat ((e - l) div w) + 1"
  shows "l + int n * w \<le> e + w" and "e < l + int n * w" and "k \<le> n \<Longrightarrow> e < l + int k * w \<longleftrightarrow> k = n"
proof -
  have q: "0 \<le> (e - l) div w" using assms(1,2) by (simp add: pos_imp_zdiv_nonneg_iff)
  have e: "w * ((e - l) div w) \<le> e - l" "e - l < w * ((e - l) div w) + w"
    using assms(1) pos_mod_bound [of w "e - l"] pos_mod_sign [of w "e - l"] mult_div_mod_eq [of w "e - l"] by linarith+
  show "l + int n * w \<le> e + w" and n: "e < l + int n * w" using q e by (simp_all add: n_def algebra_simps)
  assume k: "k \<le> n"
  show "e < l + int k * w \<longleftrightarrow> k = n"
  proof
    assume a: "e < l + int k * w"
    show "k = n"
    proof (rule ccontr)
      assume "k \<noteq> n"
      then have "int k \<le> (e - l) div w" using k q by (simp add: n_def)
      then have "int k * w \<le> (e - l) div w * w" using assms(1) by (intro mult_right_mono) auto
      then show False using a e(1) by (simp add: mult.commute)
    qed
  qed (use n in simp)
qed

text \<open>
  C7. The windows of a day. \<^verbatim>\<open>lcs_get_range\<close> makes the first one from the first call \<open>m\<close>: it starts at a multiple of the
  step \<open>w\<close>, counted from the epoch, not after the call, and ends after it. \<^verbatim>\<open>lcs_update_time\<close> makes each
  one start where the one before ends, and \<^verbatim>\<open>lcs_get_outtime\<close> says that the time is over for the first window
  that starts behind the last call \<open>e\<close>, and for none before it.
\<close>

theorem windows_cover:
  assumes "0 < w" and "step_cl info = w" and "endtime_cl info = show_secs e" and "m \<le> e" and "std_off z \<le> m"
    and "\<And>t. dst_off z t = 0" and "\<And>k. m - w \<le> k \<Longrightarrow> k \<le> e + 2 * w \<Longrightarrow> ymd_secs k"
  shows "\<exists>info0 l. lcs_get_range z (show_secs m) info = Some info0 \<and> w dvd l - std_off z \<and> l \<le> m \<and> m < l + w \<and>
    (\<forall>k \<le> nat ((e - l) div w) + 1. \<exists>i. ((\<lambda>i. i \<bind> lcs_update_time z) ^^ k) (Some info0) = Some i \<and>
       low_cl i = pad 32 (show_secs (l + int k * w)) \<and> hi_cl i = pad 32 (show_secs (l + int (k + 1) * w)) \<and>
       lcs_get_outtime i = Some (k = nat ((e - l) div w) + 1))"
proof -
  let ?l = "m - (m - std_off z) mod w"
  let ?n = "nat ((e - ?l) div w) + 1"
  have r: "0 \<le> (m - std_off z) mod w" "(m - std_off z) mod w < w" using assms(1) by simp_all
  have y: "ymd_secs k" if "?l \<le> k" "k \<le> e + 2 * w" for k using that r by (intro assms(7)) linarith+
  have l: "?l \<le> m" "m < ?l + w" using r by linarith+
  have w: "0 < step_cl info" using assms(1,2) by simp
  obtain info0 where i0: "lcs_get_range z (show_secs m) info = Some info0" "window_at ?l info0"
  proof -
    have "ymd_secs m" "ymd_secs ?l" "ymd_secs (?l + w)" using l assms(1,4) by (intro y; linarith)+
    then show ?thesis using range_window [OF w assms(5,6), unfolded assms(2)] that by blast
  qed
  note k0 = range_keeps [OF i0(1)]
  have le: "?l \<le> e" using l(1) assms(4) by simp
  note n = last_window [OF assms(1) le]
  have "\<exists>i. ((\<lambda>i. i \<bind> lcs_update_time z) ^^ k) (Some info0) = Some i \<and>
       low_cl i = pad 32 (show_secs (?l + int k * w)) \<and> hi_cl i = pad 32 (show_secs (?l + int (k + 1) * w)) \<and>
       lcs_get_outtime i = Some (k = ?n)" if k: "k \<le> ?n" for k
  proof -
    obtain i where i: "((\<lambda>i. i \<bind> lcs_update_time z) ^^ k) (Some info0) = Some i" "step_cl i = w"
      "endtime_cl i = show_secs e" "window_at (?l + int k * w) i"
      using windows_from [OF assms(1,6) y _ i0(2) k] n(1) k0 assms(2,3) by auto
    have kn: "int k * w \<le> int ?n * w" using k assms(1) by (intro mult_right_mono) auto
    have "0 \<le> int k * w" using assms(1) by simp
    then have yk: "ymd_secs (?l + int k * w)" "ymd_secs e" using n(1) kn l assms(1,4) by (intro y; linarith)+
    have "e < ?l + int k * w \<longleftrightarrow> k = ?n" by (rule n(3) [OF k])
    moreover have "fld (low_cl i) = Some (show_secs (?l + int k * w))" using i(4) yk by (simp add: window_at_def fld_secs)
    ultimately have "lcs_get_outtime i = Some (k = ?n)"
      using c_strcmp_secs_iff(1) [OF yk] i(3) by (auto simp: lcs_get_outtime_def not_less)
    then show ?thesis using i by (simp add: window_at_def algebra_simps)
  qed
  moreover have "w dvd ?l - std_off z"
  proof -
    have "?l - std_off z = (m - std_off z) - (m - std_off z) mod w" by simp
    then show ?thesis by (simp only: dvd_minus_mod)
  qed
  ultimately show ?thesis using i0(1) l by blast
qed

section \<open>Examples\<close>

text \<open>a day with one call, at the first second of the year 2000\<close>

definition demo_zone :: zone where
  "demo_zone = \<lparr>std_off = 0, dst_off = (\<lambda>_. 0)\<rparr>"

definition demo_info_cl :: LCS_MYSQL_INFO_cl where
  "demo_info_cl = empty_cl\<lparr>date_01_cl := pad 64 (lit ''2000_01_01''), insertprocess_cl := pad 1024 (lit ''ins''),
     current_dir_cl := pad 1024 (lit ''d/''), step_cl := 300, low_cl := pad 32 (show_secs 946684800),
     hi_cl := pad 32 (show_secs 946685100), endtime_cl := show_secs 946684800\<rparr>"

definition demo_table :: "string \<Rightarrow> LCS_GET_TABLE_INFO" where
  "demo_table t = \<lparr>table = lit t, out_file = lit t @ lit ''.data'', total = 0, con = 0\<rparr>"

definition demo_backup :: "unit backup" where
  "demo_backup = \<lparr>info_b = demo_info_cl, pc_b = demo_table ''cdr'', pq_b = demo_table ''queue_log'',
     pm_b = demo_table ''monitor_recording'', pw_b = demo_table ''auto_dial_wrapup_history'',
     con_b = [0 \<mapsto> True], db_b = (), acts_b = [], windows_b = []\<rparr>"

abbreviation demo_exec :: "unit \<Rightarrow> bytes \<Rightarrow> unit \<times> int" where
  "demo_exec \<equiv> \<lambda>d q. (d, 0)"

abbreviation demo_result :: "unit \<Rightarrow> bytes option list list option" where
  "demo_result \<equiv> \<lambda>d. Some [[Some (lit ''a''), None]]"

lemma demo_secs: "946684500 \<le> k \<Longrightarrow> k \<le> 946690200 \<Longrightarrow> ymd_secs k"
proof -
  assume k: "946684500 \<le> k" "k \<le> 946690200"
  have y: "ymd_day 10956" "ymd_day 10957" by code_simp+
  from k have "k div 86400 = 10956 \<or> k div 86400 = 10957" by linarith
  then show ?thesis using y by (auto simp: ymd_secs_def)
qed

lemma demo_ready: "serves demo_exec demo_result (\<lambda>_. True)" "run_ok 300 946684800 946684800 demo_backup"
proof -
  have r: "put_rows [[Some (lit ''a''), None]] \<noteq> None" by code_simp
  then show "serves demo_exec demo_result (\<lambda>_. True)" by (simp add: serves_def)
  have z: "0 \<notin> set (lit ''2000_01_01'')" "0 \<notin> set (lit ''ins'')" "0 \<notin> set (lit ''d/'')" by (simp_all add: lit_no_zero)
  have "texts_ok demo_info_cl"
    unfolding texts_ok_def demo_info_cl_def empty_cl_def using z by (simp add: fld_pad fld_zeros)
  then show "run_ok 300 946684800 946684800 demo_backup"
    by (simp add: run_ok_def demo_backup_def demo_table_def table_ok_def tables_def window_at_def demo_info_cl_def)
qed

theorem backup_windows_witness:
  "\<exists>s'. backup_loop demo_zone demo_exec demo_result (\<lambda>_. True) 3 demo_backup = Some s' \<and>
     windows_b s' = windows_b demo_backup @ [(show_secs 946684800, show_secs 946685100)]"
proof -
  have "\<exists>s'. backup_loop demo_zone demo_exec demo_result (\<lambda>_. True) 3 demo_backup = Some s' \<and>
     windows_b s' = windows_b demo_backup @
       map (\<lambda>k. (show_secs (946684800 + int k * 300), show_secs (946684800 + int k * 300 + 300)))
         [0..<nat ((946684800 - 946684800) div 300) + 1]"
    by (rule backup_windows [OF demo_ready]) (use demo_secs in \<open>simp_all add: demo_zone_def\<close>)
  then show ?thesis by simp
qed


theorem windows_cover_witness:
  "\<exists>info0 (l :: int). lcs_get_range demo_zone (show_secs 946684800) demo_info_cl = Some info0 \<and> 300 dvd l \<and> l \<le> 946684800 \<and>
     946684800 < l + 300 \<and> lcs_get_outtime info0 = Some False"
proof -
  have "\<exists>info0 l. lcs_get_range demo_zone (show_secs 946684800) demo_info_cl = Some info0 \<and> 300 dvd l - std_off demo_zone \<and>
    l \<le> 946684800 \<and> 946684800 < l + 300 \<and>
    (\<forall>k \<le> nat ((946684800 - l) div 300) + 1. \<exists>i. ((\<lambda>i. i \<bind> lcs_update_time demo_zone) ^^ k) (Some info0) = Some i \<and>
       low_cl i = pad 32 (show_secs (l + int k * 300)) \<and> hi_cl i = pad 32 (show_secs (l + int (k + 1) * 300)) \<and>
       lcs_get_outtime i = Some (k = nat ((946684800 - l) div 300) + 1))"
    by (rule windows_cover) (use demo_secs in \<open>simp_all add: demo_zone_def demo_info_cl_def\<close>)
  then show ?thesis by (auto simp: demo_zone_def dest!: spec [of _ "0 :: nat"])
qed

end
