(* ===== verification/Children.thy ===== *)
theory Children
  imports ManagerJobs
begin

text \<open>
  The programs the manager runs for a server: what each reads from its configuration. The parts are
  \<^verbatim>\<open>cluster/gentemplate\<close> (suffix \<open>gt\<close>), \<^verbatim>\<open>getagent\<close> (\<open>ga\<close>), \<^verbatim>\<open>gethistory\<close> (\<open>gh\<close>), \<^verbatim>\<open>shmcreate\<close> (\<open>sa\<close>)
  and \<^verbatim>\<open>shmcreate_audd\<close> (\<open>sd\<close>). Their structs are cleared before; a field that is a pointer is
  \<^term>\<open>None\<close> until it gets a block.

  Shown: every file the manager writes is read by the program it is written for, into the values the
  manager has; the sizes of the arrays decide which values are too long.
\<close>

section \<open>The readers\<close>

text \<open>\<^verbatim>\<open>cluster/gentemplate/main.c\<close>\<close>

record LCS_TEMPLATE_INFO_gt =
  server_gt :: bytes
  user_gt :: bytes
  password_gt :: bytes
  db_gt :: bytes
  path_gt :: bytes
  listtable_gt :: "bytes option"
  pathtemplate_gt :: "bytes option"

definition empty_gt :: LCS_TEMPLATE_INFO_gt where
  "empty_gt = \<lparr>server_gt = zeros 128, user_gt = zeros 64, password_gt = zeros 64, db_gt = zeros 64, path_gt = zeros 1024, listtable_gt = None, pathtemplate_gt = None\<rparr>"

definition lcs_cfg_item_gt :: "bytes \<Rightarrow> LCS_TEMPLATE_INFO_gt \<Rightarrow> LCS_TEMPLATE_INFO_gt option" where
  "lcs_cfg_item_gt item info =
     (if has item ''server:'' then map_option (\<lambda>x. info\<lparr>server_gt := x\<rparr>) (cfg_copy (server_gt info) item ''server:'')
      else if has item ''user:'' then map_option (\<lambda>x. info\<lparr>user_gt := x\<rparr>) (cfg_copy (user_gt info) item ''user:'')
      else if has item ''password:'' then map_option (\<lambda>x. info\<lparr>password_gt := x\<rparr>) (cfg_copy (password_gt info) item ''password:'')
      else if has item ''db:'' then map_option (\<lambda>x. info\<lparr>db_gt := x\<rparr>) (cfg_copy (db_gt info) item ''db:'')
      else if has item ''path:'' then map_option (\<lambda>x. info\<lparr>path_gt := x\<rparr>) (cfg_copy (path_gt info) item ''path:'')
      else if has item ''listtable:'' then map_option (\<lambda>x. info\<lparr>listtable_gt := Some x\<rparr>) (cfg_copy (zeros (length item + 1)) item ''listtable:'')
      else if has item ''pathtemplate:'' then map_option (\<lambda>x. info\<lparr>pathtemplate_gt := Some x\<rparr>) (cfg_copy (zeros (length item)) item ''pathtemplate:'')
      else Some info)"

definition lcs_cfg_load_gt :: "(bytes \<Rightarrow> bytes option) \<Rightarrow> bytes \<Rightarrow> LCS_TEMPLATE_INFO_gt \<Rightarrow> LCS_TEMPLATE_INFO_gt option" where
  "lcs_cfg_load_gt files path info = cfg_file lcs_cfg_item_gt files path info"

text \<open>\<^verbatim>\<open>cluster/getagent/main.c\<close>\<close>

record LCS_MYSQL_INFO_ga =
  server_ga :: bytes
  user_ga :: bytes
  password_ga :: bytes
  db_ga :: bytes
  pathtemplate_ga :: bytes
  pathagent_ga :: bytes
  listtable_ga :: bytes
  insertprocess_ga :: bytes

definition empty_ga :: LCS_MYSQL_INFO_ga where
  "empty_ga = \<lparr>server_ga = zeros 128, user_ga = zeros 64, password_ga = zeros 64, db_ga = zeros 64, pathtemplate_ga = zeros 1024, pathagent_ga = zeros 1024, listtable_ga = zeros 1024, insertprocess_ga = zeros 1024\<rparr>"

definition lcs_cfg_item_ga :: "bytes \<Rightarrow> LCS_MYSQL_INFO_ga \<Rightarrow> LCS_MYSQL_INFO_ga option" where
  "lcs_cfg_item_ga item info =
     (if has item ''server:'' then map_option (\<lambda>x. info\<lparr>server_ga := x\<rparr>) (cfg_copy (server_ga info) item ''server:'')
      else if has item ''user:'' then map_option (\<lambda>x. info\<lparr>user_ga := x\<rparr>) (cfg_copy (user_ga info) item ''user:'')
      else if has item ''password:'' then map_option (\<lambda>x. info\<lparr>password_ga := x\<rparr>) (cfg_copy (password_ga info) item ''password:'')
      else if has item ''db:'' then map_option (\<lambda>x. info\<lparr>db_ga := x\<rparr>) (cfg_copy (db_ga info) item ''db:'')
      else if has item ''pathtemplate_0001:'' then map_option (\<lambda>x. info\<lparr>pathtemplate_ga := x\<rparr>) (cfg_copy (pathtemplate_ga info) item ''pathtemplate_0001:'')
      else if has item ''pathagent_0002:'' then map_option (\<lambda>x. info\<lparr>pathagent_ga := x\<rparr>) (cfg_copy (pathagent_ga info) item ''pathagent_0002:'')
      else if has item ''listtable_0003:'' then map_option (\<lambda>x. info\<lparr>listtable_ga := x\<rparr>) (cfg_copy (listtable_ga info) item ''listtable_0003:'')
      else if has item ''insertprocess_0004:'' then map_option (\<lambda>x. info\<lparr>insertprocess_ga := x\<rparr>) (cfg_copy (insertprocess_ga info) item ''insertprocess_0004:'')
      else Some info)"

definition lcs_cfg_load_ga :: "(bytes \<Rightarrow> bytes option) \<Rightarrow> bytes \<Rightarrow> LCS_MYSQL_INFO_ga \<Rightarrow> LCS_MYSQL_INFO_ga option" where
  "lcs_cfg_load_ga files path info = cfg_file lcs_cfg_item_ga files path info"

text \<open>\<^verbatim>\<open>cluster/gethistory/main.c\<close>\<close>

record LCS_MYSQL_INFO_gh =
  server_gh :: bytes
  user_gh :: bytes
  password_gh :: bytes
  db_gh :: bytes
  date_gh :: bytes
  pathhistory_gh :: bytes
  listtable_gh :: bytes
  pathtemplate_gh :: bytes
  insertprocess_gh :: bytes

definition empty_gh :: LCS_MYSQL_INFO_gh where
  "empty_gh = \<lparr>server_gh = zeros 128, user_gh = zeros 64, password_gh = zeros 64, db_gh = zeros 64, date_gh = zeros 32, pathhistory_gh = zeros 1024, listtable_gh = zeros 1024, pathtemplate_gh = zeros 1024, insertprocess_gh = zeros 1024\<rparr>"

definition lcs_cfg_item_gh :: "bytes \<Rightarrow> LCS_MYSQL_INFO_gh \<Rightarrow> LCS_MYSQL_INFO_gh option" where
  "lcs_cfg_item_gh item info =
     (if has item ''server:'' then map_option (\<lambda>x. info\<lparr>server_gh := x\<rparr>) (cfg_copy (server_gh info) item ''server:'')
      else if has item ''user:'' then map_option (\<lambda>x. info\<lparr>user_gh := x\<rparr>) (cfg_copy (user_gh info) item ''user:'')
      else if has item ''password:'' then map_option (\<lambda>x. info\<lparr>password_gh := x\<rparr>) (cfg_copy (password_gh info) item ''password:'')
      else if has item ''db:'' then map_option (\<lambda>x. info\<lparr>db_gh := x\<rparr>) (cfg_copy (db_gh info) item ''db:'')
      else if has item ''date_0001:'' then map_option (\<lambda>x. info\<lparr>date_gh := x\<rparr>) (cfg_copy (date_gh info) item ''date_0001:'')
      else if has item ''pathhistory_0002:'' then map_option (\<lambda>x. info\<lparr>pathhistory_gh := x\<rparr>) (cfg_copy (pathhistory_gh info) item ''pathhistory_0002:'')
      else if has item ''listtable_0003:'' then map_option (\<lambda>x. info\<lparr>listtable_gh := x\<rparr>) (cfg_copy (listtable_gh info) item ''listtable_0003:'')
      else if has item ''pathtemplate_0004:'' then map_option (\<lambda>x. info\<lparr>pathtemplate_gh := x\<rparr>) (cfg_copy (pathtemplate_gh info) item ''pathtemplate_0004:'')
      else if has item ''insertprocess_0005:'' then map_option (\<lambda>x. info\<lparr>insertprocess_gh := x\<rparr>) (cfg_copy (insertprocess_gh info) item ''insertprocess_0005:'')
      else Some info)"

definition lcs_cfg_load_gh :: "(bytes \<Rightarrow> bytes option) \<Rightarrow> bytes \<Rightarrow> LCS_MYSQL_INFO_gh \<Rightarrow> LCS_MYSQL_INFO_gh option" where
  "lcs_cfg_load_gh files path info = cfg_file lcs_cfg_item_gh files path info"

text \<open>\<^verbatim>\<open>cluster/shmcreate/main.c\<close>\<close>

record LCS_SHM_A_INFO_sa =
  dbpath_sa :: bytes
  prefixshmkey_sa :: bytes

definition empty_sa :: LCS_SHM_A_INFO_sa where
  "empty_sa = \<lparr>dbpath_sa = zeros 1024, prefixshmkey_sa = zeros 128\<rparr>"

definition lcs_cfg_item_sa :: "bytes \<Rightarrow> LCS_SHM_A_INFO_sa \<Rightarrow> LCS_SHM_A_INFO_sa option" where
  "lcs_cfg_item_sa item info =
     (if has item ''dbpath_0001:'' then map_option (\<lambda>x. info\<lparr>dbpath_sa := x\<rparr>) (cfg_copy (dbpath_sa info) item ''dbpath_0001:'')
      else if has item ''prefixshmkey_0002:'' then map_option (\<lambda>x. info\<lparr>prefixshmkey_sa := x\<rparr>) (cfg_copy (prefixshmkey_sa info) item ''prefixshmkey_0002:'')
      else Some info)"

definition lcs_cfg_load_sa :: "(bytes \<Rightarrow> bytes option) \<Rightarrow> bytes \<Rightarrow> LCS_SHM_A_INFO_sa \<Rightarrow> LCS_SHM_A_INFO_sa option" where
  "lcs_cfg_load_sa files path info = cfg_file lcs_cfg_item_sa files path info"

text \<open>\<^verbatim>\<open>cluster/shmcreate_audd/main.c\<close>\<close>

record LCS_AUDD_INFO_sd =
  dbpath_sd :: bytes
  prefixshmkey_sd :: bytes

definition empty_sd :: LCS_AUDD_INFO_sd where
  "empty_sd = \<lparr>dbpath_sd = zeros 1024, prefixshmkey_sd = zeros 128\<rparr>"

definition lcs_cfg_item_sd :: "bytes \<Rightarrow> LCS_AUDD_INFO_sd \<Rightarrow> LCS_AUDD_INFO_sd option" where
  "lcs_cfg_item_sd item info =
     (if has item ''dbpath_0001:'' then map_option (\<lambda>x. info\<lparr>dbpath_sd := x\<rparr>) (cfg_copy (dbpath_sd info) item ''dbpath_0001:'')
      else if has item ''prefixshmkey_0002:'' then map_option (\<lambda>x. info\<lparr>prefixshmkey_sd := x\<rparr>) (cfg_copy (prefixshmkey_sd info) item ''prefixshmkey_0002:'')
      else Some info)"

definition lcs_cfg_load_sd :: "(bytes \<Rightarrow> bytes option) \<Rightarrow> bytes \<Rightarrow> LCS_AUDD_INFO_sd \<Rightarrow> LCS_AUDD_INFO_sd option" where
  "lcs_cfg_load_sd files path info = cfg_file lcs_cfg_item_sd files path info"

lemma cfg_copy_zeros: "length v \<le> n \<Longrightarrow> cfg_copy (zeros n) (lit k @ v) k = Some (pad n v)"
  by (simp add: cfg_copy_key mem_write_zeros)

section \<open>What each key sets\<close>

definition keys_gt :: "string list" where
  "keys_gt = [''server:'', ''user:'', ''password:'', ''db:'', ''path:'', ''listtable:'', ''pathtemplate:'']"

lemma key_set_gt: "key_set keys_gt"
  by code_simp

lemmas has_gt = has_iff [OF key_set_gt, unfolded keys_gt_def]

lemmas key_gt = skey_key [OF key_set_skey [OF key_set_gt], unfolded keys_gt_def]

lemma item_gt:
  assumes "word v"
  shows
    "lcs_cfg_item_gt (lit ''server:'' @ v) i = map_option (\<lambda>x. i\<lparr>server_gt := x\<rparr>) (mem_write (server_gt i) 0 v)"
    "lcs_cfg_item_gt (lit ''user:'' @ v) i = map_option (\<lambda>x. i\<lparr>user_gt := x\<rparr>) (mem_write (user_gt i) 0 v)"
    "lcs_cfg_item_gt (lit ''password:'' @ v) i = map_option (\<lambda>x. i\<lparr>password_gt := x\<rparr>) (mem_write (password_gt i) 0 v)"
    "lcs_cfg_item_gt (lit ''db:'' @ v) i = map_option (\<lambda>x. i\<lparr>db_gt := x\<rparr>) (mem_write (db_gt i) 0 v)"
    "lcs_cfg_item_gt (lit ''path:'' @ v) i = map_option (\<lambda>x. i\<lparr>path_gt := x\<rparr>) (mem_write (path_gt i) 0 v)"
    "lcs_cfg_item_gt (lit ''listtable:'' @ v) i = Some (i\<lparr>listtable_gt := Some (pad (length v + 11) v)\<rparr>)"
    "lcs_cfg_item_gt (lit ''pathtemplate:'' @ v) i = Some (i\<lparr>pathtemplate_gt := Some (pad (length v + 13) v)\<rparr>)"
  by (simp_all add: lcs_cfg_item_gt_def has_gt assms cfg_copy_key cfg_copy_zeros  mem_write_zeros eval_nat_numeral del: replicate.simps)

definition keys_ga :: "string list" where
  "keys_ga = [''server:'', ''user:'', ''password:'', ''db:'', ''pathtemplate_0001:'', ''pathagent_0002:'', ''listtable_0003:'', ''insertprocess_0004:'']"

lemma key_set_ga: "key_set keys_ga"
  by code_simp

lemmas has_ga = has_iff [OF key_set_ga, unfolded keys_ga_def]

lemmas key_ga = skey_key [OF key_set_skey [OF key_set_ga], unfolded keys_ga_def]

lemma item_ga:
  assumes "word v"
  shows
    "lcs_cfg_item_ga (lit ''server:'' @ v) i = map_option (\<lambda>x. i\<lparr>server_ga := x\<rparr>) (mem_write (server_ga i) 0 v)"
    "lcs_cfg_item_ga (lit ''user:'' @ v) i = map_option (\<lambda>x. i\<lparr>user_ga := x\<rparr>) (mem_write (user_ga i) 0 v)"
    "lcs_cfg_item_ga (lit ''password:'' @ v) i = map_option (\<lambda>x. i\<lparr>password_ga := x\<rparr>) (mem_write (password_ga i) 0 v)"
    "lcs_cfg_item_ga (lit ''db:'' @ v) i = map_option (\<lambda>x. i\<lparr>db_ga := x\<rparr>) (mem_write (db_ga i) 0 v)"
    "lcs_cfg_item_ga (lit ''pathtemplate_0001:'' @ v) i = map_option (\<lambda>x. i\<lparr>pathtemplate_ga := x\<rparr>) (mem_write (pathtemplate_ga i) 0 v)"
    "lcs_cfg_item_ga (lit ''pathagent_0002:'' @ v) i = map_option (\<lambda>x. i\<lparr>pathagent_ga := x\<rparr>) (mem_write (pathagent_ga i) 0 v)"
    "lcs_cfg_item_ga (lit ''listtable_0003:'' @ v) i = map_option (\<lambda>x. i\<lparr>listtable_ga := x\<rparr>) (mem_write (listtable_ga i) 0 v)"
    "lcs_cfg_item_ga (lit ''insertprocess_0004:'' @ v) i = map_option (\<lambda>x. i\<lparr>insertprocess_ga := x\<rparr>) (mem_write (insertprocess_ga i) 0 v)"
  by (simp_all add: lcs_cfg_item_ga_def has_ga assms cfg_copy_key cfg_copy_zeros)

definition keys_gh :: "string list" where
  "keys_gh = [''server:'', ''user:'', ''password:'', ''db:'', ''date_0001:'', ''pathhistory_0002:'', ''listtable_0003:'', ''pathtemplate_0004:'', ''insertprocess_0005:'']"

lemma key_set_gh: "key_set keys_gh"
  by code_simp

lemmas has_gh = has_iff [OF key_set_gh, unfolded keys_gh_def]

lemmas key_gh = skey_key [OF key_set_skey [OF key_set_gh], unfolded keys_gh_def]

lemma item_gh:
  assumes "word v"
  shows
    "lcs_cfg_item_gh (lit ''server:'' @ v) i = map_option (\<lambda>x. i\<lparr>server_gh := x\<rparr>) (mem_write (server_gh i) 0 v)"
    "lcs_cfg_item_gh (lit ''user:'' @ v) i = map_option (\<lambda>x. i\<lparr>user_gh := x\<rparr>) (mem_write (user_gh i) 0 v)"
    "lcs_cfg_item_gh (lit ''password:'' @ v) i = map_option (\<lambda>x. i\<lparr>password_gh := x\<rparr>) (mem_write (password_gh i) 0 v)"
    "lcs_cfg_item_gh (lit ''db:'' @ v) i = map_option (\<lambda>x. i\<lparr>db_gh := x\<rparr>) (mem_write (db_gh i) 0 v)"
    "lcs_cfg_item_gh (lit ''date_0001:'' @ v) i = map_option (\<lambda>x. i\<lparr>date_gh := x\<rparr>) (mem_write (date_gh i) 0 v)"
    "lcs_cfg_item_gh (lit ''pathhistory_0002:'' @ v) i = map_option (\<lambda>x. i\<lparr>pathhistory_gh := x\<rparr>) (mem_write (pathhistory_gh i) 0 v)"
    "lcs_cfg_item_gh (lit ''listtable_0003:'' @ v) i = map_option (\<lambda>x. i\<lparr>listtable_gh := x\<rparr>) (mem_write (listtable_gh i) 0 v)"
    "lcs_cfg_item_gh (lit ''pathtemplate_0004:'' @ v) i = map_option (\<lambda>x. i\<lparr>pathtemplate_gh := x\<rparr>) (mem_write (pathtemplate_gh i) 0 v)"
    "lcs_cfg_item_gh (lit ''insertprocess_0005:'' @ v) i = map_option (\<lambda>x. i\<lparr>insertprocess_gh := x\<rparr>) (mem_write (insertprocess_gh i) 0 v)"
  by (simp_all add: lcs_cfg_item_gh_def has_gh assms cfg_copy_key cfg_copy_zeros)

definition keys_sa :: "string list" where
  "keys_sa = [''dbpath_0001:'', ''prefixshmkey_0002:'']"

lemma key_set_sa: "key_set keys_sa"
  by code_simp

lemmas has_sa = has_iff [OF key_set_sa, unfolded keys_sa_def]

lemmas key_sa = skey_key [OF key_set_skey [OF key_set_sa], unfolded keys_sa_def]

lemma item_sa:
  assumes "word v"
  shows
    "lcs_cfg_item_sa (lit ''dbpath_0001:'' @ v) i = map_option (\<lambda>x. i\<lparr>dbpath_sa := x\<rparr>) (mem_write (dbpath_sa i) 0 v)"
    "lcs_cfg_item_sa (lit ''prefixshmkey_0002:'' @ v) i = map_option (\<lambda>x. i\<lparr>prefixshmkey_sa := x\<rparr>) (mem_write (prefixshmkey_sa i) 0 v)"
  by (simp_all add: lcs_cfg_item_sa_def has_sa assms cfg_copy_key cfg_copy_zeros)

definition keys_sd :: "string list" where
  "keys_sd = [''dbpath_0001:'', ''prefixshmkey_0002:'']"

lemma key_set_sd: "key_set keys_sd"
  by code_simp

lemmas has_sd = has_iff [OF key_set_sd, unfolded keys_sd_def]

lemmas key_sd = skey_key [OF key_set_skey [OF key_set_sd], unfolded keys_sd_def]

lemma item_sd:
  assumes "word v"
  shows
    "lcs_cfg_item_sd (lit ''dbpath_0001:'' @ v) i = map_option (\<lambda>x. i\<lparr>dbpath_sd := x\<rparr>) (mem_write (dbpath_sd i) 0 v)"
    "lcs_cfg_item_sd (lit ''prefixshmkey_0002:'' @ v) i = map_option (\<lambda>x. i\<lparr>prefixshmkey_sd := x\<rparr>) (mem_write (prefixshmkey_sd i) 0 v)"
  by (simp_all add: lcs_cfg_item_sd_def has_sd assms cfg_copy_key cfg_copy_zeros)

section \<open>Texts of lines\<close>

text \<open>A text of one line per key, in the order of the keys, sets every field.\<close>

lemma read_gt:
  assumes "word v0" "word v1" "word v2" "word v3" "word v4" "word v5" "word v6"
    and "length v0 < 128" "length v1 < 64" "length v2 < 64" "length v3 < 64" "length v4 < 1024"
  shows "cfg_loop lcs_cfg_item_gt (
      lit ''server:'' @ v0 @ 10 #
      lit ''user:'' @ v1 @ 10 #
      lit ''password:'' @ v2 @ 10 #
      lit ''db:'' @ v3 @ 10 #
      lit ''path:'' @ v4 @ 10 #
      lit ''pathtemplate:'' @ v6 @ 10 #
      lit ''listtable:'' @ v5) empty_gt =
    Some \<lparr>server_gt = pad 128 v0, user_gt = pad 64 v1, password_gt = pad 64 v2, db_gt = pad 64 v3, path_gt = pad 1024 v4, listtable_gt = Some (pad (length v5 + 11) v5), pathtemplate_gt = Some (pad (length v6 + 13) v6)\<rparr>"
  using assms by (simp add: cfg_loop_line key_gt item_gt empty_gt_def mem_write_zeros)

lemma read_ga:
  assumes "word v0" "word v1" "word v2" "word v3" "word v4" "word v5" "word v6" "word v7"
    and "length v0 < 128" "length v1 < 64" "length v2 < 64" "length v3 < 64" "length v4 < 1024" "length v5 < 1024" "length v6 < 1024" "length v7 < 1024"
  shows "cfg_loop lcs_cfg_item_ga (
      lit ''server:'' @ v0 @ 10 #
      lit ''user:'' @ v1 @ 10 #
      lit ''password:'' @ v2 @ 10 #
      lit ''db:'' @ v3 @ 10 #
      lit ''pathtemplate_0001:'' @ v4 @ 10 #
      lit ''pathagent_0002:'' @ v5 @ 10 #
      lit ''listtable_0003:'' @ v6 @ 10 #
      lit ''insertprocess_0004:'' @ v7) empty_ga =
    Some \<lparr>server_ga = pad 128 v0, user_ga = pad 64 v1, password_ga = pad 64 v2, db_ga = pad 64 v3, pathtemplate_ga = pad 1024 v4, pathagent_ga = pad 1024 v5, listtable_ga = pad 1024 v6, insertprocess_ga = pad 1024 v7\<rparr>"
  using assms by (simp add: cfg_loop_line key_ga item_ga empty_ga_def mem_write_zeros)

lemma read_gh:
  assumes "word v0" "word v1" "word v2" "word v3" "word v4" "word v5" "word v6" "word v7" "word v8"
    and "length v0 < 128" "length v1 < 64" "length v2 < 64" "length v3 < 64" "length v4 < 32" "length v5 < 1024" "length v6 < 1024" "length v7 < 1024" "length v8 < 1024"
  shows "cfg_loop lcs_cfg_item_gh (
      lit ''server:'' @ v0 @ 10 #
      lit ''user:'' @ v1 @ 10 #
      lit ''password:'' @ v2 @ 10 #
      lit ''db:'' @ v3 @ 10 #
      lit ''date_0001:'' @ v4 @ 10 #
      lit ''pathhistory_0002:'' @ v5 @ 10 #
      lit ''listtable_0003:'' @ v6 @ 10 #
      lit ''pathtemplate_0004:'' @ v7 @ 10 #
      lit ''insertprocess_0005:'' @ v8) empty_gh =
    Some \<lparr>server_gh = pad 128 v0, user_gh = pad 64 v1, password_gh = pad 64 v2, db_gh = pad 64 v3, date_gh = pad 32 v4, pathhistory_gh = pad 1024 v5, listtable_gh = pad 1024 v6, pathtemplate_gh = pad 1024 v7, insertprocess_gh = pad 1024 v8\<rparr>"
  using assms by (simp add: cfg_loop_line key_gh item_gh empty_gh_def mem_write_zeros)

lemma read_sa:
  assumes "word v0" "word v1"
    and "length v0 < 1024" "length v1 < 128"
  shows "cfg_loop lcs_cfg_item_sa (
      lit ''dbpath_0001:'' @ v0 @ 10 #
      lit ''prefixshmkey_0002:'' @ v1) empty_sa =
    Some \<lparr>dbpath_sa = pad 1024 v0, prefixshmkey_sa = pad 128 v1\<rparr>"
  using assms by (simp add: cfg_loop_line key_sa item_sa empty_sa_def mem_write_zeros)

lemma read_sd:
  assumes "word v0" "word v1"
    and "length v0 < 1024" "length v1 < 128"
  shows "cfg_loop lcs_cfg_item_sd (
      lit ''dbpath_0001:'' @ v0 @ 10 #
      lit ''prefixshmkey_0002:'' @ v1) empty_sd =
    Some \<lparr>dbpath_sd = pad 1024 v0, prefixshmkey_sd = pad 128 v1\<rparr>"
  using assms by (simp add: cfg_loop_line key_sd item_sd empty_sd_def mem_write_zeros)

section \<open>What the manager writes is what they read\<close>

text \<open>
  The strings a server's entry holds: \<open>c\<close> has them as plain strings, in the same fields. They are words
  that fit their arrays, and the list of the agents' tables fits the array of the program that reads it.
\<close>

definition described :: "LCS_MYSQL_SERVER_INFO \<Rightarrow> LCS_MYSQL_SERVER_INFO \<Rightarrow> bool" where
  "described c p \<longleftrightarrow>
     fld (server p) = Some (server c) \<and> fld (user p) = Some (user c) \<and> fld (password p) = Some (password c) \<and>
     fld (db p) = Some (db c) \<and> fld (rootpath p) = Some (rootpath c) \<and> fld (currentdate p) = Some (currentdate c) \<and>
     fld (insertprocess p) = Some (insertprocess c) \<and> fld (listtable p) = Some (listtable c) \<and>
     fld (listtableagent p) = Some (listtableagent c) \<and> fld (listanalysis p) = Some (listanalysis c) \<and>
     fits 128 (server c) \<and> fits 64 (user c) \<and> fits 64 (password c) \<and> fits 64 (db c) \<and> fits 512 (rootpath c) \<and>
     fits 12 (currentdate c) \<and> fits 128 (insertprocess c) \<and> fits 2048 (listtable c) \<and>
     fits 1024 (listtableagent c) \<and> fits 2048 (listanalysis c)"

lemma described_words:
  assumes "described c p"
  shows "word (server c)" "word (user c)" "word (password c)" "word (db c)" "word (rootpath c)" "word (currentdate c)"
    "word (insertprocess c)" "word (listtable c)" "word (listtableagent c)" "word (listanalysis c)"
    and "length (server c) < 128" "length (user c) < 64" "length (password c) < 64" "length (db c) < 64"
    "length (rootpath c) < 512" "length (currentdate c) < 12" "length (insertprocess c) < 128"
    "length (listtable c) < 2048" "length (listtableagent c) < 1024" "length (listanalysis c) < 2048"
  using assms by (simp_all add: described_def fits_def)

lemma described_flds:
  assumes "described c p"
  shows "fld (server p) = Some (server c)" "fld (user p) = Some (user c)" "fld (password p) = Some (password c)"
    "fld (db p) = Some (db c)" "fld (rootpath p) = Some (rootpath c)" "fld (currentdate p) = Some (currentdate c)"
    "fld (insertprocess p) = Some (insertprocess c)" "fld (listtable p) = Some (listtable c)"
    "fld (listtableagent p) = Some (listtableagent c)" "fld (listanalysis p) = Some (listanalysis c)"
  using assms by (simp_all add: described_def)

text \<open>a place in the tree of a server\<close>

definition tree :: "LCS_MYSQL_SERVER_INFO \<Rightarrow> bytes \<Rightarrow> bytes" where
  "tree c sub = rootpath c @ 47 # server c @ 47 # db c @ sub"

lemma tree_word:
  assumes "described c p" and "word sub" and "length sub < 100"
  shows "word (tree c sub)" and "length (tree c sub) < 1024"
proof -
  note w = described_words [OF assms(1)]
  have s: "word [47]" by (simp add: word_def blank_def)
  have "tree c sub = rootpath c @ [47] @ server c @ [47] @ db c @ sub" by (simp add: tree_def)
  then show "word (tree c sub)" using w assms(2) s by (simp only: word_append simp_thms)
  show "length (tree c sub) < 1024" using w assms(3) by (simp add: tree_def)
qed

lemma gen_file_writes:
  "gen_path u = Some (Some f) \<Longrightarrow> can_open f \<Longrightarrow> gen_file u can_open (Some t) = Some (Some f, [Write f t])"
  by (simp add: gen_file_def)

lemma small_file:
  assumes "0 \<notin> set text" and "length text < 10000"
  shows "cfg_file item [f \<mapsto> text] f i = cfg_loop item text i"
  by (rule cfg_file_text) (use assms in simp_all)

lemma words_lit:
  "word (lit ''/template'')" "word (lit ''/agent'')" "word (lit ''template.sql'')"
  "word (lit ''DND_History,agent_history,auto_dial_detail'')"
  by (simp_all add: word_def lit_def blank_def)

text \<open>C11. The template and the agents of a server.\<close>

theorem template_and_agent_read:
  assumes "described c p" and "gen_path u = Some (Some f)" and "can_open f"
  shows "\<exists>t r t' r'.
    lcs_gen_template_config u can_open p = Some (Some f, [Write f t]) \<and>
    lcs_cfg_load_gt [f \<mapsto> t] f empty_gt = Some r \<and>
    fld (server_gt r) = Some (server c) \<and> fld (user_gt r) = Some (user c) \<and>
    fld (password_gt r) = Some (password c) \<and> fld (db_gt r) = Some (db c) \<and>
    fld (path_gt r) = Some (tree c (lit ''/template'')) \<and>
    Option.bind (pathtemplate_gt r) fld = Some (lit ''template.sql'') \<and>
    Option.bind (listtable_gt r) fld = Some (listtable c) \<and>
    lcs_gen_agent_config u can_open p = Some (Some f, [Write f t']) \<and>
    lcs_cfg_load_ga [f \<mapsto> t'] f empty_ga = Some r' \<and>
    fld (server_ga r') = Some (server c) \<and> fld (user_ga r') = Some (user c) \<and>
    fld (password_ga r') = Some (password c) \<and> fld (db_ga r') = Some (db c) \<and>
    fld (pathtemplate_ga r') = Some (tree c (lit ''/template'')) \<and>
    fld (pathagent_ga r') = Some (tree c (lit ''/agent'')) \<and>
    fld (listtable_ga r') = Some (listtableagent c) \<and>
    fld (insertprocess_ga r') = Some (insertprocess c)"
proof -
  note w = described_words [OF assms(1)] and fl = described_flds [OF assms(1)]
  obtain T A where T: "T = tree c (lit ''/template'')" "word T" "length T < 1024"
    and A: "A = tree c (lit ''/agent'')" "word A" "length A < 1024"
    using tree_word [OF assms(1) words_lit(1)] tree_word [OF assms(1) words_lit(2)] by simp
  let ?t = "lit ''server:'' @ server c @ 10 # lit ''user:'' @ user c @ 10 # lit ''password:'' @ password c @ 10 #
      lit ''db:'' @ db c @ 10 # lit ''path:'' @ T @ 10 # lit ''pathtemplate:'' @ lit ''template.sql'' @ 10 #
      lit ''listtable:'' @ listtable c"
  let ?a = "lit ''server:'' @ server c @ 10 # lit ''user:'' @ user c @ 10 # lit ''password:'' @ password c @ 10 #
      lit ''db:'' @ db c @ 10 # lit ''pathtemplate_0001:'' @ T @ 10 # lit ''pathagent_0002:'' @ A @ 10 #
      lit ''listtable_0003:'' @ listtableagent c @ 10 # lit ''insertprocess_0004:'' @ insertprocess c"
  have gt: "lcs_gen_template_config u can_open p = Some (Some f, [Write f ?t])"
    and ga: "lcs_gen_agent_config u can_open p = Some (Some f, [Write f ?a])"
    using assms(2,3)
    by (simp_all add: lcs_gen_template_config_def lcs_gen_agent_config_def fl T(1) A(1) tree_def gen_file_writes)
  have z: "0 \<notin> set ?t" "0 \<notin> set ?a" using w T(2) A(2) word_no_zero by (simp_all add: lit_no_zero)
  have l: "length ?t < 10000" "length ?a < 10000" using w T(3) A(3) by simp_all
  note lt = read_gt [OF w(1-4) T(2) w(8) words_lit(3) w(11-14) T(3)]
    and la = read_ga [OF w(1-4) T(2) A(2) w(9,7) w(11-14) T(3) A(3) w(19)]
  have li: "length (insertprocess c) < 1024" using w(17) by simp
  have rt: "lcs_cfg_load_gt [f \<mapsto> ?t] f empty_gt = cfg_loop lcs_cfg_item_gt ?t empty_gt"
    unfolding lcs_cfg_load_gt_def by (rule small_file [OF z(1) l(1)])
  have ra: "lcs_cfg_load_ga [f \<mapsto> ?a] f empty_ga = cfg_loop lcs_cfg_item_ga ?a empty_ga"
    unfolding lcs_cfg_load_ga_def by (rule small_file [OF z(2) l(2)])
  show ?thesis
    using gt ga rt ra lt la [OF li] w T A li words_lit(3)
    by (intro exI [of _ ?t] exI [of _ ?a]) (simp add: fld_pad word_no_zero)
qed

text \<open>The dashes of a date replaced, in the string that is found in the array and in the date.\<close>

definition undash :: "byte \<Rightarrow> bytes \<Rightarrow> bytes" where
  "undash c d = map (\<lambda>b. if b = 45 then c else b) d"

lemma lcs_comm_replace_str:
  "0 \<notin> set d \<Longrightarrow> lcs_comm_replace (d @ 0 # q) c 45 = Some (undash c d @ 0 # q)"
  by (induction d) (auto simp: undash_def)

lemma dashed_eq:
  assumes "fld tmp = Some j" and "fld (currentdate p) = Some d" and "length j + length d < length tmp" and "c \<noteq> 0"
  shows "dashed tmp c p = Some (undash c (j @ d))"
proof -
  have j: "j = c_str tmp" "0 \<in> set tmp" and d: "d = c_str (currentdate p)"
    using assms(1,2) by (auto simp: fld_def split: if_splits)
  have n0: "0 \<notin> set d" "0 \<notin> set j" by (auto simp: j d c_str_def dest: set_takeWhileD)
  have tj: "take (length j) tmp = j" unfolding j c_str_def by (metis takeWhile_eq_take)
  have "strcat_to tmp d = Some ((j @ d) @ 0 # drop (length j + length d + 1) tmp)"
    using assms(1,3) tj by (simp add: strcat_to_def mem_write_def)
  moreover have "0 \<notin> set (undash c (j @ d))" using n0 assms(4) by (auto simp: undash_def split: if_splits)
  moreover have "0 \<notin> set (j @ d)" using n0 by simp
  ultimately show ?thesis
    using assms(2) lcs_comm_replace_str [of "j @ d"] by (simp add: dashed_def fld_prefix)
qed

lemma word_Cons: "word (b # d) \<longleftrightarrow> (\<not> blank b \<and> b \<noteq> 58 \<and> b \<noteq> 0) \<and> word d"
  by (simp add: word_def)

lemma word_undash_c: "word d \<Longrightarrow> word [c] \<Longrightarrow> word (undash c d)"
proof (induction d)
  case (Cons b d)
  have "undash c (b # d) = (if b = 45 then c else b) # undash c d" by (simp add: undash_def)
  then show ?case using Cons by (cases "b = 45") (simp_all only: word_Cons if_True if_False simp_thms)
qed (simp add: undash_def)

lemma word_undash: "word d \<Longrightarrow> word (undash 47 d) \<and> word (undash 95 d)"
proof -
  have "word [47]" "word [95]" by (simp_all add: word_def blank_def)
  then show "word d \<Longrightarrow> word (undash 47 d) \<and> word (undash 95 d)" using word_undash_c by blast
qed

lemma length_undash [simp]: "length (undash c d) = length d"
  by (simp add: undash_def)

lemma word_slash: "word d \<Longrightarrow> word (47 # d)"
  by (simp add: word_def blank_def)

text \<open>C12. The history of a day is asked for where the stack says.\<close>

theorem history_read:
  assumes "described c p" and "gen_path u = Some (Some f)" and "can_open f"
    and "fld tmp = Some j" and "word j" and "length tmp = 32" and "length j + length (currentdate c) < 32"
  shows "\<exists>t r. lcs_get_history_cfg u can_open tmp p = Some (Some f, [Write f t]) \<and>
    lcs_cfg_load_gh [f \<mapsto> t] f empty_gh = Some r \<and>
    fld (server_gh r) = Some (server c) \<and> fld (user_gh r) = Some (user c) \<and>
    fld (password_gh r) = Some (password c) \<and> fld (db_gh r) = Some (db c) \<and>
    fld (date_gh r) = Some (currentdate c) \<and>
    fld (pathhistory_gh r) = Some (tree c (47 # undash 47 (j @ currentdate c))) \<and>
    fld (listtable_gh r) = Some (lit ''DND_History,agent_history,auto_dial_detail'') \<and>
    fld (pathtemplate_gh r) = Some (tree c (lit ''/template'')) \<and>
    fld (insertprocess_gh r) = Some (insertprocess c)"
proof -
  note w = described_words [OF assms(1)] and fl = described_flds [OF assms(1)]
  have d: "dashed tmp 47 p = Some (undash 47 (j @ currentdate c))"
    using assms(4,6,7) fl(6) by (intro dashed_eq) simp_all
  have "word (47 # undash 47 (j @ currentdate c))" "length (47 # undash 47 (j @ currentdate c)) < 100"
    using word_undash [of "j @ currentdate c"] assms(5,7) w(6) by (auto intro: word_slash)
  then obtain T H where T: "T = tree c (lit ''/template'')" "word T" "length T < 1024"
    and H: "H = tree c (47 # undash 47 (j @ currentdate c))" "word H" "length H < 1024"
    using tree_word [OF assms(1) words_lit(1)] tree_word [OF assms(1)] by simp
  let ?t = "lit ''server:'' @ server c @ 10 # lit ''user:'' @ user c @ 10 # lit ''password:'' @ password c @ 10 #
      lit ''db:'' @ db c @ 10 # lit ''date_0001:'' @ currentdate c @ 10 # lit ''pathhistory_0002:'' @ H @ 10 #
      lit ''listtable_0003:'' @ lit ''DND_History,agent_history,auto_dial_detail'' @ 10 #
      lit ''pathtemplate_0004:'' @ T @ 10 # lit ''insertprocess_0005:'' @ insertprocess c"
  have gh: "lcs_get_history_cfg u can_open tmp p = Some (Some f, [Write f ?t])"
    using assms(2,3) by (simp add: lcs_get_history_cfg_def fl d T(1) H(1) tree_def gen_file_writes)
  have z: "0 \<notin> set ?t" using w T(2) H(2) word_no_zero by (simp add: lit_no_zero)
  have l: "length ?t < 10000" using w T(3) H(3) by simp
  have s: "length (currentdate c) < 32" "length (insertprocess c) < 1024"
    "length (lit ''DND_History,agent_history,auto_dial_detail'') < 1024" using w by simp_all
  have "lcs_cfg_load_gh [f \<mapsto> ?t] f empty_gh = cfg_loop lcs_cfg_item_gh ?t empty_gh"
    unfolding lcs_cfg_load_gh_def by (rule small_file [OF z l])
  then show ?thesis
    using gh read_gh [OF w(1-4,6) H(2) words_lit(4) T(2) w(7) w(11-14) s(1) H(3) s(3) T(3) s(2)] w T H s words_lit(4)
    by (intro exI [of _ ?t]) (simp add: fld_pad word_no_zero)
qed

text \<open>the key of the shared memory objects of a day\<close>

definition day_key :: "bytes \<Rightarrow> LCS_MYSQL_SERVER_INFO \<Rightarrow> bytes" where
  "day_key us c = us @ 46 # server c @ 46 # db c @ 95 # undash 95 (currentdate c)"

lemma shm_key_eq:
  assumes "described c p" and "length us < 125"
  shows "shm_key (Some us) p = Some (day_key us c)"
proof -
  note w = described_words [OF assms(1)] and fl = described_flds [OF assms(1)]
  have "dashed (zeros 12) 95 p = Some (undash 95 ([] @ currentdate c))"
    using w(16) fl(6) fld_zeros [of 12] by (intro dashed_eq) simp_all
  then show ?thesis using w assms(2) fl by (simp add: shm_key_def day_key_def fit_def)
qed

text \<open>The shared memory of a day.\<close>

theorem shm_read:
  assumes "described c p" and "gen_path u = Some (Some f)" and "can_open f"
    and "word us" and "length (day_key us c) < 128"
  shows "\<exists>k t r t' r'. shm_key (Some us) p = Some k \<and>
    lcs_man_shm_agent_cfg u can_open k p = Some (Some f, [Write f t]) \<and>
    lcs_cfg_load_sa [f \<mapsto> t] f empty_sa = Some r \<and>
    fld (dbpath_sa r) = Some (tree c (lit ''/agent'')) \<and> fld (prefixshmkey_sa r) = Some k \<and>
    lcs_man_shm_audd_cfg u can_open k p = Some (Some f, [Write f t']) \<and>
    lcs_cfg_load_sd [f \<mapsto> t'] f empty_sd = Some r' \<and>
    fld (dbpath_sd r') = Some (tree c (47 # undash 47 (currentdate c))) \<and> fld (prefixshmkey_sd r') = Some k"
proof -
  note w = described_words [OF assms(1)] and fl = described_flds [OF assms(1)]
  have d: "dashed (zeros 12) 47 p = Some (undash 47 (currentdate c))"
    using dashed_eq [of "zeros 12" "[]" p "currentdate c" 47] w(16) fl(6) fld_zeros [of 12] by simp
  have "word (47 # undash 47 (currentdate c))" "length (47 # undash 47 (currentdate c)) < 100"
    using word_undash [OF w(6)] w(16) by (auto intro: word_slash)
  then obtain A D where A: "A = tree c (lit ''/agent'')" "word A" "length A < 1024"
    and D: "D = tree c (47 # undash 47 (currentdate c))" "word D" "length D < 1024"
    using tree_word [OF assms(1) words_lit(2)] tree_word [OF assms(1)] by simp
  have "length us < 125" using assms(5) by (simp add: day_key_def)
  then obtain k where k: "shm_key (Some us) p = Some k" "k = day_key us c" using shm_key_eq [OF assms(1)] by simp
  have "word [46]" "word [95]" by (simp_all add: word_def blank_def)
  moreover have "k = us @ [46] @ server c @ [46] @ db c @ [95] @ undash 95 (currentdate c)" by (simp add: k(2) day_key_def)
  ultimately have kw: "word k" using assms(4) w word_undash by (simp only: word_append simp_thms)
  have kl: "length k < 128" using assms(5) k(2) by simp
  let ?t = "lit ''dbpath_0001:'' @ A @ 10 # lit ''prefixshmkey_0002:'' @ k"
  let ?d = "lit ''dbpath_0001:'' @ D @ 10 # lit ''prefixshmkey_0002:'' @ k"
  have sa: "lcs_man_shm_agent_cfg u can_open k p = Some (Some f, [Write f ?t])"
    using assms(2,3) by (simp add: lcs_man_shm_agent_cfg_def fl A(1) tree_def gen_file_writes)
  have sd: "lcs_man_shm_audd_cfg u can_open k p = Some (Some f, [Write f ?d])"
    using assms(2,3) unfolding lcs_man_shm_audd_cfg_def d by (simp add: fl D(1) tree_def gen_file_writes)
  have z: "0 \<notin> set ?t" "0 \<notin> set ?d" using A(2) D(2) kw word_no_zero by (simp_all add: lit_no_zero)
  have l: "length ?t < 10000" "length ?d < 10000" using A(3) D(3) kl by simp_all
  have "lcs_cfg_load_sa [f \<mapsto> ?t] f empty_sa = cfg_loop lcs_cfg_item_sa ?t empty_sa"
    unfolding lcs_cfg_load_sa_def by (rule small_file [OF z(1) l(1)])
  moreover have "lcs_cfg_load_sd [f \<mapsto> ?d] f empty_sd = cfg_loop lcs_cfg_item_sd ?d empty_sd"
    unfolding lcs_cfg_load_sd_def by (rule small_file [OF z(2) l(2)])
  ultimately show ?thesis
    using k(1) sa sd read_sa [OF A(2) kw A(3) kl] read_sd [OF D(2) kw D(3) kl] A D kw kl
    by (intro exI [of _ k] exI [of _ ?t] exI [of _ ?d]) (simp add: fld_pad word_no_zero)
qed

section \<open>Examples\<close>

definition demo_entry :: LCS_MYSQL_SERVER_INFO where
  "demo_entry = empty_info\<lparr>server := pad 128 (server demo_config), user := pad 64 (user demo_config),
     password := pad 64 (password demo_config), db := pad 64 (db demo_config), rootpath := pad 512 (rootpath demo_config),
     insertprocess := pad 128 (insertprocess demo_config), listtable := pad 2048 (listtable demo_config),
     listtableagent := pad 2048 (listtableagent demo_config), currentdate := pad 32 (currentdate demo_config)\<rparr>"

lemma demo_described: "described demo_config demo_entry"
  using fld_zeros [of 2048]
  by (simp add: described_def demo_entry_def demo_config_def empty_info_def fld_pad lit_no_zero fits_def)
    (simp add: word_def lit_def blank_def)

lemma demo_path: "gen_path (Some (lit ''f'' @ [10])) = Some (Some (lit ''f''))"
  by code_simp

theorem template_and_agent_read_witness:
  "\<exists>t r. lcs_gen_template_config (Some (lit ''f'' @ [10])) (\<lambda>_. True) demo_entry = Some (Some (lit ''f''), [Write (lit ''f'') t]) \<and>
     lcs_cfg_load_gt [lit ''f'' \<mapsto> t] (lit ''f'') empty_gt = Some r \<and> fld (path_gt r) = Some (lit ''/data/db1/call/template'')"
  using template_and_agent_read [OF demo_described demo_path, of "\<lambda>_. True"]
  by (auto simp: tree_def demo_config_def lit_def)

theorem history_read_witness:
  "\<exists>t r. lcs_get_history_cfg (Some (lit ''f'' @ [10])) (\<lambda>_. True) (pad 32 (lit ''x'')) demo_entry =
       Some (Some (lit ''f''), [Write (lit ''f'') t]) \<and>
     lcs_cfg_load_gh [lit ''f'' \<mapsto> t] (lit ''f'') empty_gh = Some r \<and>
     fld (pathhistory_gh r) = Some (lit ''/data/db1/call/x2017/10/29'')"
proof -
  have x: "fld (pad 32 (lit ''x'')) = Some (lit ''x'')" "word (lit ''x'')" "length (pad 32 (lit ''x'')) = 32"
    "length (lit ''x'') + length (currentdate demo_config) < 32"
    by (simp_all add: fld_pad lit_no_zero word_def lit_def blank_def demo_config_def)
  have "tree demo_config (47 # undash 47 (lit ''x'' @ currentdate demo_config)) = lit ''/data/db1/call/x2017/10/29''"
    by code_simp
  then show ?thesis using history_read [OF demo_described demo_path _ x, of "\<lambda>_. True"] by auto
qed

theorem shm_read_witness:
  "\<exists>k t r. shm_key (Some (lit ''u'')) demo_entry = Some k \<and>
     lcs_man_shm_agent_cfg (Some (lit ''f'' @ [10])) (\<lambda>_. True) k demo_entry = Some (Some (lit ''f''), [Write (lit ''f'') t]) \<and>
     lcs_cfg_load_sa [lit ''f'' \<mapsto> t] (lit ''f'') empty_sa = Some r \<and> fld (prefixshmkey_sa r) = Some k"
proof -
  have x: "word (lit ''u'')" "length (day_key (lit ''u'') demo_config) < 128"
    by (simp_all add: word_def lit_def blank_def demo_config_def day_key_def)
  show ?thesis using shm_read [OF demo_described demo_path _ x, of "\<lambda>_. True"] by blast
qed

end
