(* ===== verification/ClusterLink.thy ===== *)
theory ClusterLink
  imports Cluster Children
begin

text \<open>
  The manager's configuration file for the program of \<^verbatim>\<open>cluster/cluster/main.c\<close>, read by that program.

  Shown: every value arrives in the field meant for it, the date once as it is and once with
  underscores, as long as the root of the tree fits the 128 bytes the reader has for it; the writer
  has 512.
\<close>

definition keys_cl :: "string list" where
  "keys_cl = [''server:'', ''user:'', ''password:'', ''db:'', ''path:'', ''step:'', ''insertprocess_0009:'', ''date_0011:'',
     ''max_duration:'']"

lemma key_set_cl: "key_set keys_cl"
  by code_simp

lemmas has_cl = has_iff [OF key_set_cl, unfolded keys_cl_def]

lemmas key_cl = skey_key [OF key_set_skey [OF key_set_cl], unfolded keys_cl_def]

lemma item_cl:
  assumes "word v"
  shows
    "lcs_cfg_item_cl (lit ''server:'' @ v) i = map_option (\<lambda>x. i\<lparr>server_cl := x\<rparr>) (mem_write (server_cl i) 0 v)"
    "lcs_cfg_item_cl (lit ''user:'' @ v) i = map_option (\<lambda>x. i\<lparr>user_cl := x\<rparr>) (mem_write (user_cl i) 0 v)"
    "lcs_cfg_item_cl (lit ''password:'' @ v) i = map_option (\<lambda>x. i\<lparr>password_cl := x\<rparr>) (mem_write (password_cl i) 0 v)"
    "lcs_cfg_item_cl (lit ''db:'' @ v) i = map_option (\<lambda>x. i\<lparr>db_cl := x\<rparr>) (mem_write (db_cl i) 0 v)"
    "lcs_cfg_item_cl (lit ''path:'' @ v) i = map_option (\<lambda>x. i\<lparr>path_cl := x\<rparr>) (mem_write (path_cl i) 0 v)"
    "lcs_cfg_item_cl (lit ''step:'' @ v) i = map_option (\<lambda>x. i\<lparr>step_cl := x\<rparr>) (scan_d v (step_cl i))"
    "lcs_cfg_item_cl (lit ''insertprocess_0009:'' @ v) i =
      map_option (\<lambda>x. i\<lparr>insertprocess_cl := x\<rparr>) (mem_write (insertprocess_cl i) 0 v)"
    "lcs_cfg_item_cl (lit ''date_0011:'' @ v) i = do {
       x \<leftarrow> mem_write (date_cl i) 0 v; y \<leftarrow> mem_write (date_01_cl i) 0 v; y' \<leftarrow> lcs_comm_replace y 95 45;
       Some (i\<lparr>date_cl := x, date_01_cl := y'\<rparr>) }"
    "lcs_cfg_item_cl (lit ''max_duration:'' @ v) i = Some i"
  by (simp_all add: lcs_cfg_item_cl_def has_cl assms cfg_copy_key scan_step_def)

lemma replace_pad:
  assumes "length d < n" and "0 \<notin> set d"
  shows "lcs_comm_replace (pad n d) c 45 = Some (pad n (undash c d))"
proof -
  obtain k where "n - length d = Suc k" using assms(1) by (cases "n - length d") auto
  then show ?thesis using lcs_comm_replace_str [OF assms(2)] by (simp add: pad_def)
qed

lemma read_cl:
  assumes "word v0" "word v1" "word v2" "word v3" "word v4" "word v5" "word v8"
    and "length v0 < 128" "length v1 < 64" "length v2 < 64" "length v3 < 64" "length v5 < 64" "length v8 < 1024"
    and "length v4 < 128"
  shows "cfg_loop lcs_cfg_item_cl (
      lit ''server:'' @ v0 @ 10 # lit ''user:'' @ v1 @ 10 # lit ''password:'' @ v2 @ 10 # lit ''db:'' @ v3 @ 10 #
      lit ''path:'' @ v4 @ 10 # lit ''date_0011:'' @ v5 @ 10 # lit ''step:'' @ lit ''60'' @ 10 #
      lit ''max_duration:'' @ lit ''900'' @ 10 # lit ''insertprocess_0009:'' @ v8) empty_cl =
    Some (empty_cl\<lparr>server_cl := pad 128 v0, user_cl := pad 64 v1, password_cl := pad 64 v2, db_cl := pad 64 v3,
      path_cl := pad 128 v4, date_cl := pad 64 v5, date_01_cl := pad 64 (undash 95 v5), step_cl := 60,
      insertprocess_cl := pad 1024 v8\<rparr>)"
proof -
  have n: "word (lit ''60'')" "word (lit ''900'')" by (simp_all add: word_def lit_def blank_def)
  have s: "scan_d (lit ''60'') 0 = Some 60" by code_simp
  show ?thesis
    using assms n by (simp add: cfg_loop_line key_cl item_cl empty_cl_def mem_write_zeros replace_pad word_no_zero s)
qed

lemma read_cl_overflow:
  assumes "word v0" "word v1" "word v2" "word v3" "word v4"
    and "length v0 < 128" "length v1 < 64" "length v2 < 64" "length v3 < 64" and "128 < length v4"
  shows "cfg_loop lcs_cfg_item_cl (
      lit ''server:'' @ v0 @ 10 # lit ''user:'' @ v1 @ 10 # lit ''password:'' @ v2 @ 10 # lit ''db:'' @ v3 @ 10 #
      lit ''path:'' @ v4 @ 10 # s) empty_cl = None"
  using assms by (simp add: cfg_loop_line key_cl item_cl empty_cl_def mem_write_zeros mem_write_def)

text \<open>the file for a server, as text\<close>

definition mysql_text :: "LCS_MYSQL_SERVER_INFO \<Rightarrow> bytes" where
  "mysql_text c = lit ''server:'' @ server c @ 10 # lit ''user:'' @ user c @ 10 # lit ''password:'' @ password c @ 10 #
     lit ''db:'' @ db c @ 10 # lit ''path:'' @ rootpath c @ 10 # lit ''date_0011:'' @ currentdate c @ 10 #
     lit ''step:'' @ lit ''60'' @ 10 # lit ''max_duration:'' @ lit ''900'' @ 10 # lit ''insertprocess_0009:'' @ insertprocess c"

lemma mysql_text_file:
  assumes "described c p" and "gen_path u = Some (Some f)" and "can_open f"
  shows "lcs_get_from_mysql_cfg u can_open p = Some (Some f, [Write f (mysql_text c)])"
    and "lcs_cfg_load_cl [f \<mapsto> mysql_text c] f i = cfg_loop lcs_cfg_item_cl (mysql_text c) i"
proof -
  note w = described_words [OF assms(1)] and fl = described_flds [OF assms(1)]
  show "lcs_get_from_mysql_cfg u can_open p = Some (Some f, [Write f (mysql_text c)])"
    using assms(2,3) by (simp add: lcs_get_from_mysql_cfg_def fl gen_file_writes mysql_text_def)
  have z: "0 \<notin> set (mysql_text c)" using w word_no_zero by (simp add: lit_no_zero mysql_text_def)
  have l: "length (mysql_text c) < 10000" using w by (simp add: mysql_text_def)
  show "lcs_cfg_load_cl [f \<mapsto> mysql_text c] f i = cfg_loop lcs_cfg_item_cl (mysql_text c) i"
    unfolding lcs_cfg_load_cl_def by (rule small_file [OF z l])
qed

text \<open>C10. The day's program reads what the manager wrote for it.\<close>

theorem mysql_config_read:
  assumes "described c p" and "gen_path u = Some (Some f)" and "can_open f" and "length (rootpath c) < 128"
  shows "\<exists>t r. lcs_get_from_mysql_cfg u can_open p = Some (Some f, [Write f t]) \<and>
    lcs_cfg_load_cl [f \<mapsto> t] f empty_cl = Some r \<and>
    fld (server_cl r) = Some (server c) \<and> fld (user_cl r) = Some (user c) \<and>
    fld (password_cl r) = Some (password c) \<and> fld (db_cl r) = Some (db c) \<and>
    fld (path_cl r) = Some (rootpath c) \<and> fld (date_cl r) = Some (currentdate c) \<and>
    fld (date_01_cl r) = Some (undash 95 (currentdate c)) \<and> step_cl r = 60 \<and>
    fld (insertprocess_cl r) = Some (insertprocess c)"
proof -
  note w = described_words [OF assms(1)]
  have s: "length (currentdate c) < 64" "length (insertprocess c) < 1024" using w by simp_all
  note r = read_cl [OF w(1-6) w(7) w(11-14) s assms(4), folded mysql_text_def]
  have u: "0 \<notin> set (undash 95 (currentdate c))" using word_undash w(6) word_no_zero by blast
  show ?thesis
    using assms(3) mysql_text_file [OF assms(1,2), where can_open = can_open] r w s assms(4) u
    by (intro exI [of _ "mysql_text c"]) (simp add: fld_pad word_no_zero)
qed

text \<open>A root that is too long for the reader.\<close>

theorem mysql_config_overflow:
  assumes "described c p" and "gen_path u = Some (Some f)" and "can_open f" and "128 < length (rootpath c)"
  shows "\<exists>t. lcs_get_from_mysql_cfg u can_open p = Some (Some f, [Write f t]) \<and>
    lcs_cfg_load_cl [f \<mapsto> t] f empty_cl = None"
proof -
  note w = described_words [OF assms(1)]
  have "cfg_loop lcs_cfg_item_cl (mysql_text c) empty_cl = None"
    unfolding mysql_text_def by (rule read_cl_overflow [OF w(1-5) w(11-14) assms(4)])
  then show ?thesis using assms(3) mysql_text_file [OF assms(1,2), where can_open = can_open] by auto
qed

section \<open>Examples\<close>

theorem mysql_config_read_witness:
  "\<exists>t r. lcs_get_from_mysql_cfg (Some (lit ''f'' @ [10])) (\<lambda>_. True) demo_entry = Some (Some (lit ''f''), [Write (lit ''f'') t]) \<and>
     lcs_cfg_load_cl [lit ''f'' \<mapsto> t] (lit ''f'') empty_cl = Some r \<and>
     fld (path_cl r) = Some (lit ''/data'') \<and> fld (date_01_cl r) = Some (lit ''2017_10_29'') \<and> step_cl r = 60"
proof -
  have l: "length (rootpath demo_config) < 128" and d: "undash 95 (currentdate demo_config) = lit ''2017_10_29''"
    "rootpath demo_config = lit ''/data''" by code_simp+
  show ?thesis using mysql_config_read [OF demo_described demo_path _ l, of "\<lambda>_. True"] d by auto
qed

text \<open>a root of 200 bytes\<close>

lemma demo_long: "described (demo_config\<lparr>rootpath := replicate 200 47\<rparr>) (demo_entry\<lparr>rootpath := pad 512 (replicate 200 47)\<rparr>)"
proof -
  have "word (replicate 200 47)" by (simp add: word_def blank_def)
  then show ?thesis using demo_described fld_pad [of "replicate 200 47" 512] by (simp add: described_def fits_def)
qed

theorem mysql_config_overflow_witness:
  "\<exists>t. lcs_get_from_mysql_cfg (Some (lit ''f'' @ [10])) (\<lambda>_. True) (demo_entry\<lparr>rootpath := pad 512 (replicate 200 47)\<rparr>) =
       Some (Some (lit ''f''), [Write (lit ''f'') t]) \<and>
     lcs_cfg_load_cl [lit ''f'' \<mapsto> t] (lit ''f'') empty_cl = None"
  by (rule mysql_config_overflow [OF demo_long demo_path]) simp_all

end
