(* ===== verification/Insert.thy ===== *)
theory Insert
  imports Cluster
begin

text \<open>
  \<^verbatim>\<open>cluster/insert_sqlite/main.c\<close> and its twin \<^verbatim>\<open>cluster/moving/main.c\<close>: the programs that put the rows
  of a text file, written by \<^verbatim>\<open>cluster/cluster/main.c\<close>, into a table of an sqlite database. The names
  have the suffixes \<open>is\<close> and \<open>mv\<close>.

  SQLite is an argument, a record of the functions called, each with the code it returns. The loops
  over the lines of a file may not end, so they are partial functions: \<^term>\<open>None\<close> is a loop that does
  not end or a text that does not fit its array.

  Shown: the rows that the program of the day prints are read back field by field, where an empty
  field is lost and moves those behind it; what is reported of errors; the reader of the table \<^verbatim>\<open>context\<close>
  adds an empty row and never ends on an empty file.
\<close>

section \<open>SQLite\<close>

record 'd sqlite =
  sq_open :: "'d \<Rightarrow> bytes \<Rightarrow> 'd \<times> int"
  sq_prepare :: "'d \<Rightarrow> bytes \<Rightarrow> 'd \<times> int"
  sq_exec :: "'d \<Rightarrow> bytes \<Rightarrow> 'd \<times> int"
  sq_bind :: "'d \<Rightarrow> nat \<Rightarrow> bytes \<Rightarrow> 'd \<times> int"
  sq_step :: "'d \<Rightarrow> 'd \<times> int"
  sq_clear :: "'d \<Rightarrow> 'd \<times> int"
  sq_reset :: "'d \<Rightarrow> 'd \<times> int"
  sq_finalize :: "'d \<Rightarrow> 'd \<times> int"
  sq_close :: "'d \<Rightarrow> 'd \<times> int"

abbreviation SQLITE_DONE :: int where
  "SQLITE_DONE \<equiv> 101"

section \<open>Configuration\<close>

record LCS_INSERT_INFO_is =
  tables_is :: bytes
  targetdir_is :: bytes
  templatedir_is :: bytes

definition empty_is :: LCS_INSERT_INFO_is where
  "empty_is = \<lparr>tables_is = zeros 1024, targetdir_is = zeros 1024, templatedir_is = zeros 1024\<rparr>"

definition lcs_cfg_item_is :: "bytes \<Rightarrow> LCS_INSERT_INFO_is \<Rightarrow> LCS_INSERT_INFO_is option" where
  "lcs_cfg_item_is item info =
     (if has item ''tables_0001:'' then map_option (\<lambda>x. info\<lparr>tables_is := x\<rparr>) (cfg_copy (tables_is info) item ''tables_0001:'')
      else if has item ''targetdir_0002:'' then
        map_option (\<lambda>x. info\<lparr>targetdir_is := x\<rparr>) (cfg_copy (targetdir_is info) item ''targetdir_0002:'')
      else if has item ''templatedir_0003:'' then
        map_option (\<lambda>x. info\<lparr>templatedir_is := x\<rparr>) (cfg_copy (templatedir_is info) item ''templatedir_0003:'')
      else Some info)"

definition lcs_cfg_load_is :: "(bytes \<Rightarrow> bytes option) \<Rightarrow> bytes \<Rightarrow> LCS_INSERT_INFO_is \<Rightarrow> LCS_INSERT_INFO_is option" where
  "lcs_cfg_load_is files path info = cfg_file lcs_cfg_item_is files path info"

section \<open>Lines\<close>

definition nl_tab :: "byte \<Rightarrow> bool" where
  "nl_tab b \<longleftrightarrow> b = 10 \<or> b = 9"

text \<open>
  After an error \<^verbatim>\<open>insert_sqlite\<close> notes the line of the source, \<^verbatim>\<open>moving\<close> keeps the code (\<^term>\<open>None\<close>);
  \<open>ls\<close> has what is noted at the five places of the loop.
\<close>

definition noted :: "int option list \<Rightarrow> nat \<Rightarrow> int \<Rightarrow> int" where
  "noted ls k e = (case ls ! k of None \<Rightarrow> e | Some l \<Rightarrow> l)"

text \<open>the loop over the words of a line, the first bound at \<open>i\<close>; \<open>err\<close> is \<^verbatim>\<open>*err\<close>\<close>

function bind_words :: "'d sqlite \<Rightarrow> int option list \<Rightarrow> nat \<Rightarrow> bytes \<Rightarrow> 'd \<Rightarrow> int \<Rightarrow> 'd \<times> int" where
  "bind_words S ls i s d err =
     (case strtok nl_tab s of None \<Rightarrow> (d, err)
      | Some (pch, rest) \<Rightarrow>
          let (d', e) = sq_bind S d i pch in if e \<noteq> 0 then (d', noted ls 0 e) else bind_words S ls (i + 1) rest d' 0)"
  by pat_completeness auto
termination by (relation "measure (\<lambda>(S, ls, i, s, d, err). length s)") (auto dest: strtok_shorter)

declare bind_words.simps [simp del]

text \<open>one line: \<^verbatim>\<open>*err\<close> afterwards and whether the loop is left\<close>

definition insert_line :: "'d sqlite \<Rightarrow> int option list \<Rightarrow> bytes \<Rightarrow> 'd \<Rightarrow> int \<Rightarrow> 'd \<times> int \<times> bool" where
  "insert_line S ls s d err =
     (let (d1, e1) = bind_words S ls 1 s d err in
      if e1 \<noteq> 0 then (d1, noted ls 1 e1, True)
      else let (d2, e2) = sq_step S d1 in
      if e2 \<noteq> 0 \<and> e2 \<noteq> SQLITE_DONE then (d2, noted ls 2 e2, True)
      else let (d3, e3) = sq_clear S d2 in
      if e3 \<noteq> 0 \<and> e3 \<noteq> SQLITE_DONE then (d3, noted ls 3 e3, True)
      else let (d4, e4) = sq_reset S d3 in
      if e4 \<noteq> 0 \<and> e4 \<noteq> SQLITE_DONE then (d4, noted ls 4 e4, True)
      else (d4, e4, False))"

text \<open>
  \<^verbatim>\<open>fgets(buffer, n, fp)\<close> into a cleared buffer: what is in it, the rest of the file, and whether the end
  of the file was met. With a size of 0 or 1 nothing is read.
\<close>

definition read_line :: "nat \<Rightarrow> bytes \<Rightarrow> bytes \<times> bytes \<times> bool" where
  "read_line n s =
     (if n \<le> 1 then ([], s, False)
      else let (b, r) = fgets n s in (b, r, length s < n - 1 \<and> 10 \<notin> set s))"

text \<open>\<^verbatim>\<open>while (!feof(fp))\<close>\<close>

partial_function (option) insert_loop ::
  "'d sqlite \<Rightarrow> int option list \<Rightarrow> nat \<Rightarrow> bytes \<Rightarrow> bool \<Rightarrow> 'd \<Rightarrow> int \<Rightarrow> ('d \<times> int) option" where
  "insert_loop S ls n s eof d err =
     (if eof then Some (d, err)
      else let (b, r, eof') = read_line n s in
        if c_str b = [] then insert_loop S ls n r eof' d err
        else let (d', e, stop) = insert_line S ls (c_str b) d err in
          if stop then Some (d', e) else insert_loop S ls n r eof' d' e)"

definition lcs_insert_general_is :: "'d sqlite \<Rightarrow> bytes \<Rightarrow> 'd \<Rightarrow> int \<Rightarrow> ('d \<times> int) option" where
  "lcs_insert_general_is S s d err = insert_loop S [Some 227, Some 235, Some 244, Some 254, Some 264] 8192 s False d err"

definition lcs_insert_general_mv :: "'d sqlite \<Rightarrow> bytes \<Rightarrow> 'd \<Rightarrow> int \<Rightarrow> ('d \<times> int) option" where
  "lcs_insert_general_mv S s d err = insert_loop S [None, None, None, None, None] 8192 s False d err"

text \<open>the buffer has the size of the file and one more byte, and \<^verbatim>\<open>fgets\<close> is given the size of the file\<close>

definition lcs_insert_context_is :: "'d sqlite \<Rightarrow> bytes \<Rightarrow> 'd \<Rightarrow> int \<Rightarrow> ('d \<times> int) option" where
  "lcs_insert_context_is S s d err =
     (if length s < 2 ^ 31 then insert_loop S [Some 431, None, Some 447, Some 457, Some 467] (length s) s False d err else None)"

definition lcs_insert_context_mv :: "'d sqlite \<Rightarrow> bytes \<Rightarrow> 'd \<Rightarrow> int \<Rightarrow> ('d \<times> int) option" where
  "lcs_insert_context_mv S s d err =
     (if length s < 2 ^ 31 then insert_loop S [None, None, None, None, None] (length s) s False d err else None)"

section \<open>One file\<close>

record LCS_INSERT_TABLE_INFO =
  table_is :: bytes
  db_path :: bytes
  data_path :: bytes
  format :: bytes

definition BEGIN_TRANSACTION :: bytes where
  "BEGIN_TRANSACTION = lit ''BEGIN TRANSACTION''"

definition END_TRANSACTION :: bytes where
  "END_TRANSACTION = lit ''END TRANSACTION''"

text \<open>
  \<^verbatim>\<open>lcs_fetch_file(arg, err)\<close> with the function \<open>fcb\<close> of the table: the new \<^verbatim>\<open>*err\<close>. Once
  \<^verbatim>\<open>sqlite3_open\<close> was called, its handle is closed at the end.
\<close>

definition lcs_fetch_file_is ::
  "'d sqlite \<Rightarrow> (bytes \<Rightarrow> bytes option) \<Rightarrow> (bytes \<Rightarrow> 'd \<Rightarrow> int \<Rightarrow> ('d \<times> int) option) \<Rightarrow> LCS_INSERT_TABLE_INFO \<Rightarrow> 'd \<Rightarrow> ('d \<times> int) option" where
  "lcs_fetch_file_is S files fcb p d =
     (case files (data_path p) of None \<Rightarrow> Some (d, 0)
      | Some s \<Rightarrow>
          let (d1, e1) = sq_open S d (db_path p) in
          if e1 \<noteq> 0 then Some (sq_close S d1)
          else let (d2, e2) = sq_prepare S d1 (format p) in
          if e2 \<noteq> 0 then Some (sq_close S d2)
          else let (d3, _) = sq_exec S d2 BEGIN_TRANSACTION in do {
            (d4, e4) \<leftarrow> fcb s d3 0;
            if e4 \<noteq> 0 then Some (sq_close S d4)
            else let (d5, e5) = sq_exec S d4 END_TRANSACTION in
            if e5 \<noteq> 0 then Some (sq_close S d5)
            else let (d6, e6) = sq_finalize S d5 in Some (sq_close S d6)
          })"

text \<open>\<^verbatim>\<open>moving\<close> commits after an error too\<close>

definition lcs_fetch_file_mv ::
  "'d sqlite \<Rightarrow> (bytes \<Rightarrow> bytes option) \<Rightarrow> (bytes \<Rightarrow> 'd \<Rightarrow> int \<Rightarrow> ('d \<times> int) option) \<Rightarrow> LCS_INSERT_TABLE_INFO \<Rightarrow> 'd \<Rightarrow> ('d \<times> int) option" where
  "lcs_fetch_file_mv S files fcb p d =
     (case files (data_path p) of None \<Rightarrow> Some (d, 0)
      | Some s \<Rightarrow>
          let (d1, e1) = sq_open S d (db_path p) in
          if e1 \<noteq> 0 then Some (sq_close S d1)
          else let (d2, e2) = sq_prepare S d1 (format p) in
          if e2 \<noteq> 0 then Some (sq_close S d2)
          else let (d3, _) = sq_exec S d2 BEGIN_TRANSACTION in do {
            (d4, e4) \<leftarrow> fcb s d3 0;
            let (d5, e5) = sq_exec S d4 END_TRANSACTION;
            if e5 \<noteq> 0 then Some (sq_close S d5)
            else let (d6, e6) = sq_finalize S d5 in Some (sq_close S d6)
          })"

section \<open>All tables\<close>

definition lcs_insert_format :: "(bytes \<Rightarrow> bytes option) \<Rightarrow> bytes \<Rightarrow> bytes \<Rightarrow> (int option \<times> bytes option) option" where
  "lcs_insert_format files root t = do {
     path \<leftarrow> fit 1024 (root @ 47 # t @ lit ''.format.insert.sql'');
     Some (lcs_file_text files path)
   }"

text \<open>
  \<^verbatim>\<open>lcs_fetch_clist(info, root, err)\<close>: \<open>fetch\<close> is \<^verbatim>\<open>lcs_fetch_file\<close>, \<open>general\<close> and \<open>context\<close> the functions for
  the tables, \<open>ln\<close> what is noted if a table has no statement. \<^verbatim>\<open>*err\<close> is 0 at every turn.
\<close>

fun clist_loop ::
  "((bytes \<Rightarrow> 'd \<Rightarrow> int \<Rightarrow> ('d \<times> int) option) \<Rightarrow> LCS_INSERT_TABLE_INFO \<Rightarrow> 'd \<Rightarrow> ('d \<times> int) option) \<Rightarrow>
   (bytes \<Rightarrow> 'd \<Rightarrow> int \<Rightarrow> ('d \<times> int) option) \<Rightarrow> (bytes \<Rightarrow> 'd \<Rightarrow> int \<Rightarrow> ('d \<times> int) option) \<Rightarrow> int \<Rightarrow>
   (bytes \<Rightarrow> bytes option) \<Rightarrow> bytes \<Rightarrow> bytes \<Rightarrow> bytes list \<Rightarrow> 'd \<Rightarrow> ('d \<times> int) option" where
  "clist_loop fetch general context ln files templ target [] d = Some (d, 0)"
| "clist_loop fetch general context ln files templ target (n # ns) d = do {
     (e, fmt) \<leftarrow> lcs_insert_format files templ n;
     case fmt of None \<Rightarrow> Some (d, ln)
     | Some f \<Rightarrow> do {
         t \<leftarrow> fit 64 n;
         db \<leftarrow> fit 1024 (target @ lit ''/lcs.db'');
         data \<leftarrow> fit 1024 (target @ 47 # n @ lit ''.data'');
         (d', e') \<leftarrow> fetch (if n = lit ''context'' then context else general)
           \<lparr>table_is = t, db_path = db, data_path = data, format = c_str f\<rparr> d;
         if e' \<noteq> 0 then Some (d', e') else clist_loop fetch general context ln files templ target ns d'
       }
   }"

definition lcs_fetch_clist_is ::
  "'d sqlite \<Rightarrow> (bytes \<Rightarrow> bytes option) \<Rightarrow> LCS_INSERT_INFO_is \<Rightarrow> bytes list \<Rightarrow> 'd \<Rightarrow> ('d \<times> int) option" where
  "lcs_fetch_clist_is S files info root d = do {
     templ \<leftarrow> fld (templatedir_is info); target \<leftarrow> fld (targetdir_is info);
     clist_loop (lcs_fetch_file_is S files) (lcs_insert_general_is S) (lcs_insert_context_is S) 383 files templ target root d
   }"

definition lcs_fetch_clist_mv ::
  "'d sqlite \<Rightarrow> (bytes \<Rightarrow> bytes option) \<Rightarrow> LCS_INSERT_INFO_is \<Rightarrow> bytes list \<Rightarrow> 'd \<Rightarrow> ('d \<times> int) option" where
  "lcs_fetch_clist_mv S files info root d = do {
     templ \<leftarrow> fld (templatedir_is info); target \<leftarrow> fld (targetdir_is info);
     clist_loop (lcs_fetch_file_mv S files) (lcs_insert_general_mv S) (lcs_insert_context_mv S) 1 files templ target root d
   }"

definition lcs_prepare_env :: "LCS_INSERT_INFO_is \<Rightarrow> bytes option" where
  "lcs_prepare_env info = do {
     templ \<leftarrow> fld (templatedir_is info); target \<leftarrow> fld (targetdir_is info);
     fit 2048 (lit ''cp -f '' @ 34 # templ @ 34 # lit ''/lcs.db  '' @ 34 # target @ [34])
   }"

text \<open>
  \<^verbatim>\<open>main\<close> with a file name: the database and \<^verbatim>\<open>err\<close>. The command \<open>sh\<close> copies the empty database;
  \<^verbatim>\<open>lcs_bash_cmd\<close> reports no error.
\<close>

definition main_is :: "'d sqlite \<Rightarrow> (bytes \<Rightarrow> 'd \<Rightarrow> 'd) \<Rightarrow> (bytes \<Rightarrow> bytes option) \<Rightarrow> bytes \<Rightarrow> 'd \<Rightarrow> ('d \<times> int) option" where
  "main_is S sh files cfg d = do {
     info \<leftarrow> lcs_cfg_load_is files cfg empty_is;
     cmd \<leftarrow> lcs_prepare_env info;
     t \<leftarrow> fld (tables_is info);
     root \<leftarrow> lcs_cgen_list t [];
     (d', e) \<leftarrow> lcs_fetch_clist_is S files info root (sh cmd d);
     Some (d', if e \<noteq> 0 then 95 else 0)
   }"

section \<open>The loop on a file of lines\<close>

text \<open>
  What SQLite promises of a statement with \<open>n\<close> parameters: a value bound at the next free parameter is
  kept, a step adds the row of the values bound, and clearing forgets them. \<open>rows\<close> is the content of the
  table and \<open>cur\<close> the values bound, in order from the first parameter.
\<close>

definition stores :: "'d sqlite \<Rightarrow> nat \<Rightarrow> ('d \<Rightarrow> bytes list list) \<Rightarrow> ('d \<Rightarrow> bytes list) \<Rightarrow> bool" where
  "stores S n rows cur \<longleftrightarrow>
     (\<forall>d t. length (cur d) < n \<longrightarrow> (\<exists>d'. sq_bind S d (Suc (length (cur d))) t = (d', 0) \<and> rows d' = rows d \<and> cur d' = cur d @ [t])) \<and>
     (\<forall>d. \<exists>d'. sq_step S d = (d', SQLITE_DONE) \<and> rows d' = rows d @ [cur d] \<and> cur d' = cur d) \<and>
     (\<forall>d. \<exists>d'. sq_clear S d = (d', 0) \<and> rows d' = rows d \<and> cur d' = []) \<and>
     (\<forall>d. \<exists>d'. sq_reset S d = (d', 0) \<and> rows d' = rows d \<and> cur d' = cur d)"

text \<open>the words of a line\<close>

function tokens :: "bytes \<Rightarrow> bytes list" where
  "tokens s = (case strtok nl_tab s of None \<Rightarrow> [] | Some (t, r) \<Rightarrow> t # tokens r)"
  by pat_completeness auto
termination by (relation "measure length") (auto dest: strtok_shorter)

declare tokens.simps [simp del]

lemma bind_words_tokens:
  assumes "stores S n rows cur"
  shows "length (cur d) + length (tokens s) \<le> n \<Longrightarrow>
    \<exists>d'. bind_words S ls (Suc (length (cur d))) s d 0 = (d', 0) \<and> rows d' = rows d \<and> cur d' = cur d @ tokens s"
proof (induction s arbitrary: d rule: tokens.induct)
  case (1 s)
  show ?case
  proof (cases "strtok nl_tab s")
    case None
    then show ?thesis by (simp add: bind_words.simps [of S ls _ s] tokens.simps [of s])
  next
    case (Some x)
    obtain t r where x: "x = (t, r)" by fastforce
    have k: "tokens s = t # tokens r" by (simp add: tokens.simps [of s] Some x)
    then have len: "length (cur d) < n" using 1(2) by simp
    then obtain d1 where d1: "sq_bind S d (Suc (length (cur d))) t = (d1, 0)" "rows d1 = rows d" "cur d1 = cur d @ [t]"
      using assms len unfolding stores_def by blast
    then have "length (cur d1) + length (tokens r) \<le> n" using 1(2) k by simp
    from 1(1) [OF Some x [symmetric] this] d1 k show ?thesis
      by (auto simp: bind_words.simps [of S ls _ s] Some x)
  qed
qed

lemma insert_line_row:
  assumes "stores S n rows cur" and "cur d = []" and "length (tokens s) \<le> n"
  shows "\<exists>d'. insert_line S ls s d 0 = (d', 0, False) \<and> rows d' = rows d @ [tokens s] \<and> cur d' = []"
proof -
  obtain d1 where d1: "bind_words S ls 1 s d 0 = (d1, 0)" "rows d1 = rows d" "cur d1 = tokens s"
    using bind_words_tokens [OF assms(1), of d s ls] assms(2,3) by auto
  obtain d2 where d2: "sq_step S d1 = (d2, SQLITE_DONE)" "rows d2 = rows d @ [tokens s]" "cur d2 = tokens s"
    using assms(1) d1 unfolding stores_def by metis
  obtain d3 where d3: "sq_clear S d2 = (d3, 0)" "rows d3 = rows d @ [tokens s]" "cur d3 = []"
    using assms(1) d2 unfolding stores_def by metis
  obtain d4 where "sq_reset S d3 = (d4, 0)" "rows d4 = rows d @ [tokens s]" "cur d4 = []"
    using assms(1) d3 unfolding stores_def by metis
  with d1 d2 d3 show ?thesis by (simp add: insert_line_def)
qed

text \<open>a file of lines that fit the buffer\<close>

definition line_ok :: "nat \<Rightarrow> bytes \<Rightarrow> bool" where
  "line_ok n l \<longleftrightarrow> 10 \<notin> set l \<and> 0 \<notin> set l \<and> length l + 1 < n"

definition file_of :: "bytes list \<Rightarrow> bytes" where
  "file_of ls = concat (map (\<lambda>l. l @ [10]) ls)"

lemma file_of_simps [simp]: "file_of [] = []" "file_of (l # ls) = l @ 10 # file_of ls"
  by (simp_all add: file_of_def)

lemma read_line_line:
  assumes "line_ok n l"
  shows "read_line n (l @ 10 # s) = (l @ [10], s, False)"
proof -
  have "takeWhile (\<lambda>b. b \<noteq> 10) (l @ 10 # s) = l" using assms by (auto simp: line_ok_def takeWhile_append)
  moreover have "min (n - 1) (Suc (length l)) = Suc (length l)" using assms by (intro min.absorb2) (auto simp: line_ok_def)
  ultimately show ?thesis using assms by (simp add: read_line_def fgets_def Let_def line_ok_def)
qed

lemma insert_loop_end: "1 < n \<Longrightarrow> insert_loop S ls n [] False d e = Some (d, e)"
  by (subst insert_loop.simps, subst insert_loop.simps) (simp add: read_line_def fgets_def c_str_def)

lemma insert_loop_lines:
  assumes "stores S n rows cur" and "1 < k"
  shows "cur d = [] \<Longrightarrow> \<forall>l \<in> set xs. line_ok k l \<and> length (tokens (l @ [10])) \<le> n \<Longrightarrow>
    \<exists>d'. insert_loop S ls k (file_of xs @ s) False d 0 = insert_loop S ls k s False d' 0 \<and>
      rows d' = rows d @ map (\<lambda>l. tokens (l @ [10])) xs \<and> cur d' = []"
proof (induction xs arbitrary: d)
  case (Cons l xs)
  have l: "line_ok k l" "length (tokens (l @ [10])) \<le> n" using Cons.prems by auto
  have c: "c_str (l @ [10]) = l @ [10]" using l(1) by (simp add: c_str_plain line_ok_def)
  obtain d1 where d1: "insert_line S ls (l @ [10]) d 0 = (d1, 0, False)" "rows d1 = rows d @ [tokens (l @ [10])]" "cur d1 = []"
    using insert_line_row [OF assms(1) Cons.prems(1) l(2)] by blast
  have "insert_loop S ls k (file_of (l # xs) @ s) False d 0 = insert_loop S ls k (file_of xs @ s) False d1 0"
    using read_line_line [OF l(1)] c d1 by (subst insert_loop.simps) simp
  then show ?case using Cons.IH [OF d1(3)] Cons.prems(2) d1(2) by auto
qed (auto intro: exI)

section \<open>The rows of the day\<close>

lemma tokens_fields:
  "\<forall>f \<in> set fs. \<forall>b \<in> set f. \<not> nl_tab b \<Longrightarrow> tokens (concat (map (\<lambda>f. f @ [9]) fs) @ [10]) = filter (\<lambda>f. f \<noteq> []) fs"
proof (induction fs)
  case Nil
  show ?case by (simp add: tokens.simps strtok_def nl_tab_def)
next
  case (Cons f fs)
  let ?r = "concat (map (\<lambda>f. f @ [9]) fs) @ [10]"
  show ?case
  proof (cases "f = []")
    case True
    have "strtok nl_tab (9 # ?r) = strtok nl_tab ?r" by (simp add: strtok_def nl_tab_def)
    then have "tokens (9 # ?r) = tokens ?r" by (simp add: tokens.simps [of "9 # ?r"] tokens.simps [of ?r])
    then show ?thesis using Cons True by simp
  next
    case False
    have "strtok nl_tab (f @ 9 # ?r) = Some (f, ?r)"
      using False Cons.prems by (intro strtok_field(1)) (auto simp: nl_tab_def)
    then show ?thesis using Cons False by (simp add: tokens.simps [of "f @ 9 # _"])
  qed
qed

lemma put_rows_lines:
  "put_rows rs = Some tx \<Longrightarrow> \<exists>ls. map put_row rs = map (\<lambda>l. Some (l @ [10])) ls \<and> tx = file_of ls"
proof (induction rs arbitrary: tx)
  case (Cons r rs)
  then obtain l t where l: "put_row r = Some l" "put_rows rs = Some t" "tx = l @ t" by (auto simp: bind_eq_Some_conv)
  obtain ls where "map put_row rs = map (\<lambda>l. Some (l @ [10])) ls" "t = file_of ls" using Cons.IH [OF l(2)] by blast
  moreover obtain l' where "l = l' @ [10]" using put_row_text [OF l(1)] by blast
  ultimately show ?case using l by (intro exI [of _ "l' # ls"]) simp
qed simp

text \<open>rows of strings whose lines are read in one piece into a table of \<open>n\<close> columns\<close>

definition row_ok_is :: "nat \<Rightarrow> bytes option list \<Rightarrow> bool" where
  "row_ok_is n r \<longleftrightarrow> length r \<le> n \<and> (\<forall>v \<in> set r. 0 \<notin> set (case v of None \<Rightarrow> [] | Some s \<Rightarrow> s)) \<and>
     length (concat (map (\<lambda>v. field_text v @ [9]) r)) < 8191"

text \<open>C24. What the program of the day prints is inserted field by field; empty fields are lost.\<close>

theorem rows_inserted:
  assumes "stores S n rows cur" and "cur d = []" and "put_rows rs = Some text" and "\<forall>r \<in> set rs. row_ok_is n r"
  shows "\<exists>d'. lcs_insert_general_is S text d 0 = Some (d', 0) \<and>
    rows d' = rows d @ map (\<lambda>r. filter (\<lambda>f. f \<noteq> []) (map field_text r)) rs"
proof -
  obtain ls where ls: "map put_row rs = map (\<lambda>l. Some (l @ [10])) ls" "text = file_of ls"
    using put_rows_lines [OF assms(3)] by blast
  have len: "length rs = length ls" using arg_cong [OF ls(1), of length] by simp
  have row: "ls ! i = concat (map (\<lambda>v. field_text v @ [9]) (rs ! i)) \<and> line_ok 8192 (ls ! i) \<and>
      tokens (ls ! i @ [10]) = filter (\<lambda>f. f \<noteq> []) (map field_text (rs ! i)) \<and> length (rs ! i) \<le> n" if i: "i < length rs" for i
  proof -
    have r: "row_ok_is n (rs ! i)" using assms(4) i by simp
    have p: "put_row (rs ! i) = Some (ls ! i @ [10])" using arg_cong [OF ls(1), of "\<lambda>x. x ! i"] i len by simp
    note t = put_row_text [OF p]
    have c: "ls ! i = concat (map (\<lambda>v. field_text v @ [9]) (rs ! i))" using t by simp
    have pl: "\<forall>v \<in> set (rs ! i). plain (field_text v) \<and> 0 \<notin> set (field_text v)"
      using t r field_no_zero unfolding row_ok_is_def by (metis option.simps(5))
    have "tokens (concat (map (\<lambda>f. f @ [9]) (map field_text (rs ! i))) @ [10]) =
        filter (\<lambda>f. f \<noteq> []) (map field_text (rs ! i))"
      by (rule tokens_fields) (use pl in \<open>auto simp: plain_def tab_nl_cr_def nl_tab_def\<close>)
    moreover have "line_ok 8192 (ls ! i)"
      using pl r by (auto simp: c line_ok_def row_ok_is_def plain_def tab_nl_cr_def)
    ultimately show ?thesis using r c by (simp add: row_ok_is_def comp_def)
  qed
  have "\<forall>l \<in> set ls. line_ok 8192 l \<and> length (tokens (l @ [10])) \<le> n"
  proof
    fix l assume "l \<in> set ls"
    then obtain i where "i < length rs" "l = ls ! i" using len by (metis in_set_conv_nth)
    then show "line_ok 8192 l \<and> length (tokens (l @ [10])) \<le> n"
      using row [of i] by (metis length_filter_le length_map le_trans)
  qed
  from insert_loop_lines [where k = 8192 and s = "[]", OF assms(1) _ assms(2) this]
  obtain d' where d': "insert_loop S [Some 227, Some 235, Some 244, Some 254, Some 264] 8192 (file_of ls) False d 0 = Some (d', 0)"
    "rows d' = rows d @ map (\<lambda>l. tokens (l @ [10])) ls"
    by (auto simp: insert_loop_end)
  moreover have "map (\<lambda>l. tokens (l @ [10])) ls = map (\<lambda>r. filter (\<lambda>f. f \<noteq> []) (map field_text r)) rs"
    by (rule nth_equalityI) (simp_all only: length_map len nth_map row [THEN conjunct2, THEN conjunct2, THEN conjunct1])
  ultimately show ?thesis using ls(2) by (simp add: lcs_insert_general_is_def)
qed

section \<open>Errors\<close>

text \<open>
  What SQLite promises of a connection with \<open>stm d\<close> prepared statements: a new one has none,
  \<^verbatim>\<open>sqlite3_prepare_v2\<close> adds one unless it fails, \<^verbatim>\<open>sqlite3_finalize\<close> removes it whatever it returns,
  nothing else changes their number, and \<^verbatim>\<open>sqlite3_close\<close> returns \<^verbatim>\<open>SQLITE_BUSY\<close> (5) while there is one.
\<close>

definition statements :: "'d sqlite \<Rightarrow> ('d \<Rightarrow> nat) \<Rightarrow> bool" where
  "statements S stm \<longleftrightarrow> (\<forall>d p. stm (fst (sq_open S d p)) = 0) \<and>
     (\<forall>d q. stm (fst (sq_prepare S d q)) = (if snd (sq_prepare S d q) = 0 then Suc (stm d) else stm d)) \<and>
     (\<forall>d q. stm (fst (sq_exec S d q)) = stm d) \<and> (\<forall>d i v. stm (fst (sq_bind S d i v)) = stm d) \<and>
     (\<forall>d. stm (fst (sq_step S d)) = stm d) \<and> (\<forall>d. stm (fst (sq_clear S d)) = stm d) \<and>
     (\<forall>d. stm (fst (sq_reset S d)) = stm d) \<and> (\<forall>d. stm (fst (sq_finalize S d)) = stm d - 1) \<and>
     (\<forall>d. snd (sq_close S d) = (if stm d = 0 then 0 else 5))"

lemma statements_keep:
  assumes "statements S stm"
  shows "sq_bind S d i v = (d', e) \<Longrightarrow> stm d' = stm d" and "sq_step S d = (d', e) \<Longrightarrow> stm d' = stm d"
    and "sq_clear S d = (d', e) \<Longrightarrow> stm d' = stm d" and "sq_reset S d = (d', e) \<Longrightarrow> stm d' = stm d"
    and "sq_exec S d q = (d', e) \<Longrightarrow> stm d' = stm d" and "sq_open S d q = (d', e) \<Longrightarrow> stm d' = 0"
    and "sq_prepare S d q = (d', e) \<Longrightarrow> stm d' = (if e = 0 then Suc (stm d) else stm d)"
    and "sq_finalize S d = (d', e) \<Longrightarrow> stm d' = stm d - 1" and "sq_close S d = (d', e) \<Longrightarrow> e = (if stm d = 0 then 0 else 5)"
  using assms unfolding statements_def by (metis fst_conv snd_conv)+

lemma bind_words_statements:
  assumes "statements S stm"
  shows "stm (fst (bind_words S ls i s d e)) = stm d"
proof (induction s arbitrary: i d e rule: tokens.induct)
  case (1 s)
  show ?case
  proof (cases "strtok nl_tab s")
    case None
    then show ?thesis by (simp add: bind_words.simps [of S ls _ s])
  next
    case (Some x)
    obtain t r where x: "x = (t, r)" by fastforce
    obtain d1 e1 where d1: "sq_bind S d i t = (d1, e1)" by fastforce
    with 1 [OF Some x [symmetric], of "i + 1" d1 0] statements_keep(1) [OF assms d1] show ?thesis
      by (simp add: bind_words.simps [of S ls _ s] Some x)
  qed
qed

lemma insert_line_statements:
  assumes "statements S stm" and "insert_line S ls s d e = (d', e', stop)"
  shows "stm d' = stm d"
  using assms(2) bind_words_statements [OF assms(1), of ls 1 s d e] unfolding insert_line_def Let_def
  by (auto split: prod.splits if_split_asm dest!: statements_keep(1-4) [OF assms(1)])

lemma insert_loop_statements:
  assumes "statements S stm" and "insert_loop S ls n s eof d e = Some (d', e')"
  shows "stm d' = stm d"
proof -
  have "S = S \<longrightarrow> stm (fst (d', e')) = stm d"
    using assms(2)
  proof (rule insert_loop.raw_induct [rotated, where P = "\<lambda>T ls n s eof d e r. T = S \<longrightarrow> stm (fst r) = stm d"])
    fix f :: "'a sqlite \<Rightarrow> int option list \<Rightarrow> nat \<Rightarrow> bytes \<Rightarrow> bool \<Rightarrow> 'a \<Rightarrow> int \<Rightarrow> ('a \<times> int) option" and T ls n s eof d e r
    assume "\<And>T ls n s eof d e r. f T ls n s eof d e = Some r \<Longrightarrow> T = S \<longrightarrow> stm (fst r) = stm d"
    then show "(if eof then Some (d, e) else let (b, r, eof') = read_line n s in
        if c_str b = [] then f T ls n r eof' d e
        else let (d', e, stop) = insert_line T ls (c_str b) d e in
          if stop then Some (d', e) else f T ls n r eof' d' e) = Some r \<Longrightarrow> T = S \<longrightarrow> stm (fst r) = stm d"
      by (auto simp: Let_def split: prod.splits if_split_asm dest: insert_line_statements [OF assms(1)])
  qed
  then show ?thesis by simp
qed

text \<open>
  C25. What is reported of a file that could be read: errors of opening the database and of its
  statement are lost; an error of a row is reported as \<^verbatim>\<open>SQLITE_BUSY\<close> by \<^verbatim>\<open>insert_sqlite\<close>, and lost by
  \<^verbatim>\<open>moving\<close>, which commits the rows before it.
\<close>

theorem fetch_outcome:
  assumes "statements S stm" and "files (data_path p) = Some s"
    and "sq_open S d (db_path p) = (x1, e1)" and "sq_prepare S x1 (format p) = (x2, e2)"
    and "sq_exec S x2 BEGIN_TRANSACTION = (x3, e3)"
    and "lcs_insert_general_is S s x3 0 = Some (x4, e4)" and "sq_exec S x4 END_TRANSACTION = (x5, e5)"
    and "lcs_insert_general_mv S s x3 0 = Some (x6, e6)" and "sq_exec S x6 END_TRANSACTION = (x7, e7)"
  shows "\<exists>d' d''.
    lcs_fetch_file_is S files (lcs_insert_general_is S) p d = Some (d', if e1 = 0 \<and> e2 = 0 \<and> (e4 \<noteq> 0 \<or> e5 \<noteq> 0) then 5 else 0) \<and>
    lcs_fetch_file_mv S files (lcs_insert_general_mv S) p d = Some (d'', if e1 = 0 \<and> e2 = 0 \<and> e7 \<noteq> 0 then 5 else 0)"
proof -
  note k = statements_keep [OF assms(1)]
  have x4: "stm x4 = stm x3"
    using assms(6) unfolding lcs_insert_general_is_def by (rule insert_loop_statements [OF assms(1)])
  have x6: "stm x6 = stm x3"
    using assms(8) unfolding lcs_insert_general_mv_def by (rule insert_loop_statements [OF assms(1)])
  have n: "stm x1 = 0" "stm x2 = (if e2 = 0 then 1 else 0)" "stm x3 = stm x2" "stm x5 = stm x2" "stm x7 = stm x2"
    using k(6) [OF assms(3)] k(7) [OF assms(4)] k(5) [OF assms(5)] k(5) [OF assms(7)] k(5) [OF assms(9)] x4 x6 by auto
  have close: "\<exists>d'. sq_close S x = (d', if stm x = 0 then 0 else 5)" for x
    using k(9) [of x "fst (sq_close S x)" "snd (sq_close S x)"] by (intro exI [of _ "fst (sq_close S x)"] prod_eqI) simp_all
  have fin: "stm (fst (sq_finalize S x)) = stm x - 1" for x
    using k(8) [of x "fst (sq_finalize S x)" "snd (sq_finalize S x)"] by simp
  have fin': "\<exists>d'. sq_close S (fst (sq_finalize S x)) = (d', 0)" if "stm x \<le> 1" for x
    using close [of "fst (sq_finalize S x)"] fin [of x] that by simp
  have n1: "stm x4 \<le> 1" "stm x5 \<le> 1" "stm x7 \<le> 1" using n x4 by simp_all
  have "\<exists>d'. lcs_fetch_file_is S files (lcs_insert_general_is S) p d =
      Some (d', if e1 = 0 \<and> e2 = 0 \<and> (e4 \<noteq> 0 \<or> e5 \<noteq> 0) then 5 else 0)"
    using close [of x1] close [of x2] close [of x4] close [of x5] fin' [OF n1(2)] n x4
    by (cases "e1 = 0"; cases "e2 = 0"; cases "e4 = 0"; cases "e5 = 0") (simp_all add: lcs_fetch_file_is_def assms(2-7) split_beta)
  moreover have "\<exists>d''. lcs_fetch_file_mv S files (lcs_insert_general_mv S) p d =
      Some (d'', if e1 = 0 \<and> e2 = 0 \<and> e7 \<noteq> 0 then 5 else 0)"
    using close [of x1] close [of x2] close [of x7] fin' [OF n1(3)] n
    by (cases "e1 = 0"; cases "e2 = 0"; cases "e7 = 0") (simp_all add: lcs_fetch_file_mv_def assms(2-5,8,9) split_beta)
  ultimately show ?thesis by blast
qed

section \<open>The table context\<close>

lemma insert_loop_stuck:
  assumes "insert_loop S ls n s eof d e = Some r"
  shows "n \<le> 1 \<longrightarrow> eof"
  by (rule insert_loop.raw_induct [of "\<lambda>S ls n s eof d e r. n \<le> 1 \<longrightarrow> eof", OF _ assms])
    (auto simp: read_line_def c_str_def split: if_splits, blast)

text \<open>An empty file, or one of one byte, is read for ever; the only line of a file gets a second, empty row.\<close>

theorem context_read:
  assumes "stores S n rows cur" and "cur d = []" and "10 \<notin> set l" and "0 \<notin> set l" and "l \<noteq> []"
    and "length (tokens l) \<le> n" and "length l + 1 < 2 ^ 31"
  shows "lcs_insert_context_is S [] d 0 = None \<and>
    (\<exists>d'. lcs_insert_context_is S (l @ [10]) d 0 = Some (d', 0) \<and> rows d' = rows d @ [tokens l, []])"
proof
  have "insert_loop S ls 0 [] False d 0 = None" for ls
    using insert_loop_stuck [of S ls 0 "[]" False d 0] by (cases "insert_loop S ls 0 [] False d 0") auto
  then show "lcs_insert_context_is S [] d 0 = None" by (simp add: lcs_insert_context_is_def)
  let ?ls = "[Some 431, None, Some 447, Some 457, Some 467]" and ?n = "length (l @ [10])"
  have tw: "takeWhile (\<lambda>b. b \<noteq> 10) (l @ [10]) = l" using assms(3) by (auto simp: takeWhile_append)
  have r1: "read_line ?n (l @ [10]) = (l, [10], False)"
    using assms(5) tw by (auto simp: read_line_def fgets_def Let_def min_def)
  have n1: "1 < ?n" using assms(5) by (cases l) auto
  have r2: "read_line ?n [10] = ([10], [], False)"
    using n1 by (auto simp: read_line_def fgets_def Let_def min_def) (cases l; simp)
  have c: "c_str l = l" "c_str [10] = [10]" using assms(4) by (simp_all add: c_str_plain)
  obtain d1 where d1: "insert_line S ?ls l d 0 = (d1, 0, False)" "rows d1 = rows d @ [tokens l]" "cur d1 = []"
    using insert_line_row [OF assms(1,2,6)] by blast
  have t: "tokens [10] = []" by (simp add: tokens.simps strtok_def nl_tab_def)
  obtain d2 where d2: "insert_line S ?ls [10] d1 0 = (d2, 0, False)" "rows d2 = rows d1 @ [tokens [10]]"
    using insert_line_row [OF assms(1) d1(3), of "[10]"] t by auto
  have "insert_loop S ?ls ?n (l @ [10]) False d 0 = insert_loop S ?ls ?n [10] False d1 0"
    using r1 c d1 assms(5) by (subst insert_loop.simps) simp
  also have "\<dots> = insert_loop S ?ls ?n [] False d2 0"
    using r2 c d2 by (subst insert_loop.simps) simp
  also have "\<dots> = Some (d2, 0)" by (rule insert_loop_end [OF n1])
  finally show "\<exists>d'. lcs_insert_context_is S (l @ [10]) d 0 = Some (d', 0) \<and> rows d' = rows d @ [tokens l, []]"
    using assms(7) d1(2) d2(2) t by (simp add: lcs_insert_context_is_def)
qed

section \<open>Concrete inputs\<close>

text \<open>
  a database in memory for a statement of \<open>n\<close> parameters: the rows, the values bound and the number of
  prepared statements; a value bound at another place than the next is refused
\<close>

definition memory_db :: "nat \<Rightarrow> (bytes list list \<times> bytes list \<times> nat) sqlite" where
  "memory_db n = \<lparr>sq_open = \<lambda>(r, c, k) p. ((r, [], 0), 0),
     sq_prepare = \<lambda>(r, c, k) q. ((r, [], Suc k), 0),
     sq_exec = \<lambda>d q. (d, 0),
     sq_bind = \<lambda>(r, c, k) i v. if i = Suc (length c) \<and> length c < n then ((r, c @ [v], k), 0) else ((r, c, k), 25),
     sq_step = \<lambda>(r, c, k). ((r @ [c], c, k), SQLITE_DONE),
     sq_clear = \<lambda>(r, c, k). ((r, [], k), 0),
     sq_reset = \<lambda>d. (d, 0),
     sq_finalize = \<lambda>(r, c, k). ((r, c, k - 1), 0),
     sq_close = \<lambda>(r, c, k). ((r, c, k), if k = 0 then 0 else 5)\<rparr>"

lemma memory_db_laws:
  "stores (memory_db n) n fst (fst \<circ> snd)" "statements (memory_db n) (snd \<circ> snd)"
  by (auto simp: stores_def statements_def memory_db_def)

text \<open>two columns: the empty field of the second row is lost\<close>

lemma rows_inserted_witness:
  "\<exists>d'. lcs_insert_general_is (memory_db 2) (lit ''a'' @ 9 # lit ''b'' @ [9, 10, 9] @ lit ''c'' @ [9, 10]) ([], [], 1) 0 = Some (d', 0) \<and>
     fst d' = [[lit ''a'', lit ''b''], [lit ''c'']]"
proof -
  have tx: "put_rows [[Some (lit ''a''), Some (lit ''b'')], [Some [9], Some (lit ''c'')]] =
      Some (lit ''a'' @ 9 # lit ''b'' @ [9, 10, 9] @ lit ''c'' @ [9, 10])"
    by code_simp
  have ok: "\<forall>r \<in> set [[Some (lit ''a''), Some (lit ''b'')], [Some [9], Some (lit ''c'')]]. row_ok_is 2 r"
    by code_simp
  have "map (\<lambda>r. filter (\<lambda>f. f \<noteq> []) (map field_text r)) [[Some (lit ''a''), Some (lit ''b'')], [Some [9], Some (lit ''c'')]] =
      [[lit ''a'', lit ''b''], [lit ''c'']]"
    by code_simp
  with rows_inserted [OF memory_db_laws(1) _ tx ok, of "([], [], 1)"] show ?thesis by simp
qed

lemma context_read_witness:
  "\<exists>d'. lcs_insert_context_is (memory_db 2) (lit ''a'' @ 9 # lit ''b'' @ [10]) ([], [], 1) 0 = Some (d', 0) \<and>
     fst d' = [[lit ''a'', lit ''b''], []]"
proof -
  have t: "tokens (lit ''a'' @ 9 # lit ''b'') = [lit ''a'', lit ''b'']" by code_simp
  have "10 \<notin> set (lit ''a'' @ 9 # lit ''b'')" "0 \<notin> set (lit ''a'' @ 9 # lit ''b'')" by code_simp+
  from context_read [OF memory_db_laws(1) _ this, of "([], [], 1)" 2] show ?thesis using t by simp
qed

text \<open>a row of two words for a statement of one parameter\<close>

lemma fetch_outcome_witness:
  "\<exists>d' d''. lcs_fetch_file_is (memory_db 1) (\<lambda>_. Some (lit ''a'' @ 9 # lit ''b'' @ [10]))
      (lcs_insert_general_is (memory_db 1)) \<lparr>table_is = [], db_path = [], data_path = [], format = []\<rparr> ([], [], 0) = Some (d', 5) \<and>
    lcs_fetch_file_mv (memory_db 1) (\<lambda>_. Some (lit ''a'' @ 9 # lit ''b'' @ [10]))
      (lcs_insert_general_mv (memory_db 1)) \<lparr>table_is = [], db_path = [], data_path = [], format = []\<rparr> ([], [], 0) = Some (d'', 0)"
proof -
  let ?s = "lit ''a'' @ 9 # lit ''b'' @ [10]" and ?p = "\<lparr>table_is = [], db_path = [], data_path = [], format = []\<rparr>"
  have r: "read_line 8192 ?s = (?s, [], False)" by code_simp
  have c: "c_str ?s = ?s" by code_simp
  have ins: "lcs_insert_general_is (memory_db 1) ?s ([], [], 1) 0 = Some (([], [lit ''a''], 1), 235)"
    and mv: "lcs_insert_general_mv (memory_db 1) ?s ([], [], 1) 0 = Some (([], [lit ''a''], 1), 25)"
  proof -
    have i: "insert_line (memory_db 1) [Some 227, Some 235, Some 244, Some 254, Some 264] ?s ([], [], 1) 0 = (([], [lit ''a''], 1), 235, True)"
      by code_simp
    have m: "insert_line (memory_db 1) [None, None, None, None, None] ?s ([], [], 1) 0 = (([], [lit ''a''], 1), 25, True)"
      by code_simp
    show "lcs_insert_general_is (memory_db 1) ?s ([], [], 1) 0 = Some (([], [lit ''a''], 1), 235)"
      unfolding lcs_insert_general_is_def using r c i by (subst insert_loop.simps) simp
    show "lcs_insert_general_mv (memory_db 1) ?s ([], [], 1) 0 = Some (([], [lit ''a''], 1), 25)"
      unfolding lcs_insert_general_mv_def using r c m by (subst insert_loop.simps) simp
  qed
  have "sq_open (memory_db 1) ([], [], 0) (db_path ?p) = (([], [], 0), 0)"
    "sq_prepare (memory_db 1) ([], [], 0) (format ?p) = (([], [], 1), 0)"
    "sq_exec (memory_db 1) d q = (d, 0)" for d q by (simp_all add: memory_db_def)
  from fetch_outcome [where files = "\<lambda>_. Some ?s", OF memory_db_laws(2) refl this(1,2) this(3) ins this(3) mv this(3)]
  show ?thesis by simp
qed

end
