(* ===== verification/Reports.thy ===== *)
theory Reports
  imports CfgText
begin

text \<open>
  The reports \<^verbatim>\<open>A_000001\<close> to \<^verbatim>\<open>A_000004\<close> of the cluster: the number of calls for each of four dispositions.
  \<^verbatim>\<open>A_00000n_05m\<close> (suffix \<open>r5\<close>) asks the database of five minutes, \<^verbatim>\<open>A_00000n_hour\<close> (\<open>rh\<close>) adds up what
  it left in the directories of an hour. The texts of the four programs of a kind differ in a name only.
  \<^verbatim>\<open>A_00000n_day\<close> is in \<open>ReportsDay\<close>.

  The file system is a map from paths to contents; \<^verbatim>\<open>fopen(path, "w+")\<close> succeeds where \<open>can\<close> says so. What
  a command does to the files is an argument \<open>sh\<close>, where \<^term>\<open>None\<close> is undefined behaviour. \<^verbatim>\<open>err\<close> is looked at
  by none of the callers and left out; \<^verbatim>\<open>printf\<close> of a null pointer to the terminal prints \<open>(null)\<close>.

  Shown: a report that was written is read to the counts it was written from, each by its own key,
  modulo \<open>2 ^ 32\<close>; the program of the hour writes the sum of what the databases of its directories answer,
  and touches nothing outside its directory.
\<close>

type_synonym files = "bytes \<Rightarrow> bytes option"

section \<open>Configuration\<close>

text \<open>the struct of the hour and the day; that of \<^verbatim>\<open>_05m\<close> has no field for a program\<close>

record LCS_TEMPLATE_INFO_rh =
  targetpath_rh :: bytes
  name_ana_rh :: bytes
  subprocess_rh :: bytes

definition empty_rh :: LCS_TEMPLATE_INFO_rh where
  "empty_rh = \<lparr>targetpath_rh = zeros 1024, name_ana_rh = zeros 64, subprocess_rh = zeros 1024\<rparr>"

definition lcs_cfg_item_rh :: "bytes \<Rightarrow> LCS_TEMPLATE_INFO_rh \<Rightarrow> LCS_TEMPLATE_INFO_rh option" where
  "lcs_cfg_item_rh item info =
     (if has item ''targetpath_0001:'' then
        map_option (\<lambda>x. info\<lparr>targetpath_rh := x\<rparr>) (cfg_copy (targetpath_rh info) item ''targetpath_0001:'')
      else if has item ''name_ana_0002:'' then
        map_option (\<lambda>x. info\<lparr>name_ana_rh := x\<rparr>) (cfg_copy (name_ana_rh info) item ''name_ana_0002:'')
      else if has item ''subprocess_0003:'' then
        map_option (\<lambda>x. info\<lparr>subprocess_rh := x\<rparr>) (cfg_copy (subprocess_rh info) item ''subprocess_0003:'')
      else Some info)"

definition lcs_cfg_load_rh :: "files \<Rightarrow> bytes \<Rightarrow> LCS_TEMPLATE_INFO_rh \<Rightarrow> LCS_TEMPLATE_INFO_rh option" where
  "lcs_cfg_load_rh fs path info = cfg_file lcs_cfg_item_rh fs path info"

record LCS_TEMPLATE_INFO_r5 =
  targetpath_r5 :: bytes
  name_ana_r5 :: bytes

definition empty_r5 :: LCS_TEMPLATE_INFO_r5 where
  "empty_r5 = \<lparr>targetpath_r5 = zeros 1024, name_ana_r5 = zeros 64\<rparr>"

definition lcs_cfg_item_r5 :: "bytes \<Rightarrow> LCS_TEMPLATE_INFO_r5 \<Rightarrow> LCS_TEMPLATE_INFO_r5 option" where
  "lcs_cfg_item_r5 item info =
     (if has item ''targetpath_0001:'' then
        map_option (\<lambda>x. info\<lparr>targetpath_r5 := x\<rparr>) (cfg_copy (targetpath_r5 info) item ''targetpath_0001:'')
      else if has item ''name_ana_0002:'' then
        map_option (\<lambda>x. info\<lparr>name_ana_r5 := x\<rparr>) (cfg_copy (name_ana_r5 info) item ''name_ana_0002:'')
      else Some info)"

definition lcs_cfg_load_r5 :: "files \<Rightarrow> bytes \<Rightarrow> LCS_TEMPLATE_INFO_r5 \<Rightarrow> LCS_TEMPLATE_INFO_r5 option" where
  "lcs_cfg_load_r5 fs path info = cfg_file lcs_cfg_item_r5 fs path info"

section \<open>Five minutes\<close>

text \<open>
  What the program asks of a database: the codes of the calls, and the rows a statement hands to the
  callback before its code is returned.
\<close>

record sql_db =
  so_open :: "bytes \<Rightarrow> int"
  so_begin :: "bytes \<Rightarrow> int"
  so_select :: "bytes \<Rightarrow> bytes \<Rightarrow> bytes option list list \<times> int"

text \<open>\<^verbatim>\<open>lcs_exec_cbtrue\<close>: a null value is followed by \<^verbatim>\<open>fprintf\<close>; one value is always read\<close>

fun lcs_exec_cbtrue :: "bytes option list \<Rightarrow> bytes option" where
  "lcs_exec_cbtrue [] = None"
| "lcs_exec_cbtrue [v] = map_option (\<lambda>t. t @ [9, 10]) v"
| "lcs_exec_cbtrue (v # w # vs) = do { t \<leftarrow> v; r \<leftarrow> lcs_exec_cbtrue (w # vs); Some (t @ 9 # r) }"

definition lcs_exec_sql :: "sql_db \<Rightarrow> (bytes \<Rightarrow> bool) \<Rightarrow> bytes \<Rightarrow> bytes \<Rightarrow> bytes \<Rightarrow> files \<Rightarrow> files option" where
  "lcs_exec_sql D can query db writepath fs =
     (if \<not> can writepath then Some fs
      else let fs1 = fs(writepath \<mapsto> []) in
      case snd (lcs_file_text fs1 query) of None \<Rightarrow> Some fs1
      | Some sql \<Rightarrow>
          if so_open D db \<noteq> 0 then Some fs1
          else if so_begin D db \<noteq> 0 then Some fs1
          else do {
            rows \<leftarrow> those (map lcs_exec_cbtrue (fst (so_select D db (c_str sql))));
            Some (fs1(writepath \<mapsto> concat rows))
          })"

definition lcs_unit_analysis :: "sql_db \<Rightarrow> (bytes \<Rightarrow> bool) \<Rightarrow> LCS_TEMPLATE_INFO_r5 \<Rightarrow> files \<Rightarrow> files option" where
  "lcs_unit_analysis D can info fs = do {
     path \<leftarrow> fld (targetpath_r5 info); name \<leftarrow> fld (name_ana_r5 info);
     dbpath \<leftarrow> fit 1024 (path @ lit ''/lcs.db'');
     if fs dbpath = None then Some fs
     else do {
       writepath \<leftarrow> fit 1024 (path @ 47 # name @ lit ''.analysis'');
       query \<leftarrow> fit 1024 (lit ''../sql/'' @ name @ lit ''.sql'');
       lcs_exec_sql D can query dbpath writepath fs
     }
   }"

definition main_r5 :: "sql_db \<Rightarrow> (bytes \<Rightarrow> bool) \<Rightarrow> bytes \<Rightarrow> files \<Rightarrow> files option" where
  "main_r5 D can cfg fs = do {
     info \<leftarrow> lcs_cfg_load_r5 fs cfg empty_r5;
     lcs_unit_analysis D can info fs
   }"

section \<open>Counting\<close>

definition lcs_arr_key :: "bytes list" where
  "lcs_arr_key = [lit ''ANSWERED'', lit ''BUSY'', lit ''FAILED'', lit ''NO ANSWER'']"

text \<open>
  \<^verbatim>\<open>sscanf(pch, "%lu...", &count, ...)\<close>: the number at the start of \<open>pch\<close>, the largest one if it is too
  big, and the rest (\<^term>\<open>None\<close>: there is no number)
\<close>

definition scan_lu :: "bytes \<Rightarrow> (64 word \<times> bytes) option" where
  "scan_lu p =
     (let t = dropWhile isspace p;
          neg = (t \<noteq> [] \<and> hd t = 45);
          u = (if t \<noteq> [] \<and> (hd t = 45 \<or> hd t = 43) then tl t else t);
          ds = takeWhile isdigit u; v = num_val ds
      in if ds = [] then None
         else Some (if v < 2 ^ 64 then if neg then - of_int v else of_int v else - 1, dropWhile isdigit u))"

text \<open>\<^verbatim>\<open>strstr(lcs_arr_key[j], tmp) == lcs_arr_key[j]\<close> for the first \<open>j\<close>\<close>

fun key_of :: "bytes list \<Rightarrow> bytes \<Rightarrow> nat option" where
  "key_of [] tmp = None"
| "key_of (k # ks) tmp = (if strstr k tmp = Some k then Some 0 else map_option Suc (key_of ks tmp))"

text \<open>one line: the word behind the number is read into \<^verbatim>\<open>char tmp[64]\<close>\<close>

definition sum_line :: "bytes \<Rightarrow> 32 word list \<Rightarrow> 32 word list option" where
  "sum_line pch cs =
     (case scan_lu pch of None \<Rightarrow> Some cs
      | Some (n, r) \<Rightarrow> do {
          tmp \<leftarrow> fit 64 (takeWhile (\<lambda>b. \<not> isspace b) (dropWhile isspace r));
          if tmp = [] then Some cs
          else case key_of lcs_arr_key tmp of None \<Rightarrow> Some cs | Some j \<Rightarrow> Some (cs[j := cs ! j + ucast n])
        })"

definition crnl :: "byte \<Rightarrow> bool" where
  "crnl b \<longleftrightarrow> b = 13 \<or> b = 10"

function lcs_hcollect_sum :: "bytes \<Rightarrow> 32 word list \<Rightarrow> 32 word list option" where
  "lcs_hcollect_sum s cs =
     (case strtok crnl s of None \<Rightarrow> Some cs
      | Some (pch, rest) \<Rightarrow> case sum_line pch cs of None \<Rightarrow> None | Some cs' \<Rightarrow> lcs_hcollect_sum rest cs')"
  by pat_completeness auto
termination by (relation "measure (\<lambda>(s, cs). length s)") (auto dest: strtok_shorter)

declare lcs_hcollect_sum.simps [simp del]

text \<open>what is printed of the counts\<close>

definition report :: "32 word list \<Rightarrow> bytes" where
  "report cs = concat (map (\<lambda>(k, c). dec (unat c) @ 9 # k @ [10]) (zip lcs_arr_key cs))"

section \<open>The hour\<close>

text \<open>\<^verbatim>\<open>lcs_unit_config(dir, sub, ana, path, err)\<close>: the path, and the files\<close>

definition lcs_unit_config :: "(bytes \<Rightarrow> bool) \<Rightarrow> bytes \<Rightarrow> bytes \<Rightarrow> bytes \<Rightarrow> files \<Rightarrow> (bytes \<times> files) option" where
  "lcs_unit_config can dir sub ana fs = do {
     path \<leftarrow> fit 1024 (dir @ 47 # sub @ 47 # ana @ lit ''.config.cfg'');
     Some (path, if can path
       then fs(path \<mapsto> lit ''targetpath_0001:'' @ (dir @ 47 # sub) @ 10 # lit ''name_ana_0002:'' @ ana) else fs)
   }"

definition lcs_unit_gen ::
  "(bytes \<Rightarrow> files \<Rightarrow> files option) \<Rightarrow> (bytes \<Rightarrow> bool) \<Rightarrow> LCS_TEMPLATE_INFO_rh \<Rightarrow> bytes \<Rightarrow> bytes \<Rightarrow> bytes \<Rightarrow> files \<Rightarrow> files option" where
  "lcs_unit_gen sh can info dir sub ana fs = do {
     (path, fs1) \<leftarrow> lcs_unit_config can dir sub ana fs;
     subprocess \<leftarrow> fld (subprocess_rh info);
     cmd \<leftarrow> fit 2048 (subprocess @ 32 # path);
     sh cmd fs1
   }"

text \<open>the counts after the text of a file, which may be a null pointer\<close>

definition add_text :: "bytes option \<Rightarrow> 32 word list \<Rightarrow> 32 word list option" where
  "add_text txt cs =
     (case txt of None \<Rightarrow> Some cs | Some t \<Rightarrow> if c_str t = [] then Some cs else lcs_hcollect_sum (c_str t) cs)"

fun hour_loop ::
  "(bytes \<Rightarrow> files \<Rightarrow> files option) \<Rightarrow> (bytes \<Rightarrow> bool) \<Rightarrow> LCS_TEMPLATE_INFO_rh \<Rightarrow> bytes \<Rightarrow> bytes list \<Rightarrow> files \<Rightarrow> 32 word list \<Rightarrow>
   (files \<times> 32 word list) option" where
  "hour_loop sh can info dir [] fs cs = Some (fs, cs)"
| "hour_loop sh can info dir (sub # subs) fs cs = do {
     ana \<leftarrow> fld (name_ana_rh info);
     tmp \<leftarrow> fit 1024 (dir @ 47 # sub @ 47 # ana @ lit ''.analysis'');
     fs1 \<leftarrow> (if snd (lcs_file_text fs tmp) = None then lcs_unit_gen sh can info dir sub ana fs else Some fs);
     cs1 \<leftarrow> add_text (snd (lcs_file_text fs1 tmp)) cs;
     hour_loop sh can info dir subs fs1 cs1
   }"

text \<open>\<^verbatim>\<open>lcs_hcollect_ana\<close>; \<open>sub\<close> has 62 pointers, and the loop ends at a null pointer\<close>

definition lcs_hcollect_ana_rh ::
  "(bytes \<Rightarrow> files \<Rightarrow> files option) \<Rightarrow> (bytes \<Rightarrow> bool) \<Rightarrow> LCS_TEMPLATE_INFO_rh \<Rightarrow> bytes \<Rightarrow> bytes list \<Rightarrow> files \<Rightarrow> 32 word list \<Rightarrow> files option" where
  "lcs_hcollect_ana_rh sh can info dir sub fs cs =
     (if length sub < 62 then do {
        (fs1, cs1) \<leftarrow> hour_loop sh can info dir sub fs cs;
        ana \<leftarrow> fld (name_ana_rh info);
        tmp \<leftarrow> fit 1024 (dir @ 47 # ana @ lit ''.analysis'');
        Some (if can tmp then fs1(tmp \<mapsto> report cs1) else fs1)
      } else None)"

text \<open>without the directory \<^verbatim>\<open>arrdir\<close> is a null pointer, which is followed\<close>

definition main_rh ::
  "(bytes \<Rightarrow> files \<Rightarrow> files option) \<Rightarrow> (bytes \<Rightarrow> bool) \<Rightarrow> (bytes \<Rightarrow> dirent list option) \<Rightarrow> bytes \<Rightarrow> files \<Rightarrow> files option" where
  "main_rh sh can opendir cfg fs = do {
     info \<leftarrow> lcs_cfg_load_rh fs cfg empty_rh;
     dir \<leftarrow> fld (targetpath_rh info);
     (err, arrdir) \<leftarrow> lcs_comm_subdir opendir dir 0;
     sub \<leftarrow> arrdir;
     lcs_hcollect_ana_rh sh can info dir sub fs (replicate 5 0)
   }"

section \<open>What a report says\<close>

text \<open>a report of lines: how many calls have the disposition of that number\<close>

definition lines_of :: "bytes \<Rightarrow> (nat \<times> nat) list \<Rightarrow> bytes" where
  "lines_of sep xs = concat (map (\<lambda>(n, j). dec n @ 9 # lcs_arr_key ! j @ sep @ [10]) xs)"

definition calls :: "(nat \<times> nat) list \<Rightarrow> nat \<Rightarrow> nat" where
  "calls xs j = (\<Sum>(n, i) \<leftarrow> xs. if i = j then n else 0)"

definition counted :: "(nat \<times> nat) list \<Rightarrow> bool" where
  "counted xs \<longleftrightarrow> list_all (\<lambda>(n, j). n < 2 ^ 64 \<and> j < 4) xs"

text \<open>the array of counters, which wrap around\<close>

definition cvec :: "(nat \<Rightarrow> nat) \<Rightarrow> 32 word list" where
  "cvec f = map (\<lambda>j. of_nat (f j)) [0..<4] @ [0]"

lemma calls_simps [simp]: "calls [] j = 0" "calls ((n, i) # xs) j = (if i = j then n else 0) + calls xs j"
  by (simp_all add: calls_def)

lemma counted_simps [simp]: "counted []" "counted ((n, j) # xs) \<longleftrightarrow> n < 2 ^ 64 \<and> j < 4 \<and> counted xs"
  by (simp_all add: counted_def)

lemma cvec_zero: "cvec (\<lambda>_. 0) = replicate 5 0"
  by code_simp

lemma cvec_update: "j < 4 \<Longrightarrow> (cvec f)[j := cvec f ! j + of_nat n] = cvec (\<lambda>i. f i + (if i = j then n else 0))"
  by (intro nth_equalityI) (auto simp: cvec_def nth_list_update nth_append)

lemma scan_lu_dec:
  assumes "n < 2 ^ 64"
  shows "scan_lu (dec n @ 9 # r) = Some (of_nat n, 9 # r)"
proof -
  note d = dec_digits [of n]
  obtain b bs where b: "dec n = b # bs" "isdigit b" using d by (cases "dec n") auto
  have nd: "\<not> isdigit 9" by (simp add: isdigit_def)
  have t: "takeWhile isdigit (dec n @ 9 # r) = dec n" "dropWhile isdigit (dec n @ 9 # r) = 9 # r"
    using d nd by (simp_all add: takeWhile_append dropWhile_append)
  have "dropWhile isspace (dec n @ 9 # r) = dec n @ 9 # r" using b not_digit [OF b(2)] by simp
  moreover have "hd (dec n @ 9 # r) \<noteq> 45" "hd (dec n @ 9 # r) \<noteq> 43" using b not_digit [OF b(2)] by simp_all
  moreover have "num_val (dec n) < 2 ^ 64" using d assms by simp
  ultimately show ?thesis using t d by (simp add: scan_lu_def Let_def)
qed

text \<open>the first word of each key names that key and no one before it\<close>

lemma key_words:
  assumes "j < 4" and "sep = [] \<or> sep = [9]"
  shows "\<exists>w. takeWhile (\<lambda>b. \<not> isspace b) (dropWhile isspace (9 # lcs_arr_key ! j @ sep)) = w \<and> w \<noteq> [] \<and> length w < 64 \<and>
    key_of lcs_arr_key w = Some j"
proof -
  have "j \<in> {0, 1, 2, 3}" using assms(1) by auto
  moreover have "\<forall>sep \<in> set [[], [9]]. \<forall>j \<in> set [0, 1, 2, 3].
      (let w = takeWhile (\<lambda>b. \<not> isspace b) (dropWhile isspace (9 # lcs_arr_key ! j @ sep))
       in w \<noteq> [] \<and> length w < 64 \<and> key_of lcs_arr_key w = Some j)"
    by code_simp
  ultimately show ?thesis using assms(2) by (auto simp: Let_def)
qed

lemma sum_line_key:
  assumes "n < 2 ^ 64" and "j < 4" and "sep = [] \<or> sep = [9]"
  shows "sum_line (dec n @ 9 # lcs_arr_key ! j @ sep) cs = Some (cs[j := cs ! j + of_nat n])"
proof -
  obtain w where w: "takeWhile (\<lambda>b. \<not> isspace b) (dropWhile isspace (9 # lcs_arr_key ! j @ sep)) = w" "w \<noteq> []" "length w < 64"
    "key_of lcs_arr_key w = Some j" using key_words [OF assms(2,3)] by blast
  have "(ucast (of_nat n :: 64 word) :: 32 word) = of_nat n"
    using assms(1) by (simp add: unsigned_of_nat take_bit_nat_eq_self)
  then show ?thesis
    unfolding sum_line_def scan_lu_dec [OF assms(1)] using w by (simp add: fit_def)
qed

lemma line_plain:
  assumes "j < 4" and "sep = [] \<or> sep = [9]"
  shows "\<forall>b \<in> set (dec n @ 9 # lcs_arr_key ! j @ sep). \<not> crnl b \<and> b \<noteq> 0"
proof -
  have "\<forall>b \<in> set (dec n). \<not> crnl b \<and> b \<noteq> 0" using dec_digits [of n] by (auto simp: isdigit_def crnl_def)
  moreover have "j \<in> {0, 1, 2, 3}" using assms(1) by auto
  moreover have "\<forall>sep \<in> set [[], [9]]. \<forall>j \<in> set [0, 1, 2, 3]. \<forall>b \<in> set (9 # lcs_arr_key ! j @ sep). \<not> crnl b \<and> b \<noteq> 0"
    by code_simp
  ultimately show ?thesis using assms(2) by auto
qed

lemma count_lines:
  assumes "sep = [] \<or> sep = [9]"
  shows "counted xs \<Longrightarrow> lcs_hcollect_sum (lines_of sep xs) (cvec f) = Some (cvec (\<lambda>j. f j + calls xs j))"
proof (induction xs arbitrary: f)
  case Nil
  show ?case by (simp add: lines_of_def lcs_hcollect_sum.simps strtok_def)
next
  case (Cons x xs)
  obtain n j where x: "x = (n, j)" by fastforce
  then have nj: "n < 2 ^ 64" "j < 4" "counted xs" using Cons.prems by auto
  let ?l = "dec n @ 9 # lcs_arr_key ! j @ sep"
  have "lines_of sep (x # xs) = ?l @ 10 # lines_of sep xs" by (simp add: lines_of_def x)
  moreover have "strtok crnl (?l @ 10 # lines_of sep xs) = Some (?l, lines_of sep xs)"
    by (rule strtok_field(1)) (use line_plain [OF nj(2) assms] in \<open>auto simp: crnl_def\<close>)
  ultimately have "lcs_hcollect_sum (lines_of sep (x # xs)) (cvec f) = lcs_hcollect_sum (lines_of sep xs) (cvec (\<lambda>i. f i + (if i = j then n else 0)))"
    by (simp only: lcs_hcollect_sum.simps [of "_ @ _"] option.case prod.case sum_line_key [OF nj(1,2) assms] cvec_update [OF nj(2)])
  also have "\<dots> = Some (cvec (\<lambda>i. f i + calls (x # xs) i))"
    using Cons.IH [OF nj(3)] by (simp add: x add.assoc eq_commute)
  finally show ?case .
qed

lemma report_lines: "report (cvec f) = lines_of [] (map (\<lambda>j. (unat (of_nat (f j) :: 32 word), j)) [0..<4])"
  by (simp add: report_def lines_of_def cvec_def lcs_arr_key_def eval_nat_numeral upt_rec)

lemma unat_below: "unat (w :: 32 word) < 2 ^ 64"
proof -
  have "unat w < 2 ^ LENGTH(32)" by (rule unsigned_less)
  then show ?thesis by simp
qed

lemma report_sum:
  "lcs_hcollect_sum (report (cvec f)) (cvec g) = Some (cvec (\<lambda>j. g j + f j))"
proof -
  let ?xs = "map (\<lambda>j. (unat (of_nat (f j) :: 32 word), j)) [0..<4]"
  have "counted ?xs" by (auto simp: counted_def list_all_iff unat_below [simplified])
  moreover have "calls ?xs j = (if j < 4 then unat (of_nat (f j) :: 32 word) else 0)" for j
    by (auto simp: upt_rec eval_nat_numeral less_Suc_eq)
  ultimately show ?thesis
    using count_lines [of "[]" ?xs g] by (simp add: report_lines) (simp add: cvec_def)
qed

text \<open>C19. A report is read to the counts it was written from, each under its own key, added to those counted before.\<close>

theorem report_roundtrip:
  "lcs_hcollect_sum (report (cvec f)) (cvec g) = Some (cvec (\<lambda>j. g j + f j))"
  by (rule report_sum)

lemma lines_plain:
  assumes "counted xs" and "sep = [] \<or> sep = [9]"
  shows "0 \<notin> set (lines_of sep xs)"
proof
  assume "0 \<in> set (lines_of sep xs)"
  then obtain n j where "(n, j) \<in> set xs" and z: "0 \<in> set (dec n @ 9 # lcs_arr_key ! j @ sep)"
    by (auto simp: lines_of_def)
  then have "j < 4" using assms(1) by (auto simp: counted_def list_all_iff)
  then show False using line_plain [OF _ assms(2)] z by blast
qed

lemma add_lines:
  assumes "counted xs" and "sep = [] \<or> sep = [9]"
  shows "add_text (Some (lines_of sep xs @ [0])) (cvec f) = Some (cvec (\<lambda>j. f j + calls xs j))"
proof -
  have "0 \<notin> set (lines_of sep xs)" by (rule lines_plain [OF assms])
  then have "c_str (lines_of sep xs @ [0]) = lines_of sep xs" by (simp add: c_str_append_zero)
  moreover have "calls xs j = 0" if "lines_of sep xs = []" for j
    using that by (cases xs) (auto simp: lines_of_def)
  ultimately show ?thesis using count_lines [OF assms(2,1), of f] by (auto simp: add_text_def)
qed

lemma report_plain: "0 \<notin> set (report (cvec f))"
  unfolding report_lines by (rule lines_plain) (auto simp: counted_def list_all_iff unat_below [simplified])

section \<open>The configuration files\<close>

definition keys_rh :: "string list" where
  "keys_rh = [''targetpath_0001:'', ''name_ana_0002:'', ''subprocess_0003:'', ''prefixshmkey_0004:'']"

lemma key_set_rh: "key_set keys_rh"
  by code_simp

lemmas has_rh = has_iff [OF key_set_rh, unfolded keys_rh_def]

lemmas key_rh = skey_key [OF key_set_skey [OF key_set_rh], unfolded keys_rh_def]

lemma item_rh:
  assumes "word v"
  shows "lcs_cfg_item_rh (lit ''targetpath_0001:'' @ v) i = map_option (\<lambda>x. i\<lparr>targetpath_rh := x\<rparr>) (mem_write (targetpath_rh i) 0 v)"
    and "lcs_cfg_item_rh (lit ''name_ana_0002:'' @ v) i = map_option (\<lambda>x. i\<lparr>name_ana_rh := x\<rparr>) (mem_write (name_ana_rh i) 0 v)"
    and "lcs_cfg_item_rh (lit ''subprocess_0003:'' @ v) i = map_option (\<lambda>x. i\<lparr>subprocess_rh := x\<rparr>) (mem_write (subprocess_rh i) 0 v)"
    and "lcs_cfg_item_rh (lit ''prefixshmkey_0004:'' @ v) i = Some i"
  by (simp_all add: lcs_cfg_item_rh_def has_rh assms cfg_copy_key)

lemma item_r5:
  assumes "word v"
  shows "lcs_cfg_item_r5 (lit ''targetpath_0001:'' @ v) i = map_option (\<lambda>x. i\<lparr>targetpath_r5 := x\<rparr>) (mem_write (targetpath_r5 i) 0 v)"
    and "lcs_cfg_item_r5 (lit ''name_ana_0002:'' @ v) i = map_option (\<lambda>x. i\<lparr>name_ana_r5 := x\<rparr>) (mem_write (name_ana_r5 i) 0 v)"
  by (simp_all add: lcs_cfg_item_r5_def has_rh assms cfg_copy_key)

text \<open>paths and names of programs without characters that mean something to the shell\<close>

definition safe :: "bytes \<Rightarrow> bool" where
  "safe p \<longleftrightarrow> list_all (\<lambda>b. 45 \<le> b \<and> b \<le> 57 \<or> 65 \<le> b \<and> b \<le> 90 \<or> b = 95 \<or> 97 \<le> b \<and> b \<le> 122) p"

lemma safe_simps [simp]: "safe []" "safe (a @ b) \<longleftrightarrow> safe a \<and> safe b"
  by (auto simp: safe_def)

lemma safe_Cons [simp]:
  "safe (b # p) \<longleftrightarrow> (45 \<le> b \<and> b \<le> 57 \<or> 65 \<le> b \<and> b \<le> 90 \<or> b = 95 \<or> 97 \<le> b \<and> b \<le> 122) \<and> safe p"
  by (simp add: safe_def)

lemma safe_word: "safe p \<Longrightarrow> word p"
proof -
  have "b \<noteq> 32" "b \<noteq> 13" "b \<noteq> 10" "b \<noteq> 58" "b \<noteq> 0"
    if "45 \<le> b \<and> b \<le> 57 \<or> 65 \<le> b \<and> b \<le> 90 \<or> b = 95 \<or> 97 \<le> b \<and> b \<le> 122" for b :: byte
    using that by (intro notI; simp)+
  then show "safe p \<Longrightarrow> word p" by (simp add: safe_def word_def blank_def list_all_iff)
qed

lemma safe_lits: "safe (lit ''.analysis'')" "safe (lit ''.config.cfg'')" "safe (lit ''../sql/'')" "safe (lit ''.sql'')"
  by (simp_all add: lit_def)

text \<open>what is written for \<^verbatim>\<open>_05m\<close>, and for the hour\<close>

definition cfg5 :: "bytes \<Rightarrow> bytes \<Rightarrow> bytes" where
  "cfg5 dir ana = lit ''targetpath_0001:'' @ dir @ 10 # lit ''name_ana_0002:'' @ ana"

definition cfgh :: "bytes \<Rightarrow> bytes \<Rightarrow> bytes \<Rightarrow> bytes" where
  "cfgh dir ana prog = lit ''targetpath_0001:'' @ dir @ 10 # lit ''name_ana_0002:'' @ ana @ 10 # lit ''subprocess_0003:'' @ prog"

lemma small_cfg:
  assumes "fs path = Some t" and "0 \<notin> set t" and "length t < 4000"
  shows "cfg_file item fs path i = cfg_loop item t i"
  by (rule cfg_file_text) (use assms in simp_all)

lemma cfg5_read:
  assumes "fs cfg = Some (cfg5 dir ana)" and "safe dir" and "safe ana" and "length dir < 1024" and "length ana < 64"
  shows "lcs_cfg_load_r5 fs cfg empty_r5 = Some \<lparr>targetpath_r5 = pad 1024 dir, name_ana_r5 = pad 64 ana\<rparr>"
proof -
  have "0 \<notin> set (cfg5 dir ana)" using word_no_zero [OF safe_word] assms by (auto simp: cfg5_def lit_no_zero)
  moreover have "length (cfg5 dir ana) < 4000" using assms by (simp add: cfg5_def)
  ultimately show ?thesis
    using assms safe_word
    by (simp add: lcs_cfg_load_r5_def small_cfg cfg5_def cfg_loop_line key_rh item_r5 empty_r5_def mem_write_zeros)
qed

lemma cfgh_read:
  assumes "fs cfg = Some (cfgh dir ana prog)" and "safe dir" and "safe ana" and "safe prog"
    and "length dir < 1024" and "length ana < 64" and "length prog < 1024"
  shows "lcs_cfg_load_rh fs cfg empty_rh = Some \<lparr>targetpath_rh = pad 1024 dir, name_ana_rh = pad 64 ana, subprocess_rh = pad 1024 prog\<rparr>"
proof -
  have "0 \<notin> set (cfgh dir ana prog)" using word_no_zero [OF safe_word] assms by (auto simp: cfgh_def lit_no_zero)
  moreover have "length (cfgh dir ana prog) < 4000" using assms by (simp add: cfgh_def)
  ultimately show ?thesis
    using assms safe_word
    by (simp add: lcs_cfg_load_rh_def small_cfg cfgh_def cfg_loop_line key_rh item_rh empty_rh_def mem_write_zeros)
qed

section \<open>Five minutes: what is written\<close>

definition rep_path :: "bytes \<Rightarrow> bytes \<Rightarrow> bytes" where
  "rep_path dir ana = dir @ 47 # ana @ lit ''.analysis''"

definition cfg_path :: "bytes \<Rightarrow> bytes \<Rightarrow> bytes" where
  "cfg_path dir ana = dir @ 47 # ana @ lit ''.config.cfg''"

definition db_of :: "bytes \<Rightarrow> bytes" where
  "db_of dir = dir @ lit ''/lcs.db''"

definition sql_of :: "bytes \<Rightarrow> bytes" where
  "sql_of ana = lit ''../sql/'' @ ana @ lit ''.sql''"

lemma paths_differ [simp]:
  "rep_path d a \<noteq> cfg_path d' a'" "cfg_path d' a' \<noteq> rep_path d a" "rep_path d a \<noteq> db_of d'" "db_of d' \<noteq> rep_path d a"
  "rep_path d a \<noteq> sql_of a'" "sql_of a' \<noteq> rep_path d a" "cfg_path d a \<noteq> db_of d'" "db_of d' \<noteq> cfg_path d a"
  "cfg_path d a \<noteq> sql_of a'" "sql_of a' \<noteq> cfg_path d a"
proof -
  have "last (rep_path d a) = 115" "last (cfg_path d a) = 103" "last (db_of d) = 98" "last (sql_of a) = 108" for d a
    by (simp_all add: rep_path_def cfg_path_def db_of_def sql_of_def lit_def)
  then have l: "p = q \<Longrightarrow> last p = last q"
    "last (rep_path d a) = 115" "last (cfg_path d a) = 103" "last (db_of d) = 98" "last (sql_of a) = 108" for d a and p q :: bytes
    by simp_all
  have n: "(115 :: byte) \<noteq> 103" "(115 :: byte) \<noteq> 98" "(115 :: byte) \<noteq> 108" "(103 :: byte) \<noteq> 98" "(103 :: byte) \<noteq> 108" by simp_all
  show "rep_path d a \<noteq> cfg_path d' a'" "cfg_path d' a' \<noteq> rep_path d a" "rep_path d a \<noteq> db_of d'" "db_of d' \<noteq> rep_path d a"
    "rep_path d a \<noteq> sql_of a'" "sql_of a' \<noteq> rep_path d a" "cfg_path d a \<noteq> db_of d'" "db_of d' \<noteq> cfg_path d a"
    "cfg_path d a \<noteq> sql_of a'" "sql_of a' \<noteq> cfg_path d a"
    using l n by metis+
qed

text \<open>a database that answers the query of the report with the rows \<open>xs\<close>, and a report that can be written\<close>

definition five_ok :: "sql_db \<Rightarrow> (bytes \<Rightarrow> bool) \<Rightarrow> bytes \<Rightarrow> bytes \<Rightarrow> (nat \<times> nat) list \<Rightarrow> files \<Rightarrow> bool" where
  "five_ok D can dir ana xs fs \<longleftrightarrow> counted xs \<and> length (lines_of [9] xs) < 2 ^ 32 \<and> fs (db_of dir) \<noteq> None \<and> can (rep_path dir ana) \<and>
     so_open D (db_of dir) = 0 \<and> so_begin D (db_of dir) = 0 \<and>
     (case fs (sql_of ana) of None \<Rightarrow> False
      | Some q \<Rightarrow> 0 \<notin> set q \<and> length q < 2 ^ 32 \<and>
          fst (so_select D (db_of dir) q) = map (\<lambda>(n, j). [Some (dec n), Some (lcs_arr_key ! j)]) xs)"

lemma five_minutes:
  assumes "five_ok D can dir ana xs fs" and "fs cfg = Some (cfg5 dir ana)"
    and "safe dir" and "safe ana" and "length dir < 900" and "length ana < 64"
  shows "main_r5 D can cfg fs = Some (fs(rep_path dir ana \<mapsto> lines_of [9] xs))"
proof -
  obtain q where q: "fs (sql_of ana) = Some q" "0 \<notin> set q" "length q < 2 ^ 32"
    "fst (so_select D (db_of dir) q) = map (\<lambda>(n, j). [Some (dec n), Some (lcs_arr_key ! j)]) xs"
    using assms(1) by (auto simp: five_ok_def split: option.splits)
  have load: "lcs_cfg_load_r5 fs cfg empty_r5 = Some \<lparr>targetpath_r5 = pad 1024 dir, name_ana_r5 = pad 64 ana\<rparr>"
    using assms by (intro cfg5_read) simp_all
  have z: "0 \<notin> set dir" "0 \<notin> set ana" using assms(3,4) by (simp_all add: safe_word word_no_zero)
  have paths: "fit 1024 (dir @ lit ''/lcs.db'') = Some (db_of dir)" "fit 1024 (dir @ 47 # ana @ lit ''.analysis'') = Some (rep_path dir ana)"
    "fit 1024 (lit ''../sql/'' @ ana @ lit ''.sql'') = Some (sql_of ana)"
    using assms(5,6) by (simp_all add: fit_def db_of_def rep_path_def sql_of_def)
  have tx: "snd (lcs_file_text (fs(rep_path dir ana \<mapsto> [])) (sql_of ana)) = Some (q @ [0])"
    using q by (simp add: lcs_file_text_def)
  have rows: "those (map lcs_exec_cbtrue (map (\<lambda>(n, j). [Some (dec n), Some (lcs_arr_key ! j)]) xs)) =
      Some (map (\<lambda>(n, j). dec n @ 9 # lcs_arr_key ! j @ [9] @ [10]) xs)"
    by (induction xs) auto
  have "lcs_exec_sql D can (sql_of ana) (db_of dir) (rep_path dir ana) fs = Some (fs(rep_path dir ana \<mapsto> lines_of [9] xs))"
    using assms(1) q(2) unfolding lcs_exec_sql_def tx Let_def
    by (simp add: five_ok_def c_str_append_zero q(4) rows [simplified] lines_of_def)
  moreover have "fs (db_of dir) \<noteq> None" using assms(1) by (simp add: five_ok_def)
  ultimately show ?thesis
    using z assms(5,6) by (auto simp: main_r5_def load lcs_unit_analysis_def fld_pad paths)
qed

section \<open>The hour: what is written\<close>

text \<open>the shell runs the program at a path on the path of a configuration\<close>

definition runs :: "(bytes \<Rightarrow> files \<Rightarrow> files option) \<Rightarrow> bytes \<Rightarrow> (bytes \<Rightarrow> files \<Rightarrow> files option) \<Rightarrow> bool" where
  "runs sh prog f \<longleftrightarrow> (\<forall>path fs. safe path \<longrightarrow> sh (prog @ 32 # path) fs = f path fs \<and>
     sh (prog @ 32 # path @ lit '' > /dev/null'') fs = f path fs)"

definition under :: "bytes \<Rightarrow> bytes \<Rightarrow> bool" where
  "under dir p \<longleftrightarrow> take (length dir + 1) p = dir @ [47]"

lemma under_append: "under dir (dir @ 47 # p)"
  by (simp add: under_def)

text \<open>what a directory of five minutes gets\<close>

definition unit_upd :: "bytes \<Rightarrow> bytes \<Rightarrow> (nat \<times> nat) list \<Rightarrow> files" where
  "unit_upd dir ana xs = [cfg_path dir ana \<mapsto> cfg5 dir ana, rep_path dir ana \<mapsto> lines_of [9] xs]"

definition hour_upd :: "bytes \<Rightarrow> bytes \<Rightarrow> (bytes \<Rightarrow> (nat \<times> nat) list) \<Rightarrow> bytes list \<Rightarrow> files" where
  "hour_upd dir ana X subs = foldr (\<lambda>s m. unit_upd (dir @ 47 # s) ana (X s) ++ m) subs Map.empty"

text \<open>
  an hour whose directories have databases that answer and no report yet; \<open>X s\<close> is what the one of \<open>s\<close> answers
\<close>

definition hour_ok ::
  "sql_db \<Rightarrow> (bytes \<Rightarrow> bool) \<Rightarrow> bytes \<Rightarrow> bytes \<Rightarrow> bytes list \<Rightarrow> (bytes \<Rightarrow> (nat \<times> nat) list) \<Rightarrow> files \<Rightarrow> bool" where
  "hour_ok D can dir ana subs X fs \<longleftrightarrow> safe dir \<and> safe ana \<and> length dir < 870 \<and> length ana < 64 \<and>
     distinct subs \<and> length subs < 62 \<and> can (rep_path dir ana) \<and>
     (\<forall>s \<in> set subs. safe s \<and> length s < 16 \<and> five_ok D can (dir @ 47 # s) ana (X s) fs \<and>
        can (cfg_path (dir @ 47 # s) ana) \<and> fs (rep_path (dir @ 47 # s) ana) = None)"

lemma rep_path_inj [simp]: "rep_path d a = rep_path d' a \<longleftrightarrow> d = d'"
  by (simp add: rep_path_def)

lemma five_ok_cong:
  "fs' (db_of dir) = fs (db_of dir) \<Longrightarrow> fs' (sql_of ana) = fs (sql_of ana) \<Longrightarrow> five_ok D can dir ana xs fs' = five_ok D can dir ana xs fs"
  by (simp add: five_ok_def)

lemma hour_ok_Cons:
  assumes "hour_ok D can dir ana (s # subs) X fs"
  shows "hour_ok D can dir ana subs X (fs ++ unit_upd (dir @ 47 # s) ana (X s))"
proof -
  let ?fs = "fs ++ unit_upd (dir @ 47 # s) ana (X s)"
  have "?fs (db_of d) = fs (db_of d)" "?fs (sql_of ana) = fs (sql_of ana)" for d
    by (simp_all add: unit_upd_def)
  then have "five_ok D can (dir @ 47 # t) ana (X t) ?fs = five_ok D can (dir @ 47 # t) ana (X t) fs" for t
    by (intro five_ok_cong)
  moreover have "?fs (rep_path (dir @ 47 # t) ana) = None" if "t \<in> set subs" for t
  proof -
    have "t \<noteq> s" "fs (rep_path (dir @ 47 # t) ana) = None" using assms that by (auto simp: hour_ok_def)
    then show ?thesis by (simp add: unit_upd_def)
  qed
  ultimately show ?thesis using assms unfolding hour_ok_def by (simp del: map_add_None)
qed

lemma hour_loop_total:
  assumes "runs sh prog (main_r5 D can)" and "safe prog" and "length prog < 1024"
    and "name_ana_rh info = pad 64 ana" and "subprocess_rh info = pad 1024 prog"
  shows "hour_ok D can dir ana subs X fs \<Longrightarrow>
    hour_loop sh can info dir subs fs (cvec f) = Some (fs ++ hour_upd dir ana X subs, cvec (\<lambda>j. f j + (\<Sum>s \<leftarrow> subs. calls (X s) j)))"
proof (induction subs arbitrary: fs f)
  case Nil
  show ?case by (simp add: hour_upd_def)
next
  case (Cons s subs)
  let ?d = "dir @ 47 # s"
  let ?fs1 = "fs(cfg_path ?d ana \<mapsto> cfg5 ?d ana)" and ?fs2 = "fs ++ unit_upd ?d ana (X s)"
  have ok: "safe dir" "safe ana" "safe s" "length dir < 870" "length ana < 64" "length s < 16" "five_ok D can ?d ana (X s) fs"
    "can (cfg_path ?d ana)" "fs (rep_path ?d ana) = None" "counted (X s)"
    using Cons.prems by (auto simp: hour_ok_def five_ok_def)
  have z: "0 \<notin> set ana" "0 \<notin> set prog" using ok(2) assms(2) by (simp_all add: safe_word word_no_zero)
  have flds: "fld (name_ana_rh info) = Some ana" "fld (subprocess_rh info) = Some prog"
    using z ok(5) assms(3) by (simp_all add: assms(4,5) fld_pad)
  have paths: "fit 1024 (dir @ 47 # s @ 47 # ana @ lit ''.analysis'') = Some (rep_path ?d ana)"
    "fit 1024 (dir @ 47 # s @ 47 # ana @ lit ''.config.cfg'') = Some (cfg_path ?d ana)"
    using ok by (simp_all add: fit_def rep_path_def cfg_path_def)
  have cmd: "fit 2048 (prog @ 32 # cfg_path ?d ana) = Some (prog @ 32 # cfg_path ?d ana)"
    using ok assms(3) by (simp add: fit_def cfg_path_def)
  have "safe (cfg_path ?d ana)" using ok safe_lits by (simp add: cfg_path_def)
  moreover have "main_r5 D can (cfg_path ?d ana) ?fs1 = Some (?fs1(rep_path ?d ana \<mapsto> lines_of [9] (X s)))"
    by (rule five_minutes) (use ok five_ok_cong [of ?fs1 ?d fs ana D can "X s"] in simp_all)
  moreover have "?fs1(rep_path ?d ana \<mapsto> lines_of [9] (X s)) = ?fs2" by (simp add: unit_upd_def)
  ultimately have gen: "lcs_unit_gen sh can info dir s ana fs = Some ?fs2"
    using assms(1) ok(8) cmd by (simp add: lcs_unit_gen_def lcs_unit_config_def paths flds runs_def cfg5_def)
  have len: "length (lines_of [9] (X s)) < 2 ^ 32" using ok(7) by (simp add: five_ok_def)
  have "?fs2 (rep_path ?d ana) = Some (lines_of [9] (X s))" by (simp add: unit_upd_def)
  then have rep: "snd (lcs_file_text ?fs2 (rep_path ?d ana)) = Some (lines_of [9] (X s) @ [0])"
    using len by (simp add: lcs_file_text_def)
  have none: "snd (lcs_file_text fs (rep_path ?d ana)) = None" using ok(9) by (simp add: lcs_file_text_def)
  have add: "add_text (Some (lines_of [9] (X s) @ [0])) (cvec f) = Some (cvec (\<lambda>j. f j + calls (X s) j))"
    by (rule add_lines) (use ok(10) in simp_all)
  show ?case
    using Cons.IH [OF hour_ok_Cons [OF Cons.prems], of "\<lambda>j. f j + calls (X s) j"] none gen rep add
    by (simp add: flds paths hour_upd_def add.assoc)
qed

text \<open>all that the hour writes\<close>

definition hour_out :: "bytes \<Rightarrow> bytes \<Rightarrow> (bytes \<Rightarrow> (nat \<times> nat) list) \<Rightarrow> bytes list \<Rightarrow> files" where
  "hour_out dir ana X subs = (hour_upd dir ana X subs)(rep_path dir ana \<mapsto> report (cvec (\<lambda>j. \<Sum>s \<leftarrow> subs. calls (X s) j)))"

lemma hour_main:
  assumes "runs sh prog (main_r5 D can)" and "safe prog" and "length prog < 1024"
    and "hour_ok D can dir ana subs X fs" and "fs cfg = Some (cfgh dir ana prog)"
    and "lcs_comm_subdir opendir dir 0 = Some (e, Some subs)"
  shows "main_rh sh can opendir cfg fs = Some (fs ++ hour_out dir ana X subs)"
proof -
  let ?i = "\<lparr>targetpath_rh = pad 1024 dir, name_ana_rh = pad 64 ana, subprocess_rh = pad 1024 prog\<rparr>"
  have h: "safe dir" "safe ana" "length dir < 870" "length ana < 64" "length subs < 62" "can (rep_path dir ana)"
    using assms(4) by (simp_all add: hour_ok_def)
  have load: "lcs_cfg_load_rh fs cfg empty_rh = Some ?i" by (rule cfgh_read) (use h assms in simp_all)
  have z: "0 \<notin> set dir" "0 \<notin> set ana" using h by (simp_all add: safe_word word_no_zero)
  have flds: "fld (targetpath_rh ?i) = Some dir" "fld (name_ana_rh ?i) = Some ana" using h z by (simp_all add: fld_pad)
  have path: "fit 1024 (dir @ 47 # ana @ lit ''.analysis'') = Some (rep_path dir ana)" using h by (simp add: fit_def rep_path_def)
  have "hour_loop sh can ?i dir subs fs (replicate 5 0) =
      Some (fs ++ hour_upd dir ana X subs, cvec (\<lambda>j. \<Sum>s \<leftarrow> subs. calls (X s) j))"
    using hour_loop_total [OF assms(1-3), of ?i ana dir subs X fs "\<lambda>_. 0"] assms(4) by (simp add: cvec_zero)
  then show ?thesis
    using assms(6) h flds path by (simp add: main_rh_def load lcs_hcollect_ana_rh_def hour_out_def)
qed

lemma unit_upd_dom: "p \<in> dom (unit_upd dir ana xs) \<Longrightarrow> under dir p"
  by (auto simp: unit_upd_def under_def rep_path_def cfg_path_def split: if_splits)

lemma under_sub: "under (dir @ 47 # s) p \<Longrightarrow> under dir p"
  unfolding under_def by (drule arg_cong [where f = "take (length dir + 1)"]) (simp add: min_def)

lemma hour_out_dom: "p \<in> dom (hour_out dir ana X subs) \<Longrightarrow> under dir p"
proof -
  have "p \<in> dom (hour_upd dir ana X subs) \<Longrightarrow> under dir p"
    by (induction subs) (auto simp: hour_upd_def dest: unit_upd_dom [OF domI] under_sub)
  moreover have "under dir (rep_path dir ana)" by (simp add: rep_path_def under_append)
  ultimately show "p \<in> dom (hour_out dir ana X subs) \<Longrightarrow> under dir p" by (auto simp: hour_out_def split: if_splits)
qed

text \<open>
  C18. An hour without reports gets one: for each disposition the number of calls that the databases of
  its directories of five minutes answer together, modulo \<open>2 ^ 32\<close>. Nothing outside its directory changes.
\<close>

theorem hour_report:
  assumes "runs sh prog (main_r5 D can)" and "safe prog" and "length prog < 1024"
    and "hour_ok D can dir ana subs X fs" and "fs cfg = Some (cfgh dir ana prog)"
    and "lcs_comm_subdir opendir dir 0 = Some (e, Some subs)"
  shows "\<exists>fs'. main_rh sh can opendir cfg fs = Some fs' \<and>
    fs' (rep_path dir ana) = Some (report (cvec (\<lambda>j. \<Sum>s \<leftarrow> subs. calls (X s) j))) \<and>
    (\<forall>s \<in> set subs. fs' (rep_path (dir @ 47 # s) ana) \<noteq> None) \<and> (\<forall>p. \<not> under dir p \<longrightarrow> fs' p = fs p)"
proof (intro exI conjI ballI allI impI)
  show "main_rh sh can opendir cfg fs = Some (fs ++ hour_out dir ana X subs)" by (rule hour_main [OF assms])
  show "(fs ++ hour_out dir ana X subs) (rep_path dir ana) = Some (report (cvec (\<lambda>j. \<Sum>s \<leftarrow> subs. calls (X s) j)))"
    by (simp add: hour_out_def)
  show "(fs ++ hour_out dir ana X subs) (rep_path (dir @ 47 # s) ana) \<noteq> None" if "s \<in> set subs" for s
  proof -
    have "rep_path (dir @ 47 # s) ana \<in> dom (hour_upd dir ana X subs)"
      using that by (induction subs) (auto simp: hour_upd_def unit_upd_def)
    then show ?thesis by (auto simp: hour_out_def)
  qed
  show "(fs ++ hour_out dir ana X subs) p = fs p" if "\<not> under dir p" for p
    using that hour_out_dom [of p dir ana X subs] by (auto simp: map_add_def domIff split: option.splits)
qed

section \<open>Failures\<close>

text \<open>
  A failure is not noticed: the report of five minutes whose database cannot be opened is left empty, and
  every later run of the hour adds nothing for it, whatever the database would answer then.
\<close>

theorem failed_report_kept:
  assumes "five_ok D can dir ana xs fs" and "so_open D' (db_of dir) \<noteq> 0" and "fs cfg = Some (cfg5 dir ana)"
    and "safe dir" and "safe ana" and "length dir < 900" and "length ana < 64" and "name_ana_rh info = pad 64 ana"
    and "dir = h @ 47 # s"
  shows "\<exists>fs'. main_r5 D' can cfg fs = Some fs' \<and> fs' (rep_path dir ana) = Some [] \<and>
    hour_loop sh can info h [s] fs' cs = Some (fs', cs)"
proof -
  obtain q where q: "fs (sql_of ana) = Some q" "length q < 2 ^ 32" "can (rep_path dir ana)" "fs (db_of dir) \<noteq> None"
    using assms(1) by (auto simp: five_ok_def split: option.splits)
  have load: "lcs_cfg_load_r5 fs cfg empty_r5 = Some \<lparr>targetpath_r5 = pad 1024 dir, name_ana_r5 = pad 64 ana\<rparr>"
    using assms by (intro cfg5_read) simp_all
  have z: "0 \<notin> set dir" "0 \<notin> set ana" using assms(4,5) by (simp_all add: safe_word word_no_zero)
  have paths: "fit 1024 (dir @ lit ''/lcs.db'') = Some (db_of dir)" "fit 1024 (dir @ 47 # ana @ lit ''.analysis'') = Some (rep_path dir ana)"
    "fit 1024 (lit ''../sql/'' @ ana @ lit ''.sql'') = Some (sql_of ana)"
    using assms(6,7) by (simp_all add: fit_def db_of_def rep_path_def sql_of_def)
  have "lcs_exec_sql D' can (sql_of ana) (db_of dir) (rep_path dir ana) fs = Some (fs(rep_path dir ana \<mapsto> []))"
    using q assms(2) by (simp add: lcs_exec_sql_def lcs_file_text_def)
  then have "main_r5 D' can cfg fs = Some (fs(rep_path dir ana \<mapsto> []))"
    using q(4) z assms(6,7) by (auto simp: main_r5_def load lcs_unit_analysis_def fld_pad paths)
  moreover have "hour_loop sh can info h [s] (fs(rep_path dir ana \<mapsto> [])) cs = Some (fs(rep_path dir ana \<mapsto> []), cs)"
    using paths(2) z assms(7,8) unfolding assms(9) by (simp add: fld_pad lcs_file_text_def add_text_def c_str_def)
  ultimately show ?thesis by simp
qed

section \<open>Concrete inputs\<close>

text \<open>a shell that knows one program, a database that answers three busy calls, and a tree of an hour\<close>

definition demo_shell :: "bytes \<Rightarrow> (bytes \<Rightarrow> files \<Rightarrow> files option) \<Rightarrow> bytes \<Rightarrow> files \<Rightarrow> files option" where
  "demo_shell prog f cmd fs = f (takeWhile (\<lambda>b. b \<noteq> 32) (drop (length prog + 1) cmd)) fs"

definition demo_db :: sql_db where
  "demo_db = \<lparr>so_open = \<lambda>_. 0, so_begin = \<lambda>_. 0, so_select = \<lambda>_ _. ([[Some (dec 3), Some (lit ''BUSY'')]], 0)\<rparr>"

definition demo_tree :: "bytes \<Rightarrow> dirent list option" where
  "demo_tree p = Some [(if p = lit ''d'' then lit ''00'' else lit ''05'', Some Dir)]"

lemma demo_shell_runs: "runs (demo_shell prog f) prog f"
proof (unfold runs_def demo_shell_def, intro allI impI conjI)
  fix path :: bytes and fs :: files
  assume "safe path"
  then have p: "\<forall>b \<in> set path. b \<noteq> 32" using safe_word by (auto simp: word_def blank_def)
  then have t: "takeWhile (\<lambda>b. b \<noteq> 32) path = path" "takeWhile (\<lambda>b. b \<noteq> 32) (path @ 32 # q) = path" for q
    by (simp_all add: takeWhile_eq_all_conv takeWhile_append)
  have d: "drop (length prog + 1) (prog @ 32 # q) = q" for q :: bytes by simp
  have l: "lit '' > /dev/null'' = 32 # lit ''> /dev/null''" by (simp add: lit_def)
  show "f (takeWhile (\<lambda>b. b \<noteq> 32) (drop (length prog + 1) (prog @ 32 # path))) fs = f path fs"
    by (simp only: d t)
  show "f (takeWhile (\<lambda>b. b \<noteq> 32) (drop (length prog + 1) (prog @ 32 # path @ lit '' > /dev/null''))) fs = f path fs"
    by (simp only: d t l)
qed

definition demo_hour :: files where
  "demo_hour = [lit ''c'' \<mapsto> cfgh (lit ''d/00'') (lit ''A'') (lit ''f''), db_of (lit ''d/00/05'') \<mapsto> [], sql_of (lit ''A'') \<mapsto> lit ''q'']"

lemma demo_hour_ok: "hour_ok demo_db (\<lambda>_. True) (lit ''d/00'') (lit ''A'') [lit ''05''] (\<lambda>_. [(3, 1)]) demo_hour"
proof -
  have "safe (lit ''d/00'')" "safe (lit ''A'')" "safe (lit ''05'')" "demo_hour (db_of (lit ''d/00'' @ 47 # lit ''05'')) = Some []"
    "demo_hour (sql_of (lit ''A'')) = Some (lit ''q'')" "demo_hour (rep_path (lit ''d/00'' @ 47 # lit ''05'') (lit ''A'')) = None"
    "lines_of [9] [(3, 1)] = 51 # 9 # lit ''BUSY'' @ [9, 10]" "lcs_arr_key ! 1 = lit ''BUSY''" "0 \<notin> set (lit ''q'')"
    by code_simp+
  then show ?thesis by (simp add: hour_ok_def five_ok_def demo_db_def)
qed

theorem hour_report_witness:
  "\<exists>fs'. main_rh (demo_shell (lit ''f'') (main_r5 demo_db (\<lambda>_. True))) (\<lambda>_. True) demo_tree (lit ''c'') demo_hour = Some fs' \<and>
    fs' (rep_path (lit ''d/00'') (lit ''A'')) = Some (report [0, 3, 0, 0, 0])"
proof -
  have "demo_hour (lit ''c'') = Some (cfgh (lit ''d/00'') (lit ''A'') (lit ''f''))" "safe (lit ''f'')"
    "lcs_comm_subdir demo_tree (lit ''d/00'') 0 = Some (0, Some [lit ''05''])"
    "cvec (\<lambda>j. \<Sum>s \<leftarrow> [lit ''05'']. calls [(3, 1)] j) = [0, 3, 0, 0, 0]"
    by code_simp+
  with hour_report [OF demo_shell_runs _ _ demo_hour_ok this(1,3)] show ?thesis by auto
qed

theorem failed_report_kept_witness:
  "\<exists>fs'. main_r5 (demo_db\<lparr>so_open := \<lambda>_. 14\<rparr>) (\<lambda>_. True) (lit ''c'') (demo_hour(lit ''c'' \<mapsto> cfg5 (lit ''d/00/05'') (lit ''A''))) = Some fs' \<and>
    fs' (rep_path (lit ''d/00/05'') (lit ''A'')) = Some []"
proof -
  let ?fs = "demo_hour(lit ''c'' \<mapsto> cfg5 (lit ''d/00/05'') (lit ''A''))"
  have e: "lit ''d/00/05'' = lit ''d/00'' @ 47 # lit ''05''" by code_simp
  have "?fs (db_of (lit ''d/00/05'')) = demo_hour (db_of (lit ''d/00/05''))" "?fs (sql_of (lit ''A'')) = demo_hour (sql_of (lit ''A''))"
    by code_simp+
  then have ok: "five_ok demo_db (\<lambda>_. True) (lit ''d/00/05'') (lit ''A'') [(3, 1)] ?fs"
    using demo_hour_ok five_ok_cong [of ?fs "lit ''d/00/05''" demo_hour "lit ''A''"] by (simp add: hour_ok_def e)
  have "safe (lit ''d/00/05'')" "safe (lit ''A'')" by code_simp+
  from failed_report_kept [OF ok _ _ this, of "demo_db\<lparr>so_open := \<lambda>_. 14\<rparr>" "lit ''c''" "empty_rh\<lparr>name_ana_rh := pad 64 (lit ''A'')\<rparr>" "lit ''d/00''" "lit ''05''"]
  show ?thesis by (auto simp: e)
qed

end
