(* ===== verification/ReportsDay.thy ===== *)
theory ReportsDay
  imports Reports
begin

text \<open>
  \<^verbatim>\<open>A_00000n_day\<close>: one thread for each hour of a day without a report, which runs the program of the hour;
  then the sum of the reports of the hours. The main thread and the threads of the hours are the relation
  \<open>day_step\<close> of all their interleavings, where a command is one step; \<^term>\<open>None\<close> is a state after
  undefined behaviour.

  Shown: whatever the interleaving, no state is undefined, every run ends, and the report of the day says what
  all databases of the day answer together: the day over the hours over their five minutes.
\<close>

section \<open>The threads\<close>

text \<open>the strings of \<^verbatim>\<open>lcs_info_cfg\<close>, the directories, and the program the hours are told to run\<close>

record day_env =
  e_sh :: "bytes \<Rightarrow> files \<Rightarrow> files option"
  e_can :: "bytes \<Rightarrow> bool"
  e_dir :: bytes
  e_ana :: bytes
  e_prog :: bytes
  e_prog5 :: bytes
  e_sub :: "bytes list"

text \<open>a thread writes the configuration, runs the command, counts down, and is gone\<close>

datatype tphase = Config | Cmd bytes | Leave | Gone

datatype dpc = Scan nat | Waiting | Reported

record day =
  d_pc :: dpc
  d_files :: files
  d_count :: int
  d_threads :: "(bytes \<times> tphase) list"

text \<open>\<^verbatim>\<open>lcs_dgen_config\<close>: the path and the files; \<^term>\<open>None\<close> in the second place is an error\<close>

definition lcs_dgen_config :: "day_env \<Rightarrow> bytes \<Rightarrow> files \<Rightarrow> (bytes \<times> files option) option" where
  "lcs_dgen_config E h fs = do {
     path \<leftarrow> fit 1024 (e_dir E @ 47 # h @ 47 # e_ana E @ lit ''.config.cfg'');
     Some (path, if e_can E path
       then Some (fs(path \<mapsto> lit ''targetpath_0001:'' @ (e_dir E @ 47 # h) @ 10 # lit ''name_ana_0002:'' @ e_ana E @ 10 #
         lit ''subprocess_0003:'' @ e_prog5 E))
       else None)
   }"

text \<open>\<^verbatim>\<open>lcs_ana_001\<close> with \<^verbatim>\<open>lcs_dgen_subtask\<close>: one step of thread \<open>i\<close>\<close>

definition lcs_ana_001 :: "day_env \<Rightarrow> nat \<Rightarrow> day \<Rightarrow> day option" where
  "lcs_ana_001 E i s =
     (case d_threads s ! i of
        (h, Config) \<Rightarrow> do {
          (path, fs) \<leftarrow> lcs_dgen_config E h (d_files s);
          case fs of None \<Rightarrow> Some (s\<lparr>d_threads := (d_threads s)[i := (h, Leave)]\<rparr>)
          | Some fs \<Rightarrow> do {
              cmd \<leftarrow> fit 1024 (e_prog E @ 32 # path @ lit '' > /dev/null'');
              Some (s\<lparr>d_files := fs, d_threads := (d_threads s)[i := (h, Cmd cmd)]\<rparr>)
            }
        }
      | (h, Cmd cmd) \<Rightarrow> do {
          fs \<leftarrow> e_sh E cmd (d_files s);
          Some (s\<lparr>d_files := fs, d_threads := (d_threads s)[i := (h, Leave)]\<rparr>)
        }
      | (h, Leave) \<Rightarrow> Some (s\<lparr>d_count := d_count s - 1, d_threads := (d_threads s)[i := (h, Gone)]\<rparr>)
      | (h, Gone) \<Rightarrow> Some s)"

text \<open>the sum over the hours\<close>

fun day_sum :: "day_env \<Rightarrow> bytes list \<Rightarrow> files \<Rightarrow> 32 word list \<Rightarrow> 32 word list option" where
  "day_sum E [] fs cs = Some cs"
| "day_sum E (h # hs) fs cs = do {
     tmp \<leftarrow> fit 1024 (e_dir E @ 47 # h @ 47 # e_ana E @ lit ''.analysis'');
     cs1 \<leftarrow> add_text (snd (lcs_file_text fs tmp)) cs;
     day_sum E hs fs cs1
   }"

text \<open>
  \<^verbatim>\<open>lcs_hcollect_ana\<close>, one step: the next directory, with a thread whose \<^verbatim>\<open>LCS_ANA001_HOUR\<close> has the
  strings in arrays of 1024, 6 and 64 bytes; the end of the scan, which removes an old report if there are
  threads; the sum, once the counter is 0
\<close>

definition lcs_hcollect_ana_rd :: "day_env \<Rightarrow> day \<Rightarrow> day option" where
  "lcs_hcollect_ana_rd E s = do {
     dest \<leftarrow> fit 1024 (e_dir E @ 47 # e_ana E @ lit ''.analysis'');
     case d_pc s of
       Scan i \<Rightarrow>
         if i < length (e_sub E) then do {
           let h = e_sub E ! i;
           tmp \<leftarrow> fit 1024 (e_dir E @ 47 # h @ 47 # e_ana E @ lit ''.analysis'');
           if d_files s tmp \<noteq> None then Some (s\<lparr>d_pc := Scan (i + 1)\<rparr>)
           else do {
             dir \<leftarrow> fit 1024 (e_dir E); sub \<leftarrow> fit 6 h; ana \<leftarrow> fit 64 (e_ana E);
             Some (s\<lparr>d_count := d_count s + 1, d_threads := d_threads s @ [(sub, Config)], d_pc := Scan (i + 1)\<rparr>)
           }
         } else Some (s\<lparr>d_files := (if d_threads s = [] then d_files s else (d_files s)(dest := None)), d_pc := Waiting\<rparr>)
     | Waiting \<Rightarrow> do {
         cs \<leftarrow> day_sum E (e_sub E) (d_files s) (replicate 5 0);
         Some (s\<lparr>d_files := (if e_can E dest then (d_files s)(dest \<mapsto> report cs) else d_files s), d_pc := Reported\<rparr>)
       }
     | Reported \<Rightarrow> Some s
   }"

inductive day_step :: "day_env \<Rightarrow> day option \<Rightarrow> day option \<Rightarrow> bool" for E where
  scan: "d_pc s = Scan i \<Longrightarrow> day_step E (Some s) (lcs_hcollect_ana_rd E s)"
| sum: "d_pc s = Waiting \<Longrightarrow> d_count s = 0 \<Longrightarrow> day_step E (Some s) (lcs_hcollect_ana_rd E s)"
| hour: "i < length (d_threads s) \<Longrightarrow> snd (d_threads s ! i) \<noteq> Gone \<Longrightarrow> day_step E (Some s) (lcs_ana_001 E i s)"

text \<open>
  \<^verbatim>\<open>main\<close> up to the call: without the directory nothing is done (the inner \<^term>\<open>None\<close>). The loops over the
  array of 62 pointers end at a null pointer.
\<close>

definition main_rd ::
  "(bytes \<Rightarrow> files \<Rightarrow> files option) \<Rightarrow> (bytes \<Rightarrow> bool) \<Rightarrow> (bytes \<Rightarrow> dirent list option) \<Rightarrow> bytes \<Rightarrow> bytes \<Rightarrow> files \<Rightarrow>
   (day_env \<times> day) option option" where
  "main_rd sh can opendir prog5 cfg fs = do {
     info \<leftarrow> lcs_cfg_load_rh fs cfg empty_rh;
     dir \<leftarrow> fld (targetpath_rh info); ana \<leftarrow> fld (name_ana_rh info); prog \<leftarrow> fld (subprocess_rh info);
     (err, arrdir) \<leftarrow> lcs_comm_subdir opendir dir 0;
     case arrdir of None \<Rightarrow> Some None
     | Some sub \<Rightarrow>
         if length sub < 62
         then Some (Some (\<lparr>e_sh = sh, e_can = can, e_dir = dir, e_ana = ana, e_prog = prog, e_prog5 = prog5, e_sub = sub\<rparr>,
           \<lparr>d_pc = Scan 0, d_files = fs, d_count = 0, d_threads = []\<rparr>))
         else None
   }"

section \<open>The invariant\<close>

text \<open>
  A day: \<open>subs h\<close> are the directories of hour \<open>h\<close>, \<open>X h s\<close> what the database in the directory \<open>s\<close> of the
  hour answers. No hour has a report yet.
\<close>

definition hour_dir :: "day_env \<Rightarrow> bytes \<Rightarrow> bytes" where
  "hour_dir E h = e_dir E @ 47 # h"

definition day_ok ::
  "sql_db \<Rightarrow> (bytes \<Rightarrow> files \<Rightarrow> files option) \<Rightarrow> (bytes \<Rightarrow> dirent list option) \<Rightarrow> (bytes \<Rightarrow> bytes list) \<Rightarrow>
   (bytes \<Rightarrow> bytes \<Rightarrow> (nat \<times> nat) list) \<Rightarrow> day_env \<Rightarrow> files \<Rightarrow> bool" where
  "day_ok D sh5 opendir subs X E fs \<longleftrightarrow>
     runs (e_sh E) (e_prog E) (main_rh sh5 (e_can E) opendir) \<and> runs sh5 (e_prog5 E) (main_r5 D (e_can E)) \<and>
     safe (e_prog E) \<and> safe (e_prog5 E) \<and> length (e_prog E) < 50 \<and> length (e_prog5 E) < 50 \<and>
     47 \<notin> set (e_ana E) \<and> e_can E (rep_path (e_dir E) (e_ana E)) \<and> length (e_dir E) < 860 \<and> length (e_ana E) < 64 \<and>
     safe (e_dir E) \<and> safe (e_ana E) \<and> distinct (e_sub E) \<and>
     (\<forall>h \<in> set (e_sub E). 47 \<notin> set h \<and> length h < 6 \<and> hour_ok D (e_can E) (hour_dir E h) (e_ana E) (subs h) (X h) fs \<and>
        (\<exists>e. lcs_comm_subdir opendir (hour_dir E h) 0 = Some (e, Some (subs h))) \<and>
        e_can E (cfg_path (hour_dir E h) (e_ana E)) \<and> fs (rep_path (hour_dir E h) (e_ana E)) = None)"

text \<open>what the thread of hour \<open>h\<close> has written in a phase\<close>

definition cfg_upd :: "day_env \<Rightarrow> bytes \<Rightarrow> files" where
  "cfg_upd E h = [cfg_path (hour_dir E h) (e_ana E) \<mapsto> cfgh (hour_dir E h) (e_ana E) (e_prog5 E)]"

definition hour_cmd :: "day_env \<Rightarrow> bytes \<Rightarrow> bytes" where
  "hour_cmd E h = e_prog E @ 32 # cfg_path (hour_dir E h) (e_ana E) @ lit '' > /dev/null''"

fun written :: "(bytes \<Rightarrow> bytes list) \<Rightarrow> (bytes \<Rightarrow> bytes \<Rightarrow> (nat \<times> nat) list) \<Rightarrow> day_env \<Rightarrow> bytes \<Rightarrow> tphase option \<Rightarrow> files" where
  "written subs X E h None = Map.empty"
| "written subs X E h (Some Config) = Map.empty"
| "written subs X E h (Some (Cmd c)) = cfg_upd E h"
| "written subs X E h (Some _) = cfg_upd E h ++ hour_out (hour_dir E h) (e_ana E) (X h) (subs h)"

definition created :: "day_env \<Rightarrow> dpc \<Rightarrow> bytes list" where
  "created E p = (case p of Scan i \<Rightarrow> take i (e_sub E) | _ \<Rightarrow> e_sub E)"

definition day_total :: "(bytes \<Rightarrow> bytes list) \<Rightarrow> (bytes \<Rightarrow> bytes \<Rightarrow> (nat \<times> nat) list) \<Rightarrow> bytes list \<Rightarrow> nat \<Rightarrow> nat" where
  "day_total subs X hs j = (\<Sum>h \<leftarrow> hs. \<Sum>s \<leftarrow> subs h. calls (X h s) j)"

definition day_inv ::
  "(bytes \<Rightarrow> bytes list) \<Rightarrow> (bytes \<Rightarrow> bytes \<Rightarrow> (nat \<times> nat) list) \<Rightarrow> day_env \<Rightarrow> files \<Rightarrow> day \<Rightarrow> bool" where
  "day_inv subs X E fs0 s \<longleftrightarrow>
     map fst (d_threads s) = created E (d_pc s) \<and> (\<forall>i. d_pc s = Scan i \<longrightarrow> i \<le> length (e_sub E)) \<and>
     d_count s = int (length (filter (\<lambda>t. snd t \<noteq> Gone) (d_threads s))) \<and>
     (d_pc s = Reported \<longrightarrow> d_count s = 0 \<and>
        d_files s (rep_path (e_dir E) (e_ana E)) = Some (report (cvec (day_total subs X (e_sub E))))) \<and>
     (\<forall>h c. (h, Cmd c) \<in> set (d_threads s) \<longrightarrow> c = hour_cmd E h) \<and>
     (\<forall>h \<in> set (e_sub E). \<forall>p. under (hour_dir E h) p \<longrightarrow>
        d_files s p = (fs0 ++ written subs X E h (map_of (d_threads s) h)) p) \<and>
     d_files s (sql_of (e_ana E)) = fs0 (sql_of (e_ana E)) \<and>
     (\<forall>p. (\<forall>h \<in> set (e_sub E). \<not> under (hour_dir E h) p) \<longrightarrow> p \<noteq> rep_path (e_dir E) (e_ana E) \<longrightarrow> d_files s p = fs0 p)"

section \<open>The hours do not disturb each other\<close>

lemma under_hour:
  assumes "under (hour_dir E h) p" and "under (hour_dir E h') p" and "47 \<notin> set h" and "47 \<notin> set h'"
  shows "h = h'"
proof -
  have u: "\<exists>q. p = e_dir E @ 47 # h @ 47 # q" if "under (hour_dir E h) p" for h
  proof -
    have "p = (hour_dir E h @ [47]) @ drop (length (hour_dir E h) + 1) p"
      using that append_take_drop_id [of "length (hour_dir E h) + 1" p] by (simp add: under_def)
    then show ?thesis by (simp add: hour_dir_def) blast
  qed
  obtain q q' where "p = e_dir E @ 47 # h @ 47 # q" "p = e_dir E @ 47 # h' @ 47 # q'" using u assms(1,2) by blast
  then have "h @ 47 # q = h' @ 47 # q'" by simp
  then have "takeWhile (\<lambda>b. b \<noteq> 47) (h @ 47 # q) = takeWhile (\<lambda>b. b \<noteq> 47) (h' @ 47 # q')" by simp
  moreover have "takeWhile (\<lambda>b. b \<noteq> 47) (g @ 47 # r) = g" if "47 \<notin> set g" for g r :: bytes
    using that by (auto simp: takeWhile_append)
  ultimately show ?thesis using assms(3,4) by metis
qed

lemma dest_not_under:
  assumes "47 \<notin> set (e_ana E)" and "47 \<notin> set h"
  shows "\<not> under (hour_dir E h) (rep_path (e_dir E) (e_ana E))"
proof
  assume "under (hour_dir E h) (rep_path (e_dir E) (e_ana E))"
  then have "take (length h + 1) (e_ana E @ lit ''.analysis'') = h @ [47]"
    by (simp add: under_def hour_dir_def rep_path_def)
  then have "47 \<in> set (e_ana E @ lit ''.analysis'')" by (metis in_set_conv_decomp in_set_takeD)
  then show False using assms(1) by (simp add: lit_def)
qed

lemma cfg_under: "under (hour_dir E h) (cfg_path (hour_dir E h) (e_ana E))"
  by (simp add: cfg_path_def under_append)

text \<open>an hour depends on its directory and the statement only\<close>

lemma hour_ok_agree:
  assumes "\<forall>p. under dir p \<longrightarrow> p \<noteq> cfg_path dir ana \<longrightarrow> fs' p = fs p" and "fs' (sql_of ana) = fs (sql_of ana)"
  shows "hour_ok D can dir ana subs X fs' = hour_ok D can dir ana subs X fs"
proof -
  have "under dir (db_of (dir @ 47 # s))" "under dir (rep_path (dir @ 47 # s) ana)" for s
    using under_append [of dir] by (simp_all add: db_of_def rep_path_def)
  then have "fs' (db_of (dir @ 47 # s)) = fs (db_of (dir @ 47 # s))" "fs' (rep_path (dir @ 47 # s) ana) = fs (rep_path (dir @ 47 # s) ana)" for s
    using assms(1) by simp_all
  then show ?thesis using assms(2) five_ok_cong [of fs' _ fs ana] by (simp add: hour_ok_def)
qed

lemma map_of_update:
  "i < length xs \<Longrightarrow> distinct (map fst xs) \<Longrightarrow> fst (xs ! i) = h \<Longrightarrow> map_of (xs[i := (h, v)]) = (map_of xs)(h \<mapsto> v)"
proof (induction xs arbitrary: i)
  case (Cons x xs)
  then show ?case by (cases i) (auto simp: fun_eq_iff, metis image_eqI nth_mem)
qed simp

lemma map_fst_update: "i < length xs \<Longrightarrow> fst (xs ! i) = h \<Longrightarrow> map fst (xs[i := (h, v)]) = map fst xs"
  by (intro nth_equalityI) (auto simp: nth_list_update)

lemma running_update:
  assumes "i < length xs" and "P (xs ! i)"
  shows "int (length (filter P (xs[i := x]))) = int (length (filter P xs)) - (if P x then 0 else 1)"
  using assms
proof (induction xs arbitrary: i)
  case (Cons a xs)
  then show ?case by (cases i) auto
qed simp

text \<open>a step of hour \<open>h\<close> changes nothing for the others\<close>

lemma day_inv_thread:
  assumes "day_ok D sh5 opendir subs X E fs0" and "day_inv subs X E fs0 s" and "i < length (d_threads s)"
    and "fst (d_threads s ! i) = h" and "\<forall>p. \<not> under (hour_dir E h) p \<longrightarrow> fs' p = d_files s p"
    and "fs' (sql_of (e_ana E)) = d_files s (sql_of (e_ana E))"
    and "\<forall>p. under (hour_dir E h) p \<longrightarrow> fs' p = (fs0 ++ written subs X E h (Some ph)) p"
    and "\<forall>c. ph = Cmd c \<longrightarrow> c = hour_cmd E h" and "snd (d_threads s ! i) \<noteq> Gone" and "d_pc s \<noteq> Reported"
  shows "day_inv subs X E fs0 (s\<lparr>d_files := fs', d_count := d_count s - (if ph = Gone then 1 else 0),
    d_threads := (d_threads s)[i := (h, ph)]\<rparr>)"
proof -
  have names: "map fst (d_threads s) = created E (d_pc s)" using assms(2) by (simp add: day_inv_def)
  moreover have "distinct (created E (d_pc s))" "set (created E (d_pc s)) \<subseteq> set (e_sub E)"
    using assms(1) by (auto simp: created_def day_ok_def split: dpc.splits dest: in_set_takeD)
  ultimately have dist: "distinct (map fst (d_threads s))" and h: "h \<in> set (e_sub E)"
    using assms(3,4) by (metis length_map nth_map nth_mem subsetD)+
  have sl: "47 \<notin> set g" if "g \<in> set (e_sub E)" for g using assms(1) that by (simp add: day_ok_def)
  note upd = map_of_update [OF assms(3) dist assms(4)] map_fst_update [OF assms(3,4)]
  have files: "fs' p = (fs0 ++ written subs X E g (map_of ((d_threads s)[i := (h, ph)]) g)) p"
    if "g \<in> set (e_sub E)" "under (hour_dir E g) p" for g p
  proof (cases "g = h")
    case True
    then show ?thesis using assms(7) that by (simp add: upd)
  next
    case False
    then have "\<not> under (hour_dir E h) p" using under_hour that sl h by blast
    then show ?thesis using assms(2,5) that False by (simp add: upd day_inv_def)
  qed
  have "int (length (filter (\<lambda>t. snd t \<noteq> Gone) ((d_threads s)[i := (h, ph)]))) = d_count s - (if ph = Gone then 1 else 0)"
    using running_update [of i "d_threads s" "\<lambda>t. snd t \<noteq> Gone" "(h, ph)"] assms(2,3,9)
    by (simp add: day_inv_def)
  moreover have "c = hour_cmd E g" if "(g, Cmd c) \<in> set ((d_threads s)[i := (h, ph)])" for g c
    using that assms(2,8) set_update_subset_insert [of "d_threads s" i "(h, ph)"] by (auto simp: day_inv_def)
  ultimately show ?thesis
    using assms(2,5,6,10) h files names upd by (simp add: day_inv_def)
qed

definition tweight :: "tphase \<Rightarrow> nat" where
  "tweight ph = (case ph of Config \<Rightarrow> 3 | Cmd _ \<Rightarrow> 2 | Leave \<Rightarrow> 1 | Gone \<Rightarrow> 0)"

text \<open>what is left to do\<close>

definition dweight :: "day_env \<Rightarrow> day \<Rightarrow> nat" where
  "dweight E s = (case d_pc s of Scan i \<Rightarrow> 5 * (length (e_sub E) - i) + 2 | Waiting \<Rightarrow> 1 | Reported \<Rightarrow> 0) +
     (\<Sum>t \<leftarrow> d_threads s. tweight (snd t))"

lemma dweight_thread:
  assumes "i < length (d_threads s)" and "tweight ph < tweight (snd (d_threads s ! i))"
  shows "dweight E (s\<lparr>d_files := fs, d_count := n, d_threads := (d_threads s)[i := (h, ph)]\<rparr>) < dweight E s"
    and "dweight E (s\<lparr>d_files := fs, d_threads := (d_threads s)[i := (h, ph)]\<rparr>) < dweight E s"
    and "dweight E (s\<lparr>d_count := n, d_threads := (d_threads s)[i := (h, ph)]\<rparr>) < dweight E s"
proof -
  have "(\<Sum>t \<leftarrow> xs[i := (h, ph)]. tweight (snd t)) < (\<Sum>t \<leftarrow> xs. tweight (snd t))"
    if "i < length xs" "tweight ph < tweight (snd (xs ! i))" for xs
    using that
  proof (induction xs arbitrary: i)
    case (Cons x xs)
    then show ?case by (cases i) auto
  qed simp
  from this [OF assms] show
    "dweight E (s\<lparr>d_files := fs, d_count := n, d_threads := (d_threads s)[i := (h, ph)]\<rparr>) < dweight E s"
    "dweight E (s\<lparr>d_files := fs, d_threads := (d_threads s)[i := (h, ph)]\<rparr>) < dweight E s"
    "dweight E (s\<lparr>d_count := n, d_threads := (d_threads s)[i := (h, ph)]\<rparr>) < dweight E s"
    by (simp_all add: dweight_def)
qed

lemma day_ok_hour:
  assumes "day_ok D sh5 opendir subs X E fs0" and "h \<in> set (e_sub E)"
  shows "47 \<notin> set h" "length h < 6" "safe (hour_dir E h)" "length (hour_dir E h) < 870" "length (e_ana E) < 64"
    "hour_ok D (e_can E) (hour_dir E h) (e_ana E) (subs h) (X h) fs0" "e_can E (cfg_path (hour_dir E h) (e_ana E))"
    "fs0 (rep_path (hour_dir E h) (e_ana E)) = None" "safe (e_ana E)" "length (e_prog E) < 50" "length (e_dir E) < 860"
    "safe (cfg_path (hour_dir E h) (e_ana E))"
  using assms safe_lits by (auto simp: day_ok_def hour_ok_def cfg_path_def)

lemma hour_fits:
  assumes "day_ok D sh5 opendir subs X E fs0" and "h \<in> set (e_sub E)"
  shows "fit 1024 (e_dir E @ 47 # h @ 47 # e_ana E @ lit ''.analysis'') = Some (rep_path (hour_dir E h) (e_ana E))"
    and "fit 1024 (e_dir E @ 47 # h @ 47 # e_ana E @ lit ''.config.cfg'') = Some (cfg_path (hour_dir E h) (e_ana E))"
    and "fit 1024 (e_prog E @ 32 # cfg_path (hour_dir E h) (e_ana E) @ lit '' > /dev/null'') = Some (hour_cmd E h)"
    and "fit 1024 (e_dir E) = Some (e_dir E)" and "fit 6 h = Some h" and "fit 64 (e_ana E) = Some (e_ana E)"
  using day_ok_hour [OF assms] by (simp_all add: fit_def rep_path_def cfg_path_def hour_dir_def hour_cmd_def)

text \<open>the command of an hour, in whatever state the other hours are\<close>

lemma hour_runs:
  assumes "day_ok D sh5 opendir subs X E fs0" and "h \<in> set (e_sub E)"
    and "\<forall>p. under (hour_dir E h) p \<longrightarrow> fs p = (fs0 ++ cfg_upd E h) p" and "fs (sql_of (e_ana E)) = fs0 (sql_of (e_ana E))"
  shows "e_sh E (hour_cmd E h) fs = Some (fs ++ hour_out (hour_dir E h) (e_ana E) (X h) (subs h))"
proof -
  note h = day_ok_hour [OF assms(1,2)]
  have "hour_ok D (e_can E) (hour_dir E h) (e_ana E) (subs h) (X h) fs"
    using h(6) hour_ok_agree [of "hour_dir E h" "e_ana E" fs fs0] assms(3,4) by (simp add: cfg_upd_def)
  moreover have "fs (cfg_path (hour_dir E h) (e_ana E)) = Some (cfgh (hour_dir E h) (e_ana E) (e_prog5 E))"
    using assms(3) cfg_under by (simp add: cfg_upd_def)
  moreover obtain e where "lcs_comm_subdir opendir (hour_dir E h) 0 = Some (e, Some (subs h))"
    using assms(1,2) by (auto simp: day_ok_def)
  ultimately have "main_rh sh5 (e_can E) opendir (cfg_path (hour_dir E h) (e_ana E)) fs =
      Some (fs ++ hour_out (hour_dir E h) (e_ana E) (X h) (subs h))"
    using assms(1) by (intro hour_main) (simp_all add: day_ok_def)
  moreover have "e_sh E (hour_cmd E h) fs = main_rh sh5 (e_can E) opendir (cfg_path (hour_dir E h) (e_ana E)) fs"
    using assms(1) h(12) by (simp add: day_ok_def runs_def hour_cmd_def)
  ultimately show ?thesis by simp
qed

lemma hour_out_sql: "hour_out dir ana X subs (sql_of a) = None"
proof -
  have "hour_upd dir ana X subs (sql_of a) = None"
    by (induction subs) (simp_all add: hour_upd_def unit_upd_def)
  then show ?thesis by (simp add: hour_out_def)
qed

lemma thread_step_inv:
  assumes "day_ok D sh5 opendir subs X E fs0" and "day_inv subs X E fs0 s" and "i < length (d_threads s)"
    and "snd (d_threads s ! i) \<noteq> Gone"
  shows "\<exists>s'. lcs_ana_001 E i s = Some s' \<and> day_inv subs X E fs0 s' \<and> dweight E s' < dweight E s"
proof -
  obtain h ph where t: "d_threads s ! i = (h, ph)" by fastforce
  have mem: "(h, ph) \<in> set (d_threads s)" using assms(3) t by (metis nth_mem)
  have "h \<in> set (map fst (d_threads s))" using mem by force
  moreover have "map fst (d_threads s) = created E (d_pc s)" using assms(2) by (simp add: day_inv_def)
  ultimately have h: "h \<in> set (e_sub E)" by (auto simp: created_def split: dpc.splits dest: in_set_takeD)
  have rep: "d_pc s \<noteq> Reported"
  proof
    assume "d_pc s = Reported"
    then have "filter (\<lambda>t. snd t \<noteq> Gone) (d_threads s) = []" using assms(2) by (auto simp: day_inv_def)
    then show False using mem assms(4) t by (auto simp: filter_empty_conv)
  qed
  have dist: "distinct (map fst (d_threads s))"
    using assms(1,2) by (auto simp: day_inv_def created_def day_ok_def split: dpc.splits)
  have files: "\<forall>p. under (hour_dir E h) p \<longrightarrow> d_files s p = (fs0 ++ written subs X E h (Some ph)) p"
    using assms(2) h map_of_is_SomeI [OF dist mem] by (simp add: day_inv_def)
  note inv = day_inv_thread [OF assms(1-3), of h, OF _ _ _ _ _ assms(4) rep]
  note weight = dweight_thread [OF assms(3)] t tweight_def
  show ?thesis
  proof (cases ph)
    case Config
    have "day_inv subs X E fs0 (s\<lparr>d_files := d_files s ++ cfg_upd E h, d_count := d_count s - (if Cmd (hour_cmd E h) = Gone then 1 else 0),
        d_threads := (d_threads s)[i := (h, Cmd (hour_cmd E h))]\<rparr>)"
      using files cfg_under [of E h] by (intro inv) (auto simp: t cfg_upd_def Config)
    then show ?thesis
      using hour_fits [OF assms(1) h] day_ok_hour(7) [OF assms(1) h]
      by (auto simp: lcs_ana_001_def t Config lcs_dgen_config_def cfg_upd_def cfgh_def hour_dir_def weight)
  next
    case (Cmd c)
    let ?out = "hour_out (hour_dir E h) (e_ana E) (X h) (subs h)"
    have c: "c = hour_cmd E h" using assms(2) mem Cmd by (simp add: day_inv_def)
    have run: "e_sh E c (d_files s) = Some (d_files s ++ ?out)"
      unfolding c by (rule hour_runs [OF assms(1) h]) (use files assms(2) Cmd in \<open>simp_all add: day_inv_def\<close>)
    have "day_inv subs X E fs0 (s\<lparr>d_files := d_files s ++ ?out, d_count := d_count s - (if Leave = Gone then 1 else 0),
        d_threads := (d_threads s)[i := (h, Leave)]\<rparr>)"
    proof (intro inv)
      show "\<forall>p. \<not> under (hour_dir E h) p \<longrightarrow> (d_files s ++ ?out) p = d_files s p"
      proof (intro allI impI)
        fix p assume "\<not> under (hour_dir E h) p"
        then have "?out p = None" using hour_out_dom [of p "hour_dir E h" "e_ana E" "X h" "subs h"] by auto
        then show "(d_files s ++ ?out) p = d_files s p" by (simp add: map_add_def)
      qed
      show "\<forall>p. under (hour_dir E h) p \<longrightarrow> (d_files s ++ ?out) p = (fs0 ++ written subs X E h (Some Leave)) p"
        using files Cmd by (simp add: map_add_def split: option.splits)
    qed (simp_all add: t hour_out_sql map_add_def)
    then show ?thesis using run by (auto simp: lcs_ana_001_def t Cmd weight)
  next
    case Leave
    have "day_inv subs X E fs0 (s\<lparr>d_files := d_files s, d_count := d_count s - (if Gone = Gone then 1 else 0),
        d_threads := (d_threads s)[i := (h, Gone)]\<rparr>)"
      using files by (intro inv) (auto simp: t Leave)
    then show ?thesis by (auto simp: lcs_ana_001_def t Leave weight)
  next
    case Gone
    then show ?thesis using assms(4) t by simp
  qed
qed

section \<open>The main thread\<close>

lemma report_short: "length (report cs) < 2 ^ 32"
proof -
  have d: "length (dec (unat c)) \<le> 10" for c :: "32 word"
  proof -
    have "unat c < 2 ^ LENGTH(32)" by (rule unsigned_less)
    then show ?thesis using length_dec [of "unat c" 10] by simp
  qed
  have k: "length k \<le> 9" if "k \<in> set lcs_arr_key" for k using that by (auto simp: lcs_arr_key_def)
  have "length (concat (map (\<lambda>(k, c). dec (unat c) @ 9 # k @ [10]) xs)) \<le> 30 * length xs" if "set (map fst xs) \<subseteq> set lcs_arr_key" for xs :: "(bytes \<times> 32 word) list"
    using that
  proof (induction xs)
    case (Cons x xs)
    then show ?case using d [of "snd x"] k [of "fst x"] by (auto split: prod.splits)
  qed simp
  moreover have "set (map fst (zip lcs_arr_key cs)) \<subseteq> set lcs_arr_key" by (auto dest: set_zip_leftD)
  moreover have "length (zip lcs_arr_key cs) \<le> 4" by (simp add: lcs_arr_key_def)
  ultimately show ?thesis unfolding report_def by fastforce
qed

lemma add_report: "add_text (Some (report (cvec f) @ [0])) (cvec g) = Some (cvec (\<lambda>j. g j + f j))"
proof -
  have "report (cvec f) \<noteq> []" by (simp add: report_def cvec_def lcs_arr_key_def eval_nat_numeral upt_rec)
  moreover have "0 \<notin> set (report (cvec f))"
    using report_plain [of f] by simp
  ultimately show ?thesis using report_sum [of f g] by (simp add: add_text_def c_str_append_zero)
qed

lemma day_sum_total:
  assumes "\<forall>h \<in> set hs. fit 1024 (e_dir E @ 47 # h @ 47 # e_ana E @ lit ''.analysis'') = Some (rep_path (hour_dir E h) (e_ana E)) \<and>
    fs (rep_path (hour_dir E h) (e_ana E)) = Some (report (cvec (\<lambda>j. \<Sum>s \<leftarrow> subs h. calls (X h s) j)))"
  shows "day_sum E hs fs (cvec f) = Some (cvec (\<lambda>j. f j + day_total subs X hs j))"
  using assms
proof (induction hs arbitrary: f)
  case (Cons h hs)
  have "snd (lcs_file_text fs (rep_path (hour_dir E h) (e_ana E))) =
      Some (report (cvec (\<lambda>j. \<Sum>s \<leftarrow> subs h. calls (X h s) j)) @ [0])"
    using Cons.prems report_short by (simp add: lcs_file_text_def)
  then show ?case using Cons add_report by (simp add: day_total_def add.assoc)
qed (simp add: day_total_def)

lemma main_step_inv:
  assumes "day_ok D sh5 opendir subs X E fs0" and "day_inv subs X E fs0 s"
    and "(\<exists>i. d_pc s = Scan i) \<or> d_pc s = Waiting \<and> d_count s = 0"
  shows "\<exists>s'. lcs_hcollect_ana_rd E s = Some s' \<and> day_inv subs X E fs0 s' \<and> dweight E s' < dweight E s"
proof -
  note inv = assms(2) [unfolded day_inv_def]
  have dest: "fit 1024 (e_dir E @ 47 # e_ana E @ lit ''.analysis'') = Some (rep_path (e_dir E) (e_ana E))"
    using assms(1) by (simp add: day_ok_def fit_def rep_path_def)
  have nd: "\<not> under (hour_dir E h) (rep_path (e_dir E) (e_ana E))" if "h \<in> set (e_sub E)" for h
    using assms(1) that by (intro dest_not_under) (simp_all add: day_ok_def)
  consider (thread) i where "d_pc s = Scan i" "i < length (e_sub E)" | (scanned) i where "d_pc s = Scan i" "i = length (e_sub E)"
    | (sum) "d_pc s = Waiting" "d_count s = 0"
    using assms(3) inv by (metis le_neq_implies_less)
  then show ?thesis
  proof cases
    case thread
    let ?h = "e_sub E ! i"
    have h: "?h \<in> set (e_sub E)" using thread(2) by simp
    have new: "?h \<notin> set (take i (e_sub E))"
      using assms(1) thread(2) by (auto simp: day_ok_def in_set_conv_nth nth_eq_iff_index_eq)
    then have none: "map_of (d_threads s) ?h = None" using inv thread(1) by (simp add: map_of_eq_None_iff created_def flip: set_map)
    have fresh: "d_files s (rep_path (hour_dir E ?h) (e_ana E)) = None"
      using inv h none day_ok_hour(8) [OF assms(1) h] by (simp add: rep_path_def under_append)
    let ?s = "s\<lparr>d_count := d_count s + 1, d_threads := d_threads s @ [(?h, Config)], d_pc := Scan (i + 1)\<rparr>"
    have run: "lcs_hcollect_ana_rd E s = Some ?s"
      using thread dest fresh hour_fits [OF assms(1) h] by (simp add: lcs_hcollect_ana_rd_def)
    have "written subs X E g (map_of (d_threads ?s) g) = written subs X E g (map_of (d_threads s) g)" for g
      using none by (cases "g = ?h") (auto simp: map_add_def split: option.splits)
    then have "day_inv subs X E fs0 ?s"
      using inv thread unfolding day_inv_def by (auto simp: created_def take_Suc_conv_app_nth)
    moreover have "dweight E ?s < dweight E s" using thread by (simp add: dweight_def tweight_def)
    ultimately show ?thesis using run by blast
  next
    case scanned
    let ?s = "s\<lparr>d_files := (if d_threads s = [] then d_files s else (d_files s)(rep_path (e_dir E) (e_ana E) := None)), d_pc := Waiting\<rparr>"
    have run: "lcs_hcollect_ana_rd E s = Some ?s" using scanned dest by (simp add: lcs_hcollect_ana_rd_def)
    have "day_inv subs X E fs0 ?s"
      using inv scanned nd unfolding day_inv_def by (auto simp: created_def)
    moreover have "dweight E ?s < dweight E s" using scanned by (simp add: dweight_def)
    ultimately show ?thesis using run by blast
  next
    case sum
    have gone: "snd t = Gone" if "t \<in> set (d_threads s)" for t
      using inv sum that by (simp add: filter_empty_conv)
    have reps: "d_files s (rep_path (hour_dir E h) (e_ana E)) = Some (report (cvec (\<lambda>j. \<Sum>s \<leftarrow> subs h. calls (X h s) j)))"
      if "h \<in> set (e_sub E)" for h
    proof -
      have "h \<in> fst ` set (d_threads s)" using inv sum that by (simp add: created_def flip: set_map)
      then obtain ph where "map_of (d_threads s) h = Some ph" by (metis map_of_eq_None_iff not_None_eq)
      moreover from this have "ph = Gone" using gone map_of_SomeD by fastforce
      ultimately show ?thesis using inv that by (simp add: rep_path_def under_append hour_out_def)
    qed
    let ?s = "s\<lparr>d_files := (d_files s)(rep_path (e_dir E) (e_ana E) \<mapsto> report (cvec (day_total subs X (e_sub E)))), d_pc := Reported\<rparr>"
    have "day_sum E (e_sub E) (d_files s) (replicate 5 0) = Some (cvec (day_total subs X (e_sub E)))"
      using day_sum_total [of "e_sub E" E "d_files s" X subs "\<lambda>_. 0"] reps hour_fits(1) [OF assms(1)] by (simp add: cvec_zero)
    moreover have "e_can E (rep_path (e_dir E) (e_ana E))" using assms(1) by (simp add: day_ok_def)
    ultimately have run: "lcs_hcollect_ana_rd E s = Some ?s" using sum dest by (simp add: lcs_hcollect_ana_rd_def)
    have "day_inv subs X E fs0 ?s"
      using inv sum nd unfolding day_inv_def by (auto simp: created_def)
    moreover have "dweight E ?s < dweight E s" using sum by (simp add: dweight_def)
    ultimately show ?thesis using run by blast
  qed
qed

section \<open>All interleavings\<close>

definition day_begin :: "files \<Rightarrow> day" where
  "day_begin fs = \<lparr>d_pc = Scan 0, d_files = fs, d_count = 0, d_threads = []\<rparr>"

lemma main_rd_begins: "main_rd sh can opendir prog5 cfg fs = Some (Some (E, s)) \<Longrightarrow> s = day_begin fs"
  by (auto simp: main_rd_def day_begin_def bind_eq_Some_conv split: option.splits if_splits)

lemma day_inv_begin: "day_inv subs X E fs (day_begin fs)"
  by (simp add: day_inv_def day_begin_def created_def)

lemma day_step_inv:
  assumes "day_ok D sh5 opendir subs X E fs0" and "day_inv subs X E fs0 s" and "day_step E (Some s) s'"
  shows "\<exists>t. s' = Some t \<and> day_inv subs X E fs0 t \<and> dweight E t < dweight E s"
  using assms(3)
proof cases
  case (scan i)
  then show ?thesis using main_step_inv [OF assms(1,2)] by auto
next
  case sum
  then show ?thesis using main_step_inv [OF assms(1,2)] by auto
next
  case (hour i)
  then show ?thesis using thread_step_inv [OF assms(1,2)] by auto
qed

interpretation day_sys: invariant_system "\<lambda>s. s = Some (day_begin fs0)" "day_step E"
  "\<lambda>s. day_ok D sh5 opendir subs X E fs0 \<longrightarrow> (\<exists>t. s = Some t \<and> day_inv subs X E fs0 t)"
  by unfold_locales (auto intro: day_inv_begin dest: day_step_inv)

lemma day_progress:
  assumes "day_inv subs X E fs0 s" and "d_pc s \<noteq> Reported"
  shows "\<exists>s'. day_step E (Some s) s'"
proof (cases "d_pc s")
  case Waiting
  show ?thesis
  proof (cases "d_count s = 0")
    case False
    then have "filter (\<lambda>t. snd t \<noteq> Gone) (d_threads s) \<noteq> []" using assms(1) by (auto simp: day_inv_def)
    then obtain i where "i < length (d_threads s)" "snd (d_threads s ! i) \<noteq> Gone"
      by (auto simp: filter_empty_conv in_set_conv_nth)
    then show ?thesis by (blast intro: day_step.hour)
  qed (use Waiting in \<open>blast intro: day_step.sum\<close>)
qed (use assms(2) in \<open>auto intro: day_step.scan\<close>)

lemma day_finishes:
  assumes "day_ok D sh5 opendir subs X E fs0" and "day_inv subs X E fs0 s"
  shows "\<exists>t. (day_step E)\<^sup>*\<^sup>* (Some s) (Some t) \<and> d_pc t = Reported"
  using assms(2)
proof (induction "dweight E s" arbitrary: s rule: less_induct)
  case less
  show ?case
  proof (cases "d_pc s = Reported")
    case False
    then obtain s1 where s1: "day_step E (Some s) s1" using day_progress [OF less.prems] by blast
    then obtain t where "s1 = Some t" "day_inv subs X E fs0 t" "dweight E t < dweight E s"
      using day_step_inv [OF assms(1) less.prems] by blast
    then show ?thesis using less.hyps s1 by (meson converse_rtranclp_into_rtranclp)
  qed blast
qed

lemma hour_dir_under: "under (hour_dir E h) p \<Longrightarrow> under (e_dir E) p"
  unfolding hour_dir_def by (rule under_sub)

text \<open>
  C16. Whatever the order in which the threads of the hours run, nothing is undefined, and when the day has its
  report, all threads are gone and it says, for each disposition, how many calls the databases of all five
  minutes of all hours answer together, modulo \<open>2 ^ 32\<close>. Nothing outside the day's directory has changed.
\<close>

theorem day_report:
  assumes "main_rd sh can opendir prog5 cfg fs = Some (Some (E, s0))" and "day_ok D sh5 opendir subs X E fs"
    and "reachable (\<lambda>s. s = Some s0) (day_step E) s"
  shows "\<exists>t. s = Some t \<and> (d_pc t = Reported \<longrightarrow>
    d_files t (rep_path (e_dir E) (e_ana E)) = Some (report (cvec (\<lambda>j. \<Sum>h \<leftarrow> e_sub E. \<Sum>s \<leftarrow> subs h. calls (X h s) j))) \<and>
    map fst (d_threads t) = e_sub E \<and> (\<forall>h ph. (h, ph) \<in> set (d_threads t) \<longrightarrow> ph = Gone) \<and>
    (\<forall>p. \<not> under (e_dir E) p \<longrightarrow> d_files t p = fs p))"
proof -
  have "s0 = day_begin fs" by (rule main_rd_begins [OF assms(1)])
  then obtain t where t: "s = Some t" "day_inv subs X E fs t" using day_sys.reachable_inv assms(2,3) by blast
  show ?thesis
  proof (intro exI [of _ t] conjI impI allI)
    assume r: "d_pc t = Reported"
    show "d_files t (rep_path (e_dir E) (e_ana E)) = Some (report (cvec (\<lambda>j. \<Sum>h \<leftarrow> e_sub E. \<Sum>s \<leftarrow> subs h. calls (X h s) j)))"
      using t(2) r by (simp add: day_inv_def day_total_def [abs_def])
    show "map fst (d_threads t) = e_sub E" using t(2) r by (simp add: day_inv_def created_def)
    show "ph = Gone" if "(h, ph) \<in> set (d_threads t)" for h ph
      using t(2) r that unfolding day_inv_def by (auto simp: filter_empty_conv) force
    show "d_files t p = fs p" if "\<not> under (e_dir E) p" for p
    proof -
      have "p \<noteq> rep_path (e_dir E) (e_ana E)" using that under_append by (auto simp: rep_path_def)
      moreover have "\<not> under (hour_dir E h) p" for h using that hour_dir_under by blast
      ultimately show ?thesis using t(2) by (simp add: day_inv_def)
    qed
  qed (rule t(1))
qed

text \<open>C17. Every run of the program of the day comes to its end: none is infinite, and none stops before the report.\<close>

theorem day_ends:
  assumes "main_rd sh can opendir prog5 cfg fs = Some (Some (E, s0))" and "day_ok D sh5 opendir subs X E fs"
  shows "\<not> (\<exists>f. f 0 = Some s0 \<and> (\<forall>i. day_step E (f i) (f (Suc i)))) \<and>
    (\<forall>s. reachable (\<lambda>s. s = Some s0) (day_step E) s \<longrightarrow> (\<exists>t. s = Some t \<and> (d_pc t \<noteq> Reported \<longrightarrow> (\<exists>s'. day_step E s s'))))"
proof
  have s0: "s0 = day_begin fs" by (rule main_rd_begins [OF assms(1)])
  have no_run: "False" if "f 0 = Some s" "\<forall>i. day_step E (f i) (f (Suc i))" "day_inv subs X E fs s" for f s
    using that
  proof (induction "dweight E s" arbitrary: s f rule: less_induct)
    case less
    then obtain t where "f 1 = Some t" "day_inv subs X E fs t" "dweight E t < dweight E s"
      using day_step_inv [OF assms(2)] by (metis One_nat_def)
    then show ?case using less.hyps [of t "\<lambda>i. f (Suc i)"] less.prems(2) by simp
  qed
  then show "\<not> (\<exists>f. f 0 = Some s0 \<and> (\<forall>i. day_step E (f i) (f (Suc i))))"
    using s0 day_inv_begin by blast
  show "\<forall>s. reachable (\<lambda>s. s = Some s0) (day_step E) s \<longrightarrow> (\<exists>t. s = Some t \<and> (d_pc t \<noteq> Reported \<longrightarrow> (\<exists>s'. day_step E s s')))"
  proof (intro allI impI)
    fix s assume "reachable (\<lambda>s. s = Some s0) (day_step E) s"
    then obtain t where "s = Some t" "day_inv subs X E fs t" using day_sys.reachable_inv assms(2) s0 by blast
    then show "\<exists>t. s = Some t \<and> (d_pc t \<noteq> Reported \<longrightarrow> (\<exists>s'. day_step E s s'))" using day_progress by blast
  qed
qed

section \<open>A day\<close>

text \<open>one hour with one directory, whose database answers three calls that found the line busy\<close>

definition demo_day :: day_env where
  "demo_day = \<lparr>e_sh = demo_shell (lit ''h'') (main_rh (demo_shell (lit ''f'') (main_r5 demo_db (\<lambda>_. True))) (\<lambda>_. True) demo_tree),
     e_can = \<lambda>_. True, e_dir = lit ''d'', e_ana = lit ''A'', e_prog = lit ''h'', e_prog5 = lit ''f'', e_sub = [lit ''00'']\<rparr>"

definition demo_disk :: files where
  "demo_disk = [lit ''c'' \<mapsto> cfgh (lit ''d'') (lit ''A'') (lit ''h''), db_of (lit ''d/00/05'') \<mapsto> [], sql_of (lit ''A'') \<mapsto> lit ''q'']"

lemma demo_day_ok:
  "day_ok demo_db (demo_shell (lit ''f'') (main_r5 demo_db (\<lambda>_. True))) demo_tree (\<lambda>_. [lit ''05'']) (\<lambda>_ _. [(3, 1)]) demo_day demo_disk"
proof -
  have c: "safe (lit ''h'')" "safe (lit ''f'')" "safe (lit ''d'')" "safe (lit ''A'')" "47 \<notin> set (lit ''A'')" "47 \<notin> set (lit ''00'')"
    "lit ''d'' @ 47 # lit ''00'' = lit ''d/00''" "lit ''d/00'' @ 47 # lit ''05'' = lit ''d/00/05''"
    "demo_disk (rep_path (lit ''d/00'') (lit ''A'')) = None" "demo_disk (rep_path (lit ''d/00/05'') (lit ''A'')) = None"
    "demo_disk (db_of (lit ''d/00/05'')) = demo_hour (db_of (lit ''d/00/05''))" "demo_disk (sql_of (lit ''A'')) = demo_hour (sql_of (lit ''A''))"
    "lcs_comm_subdir demo_tree (lit ''d/00'') 0 = Some (0, Some [lit ''05''])"
    by code_simp+
  have "five_ok demo_db (\<lambda>_. True) (lit ''d/00/05'') (lit ''A'') [(3, 1)] demo_disk"
    using demo_hour_ok five_ok_cong [of demo_disk "lit ''d/00/05''" demo_hour "lit ''A''"] c by (simp add: hour_ok_def)
  then have "hour_ok demo_db (\<lambda>_. True) (lit ''d/00'') (lit ''A'') [lit ''05''] (\<lambda>_. [(3, 1)]) demo_disk"
    using demo_hour_ok c by (simp add: hour_ok_def)
  then show ?thesis using c demo_shell_runs by (simp add: day_ok_def demo_day_def hour_dir_def)
qed

lemma demo_day_main:
  "main_rd (e_sh demo_day) (\<lambda>_. True) demo_tree (lit ''f'') (lit ''c'') demo_disk = Some (Some (demo_day, day_begin demo_disk))"
proof -
  have c: "safe (lit ''h'')" "safe (lit ''d'')" "safe (lit ''A'')" "demo_disk (lit ''c'') = Some (cfgh (lit ''d'') (lit ''A'') (lit ''h''))"
    "lcs_comm_subdir demo_tree (lit ''d'') 0 = Some (0, Some [lit ''00''])"
    by code_simp+
  have "lcs_cfg_load_rh demo_disk (lit ''c'') empty_rh =
      Some \<lparr>targetpath_rh = pad 1024 (lit ''d''), name_ana_rh = pad 64 (lit ''A''), subprocess_rh = pad 1024 (lit ''h'')\<rparr>"
    by (rule cfgh_read) (use c in simp_all)
  then show ?thesis
    using c(5) by (simp add: main_rd_def fld_pad lit_no_zero demo_day_def day_begin_def)
qed

theorem day_report_witness:
  "\<exists>t. (day_step demo_day)\<^sup>*\<^sup>* (Some (day_begin demo_disk)) (Some t) \<and> d_pc t = Reported \<and>
    d_files t (rep_path (lit ''d'') (lit ''A'')) = Some (report [0, 3, 0, 0, 0])"
proof -
  obtain t where t: "(day_step demo_day)\<^sup>*\<^sup>* (Some (day_begin demo_disk)) (Some t)" "d_pc t = Reported"
    using day_finishes [OF demo_day_ok day_inv_begin] by blast
  have "reachable (\<lambda>s. s = Some (day_begin demo_disk)) (day_step demo_day) (Some t)"
    using t(1) by (induction rule: rtranclp_induct) (auto intro: reachable.intros)
  note r = day_report [OF demo_day_main demo_day_ok this]
  have "cvec (\<lambda>j. \<Sum>h \<leftarrow> [lit ''00'']. \<Sum>s \<leftarrow> [lit ''05'']. calls [(3, 1)] j) = [0, 3, 0, 0, 0]" by code_simp
  then show ?thesis using r t by (auto simp: demo_day_def)
qed

theorem day_ends_witness:
  "\<not> (\<exists>f. f 0 = Some (day_begin demo_disk) \<and> (\<forall>i. day_step demo_day (f i) (f (Suc i))))"
  using day_ends [OF demo_day_main demo_day_ok] by blast

end
