(* ===== verification/Analysis.thy ===== *)
theory Analysis
  imports Children ReportsDay
begin

text \<open>
  \<^verbatim>\<open>cluster/analysis/analysis.c\<close> (suffix \<open>an\<close>): between the manager and the reports. It reads the
  configuration the manager wrote for a server and a day, and runs, for each report of a list, the program
  of the day on a configuration it writes. It counts threads, but starts none. What it does is a list of
  \<open>act\<close>, as in \<open>ManagerJobs\<close>; the index counts the files it makes.

  Shown: what the manager writes is read into the fields it was meant for, but a name of the list is cut to the
  length of the first; the runs of the list, in order: which program is taken for each report, whatever programs
  there are in the two places, and that the program of the day is run on a file that it reads as the directory
  of the day.
\<close>

section \<open>Configuration\<close>

record LCS_ANALYSIS_INFO_an =
  root_path_an :: bytes
  dbname_an :: bytes
  server_an :: bytes
  list_ana_an :: "bytes list"
  date_an :: bytes
  week_an :: bytes
  month_an :: bytes
  year_an :: bytes

definition empty_an :: LCS_ANALYSIS_INFO_an where
  "empty_an = \<lparr>root_path_an = zeros 1024, dbname_an = zeros 1024, server_an = zeros 1024, list_ana_an = replicate 250 (zeros 9),
     date_an = zeros 12, week_an = zeros 12, month_an = zeros 12, year_an = zeros 12\<rparr>"

text \<open>
  the loop over the names: \<open>n\<close> bytes are copied from each, where \<open>n\<close> is the length of the string up to the end
  of the first, since \<^verbatim>\<open>strtok\<close> has put a NUL there. Behind the string the buffer is 0.
\<close>

definition comma_tab :: "byte \<Rightarrow> bool" where
  "comma_tab b \<longleftrightarrow> b = 44 \<or> b = 9 \<or> b = 10"

function ana_loop :: "nat \<Rightarrow> bytes \<Rightarrow> nat \<Rightarrow> bytes list \<Rightarrow> bytes list option" where
  "ana_loop n s i rows =
     (case strtok comma_tab s of None \<Rightarrow> Some rows
      | Some (p, rest) \<Rightarrow>
          if i < length rows then
            case mem_write (rows ! i) 0 (take n (p @ 0 # rest @ zeros n)) of None \<Rightarrow> None
            | Some r \<Rightarrow> ana_loop n rest (i + 1) (rows[i := r])
          else None)"
  by pat_completeness auto
termination by (relation "measure (\<lambda>(n, s, i, rows). length s)") (auto dest: strtok_shorter)

declare ana_loop.simps [simp del]

definition lcs_cfg_list :: "bytes \<Rightarrow> bytes list \<Rightarrow> bytes list option" where
  "lcs_cfg_list t rows = ana_loop (length (takeWhile comma_tab t) + length (takeWhile (\<lambda>b. \<not> comma_tab b) (dropWhile comma_tab t))) t 0 rows"

text \<open>the last byte of the item is cut off, without a look at it\<close>

definition lcs_cfg_item_an :: "bytes \<Rightarrow> LCS_ANALYSIS_INFO_an \<Rightarrow> LCS_ANALYSIS_INFO_an option" where
  "lcs_cfg_item_an line info =
     (if line = [] then None else let item = butlast line in
      if has item ''root_path_0001:'' then
        map_option (\<lambda>x. info\<lparr>root_path_an := x\<rparr>) (cfg_copy (root_path_an info) item ''root_path_0001:'')
      else if has item ''server_0002:'' then map_option (\<lambda>x. info\<lparr>server_an := x\<rparr>) (cfg_copy (server_an info) item ''server_0002:'')
      else if has item ''dbname_0003:'' then map_option (\<lambda>x. info\<lparr>dbname_an := x\<rparr>) (cfg_copy (dbname_an info) item ''dbname_0003:'')
      else if has item ''list_ana_0004:'' then
        map_option (\<lambda>x. info\<lparr>list_ana_an := x\<rparr>) (lcs_cfg_list (drop (length ''list_ana_0004:'') item) (list_ana_an info))
      else if has item ''date_0005:'' then map_option (\<lambda>x. info\<lparr>date_an := x\<rparr>) (cfg_copy (date_an info) item ''date_0005:'')
      else if has item ''week_0006:'' then map_option (\<lambda>x. info\<lparr>week_an := x\<rparr>) (cfg_copy (week_an info) item ''week_0006:'')
      else if has item ''month_0007:'' then map_option (\<lambda>x. info\<lparr>month_an := x\<rparr>) (cfg_copy (month_an info) item ''month_0007:'')
      else if has item ''year_0008:'' then map_option (\<lambda>x. info\<lparr>year_an := x\<rparr>) (cfg_copy (year_an info) item ''year_0008:'')
      else Some info)"

lemma fgets_shorter: "s \<noteq> [] \<Longrightarrow> fgets 4095 s = (b, r) \<Longrightarrow> length r < length s"
  by (cases s) (auto simp: fgets_def Let_def)

function load_loop_an :: "bytes \<Rightarrow> LCS_ANALYSIS_INFO_an \<Rightarrow> LCS_ANALYSIS_INFO_an option" where
  "load_loop_an s info =
     (if s = [] then Some info
      else let (b, r) = fgets 4095 s in
        case lcs_cfg_item_an (c_str b) info of None \<Rightarrow> None | Some info' \<Rightarrow> load_loop_an r info')"
  by pat_completeness auto
termination by (relation "measure (\<lambda>(s, info). length s)") (auto dest: fgets_shorter [OF _ sym])

declare load_loop_an.simps [simp del]

text \<open>\<^verbatim>\<open>err\<close> and the struct\<close>

definition lcs_cfg_load_an :: "files \<Rightarrow> bytes \<Rightarrow> LCS_ANALYSIS_INFO_an \<Rightarrow> (int \<times> LCS_ANALYSIS_INFO_an) option" where
  "lcs_cfg_load_an fs path info =
     (case fs path of None \<Rightarrow> Some (99, info) | Some s \<Rightarrow> map_option (Pair 0) (load_loop_an s info))"

section \<open>The runs\<close>

text \<open>\<^verbatim>\<open>lcs_analysis_date_config\<close>: the name of the file, and what is written\<close>

definition lcs_analysis_date_config ::
  "bytes option \<Rightarrow> bytes option \<Rightarrow> (bytes \<Rightarrow> bool) \<Rightarrow> (bytes \<Rightarrow> bool) \<Rightarrow> LCS_ANALYSIS_INFO_an \<Rightarrow> bytes \<Rightarrow> (bytes option \<times> act list) option" where
  "lcs_analysis_date_config u env_user can exists p ana = do {
     d \<leftarrow> fld (date_an p);
     d0 \<leftarrow> fit 15 d;
     let date = map (\<lambda>b. if b = 45 then 95 else b) d0; let datef = map (\<lambda>b. if b = 45 then 47 else b) d0;
     subprocess \<leftarrow> fit 128 (lit ''../'' @ ana @ lit ''_hour/lcs_'' @ ana @ lit ''_hour'');
     q \<leftarrow> lcs_comm_get_process exists subprocess;
     result \<leftarrow> fit 128 q;
     path \<leftarrow> gen_path u;
     case path of None \<Rightarrow> Some (None, [])
     | Some f \<Rightarrow>
         if can f then do {
           r \<leftarrow> fld (root_path_an p); s \<leftarrow> fld (server_an p); db \<leftarrow> fld (dbname_an p); us \<leftarrow> env_user;
           Some (Some f, [Write f (lit ''targetpath_0001:'' @ (r @ 47 # s @ 47 # db @ 47 # datef) @ 10 # lit ''name_ana_0002:'' @ ana @ 10 #
             lit ''subprocess_0003:'' @ result @ 10 # lit ''prefixshmkey_0004:'' @ (us @ 46 # s @ 46 # db @ 95 # date))])
         } else Some (Some f, [])
   }"

text \<open>the first program there is, for the year, the month, the week or the day\<close>

fun find_process :: "(bytes \<Rightarrow> bool) \<Rightarrow> bytes \<Rightarrow> bytes list \<Rightarrow> (bytes \<times> bytes) option option" where
  "find_process exists ana [] = Some None"
| "find_process exists ana (a # as) = do {
     p \<leftarrow> fit 128 (lit ''./lcs_'' @ ana @ 95 # a);
     if exists p then Some (Some (a, p))
     else do {
       q \<leftarrow> fit 128 (lit ''../'' @ ana @ 95 # a @ lit ''/lcs_'' @ ana @ 95 # a);
       if exists q then Some (Some (a, q)) else find_process exists ana as
     }
   }"

text \<open>\<^verbatim>\<open>lcs_run_ana\<close> with \<^verbatim>\<open>lcs_ana_date\<close>; the program of a year, month or week is found and not run\<close>

definition lcs_run_ana ::
  "bytes option \<Rightarrow> bytes option \<Rightarrow> (bytes \<Rightarrow> bool) \<Rightarrow> (bytes \<Rightarrow> bool) \<Rightarrow> LCS_ANALYSIS_INFO_an \<Rightarrow> bytes \<Rightarrow> int \<Rightarrow> (act list \<times> int) option" where
  "lcs_run_ana u env_user can exists p ana err = do {
     target \<leftarrow> find_process exists ana [lit ''year'', lit ''month'', lit ''week'', lit ''day''];
     case target of None \<Rightarrow> Some ([], 285)
     | Some (a, process) \<Rightarrow>
         if a = lit ''day'' then do {
           (path, acts) \<leftarrow> lcs_analysis_date_config u env_user can exists p ana;
           case path of None \<Rightarrow> Some (acts, 312)
           | Some f \<Rightarrow> do {
               cmd \<leftarrow> fit 1024 (process @ 32 # f @ lit '' > /dev/null'');
               Some (acts @ [Run cmd, Remove f], err)
             }
         } else Some ([], err)
   }"

text \<open>\<^verbatim>\<open>lcs_run_list_analysis\<close>: the names up to the first that is empty; behind the last row is no other\<close>

fun run_rows ::
  "(nat \<Rightarrow> bytes option) \<Rightarrow> bytes option \<Rightarrow> (bytes \<Rightarrow> bool) \<Rightarrow> (bytes \<Rightarrow> bool) \<Rightarrow> LCS_ANALYSIS_INFO_an \<Rightarrow> nat \<Rightarrow> bytes list \<Rightarrow> int \<Rightarrow>
   (act list \<times> int) option" where
  "run_rows us env_user can exists p i [] err = None"
| "run_rows us env_user can exists p i (row # rows) err = do {
     ana \<leftarrow> fld row;
     if ana = [] then Some ([], err)
     else do {
       (a, e) \<leftarrow> lcs_run_ana (us i) env_user can exists p ana err;
       (b, e') \<leftarrow> run_rows us env_user can exists p (i + 1) rows e;
       Some (a @ b, e')
     }
   }"

definition lcs_run_list_analysis ::
  "(nat \<Rightarrow> bytes option) \<Rightarrow> bytes option \<Rightarrow> (bytes \<Rightarrow> bool) \<Rightarrow> (bytes \<Rightarrow> bool) \<Rightarrow> LCS_ANALYSIS_INFO_an \<Rightarrow> int \<Rightarrow> (act list \<times> int) option" where
  "lcs_run_list_analysis us env_user can exists p err = run_rows us env_user can exists p 0 (list_ana_an p) err"

text \<open>\<^verbatim>\<open>main\<close>: the error of reading the configuration is that of a local variable and lost\<close>

definition main_an ::
  "(nat \<Rightarrow> bytes option) \<Rightarrow> bytes option \<Rightarrow> (bytes \<Rightarrow> bool) \<Rightarrow> (bytes \<Rightarrow> bool) \<Rightarrow> files \<Rightarrow> bytes \<Rightarrow> (act list \<times> int) option" where
  "main_an us env_user can exists fs cfg = do {
     (e, info) \<leftarrow> lcs_cfg_load_an fs cfg empty_an;
     lcs_run_list_analysis us env_user can exists info 0
   }"

section \<open>The list of the reports\<close>

fun joined :: "bytes list \<Rightarrow> bytes" where
  "joined [] = []"
| "joined [a] = a"
| "joined (a # b # as) = a @ 44 # joined (b # as)"

definition ana_name :: "bytes \<Rightarrow> bool" where
  "ana_name a \<longleftrightarrow> a \<noteq> [] \<and> list_all (\<lambda>b. \<not> comma_tab b \<and> b \<noteq> 0) a"

lemma name_row:
  assumes "ana_name a" and "n < 9"
  shows "\<exists>r. mem_write (zeros 9) 0 (take n (a @ 0 # rest @ zeros n)) = Some r \<and> fld r = Some (take n a)"
proof -
  let ?x = "take n (a @ 0 # rest @ zeros n)"
  have len: "length ?x = n" by simp
  have z: "0 \<notin> set a" using assms(1) by (auto simp: ana_name_def list_all_iff)
  have w: "mem_write (zeros 9) 0 ?x = Some (pad 9 ?x)" using assms(2) len by (intro mem_write_zeros) simp
  have "fld (pad 9 ?x) = Some (take n a)"
  proof (cases "n \<le> length a")
    case True
    then have "?x = take n a" by simp
    moreover have "0 \<notin> set (take n a)" using z by (auto dest: in_set_takeD)
    ultimately show ?thesis using assms(2) by (simp add: fld_pad)
  next
    case False
    then have "?x = a @ 0 # take (n - length a - 1) (rest @ zeros n)" by (simp add: take_Cons')
    then show ?thesis using z False by (simp add: fld_def pad_def c_str_append_zero)
  qed
  then show ?thesis using w by blast
qed

lemma ana_loop_names:
  assumes "n < 9"
  shows "list_all ana_name as \<Longrightarrow> i + length as \<le> length rows \<Longrightarrow> \<forall>j. i \<le> j \<and> j < length rows \<longrightarrow> rows ! j = zeros 9 \<Longrightarrow>
    \<exists>rs. ana_loop n (joined as) i rows = Some (take i rows @ rs @ drop (i + length as) rows) \<and>
      map fld rs = map (\<lambda>a. Some (take n a)) as"
proof (induction as arbitrary: i rows rule: joined.induct)
  case 1
  show ?case by (simp add: ana_loop.simps strtok_def)
next
  case (2 a)
  have "strtok comma_tab a = Some (a, [])"
    using 2(1) strtok_field(2) [of a comma_tab 44] by (auto simp: ana_name_def list_all_iff comma_tab_def)
  moreover obtain r where "mem_write (zeros 9) 0 (take n (a @ 0 # [] @ zeros n)) = Some r" "fld r = Some (take n a)"
    using name_row [OF _ assms, of a "[]"] 2(1) unfolding list_all_iff by auto
  moreover have "ana_loop n [] (i + 1) (rows[i := r]) = Some (rows[i := r])" for r by (simp add: ana_loop.simps strtok_def)
  ultimately show ?case using 2(2,3) by (simp add: ana_loop.simps [of n a] upd_conv_take_nth_drop)
next
  case (3 a b as)
  have s: "strtok comma_tab (joined (a # b # as)) = Some (a, joined (b # as))"
    using 3(2) strtok_field(1) [of a comma_tab 44] by (auto simp: ana_name_def list_all_iff comma_tab_def)
  obtain r where r: "mem_write (zeros 9) 0 (take n (a @ 0 # joined (b # as) @ zeros n)) = Some r" "fld r = Some (take n a)"
    using name_row [OF _ assms, of a "joined (b # as)"] 3(2) by auto
  obtain rs where rs: "ana_loop n (joined (b # as)) (i + 1) (rows[i := r]) =
      Some (take (i + 1) (rows[i := r]) @ rs @ drop (i + 1 + length (b # as)) (rows[i := r]))"
    "map fld rs = map (\<lambda>a. Some (take n a)) (b # as)"
    using 3(1) [of "i + 1" "rows[i := r]"] 3(2-4) by auto
  have i: "i < length rows" "rows ! i = zeros 9" using 3(3,4) by simp_all
  have "ana_loop n (joined (a # b # as)) i rows = Some (take (i + 1) (rows[i := r]) @ rs @ drop (i + 1 + length (b # as)) (rows[i := r]))"
    using s r i rs(1) by (simp add: ana_loop.simps [of n "a @ 44 # joined (b # as)"])
  moreover have "take (i + 1) (rows[i := r]) = take i rows @ [r]" using i by (simp add: take_Suc_conv_app_nth)
  ultimately show ?case using r(2) rs(2) by (intro exI [of _ "r # rs"]) simp
qed

lemma cfg_list_names:
  assumes "list_all ana_name (a # as)" and "length a < 9" and "length (a # as) < 250"
  shows "\<exists>rs. lcs_cfg_list (joined (a # as)) (replicate 250 (zeros 9)) = Some (rs @ replicate (250 - length (a # as)) (zeros 9)) \<and>
    map fld rs = map (\<lambda>b. Some (take (length a) b)) (a # as)"
proof -
  have a: "a \<noteq> []" "\<forall>b \<in> set a. \<not> comma_tab b" using assms(1) by (auto simp: ana_name_def list_all_iff)
  then obtain x y where xy: "a = x # y" "\<not> comma_tab x" by (cases a) auto
  obtain q where q: "joined (a # as) = a @ q" "q = [] \<or> comma_tab (hd q)" by (cases as) (auto simp: comma_tab_def)
  then have "takeWhile comma_tab (joined (a # as)) = []" "dropWhile comma_tab (joined (a # as)) = joined (a # as)"
    using xy by simp_all
  moreover have "takeWhile (\<lambda>b. \<not> comma_tab b) (joined (a # as)) = a"
    using a q by (cases q) (auto simp: takeWhile_append takeWhile_eq_all_conv)
  ultimately show ?thesis
    using ana_loop_names [OF assms(2,1), of 0 "replicate 250 (zeros 9)"] assms(3) by (simp add: lcs_cfg_list_def)
qed

section \<open>Reading what the manager wrote\<close>

definition keys_an :: "string list" where
  "keys_an = [''root_path_0001:'', ''server_0002:'', ''dbname_0003:'', ''list_ana_0004:'', ''date_0005:'', ''week_0006:'', ''month_0007:'', ''year_0008:'']"

lemma key_set_an: "key_set keys_an"
  by code_simp

lemmas has_an = has_iff [OF key_set_an, unfolded keys_an_def]

lemma item_an:
  assumes "word v"
  shows "lcs_cfg_item_an (lit ''root_path_0001:'' @ v @ [10]) i = map_option (\<lambda>x. i\<lparr>root_path_an := x\<rparr>) (mem_write (root_path_an i) 0 v)"
    and "lcs_cfg_item_an (lit ''server_0002:'' @ v @ [10]) i = map_option (\<lambda>x. i\<lparr>server_an := x\<rparr>) (mem_write (server_an i) 0 v)"
    and "lcs_cfg_item_an (lit ''dbname_0003:'' @ v @ [10]) i = map_option (\<lambda>x. i\<lparr>dbname_an := x\<rparr>) (mem_write (dbname_an i) 0 v)"
    and "lcs_cfg_item_an (lit ''list_ana_0004:'' @ v @ [10]) i = map_option (\<lambda>x. i\<lparr>list_ana_an := x\<rparr>) (lcs_cfg_list v (list_ana_an i))"
    and "lcs_cfg_item_an (lit ''date_0005:'' @ v @ [10]) i = map_option (\<lambda>x. i\<lparr>date_an := x\<rparr>) (mem_write (date_an i) 0 v)"
    and "lcs_cfg_item_an (lit ''week_0006:'' @ v @ [10]) i = map_option (\<lambda>x. i\<lparr>week_an := x\<rparr>) (mem_write (week_an i) 0 v)"
    and "lcs_cfg_item_an (lit ''month_0007:'' @ v @ [10]) i = map_option (\<lambda>x. i\<lparr>month_an := x\<rparr>) (mem_write (month_an i) 0 v)"
proof -
  have b: "butlast (lit k @ v @ [10]) = lit k @ v" for k by (simp add: butlast_append)
  show "lcs_cfg_item_an (lit ''root_path_0001:'' @ v @ [10]) i = map_option (\<lambda>x. i\<lparr>root_path_an := x\<rparr>) (mem_write (root_path_an i) 0 v)"
    "lcs_cfg_item_an (lit ''server_0002:'' @ v @ [10]) i = map_option (\<lambda>x. i\<lparr>server_an := x\<rparr>) (mem_write (server_an i) 0 v)"
    "lcs_cfg_item_an (lit ''dbname_0003:'' @ v @ [10]) i = map_option (\<lambda>x. i\<lparr>dbname_an := x\<rparr>) (mem_write (dbname_an i) 0 v)"
    "lcs_cfg_item_an (lit ''list_ana_0004:'' @ v @ [10]) i = map_option (\<lambda>x. i\<lparr>list_ana_an := x\<rparr>) (lcs_cfg_list v (list_ana_an i))"
    "lcs_cfg_item_an (lit ''date_0005:'' @ v @ [10]) i = map_option (\<lambda>x. i\<lparr>date_an := x\<rparr>) (mem_write (date_an i) 0 v)"
    "lcs_cfg_item_an (lit ''week_0006:'' @ v @ [10]) i = map_option (\<lambda>x. i\<lparr>week_an := x\<rparr>) (mem_write (week_an i) 0 v)"
    "lcs_cfg_item_an (lit ''month_0007:'' @ v @ [10]) i = map_option (\<lambda>x. i\<lparr>month_an := x\<rparr>) (mem_write (month_an i) 0 v)"
    by (simp_all add: lcs_cfg_item_an_def b has_an assms cfg_copy_key)
qed

lemma item_last: "lcs_cfg_item_an (lit ''year_0008:'') i = Some i"
proof -
  have "list_all (\<lambda>k. \<not> has (butlast (lit ''year_0008:'')) k) keys_an" by code_simp
  then show ?thesis by (simp add: lcs_cfg_item_an_def keys_an_def) (simp add: lit_def)
qed

lemma load_line:
  assumes "10 \<notin> set l" and "0 \<notin> set l" and "length l < 4094"
  shows "load_loop_an (l @ 10 # s) i = (case lcs_cfg_item_an (l @ [10]) i of None \<Rightarrow> None | Some i' \<Rightarrow> load_loop_an s i')"
    and "l \<noteq> [] \<Longrightarrow> load_loop_an l i = lcs_cfg_item_an l i"
proof -
  have tw: "takeWhile (\<lambda>b. b \<noteq> 10) (l @ 10 # s) = l" "takeWhile (\<lambda>b. b \<noteq> 10) l = l"
    using assms(1) by (auto simp: takeWhile_append takeWhile_eq_all_conv)
  have "min 4094 (Suc (length l)) = Suc (length l)" using assms(3) by simp
  then have "fgets 4095 (l @ 10 # s) = (l @ [10], s)" using tw(1) by (simp add: fgets_def Let_def)
  moreover have "c_str (l @ [10]) = l @ [10]" using assms(2) by (simp add: c_str_plain)
  ultimately show "load_loop_an (l @ 10 # s) i = (case lcs_cfg_item_an (l @ [10]) i of None \<Rightarrow> None | Some i' \<Rightarrow> load_loop_an s i')"
    by (simp add: load_loop_an.simps [of "l @ 10 # s"])
  assume "l \<noteq> []"
  moreover have "fgets 4095 l = (l, [])" using assms(3) by (simp only: fgets_def Let_def tw(2)) simp
  moreover have "load_loop_an [] i' = Some i'" for i' by (simp add: load_loop_an.simps)
  ultimately show "load_loop_an l i = lcs_cfg_item_an l i"
    using assms(2) by (simp add: load_loop_an.simps [of l] c_str_plain split: option.splits)
qed

text \<open>
  C22. Of the file the manager writes for a server and a day, the analysis reads the root, the server, the
  database and the day as they were, and the names of the reports in their order, each cut to the length of
  the first; the list ends behind the last.
\<close>

theorem analysis_config_read:
  assumes "described c p" and "gen_path u = Some (Some f)" and "can_open f"
    and "listanalysis c = joined (a # as)" and "list_all ana_name (a # as)" and "length a < 9" and "length as < 200"
  shows "\<exists>t r rs. lcs_gen_analysis_cfg u can_open p = Some (Some f, [Write f t]) \<and>
    lcs_cfg_load_an [f \<mapsto> t] f empty_an = Some (0, r) \<and>
    fld (root_path_an r) = Some (rootpath c) \<and> fld (server_an r) = Some (server c) \<and> fld (dbname_an r) = Some (db c) \<and>
    fld (date_an r) = Some (currentdate c) \<and>
    list_ana_an r = rs @ replicate (249 - length as) (zeros 9) \<and> map fld rs = map (\<lambda>b. Some (take (length a) b)) (a # as)"
proof -
  note fl = described_flds [OF assms(1)] and w = described_words [OF assms(1)]
  have nl: "10 \<notin> set v \<and> 0 \<notin> set v" if "word v" for v using that by (auto simp: word_def blank_def)
  have nk: "10 \<notin> set (lit k) \<and> 0 \<notin> set (lit k)" if "skey k" for k
    using key_bytes [OF skey_key [OF that]] by (auto simp: blank_def)
  have k: "skey ''root_path_0001:''" "skey ''server_0002:''" "skey ''dbname_0003:''" "skey ''list_ana_0004:''" "skey ''date_0005:''"
    "skey ''week_0006:''" "skey ''month_0007:''" "skey ''year_0008:''"
    by code_simp+
  have line: "load_loop_an (lit k @ v @ 10 # s) i = (case lcs_cfg_item_an (lit k @ v @ [10]) i of None \<Rightarrow> None | Some i' \<Rightarrow> load_loop_an s i')"
    if "skey k" "word v" "length (lit k @ v) < 4094" for k v s i
    using load_line(1) [of "lit k @ v" s i] nl [OF that(2)] nk [OF that(1)] that(3) by simp
  have last: "load_loop_an (lit ''year_0008:'') i = Some i" for i
    using load_line(2) [of "lit ''year_0008:''" i] nk [OF k(8)] item_last by (simp add: lit_def)
  have month: "load_loop_an (lit ''month_0007:'' @ 10 # s) i = (case lcs_cfg_item_an (lit ''month_0007:'' @ [10]) i of None \<Rightarrow> None | Some i' \<Rightarrow> load_loop_an s i')" for s i
    using line [OF k(7), of "[]" s i] by simp
  obtain rs where rs: "lcs_cfg_list (listanalysis c) (replicate 250 (zeros 9)) = Some (rs @ replicate (249 - length as) (zeros 9))"
    "map fld rs = map (\<lambda>b. Some (take (length a) b)) (a # as)"
    using cfg_list_names [OF assms(5,6)] assms(7) unfolding assms(4) by auto
  let ?t = "lit ''root_path_0001:'' @ rootpath c @ 10 # lit ''server_0002:'' @ server c @ 10 # lit ''dbname_0003:'' @ db c @ 10 #
    lit ''list_ana_0004:'' @ listanalysis c @ 10 # lit ''date_0005:'' @ currentdate c @ 10 # lit ''week_0006:'' @ currentdate c @ 10 #
    lit ''month_0007:'' @ 10 # lit ''year_0008:''"
  let ?r = "\<lparr>root_path_an = pad 1024 (rootpath c), dbname_an = pad 1024 (db c), server_an = pad 1024 (server c),
    list_ana_an = rs @ replicate (249 - length as) (zeros 9), date_an = pad 12 (currentdate c), week_an = pad 12 (currentdate c),
    month_an = zeros 12, year_an = zeros 12\<rparr>"
  have "lcs_gen_analysis_cfg u can_open p = Some (Some f, [Write f ?t])"
    using assms(2,3) by (simp add: lcs_gen_analysis_cfg_def fl gen_file_writes)
  moreover have "load_loop_an ?t empty_an = Some ?r"
    using w item_an(7) [of "[]"] by (simp add: line k month last item_an empty_an_def mem_write_zeros rs(1) pad_Nil)
  then have "lcs_cfg_load_an [f \<mapsto> ?t] f empty_an = Some (0, ?r)" by (simp add: lcs_cfg_load_an_def)
  ultimately show ?thesis
    using w rs(2) by (intro exI [of _ ?t] exI [of _ ?r] exI [of _ rs]) (simp add: fld_pad word_no_zero)
qed

section \<open>The day's programs\<close>

definition day_place :: "bytes \<Rightarrow> bytes \<Rightarrow> bytes \<Rightarrow> bytes \<Rightarrow> bytes" where
  "day_place r s d dt = r @ 47 # s @ 47 # d @ 47 # map (\<lambda>b. if b = 45 then 47 else b) dt"

text \<open>
  The two places of a program: the current directory, then the directory of the program beside it. Which kind of
  program is taken for a report, and where.
\<close>

definition prog_here :: "bytes \<Rightarrow> bytes \<Rightarrow> bytes" where
  "prog_here a x = lit ''./lcs_'' @ a @ 95 # x"

definition prog_beside :: "bytes \<Rightarrow> bytes \<Rightarrow> bytes" where
  "prog_beside a x = lit ''../'' @ a @ 95 # x @ lit ''/lcs_'' @ a @ 95 # x"

definition prog_at :: "(bytes \<Rightarrow> bool) \<Rightarrow> bytes \<Rightarrow> bytes \<Rightarrow> bytes" where
  "prog_at exists a x = (if exists (prog_here a x) then prog_here a x else prog_beside a x)"

definition first_kind :: "(bytes \<Rightarrow> bool) \<Rightarrow> bytes \<Rightarrow> bytes option" where
  "first_kind exists a = find (\<lambda>x. exists (prog_here a x) \<or> exists (prog_beside a x)) [lit ''year'', lit ''month'', lit ''week'', lit ''day'']"

definition hour_prog :: "bytes \<Rightarrow> bytes" where
  "hour_prog a = lit ''../'' @ a @ lit ''_hour/lcs_'' @ a @ lit ''_hour''"

text \<open>the file for the program of the day: \<open>h\<close> is the program of the hours\<close>

definition day_cfg :: "bytes \<Rightarrow> bytes \<Rightarrow> bytes \<Rightarrow> bytes \<Rightarrow> bytes \<Rightarrow> bytes \<Rightarrow> bytes \<Rightarrow> bytes" where
  "day_cfg r s d dt us h a = lit ''targetpath_0001:'' @ day_place r s d dt @ 10 # lit ''name_ana_0002:'' @ a @ 10 #
     lit ''subprocess_0003:'' @ h @ 10 #
     lit ''prefixshmkey_0004:'' @ (us @ 46 # s @ 46 # d @ 95 # map (\<lambda>b. if b = 45 then 95 else b) dt)"

text \<open>what is done for one report, with the file \<open>f\<close>\<close>

definition ana_acts :: "(bytes \<Rightarrow> bool) \<Rightarrow> bytes \<Rightarrow> bytes \<Rightarrow> bytes \<Rightarrow> bytes \<Rightarrow> bytes \<Rightarrow> bytes \<Rightarrow> bytes \<Rightarrow> act list" where
  "ana_acts exists r s d dt us f a =
     (if first_kind exists a = Some (lit ''day'')
      then [Write f (day_cfg r s d dt us (found exists (hour_prog a)) a),
            Run (prog_at exists a (lit ''day'') @ 32 # f @ lit '' > /dev/null''), Remove f]
      else [])"

declare strstr.simps [simp del]

text \<open>what the struct holds, and words that fit\<close>

definition ana_info :: "LCS_ANALYSIS_INFO_an \<Rightarrow> bytes \<Rightarrow> bytes \<Rightarrow> bytes \<Rightarrow> bytes \<Rightarrow> bytes \<Rightarrow> bool" where
  "ana_info i r s d dt us \<longleftrightarrow> fld (root_path_an i) = Some r \<and> fld (server_an i) = Some s \<and> fld (dbname_an i) = Some d \<and>
     fld (date_an i) = Some dt \<and> word r \<and> word s \<and> word d \<and> word dt \<and> word us \<and> length dt < 12 \<and> length us < 64 \<and>
     length r < 512 \<and> length s < 128 \<and> length d < 64"

lemma find_kind:
  assumes "length a < 9" and "\<forall>x \<in> set ks. length x < 6"
  shows "find_process exists a ks =
    Some (map_option (\<lambda>x. (x, prog_at exists a x)) (find (\<lambda>x. exists (prog_here a x) \<or> exists (prog_beside a x)) ks))"
  using assms(2)
proof (induction ks)
  case (Cons x ks)
  then have "fit 128 (prog_here a x) = Some (prog_here a x)" "fit 128 (prog_beside a x) = Some (prog_beside a x)"
    using assms(1) by (simp_all add: fit_def prog_here_def prog_beside_def)
  with Cons show ?case by (simp add: prog_at_def flip: prog_here_def prog_beside_def)
qed simp

lemma get_process_found:
  assumes "fits 126 v"
  shows "lcs_comm_get_process ex v = Some (found ex v)"
proof (cases "strstr v (lit ''lcs_'')")
  case (Some p)
  then show ?thesis using strstr_length [OF Some] assms
    by (simp add: lcs_comm_get_process_def found_def fit_def fits_def Let_def)
qed (use assms in \<open>simp add: lcs_comm_get_process_def found_def fit_def fits_def\<close>)

lemma hour_prog_fits:
  assumes "word a" and "length a < 9"
  shows "fits 126 (hour_prog a)"
proof -
  have "word (lit ''../'')" "word (lit ''_hour/lcs_'')" "word (lit ''_hour'')" by (simp_all add: word_def blank_def lit_def)
  then show ?thesis using assms by (simp add: fits_def hour_prog_def)
qed

lemma run_one:
  assumes "ana_info i r s d dt us" and "word a" and "length a < 9"
    and "gen_path u = Some (Some f)" and "can f" and "length f < 512"
  shows "lcs_run_ana u (Some us) can exists i a err =
    Some (ana_acts exists r s d dt us f a, if first_kind exists a = None then 285 else err)"
proof -
  have i: "fld (root_path_an i) = Some r" "fld (server_an i) = Some s" "fld (dbname_an i) = Some d" "fld (date_an i) = Some dt" "length dt < 12"
    using assms(1) by (simp_all add: ana_info_def)
  have h: "fit 128 (lit ''../'' @ a @ lit ''_hour/lcs_'' @ a @ lit ''_hour'') = Some (hour_prog a)"
    using assms(3) by (simp add: fit_def hour_prog_def)
  note fs = hour_prog_fits [OF assms(2,3)]
  have p: "fit 128 (found exists (hour_prog a)) = Some (found exists (hour_prog a))"
    using found_bounds [OF fs] by (simp add: fit_def)
  have dt: "fit 15 dt = Some dt" using i(5) by (simp add: fit_def)
  have "length (prog_at exists a (lit ''day'')) < 64"
    using assms(3) by (simp add: prog_at_def prog_here_def prog_beside_def)
  then have cmd: "fit 1024 (prog_at exists a (lit ''day'') @ 32 # f @ lit '' > /dev/null'') =
      Some (prog_at exists a (lit ''day'') @ 32 # f @ lit '' > /dev/null'')"
    using assms(6) by (simp add: fit_def)
  have c: "lcs_analysis_date_config u (Some us) can exists i a =
      Some (Some f, [Write f (day_cfg r s d dt us (found exists (hour_prog a)) a)])"
    using assms(4,5) by (simp add: lcs_analysis_date_config_def i dt h get_process_found [OF fs] p day_cfg_def day_place_def Let_def)
  have "find_process exists a [lit ''year'', lit ''month'', lit ''week'', lit ''day''] =
      Some (map_option (\<lambda>x. (x, prog_at exists a x)) (first_kind exists a))"
    unfolding first_kind_def by (rule find_kind [OF assms(3)]) simp
  then show ?thesis
    using cmd c by (cases "first_kind exists a") (auto simp: lcs_run_ana_def ana_acts_def)
qed

lemma run_rows_days:
  assumes "ana_info i r s d dt us" and "\<forall>j < k + length as. gen_path (u j) = Some (Some (f j)) \<and> can (f j) \<and> length (f j) < 512"
    and "\<forall>a \<in> set as. word a \<and> a \<noteq> [] \<and> length a < 9" and "map fld rs = map Some as"
  shows "run_rows u (Some us) can exists i k (rs @ zeros 9 # rest) err =
    Some (concat (map (\<lambda>j. ana_acts exists r s d dt us (f (k + j)) (as ! j)) [0..<length as]),
      if \<exists>a \<in> set as. first_kind exists a = None then 285 else err)"
  using assms(2-4)
proof (induction as arbitrary: k rs err)
  case Nil
  then show ?case using fld_zeros [of 9] by simp
next
  case (Cons a as)
  obtain x xs where x: "rs = x # xs" "fld x = Some a" "map fld xs = map Some as" using Cons.prems(3) by (cases rs) auto
  let ?e = "if first_kind exists a = None then 285 else err"
  have "lcs_run_ana (u k) (Some us) can exists i a err = Some (ana_acts exists r s d dt us (f k) a, ?e)"
    using Cons.prems(1,2) by (intro run_one [OF assms(1)]) auto
  moreover have "run_rows u (Some us) can exists i (k + 1) (xs @ zeros 9 # rest) ?e =
      Some (concat (map (\<lambda>j. ana_acts exists r s d dt us (f (k + 1 + j)) (as ! j)) [0..<length as]),
        if \<exists>a \<in> set as. first_kind exists a = None then 285 else ?e)"
    using Cons.prems(1,2) by (intro Cons.IH x(3)) auto
  moreover have "[0..<length (a # as)] = 0 # map Suc [0..<length as]" by (simp only: length_Cons map_Suc_upt) (rule upt_conv_Cons, simp)
  ultimately show ?case using x(1,2) Cons.prems(2) by (auto simp: comp_def simp del: upt_Suc)
qed

lemma subst_ball: "\<forall>b \<in> set xs. P b \<Longrightarrow> P c \<Longrightarrow> \<forall>b \<in> set (map (\<lambda>b. if b = d then c else b) xs). P b"
  by (induction xs) simp_all

lemma day_cfg_reads:
  assumes "ana_info i r s d dt us" and "word a" and "length a < 9" and "word h" and "length h < 128"
  shows "\<exists>x. lcs_cfg_load_rh [f \<mapsto> day_cfg r s d dt us h a] f empty_rh = Some x \<and> fld (targetpath_rh x) = Some (day_place r s d dt) \<and>
    fld (name_ana_rh x) = Some a \<and> fld (subprocess_rh x) = Some h"
proof -
  have sub: "word (map (\<lambda>b. if b = 45 then c else b) dt)" if "c = 47 \<or> c = 95" for c
  proof -
    have "word dt" using assms(1) by (simp add: ana_info_def)
    have c: "\<not> blank c \<and> c \<noteq> 58 \<and> c \<noteq> 0" using that unfolding blank_def by (elim disjE) simp_all
    from subst_ball [of dt "\<lambda>b. \<not> blank b \<and> b \<noteq> 58 \<and> b \<noteq> 0", OF _ c] \<open>word dt\<close> show ?thesis
      unfolding word_def by blast
  qed
  have one: "word [46]" "word [47]" "word [95]"
    by (simp_all add: word_def blank_def lit_def)
  have "day_place r s d dt = r @ [47] @ s @ [47] @ d @ [47] @ map (\<lambda>b. if b = 45 then 47 else b) dt" by (simp add: day_place_def)
  then have w1: "word (day_place r s d dt)"
    using assms(1) one sub [of 47] by (simp only: word_append ana_info_def) simp
  have "us @ 46 # s @ 46 # d @ 95 # map (\<lambda>b. if b = 45 then 95 else b) dt =
      us @ [46] @ s @ [46] @ d @ [95] @ map (\<lambda>b. if b = 45 then 95 else b) dt" by simp
  then have w2: "word (us @ 46 # s @ 46 # d @ 95 # map (\<lambda>b. if b = 45 then 95 else b) dt)"
    using assms(1) one sub [of 95] by (simp only: word_append ana_info_def) simp
  have len: "length (day_place r s d dt) < 1024" "length h < 1024"
    using assms(1,5) by (simp_all add: day_place_def ana_info_def)
  have "0 \<notin> set (day_cfg r s d dt us h a)"
    using word_no_zero [OF w1] word_no_zero [OF w2] word_no_zero [OF assms(4)] word_no_zero [OF assms(2)] unfolding day_cfg_def
    by (simp only: set_append set_simps Un_iff insert_iff lit_no_zero) simp
  moreover have "length (day_cfg r s d dt us h a) < 4000" using len assms(1,3) by (simp add: day_cfg_def ana_info_def)
  ultimately have "lcs_cfg_load_rh [f \<mapsto> day_cfg r s d dt us h a] f empty_rh =
      Some \<lparr>targetpath_rh = pad 1024 (day_place r s d dt), name_ana_rh = pad 64 a, subprocess_rh = pad 1024 h\<rparr>"
    using w1 w2 assms(2-5) len
    by (simp add: lcs_cfg_load_rh_def small_cfg day_cfg_def cfg_loop_line key_rh item_rh empty_rh_def mem_write_zeros)
  then show ?thesis using w1 assms(2-5) len by (simp add: fld_pad word_no_zero)
qed

text \<open>
  C23. The runs of the list of reports, whatever programs there are. For each name, in order, the first kind of
  program found decides, of year, month, week and day, each looked for in the current directory and then beside it.
  If it is that of the day, the analysis writes a file, runs the program found first on it and removes it; if it is
  another, nothing is run; if there is none, nothing is run and the error is set. The file is read by
  the program of the day as the directory of the day, its own report and the program of its hours, the one of the
  current directory if it is there.
\<close>

theorem analysis_runs_days:
  assumes "ana_info i r s d dt us" and "\<forall>j < length as. gen_path (u j) = Some (Some (f j)) \<and> can (f j) \<and> length (f j) < 512"
    and "\<forall>a \<in> set as. word a \<and> a \<noteq> [] \<and> length a < 9" and "map fld rs = map Some as" and "list_ana_an i = rs @ zeros 9 # rest"
  shows "lcs_run_list_analysis u (Some us) can exists i err =
      Some (concat (map (\<lambda>j. ana_acts exists r s d dt us (f j) (as ! j)) [0..<length as]),
        if \<exists>a \<in> set as. first_kind exists a = None then 285 else err) \<and>
    (\<forall>a \<in> set as. \<exists>x. lcs_cfg_load_rh [g \<mapsto> day_cfg r s d dt us (found exists (hour_prog a)) a] g empty_rh = Some x \<and>
      fld (targetpath_rh x) = Some (day_place r s d dt) \<and> fld (name_ana_rh x) = Some a \<and>
      fld (subprocess_rh x) = Some (found exists (hour_prog a)))"
proof
  show "lcs_run_list_analysis u (Some us) can exists i err =
      Some (concat (map (\<lambda>j. ana_acts exists r s d dt us (f j) (as ! j)) [0..<length as]),
        if \<exists>a \<in> set as. first_kind exists a = None then 285 else err)"
    using run_rows_days [OF assms(1), of 0 as u f can rs exists rest err] assms(2-5) by (simp add: lcs_run_list_analysis_def)
  show "\<forall>a \<in> set as. \<exists>x. lcs_cfg_load_rh [g \<mapsto> day_cfg r s d dt us (found exists (hour_prog a)) a] g empty_rh = Some x \<and>
      fld (targetpath_rh x) = Some (day_place r s d dt) \<and> fld (name_ana_rh x) = Some a \<and>
      fld (subprocess_rh x) = Some (found exists (hour_prog a))"
    using day_cfg_reads [OF assms(1)] found_bounds [OF hour_prog_fits] assms(3) by blast
qed

section \<open>Concrete inputs\<close>

text \<open>a list whose second name is longer than the first\<close>

definition ana_config :: LCS_MYSQL_SERVER_INFO where
  "ana_config = demo_config\<lparr>listanalysis := lit ''A_1,A_000002''\<rparr>"

definition ana_entry :: LCS_MYSQL_SERVER_INFO where
  "ana_entry = demo_entry\<lparr>listanalysis := pad 2048 (lit ''A_1,A_000002'')\<rparr>"

lemma ana_described: "described ana_config ana_entry"
proof -
  have w: "word (lit ''A_1,A_000002'')" by (simp add: word_def lit_def blank_def)
  then have "fld (pad 2048 (lit ''A_1,A_000002'')) = Some (lit ''A_1,A_000002'')" by (simp add: fld_pad word_no_zero)
  then show ?thesis using demo_described w by (simp add: described_def ana_config_def ana_entry_def fits_def)
qed

theorem analysis_config_read_witness:
  "\<exists>t r rs. lcs_gen_analysis_cfg (Some (lit ''f'' @ [10])) (\<lambda>_. True) ana_entry = Some (Some (lit ''f''), [Write (lit ''f'') t]) \<and>
     lcs_cfg_load_an [lit ''f'' \<mapsto> t] (lit ''f'') empty_an = Some (0, r) \<and> fld (date_an r) = Some (lit ''2017-10-29'') \<and>
     list_ana_an r = rs @ replicate 248 (zeros 9) \<and> map fld rs = [Some (lit ''A_1''), Some (lit ''A_0'')]"
proof -
  have c: "joined [lit ''A_1'', lit ''A_000002''] = lit ''A_1,A_000002''" "list_all ana_name [lit ''A_1'', lit ''A_000002'']"
    "take (length (lit ''A_1'')) (lit ''A_1'') = lit ''A_1''" "take (length (lit ''A_1'')) (lit ''A_000002'') = lit ''A_0''"
    by code_simp+
  have l: "listanalysis ana_config = joined [lit ''A_1'', lit ''A_000002'']" "currentdate ana_config = lit ''2017-10-29''"
    by (simp_all only: c) (simp_all add: ana_config_def demo_config_def)
  have "\<exists>t r rs. lcs_gen_analysis_cfg (Some (lit ''f'' @ [10])) (\<lambda>_. True) ana_entry = Some (Some (lit ''f''), [Write (lit ''f'') t]) \<and>
     lcs_cfg_load_an [lit ''f'' \<mapsto> t] (lit ''f'') empty_an = Some (0, r) \<and>
     fld (root_path_an r) = Some (rootpath ana_config) \<and> fld (server_an r) = Some (server ana_config) \<and>
     fld (dbname_an r) = Some (db ana_config) \<and> fld (date_an r) = Some (currentdate ana_config) \<and>
     list_ana_an r = rs @ replicate (249 - length [lit ''A_000002'']) (zeros 9) \<and>
     map fld rs = map (\<lambda>b. Some (take (length (lit ''A_1'')) b)) [lit ''A_1'', lit ''A_000002'']"
    by (rule analysis_config_read [OF ana_described demo_path _ l(1) c(2)]) simp_all
  then show ?thesis using c(3,4) l(2) by (simp only: list.map) auto
qed

definition demo_info_an :: LCS_ANALYSIS_INFO_an where
  "demo_info_an = empty_an\<lparr>root_path_an := pad 1024 (lit ''/data''), server_an := pad 1024 (lit ''db1''), dbname_an := pad 1024 (lit ''call''),
     date_an := pad 12 (lit ''2017-10-29''), list_ana_an := [pad 9 (lit ''A_000001''), zeros 9]\<rparr>"

text \<open>the programs of one day and its hours in the current directory, as where the repository keeps its binaries\<close>

definition demo_bin :: "bytes \<Rightarrow> bool" where
  "demo_bin q \<longleftrightarrow> q \<in> set (map lit [''./lcs_A_000001_05m'', ''./lcs_A_000001_hour'', ''./lcs_A_000001_day'', ''../A_000001_day/lcs_A_000001_day''])"

lemma demo_bin_kind: "first_kind demo_bin (lit ''A_000001'') = Some (lit ''day'')"
  "prog_at demo_bin (lit ''A_000001'') (lit ''day'') @ 32 # lit ''f'' @ lit '' > /dev/null'' = lit ''./lcs_A_000001_day f > /dev/null''"
  by code_simp+

theorem analysis_runs_days_witness:
  "\<exists>t. lcs_run_list_analysis (\<lambda>_. Some (lit ''f'' @ [10])) (Some (lit ''u'')) (\<lambda>_. True) demo_bin demo_info_an 0 =
      Some ([Write (lit ''f'') t, Run (lit ''./lcs_A_000001_day f > /dev/null''), Remove (lit ''f'')], 0)"
proof -
  have w: "word (lit ''/data'')" "word (lit ''db1'')" "word (lit ''call'')" "word (lit ''2017-10-29'')" "word (lit ''u'')" "word (lit ''A_000001'')"
    by (simp_all add: word_def lit_def blank_def)
  have i: "ana_info demo_info_an (lit ''/data'') (lit ''db1'') (lit ''call'') (lit ''2017-10-29'') (lit ''u'')"
    using w by (simp add: ana_info_def demo_info_an_def fld_pad word_no_zero)
  have p: "\<forall>j < length [lit ''A_000001'']. gen_path (Some (lit ''f'' @ [10])) = Some (Some (lit ''f'')) \<and> True \<and> length (lit ''f'') < 512"
    using demo_path by simp
  have a: "\<forall>a \<in> set [lit ''A_000001'']. word a \<and> a \<noteq> [] \<and> length a < 9" using w(6) by (simp add: lit_def)
  have r: "map fld [pad 9 (lit ''A_000001'')] = map Some [lit ''A_000001'']" using w(6) by (simp add: fld_pad word_no_zero)
  have l: "list_ana_an demo_info_an = [pad 9 (lit ''A_000001'')] @ zeros 9 # []" by (simp add: demo_info_an_def)
  show ?thesis
    using analysis_runs_days [where u = "\<lambda>_. Some (lit ''f'' @ [10])" and f = "\<lambda>_. lit ''f''" and can = "\<lambda>_. True"
        and exists = demo_bin and err = 0, OF i p a r l] demo_bin_kind
    by (auto simp: ana_acts_def)
qed

end
