(* ===== verification/Reports5.thy ===== *)
theory Reports5
  imports ReportsDay
begin

text \<open>
  The report \<^verbatim>\<open>A_000005\<close> of the cluster: rows of a date, an hour and eight counts. \<^verbatim>\<open>A_000005_hour\<close> (suffix
  \<open>h5\<close>) puts the rows its directories of five minutes have together and merges them; \<^verbatim>\<open>A_000005_day\<close> (suffix
  \<open>d5\<close>) starts its threads like the programs of \<open>ReportsDay\<close> (relation \<open>day5_step\<close>), and then has the reports of the hours appended to its
  own file by the shell, which it merges in place. \<^verbatim>\<open>A_000005_05m\<close> differs from the program in \<open>Reports\<close> in what it
  prints. \<^verbatim>\<open>lcs_hcollect005_sum\<close> reads nodes it has given back (\<open>LcsCommon\<close>); what follows supposes that
  they still hold what they held.

  Shown: the hour's report has the sums of the rows of its directories; so has the day's, the first time; if
  the day is run again when all hours have their reports, every count is doubled.
\<close>

section \<open>The hour\<close>

text \<open>the reports that are missing are made\<close>

fun gen_loop_h5 ::
  "(bytes \<Rightarrow> files \<Rightarrow> files option) \<Rightarrow> (bytes \<Rightarrow> bool) \<Rightarrow> LCS_TEMPLATE_INFO_rh \<Rightarrow> bytes \<Rightarrow> bytes list \<Rightarrow> files \<Rightarrow> files option" where
  "gen_loop_h5 sh can info dir [] fs = Some fs"
| "gen_loop_h5 sh can info dir (sub # subs) fs = do {
     ana \<leftarrow> fld (name_ana_rh info);
     tmp \<leftarrow> fit 1024 (dir @ 47 # sub @ 47 # ana @ lit ''.analysis'');
     fs1 \<leftarrow> (if fs tmp = None then lcs_unit_gen sh can info dir sub ana fs else Some fs);
     gen_loop_h5 sh can info dir subs fs1
   }"

text \<open>the texts of the reports there are, up to a NUL\<close>

fun texts_h5 :: "LCS_TEMPLATE_INFO_rh \<Rightarrow> bytes \<Rightarrow> bytes list \<Rightarrow> files \<Rightarrow> bytes option" where
  "texts_h5 info dir [] fs = Some []"
| "texts_h5 info dir (sub # subs) fs = do {
     ana \<leftarrow> fld (name_ana_rh info);
     tmp \<leftarrow> fit 1024 (dir @ 47 # sub @ 47 # ana @ lit ''.analysis'');
     r \<leftarrow> texts_h5 info dir subs fs;
     Some ((case snd (lcs_file_text fs tmp) of None \<Rightarrow> [] | Some t \<Rightarrow> c_str t) @ r)
   }"

text \<open>
  \<^verbatim>\<open>lcs_hcollect_ana\<close>: without \<^verbatim>\<open>fp\<close> a null pointer is followed. The size of the file is an \<^verbatim>\<open>unsigned int\<close>
  in \<^verbatim>\<open>lcs_list005_rows\<close>. The file is removed, and written if there is a row. The result is the files, and
  whether nodes were read that had been given back.
\<close>

definition lcs_hcollect_ana_h5 ::
  "(bytes \<Rightarrow> files \<Rightarrow> files option) \<Rightarrow> (bytes \<Rightarrow> bool) \<Rightarrow> LCS_TEMPLATE_INFO_rh \<Rightarrow> bytes \<Rightarrow> bytes list \<Rightarrow> files \<Rightarrow> (files \<times> bool) option" where
  "lcs_hcollect_ana_h5 sh can info dir sub fs =
     (if length sub < 62 then do {
        fs1 \<leftarrow> gen_loop_h5 sh can info dir sub fs;
        ana \<leftarrow> fld (name_ana_rh info);
        tmpA \<leftarrow> fit 1024 (dir @ 47 # ana @ lit ''.analysis'');
        if \<not> can tmpA then None
        else do {
          t \<leftarrow> texts_h5 info dir sub (fs1(tmpA := None));
          (w, uaf) \<leftarrow> lcs_hcollect005_sum True (take (length t mod 2 ^ 32) t);
          Some (fs1(tmpA := w), uaf)
        }
      } else None)"

definition main_h5 ::
  "(bytes \<Rightarrow> files \<Rightarrow> files option) \<Rightarrow> (bytes \<Rightarrow> bool) \<Rightarrow> (bytes \<Rightarrow> dirent list option) \<Rightarrow> bytes \<Rightarrow> files \<Rightarrow> (files \<times> bool) option" where
  "main_h5 sh can opendir cfg fs = do {
     info \<leftarrow> lcs_cfg_load_rh fs cfg empty_rh;
     dir \<leftarrow> fld (targetpath_rh info);
     (err, arrdir) \<leftarrow> lcs_comm_subdir_ext opendir dir 0;
     case arrdir of None \<Rightarrow> Some (fs, False)
     | Some (names, n) \<Rightarrow> do { sub \<leftarrow> lcs_quick_sort names 0 (n - 1); lcs_hcollect_ana_h5 sh can info dir sub fs }
   }"

section \<open>The day\<close>

text \<open>what the main thread does once the others are gone\<close>

definition lcs_hcollect_sum_d5 :: "(bytes \<Rightarrow> files \<Rightarrow> files option) \<Rightarrow> bytes \<Rightarrow> bytes \<Rightarrow> files \<Rightarrow> files option" where
  "lcs_hcollect_sum_d5 sh dest src fs = do {
     cmd \<leftarrow> fit 2048 (lit ''cat '' @ src @ lit '' >> '' @ dest);
     sh cmd fs
   }"

fun cat_loop_d5 :: "(bytes \<Rightarrow> files \<Rightarrow> files option) \<Rightarrow> bytes \<Rightarrow> bytes \<Rightarrow> bytes \<Rightarrow> bytes list \<Rightarrow> files \<Rightarrow> files option" where
  "cat_loop_d5 sh dir ana dest [] fs = Some fs"
| "cat_loop_d5 sh dir ana dest (h # hs) fs = do {
     tmp \<leftarrow> fit 1024 (dir @ 47 # h @ 47 # ana @ lit ''.analysis'');
     fs1 \<leftarrow> lcs_hcollect_sum_d5 sh dest tmp fs;
     cat_loop_d5 sh dir ana dest hs fs1
   }"

definition day_end_d5 ::
  "(bytes \<Rightarrow> files \<Rightarrow> files option) \<Rightarrow> (bytes \<Rightarrow> bool) \<Rightarrow> bytes \<Rightarrow> bytes \<Rightarrow> bytes list \<Rightarrow> files \<Rightarrow> files option" where
  "day_end_d5 sh can dir ana hs fs = do {
     dest \<leftarrow> fit 1024 (dir @ 47 # ana @ lit ''.analysis'');
     fs1 \<leftarrow> cat_loop_d5 sh dir ana dest hs fs;
     case snd (lcs_file_text fs1 dest) of None \<Rightarrow> Some fs1
     | Some t \<Rightarrow>
         if c_str t = [] then Some fs1
         else do {
           (w, uaf) \<leftarrow> lcs_hcollect005_sum (can dest) (c_str t);
           Some (case w of None \<Rightarrow> fs1 | Some out \<Rightarrow> fs1(dest \<mapsto> out))
         }
   }"

text \<open>
  \<^verbatim>\<open>lcs_hcollect_ana\<close>, one step: the next directory, with a thread if its report is missing; the end of the scan,
  where an old report of the day is removed if there are threads; the rest, once the counter is 0. The threads,
  \<^verbatim>\<open>lcs_ana_005\<close>, have the text of \<^verbatim>\<open>lcs_ana_001\<close>.
\<close>

definition lcs_hcollect_ana_d5 :: "day_env \<Rightarrow> day \<Rightarrow> day option" where
  "lcs_hcollect_ana_d5 E s = do {
     dest \<leftarrow> fit 1024 (e_dir E @ 47 # e_ana E @ lit ''.analysis'');
     case d_pc s of
       Scan i \<Rightarrow>
         if i < length (e_sub E) then do {
           let h = e_sub E ! i;
           tmp \<leftarrow> fit 1024 (e_dir E @ 47 # h @ 47 # e_ana E @ lit ''.analysis'');
           if d_files s tmp \<noteq> None then Some (s\<lparr>d_pc := Scan (i + 1)\<rparr>)
           else do {
             dir \<leftarrow> fit 1024 (e_dir E); sub \<leftarrow> fit 6 h; ana \<leftarrow> fit 64 (e_ana E);
             Some (s\<lparr>d_count := d_count s + 1, d_threads := d_threads s @ [(sub, Config)], d_pc := Scan (i + 1)\<rparr>)
           }
         } else Some (s\<lparr>d_files := (if d_threads s = [] then d_files s else (d_files s)(dest := None)), d_pc := Waiting\<rparr>)
     | Waiting \<Rightarrow> do {
         fs \<leftarrow> day_end_d5 (e_sh E) (e_can E) (e_dir E) (e_ana E) (e_sub E) (d_files s);
         Some (s\<lparr>d_files := fs, d_pc := Reported\<rparr>)
       }
     | Reported \<Rightarrow> Some s
   }"

inductive day5_step :: "day_env \<Rightarrow> day option \<Rightarrow> day option \<Rightarrow> bool" for E where
  scan: "d_pc s = Scan i \<Longrightarrow> day5_step E (Some s) (lcs_hcollect_ana_d5 E s)"
| sum: "d_pc s = Waiting \<Longrightarrow> d_count s = 0 \<Longrightarrow> day5_step E (Some s) (lcs_hcollect_ana_d5 E s)"
| hour: "i < length (d_threads s) \<Longrightarrow> snd (d_threads s ! i) \<noteq> Gone \<Longrightarrow> day5_step E (Some s) (lcs_ana_001 E i s)"

text \<open>the configuration has one more field than that of the other days\<close>

record LCS_TEMPLATE_INFO_d5 = LCS_TEMPLATE_INFO_rh +
  prefixshmkey_d5 :: bytes

definition empty_d5 :: LCS_TEMPLATE_INFO_d5 where
  "empty_d5 = \<lparr>targetpath_rh = zeros 1024, name_ana_rh = zeros 64, subprocess_rh = zeros 1024, prefixshmkey_d5 = zeros 512\<rparr>"

definition lcs_cfg_item_d5 :: "bytes \<Rightarrow> LCS_TEMPLATE_INFO_d5 \<Rightarrow> LCS_TEMPLATE_INFO_d5 option" where
  "lcs_cfg_item_d5 item info =
     (if has item ''targetpath_0001:'' then
        map_option (\<lambda>x. info\<lparr>targetpath_rh := x\<rparr>) (cfg_copy (targetpath_rh info) item ''targetpath_0001:'')
      else if has item ''name_ana_0002:'' then
        map_option (\<lambda>x. info\<lparr>name_ana_rh := x\<rparr>) (cfg_copy (name_ana_rh info) item ''name_ana_0002:'')
      else if has item ''subprocess_0003:'' then
        map_option (\<lambda>x. info\<lparr>subprocess_rh := x\<rparr>) (cfg_copy (subprocess_rh info) item ''subprocess_0003:'')
      else if has item ''prefixshmkey_0004:'' then
        map_option (\<lambda>x. info\<lparr>prefixshmkey_d5 := x\<rparr>) (cfg_copy (prefixshmkey_d5 info) item ''prefixshmkey_0004:'')
      else Some info)"

definition lcs_cfg_load_d5 :: "files \<Rightarrow> bytes \<Rightarrow> LCS_TEMPLATE_INFO_d5 \<Rightarrow> LCS_TEMPLATE_INFO_d5 option" where
  "lcs_cfg_load_d5 fs path info = cfg_file lcs_cfg_item_d5 fs path info"

text \<open>\<^verbatim>\<open>main\<close> up to the call: with an error of the directory, or without it, nothing is done (the inner \<^term>\<open>None\<close>)\<close>

definition main_d5 ::
  "(bytes \<Rightarrow> files \<Rightarrow> files option) \<Rightarrow> (bytes \<Rightarrow> bool) \<Rightarrow> (bytes \<Rightarrow> dirent list option) \<Rightarrow> bytes \<Rightarrow> bytes \<Rightarrow> files \<Rightarrow>
   (day_env \<times> day) option option" where
  "main_d5 sh can opendir prog5 cfg fs = do {
     info \<leftarrow> lcs_cfg_load_d5 fs cfg empty_d5;
     dir \<leftarrow> fld (targetpath_rh info); ana \<leftarrow> fld (name_ana_rh info); prog \<leftarrow> fld (subprocess_rh info);
     (err, arrdir) \<leftarrow> lcs_comm_subdir_ext opendir dir 0;
     if err \<noteq> 0 then Some None
     else case arrdir of None \<Rightarrow> Some None
     | Some (names, n) \<Rightarrow> do {
         sub \<leftarrow> lcs_quick_sort names 0 (n - 1);
         if length sub < 62
         then Some (Some (\<lparr>e_sh = sh, e_can = can, e_dir = dir, e_ana = ana, e_prog = prog, e_prog5 = prog5, e_sub = sub\<rparr>, day_begin fs))
         else None
       }
   }"

section \<open>Merging texts\<close>

definition rows_text :: "row list \<Rightarrow> bytes" where
  "rows_text rs = concat (map row_line rs)"

text \<open>\<open>out\<close> has one row for each date and hour of \<open>rs\<close>, in order, with the sums of the columns\<close>

definition merges :: "row list \<Rightarrow> row list \<Rightarrow> bool" where
  "merges rs out \<longleftrightarrow> sorted_wrt (\<lambda>a b. lcs_merge_counting_cb a b < 0) out \<and> row_key ` set out = row_key ` set rs \<and>
     (\<forall>q \<in> set out. \<forall>k < 8. counts q ! k = col k (filter (\<lambda>r. row_key r = row_key q) rs))"

definition rows_fit :: "row list \<Rightarrow> bool" where
  "rows_fit rs \<longleftrightarrow> (\<forall>r \<in> set rs. row_ok r \<and> 0 \<notin> set (date r) \<and> 0 \<notin> set (hour r)) \<and> nonneg rs \<and> (\<forall>k < 8. col k rs < 2 ^ 31)"

lemma rows_text_append: "rows_text (a @ b) = rows_text a @ rows_text b"
  by (simp add: rows_text_def)

lemma rows_text_plain: "rows_fit rs \<Longrightarrow> 0 \<notin> set (rows_text rs)"
  using sdec_plain by (auto simp: rows_fit_def rows_text_def row_line_def)

lemma col_filter_le: "nonneg rs \<Longrightarrow> k < 8 \<Longrightarrow> col k (filter P rs) \<le> col k rs"
  by (induction rs) auto

lemma merged:
  assumes "rows_fit rs" and "rs \<noteq> []"
  shows "\<exists>out. lcs_hcollect005_sum True (rows_text rs) = Some (Some (rows_text out), True) \<and> merges rs out \<and>
    (\<forall>r \<in> set out. row_ok r \<and> 0 \<notin> set (date r) \<and> 0 \<notin> set (hour r)) \<and> nonneg out \<and> out \<noteq> []"
proof -
  have f: "\<forall>r \<in> set rs. row_ok r" "nonneg rs" "\<forall>k < 8. col k rs < 2 ^ 31" using assms(1) by (simp_all add: rows_fit_def)
  obtain out where o: "lcs_merge005_list True rs (int (length rs)) = Some (Some (concat (map row_line out)))"
    "sorted_wrt (\<lambda>a b. lcs_merge_counting_cb a b < 0) out" "row_key ` set out = row_key ` set rs"
    "\<forall>q \<in> set out. (\<exists>r \<in> set rs. date q = date r \<and> hour q = hour r) \<and>
       (\<forall>k < 8. counts q ! k = col k (filter (\<lambda>r. row_key r = row_key q) rs))"
    using merge005 [OF assms(2) f(2,3)] by (elim exE conjE)
  have c: "0 \<le> counts q ! k \<and> counts q ! k < 2 ^ 31" if "q \<in> set out" "k < 8" for q k
  proof -
    have "counts q ! k = col k (filter (\<lambda>r. row_key r = row_key q) rs)" using o(4) that by blast
    moreover have "nonneg (filter (\<lambda>r. row_key r = row_key q) rs)" using f(2) by (simp add: nonneg_def)
    ultimately show ?thesis
      using col_filter_le [OF f(2) that(2), of "\<lambda>r. row_key r = row_key q"] f(3) that(2) col_nonneg by fastforce
  qed
  have ints: "is_int v" if q: "q \<in> set out" and v: "v \<in> set (counts q)" for q v
  proof -
    obtain k where "k < length (counts q)" "v = counts q ! k" using v by (metis in_set_conv_nth)
    then show ?thesis using c [OF q, of k] by (simp add: is_int_def counts_def)
  qed
  have "row_ok q \<and> 0 \<notin> set (date q) \<and> 0 \<notin> set (hour q)" if q: "q \<in> set out" for q
  proof -
    obtain r where "r \<in> set rs" "date q = date r" "hour q = hour r" using o(4) q by blast
    then show ?thesis using assms(1) ints [OF q] by (simp add: rows_fit_def row_ok_def)
  qed
  moreover have "nonneg out" using c by (simp add: nonneg_def)
  moreover have "out \<noteq> []" using o(3) assms(2) by auto
  moreover have "lcs_hcollect005_sum True (rows_text rs) = Some (Some (rows_text out), True)"
    using collect_lines [OF f(1), of 0 "[]"] assms(2) o(1) by (simp add: lcs_hcollect005_sum_def rows_text_def)
  ultimately show ?thesis using o by (auto simp: merges_def)
qed

text \<open>the sum of a merge is the sum of what was merged\<close>

lemma merges_col:
  assumes "merges rs out"
  shows "k < 8 \<Longrightarrow> col k (filter (\<lambda>r. row_key r = y) out) = col k (filter (\<lambda>r. row_key r = y) rs)"
proof -
  assume k: "k < 8"
  have "sorted_wrt (\<lambda>a b. row_key a \<noteq> row_key b) out"
  proof (rule sorted_wrt_mono_rel [of out "\<lambda>a b. lcs_merge_counting_cb a b < 0"])
    show "row_key a \<noteq> row_key b" if "lcs_merge_counting_cb a b < 0" for a b using cb_eq [of a b] that by auto
  qed (use assms in \<open>simp add: merges_def\<close>)
  then have one: "q \<in> set out \<Longrightarrow> filter (\<lambda>r. row_key r = row_key q) out = [q]" for q
  proof (induction out)
    case (Cons a as)
    then show ?case by (auto simp: filter_empty_conv)
  qed simp
  show ?thesis
  proof (cases "y \<in> row_key ` set out")
    case True
    then obtain q where q: "q \<in> set out" "y = row_key q" by blast
    have "counts q ! k = col k (filter (\<lambda>r. row_key r = row_key q) rs)" using assms k q(1) by (simp add: merges_def)
    then show ?thesis using one [OF q(1)] q(2) by simp
  next
    case False
    then have "filter (\<lambda>r. row_key r = y) out = []" "filter (\<lambda>r. row_key r = y) rs = []"
      using assms by (auto simp: merges_def filter_empty_conv)
    then show ?thesis by simp
  qed
qed

lemma col_keys:
  "finite Y \<Longrightarrow> row_key ` set xs \<subseteq> Y \<Longrightarrow> col k xs = (\<Sum>y \<in> Y. col k (filter (\<lambda>r. row_key r = y) xs))"
proof (induction xs)
  case (Cons a xs)
  have "col k (filter (\<lambda>r. row_key r = y) (a # xs)) =
      (if y = row_key a then counts a ! k else 0) + col k (filter (\<lambda>r. row_key r = y) xs)" for y
    by auto
  then show ?case using Cons by (simp add: sum.distrib)
qed simp

section \<open>Sizes\<close>

lemma row_line_short: "row_ok r \<Longrightarrow> length (row_line r) \<le> 200"
proof -
  assume r: "row_ok r"
  have "length (sdec v) \<le> 11" if "is_int v" for v
  proof -
    have "nat v < 10 ^ 10" "nat (- v) < 10 ^ 10" using that by (auto simp: is_int_def)
    then have "length (dec (nat v)) \<le> 10" "length (dec (nat (- v))) \<le> 10" by (simp_all add: length_dec)
    then show ?thesis by (simp add: sdec_def)
  qed
  then have "\<forall>v \<in> set (counts r). length (sdec v) \<le> 11" using r by (simp add: row_ok_def)
  then show ?thesis using r by (simp add: row_line_def row_ok_def counts_def)
qed

lemma rows_text_short: "\<forall>r \<in> set rs. row_ok r \<Longrightarrow> length (rows_text rs) \<le> 200 * length rs"
proof (induction rs)
  case (Cons r rs)
  then show ?case using row_line_short [of r] by (simp add: rows_text_def)
qed (simp add: rows_text_def)

lemma merges_length:
  assumes "merges rs out"
  shows "length out \<le> length rs"
proof -
  have "distinct (map row_key out)"
    unfolding distinct_conv_nth
  proof (intro allI impI)
    fix i j assume ij: "i < length (map row_key out)" "j < length (map row_key out)" "i \<noteq> j"
    have "lcs_merge_counting_cb (out ! min i j) (out ! max i j) < 0"
      using assms ij by (auto simp: merges_def sorted_wrt_iff_nth_less min_def max_def)
    then have "row_key (out ! min i j) \<noteq> row_key (out ! max i j)" using cb_eq by (metis less_irrefl)
    then show "map row_key out ! i \<noteq> map row_key out ! j" using ij by (auto simp: min_def max_def split: if_splits)
  qed
  then have "length out = card (row_key ` set out)" using distinct_card [of "map row_key out"] by simp
  also have "\<dots> = card (row_key ` set rs)" using assms by (simp add: merges_def)
  also have "\<dots> \<le> length rs" by (metis card_length length_map list.set_map)
  finally show ?thesis .
qed

section \<open>The reports\<close>

text \<open>directories with reports of the rows \<open>R s\<close>\<close>

definition rep_dirs :: "bytes \<Rightarrow> bytes \<Rightarrow> (bytes \<Rightarrow> row list) \<Rightarrow> bytes list \<Rightarrow> files \<Rightarrow> bool" where
  "rep_dirs dir ana R subs fs \<longleftrightarrow> length dir < 870 \<and> length ana < 64 \<and> safe dir \<and> safe ana \<and> length subs < 62 \<and>
     (\<forall>s \<in> set subs. safe s \<and> length s < 16 \<and> fs (rep_path (dir @ 47 # s) ana) = Some (rows_text (R s))) \<and>
     rows_fit (concat (map R subs)) \<and> concat (map R subs) \<noteq> [] \<and> length (concat (map R subs)) < 10 ^ 6"

lemma rep_dirs_fits:
  assumes "length dir < 870" and "length ana < 64" and "length s < 16"
  shows "fit 1024 (dir @ 47 # s @ 47 # ana @ lit ''.analysis'') = Some (rep_path (dir @ 47 # s) ana)"
    and "fit 1024 (dir @ 47 # ana @ lit ''.analysis'') = Some (rep_path dir ana)"
  using assms by (simp_all add: fit_def rep_path_def)

lemma file_rows:
  assumes "rows_fit rs" and "length rs < 10 ^ 7" and "fs p = Some (rows_text rs)"
  shows "snd (lcs_file_text fs p) = Some (rows_text rs @ [0])" and "c_str (rows_text rs @ [0]) = rows_text rs"
proof -
  have "length (rows_text rs) < 2 ^ 32" using rows_text_short [of rs] assms(1,2) by (simp add: rows_fit_def)
  then show "snd (lcs_file_text fs p) = Some (rows_text rs @ [0])" using assms(3) by (simp add: lcs_file_text_def)
  show "c_str (rows_text rs @ [0]) = rows_text rs" using rows_text_plain [OF assms(1)] by (simp add: c_str_append_zero)
qed

lemma rows_fit_part:
  assumes "rows_fit (a @ b)"
  shows "rows_fit a" and "rows_fit b"
proof -
  have n: "nonneg a" "nonneg b" using assms by (auto simp: rows_fit_def nonneg_def)
  then have "col k a < 2 ^ 31 \<and> col k b < 2 ^ 31" if "k < 8" for k
    using assms that col_nonneg [of a k] col_nonneg [of b k] by (fastforce simp: rows_fit_def col_append)
  then show "rows_fit a" "rows_fit b" using assms n by (auto simp: rows_fit_def)
qed

lemma gen_loop_none:
  assumes "fld (name_ana_rh info) = Some ana" and "length dir < 870" and "length ana < 64"
  shows "\<forall>s \<in> set subs. length s < 16 \<and> fs (rep_path (dir @ 47 # s) ana) \<noteq> None \<Longrightarrow> gen_loop_h5 sh can info dir subs fs = Some fs"
  by (induction subs) (use assms in \<open>auto simp: rep_dirs_fits\<close>)

lemma texts_rows:
  assumes "fld (name_ana_rh info) = Some ana" and "length dir < 870" and "length ana < 64"
  shows "\<forall>s \<in> set subs. length s < 16 \<and> fs (rep_path (dir @ 47 # s) ana) = Some (rows_text (R s)) \<Longrightarrow>
    rows_fit (concat (map R subs)) \<Longrightarrow> length (concat (map R subs)) < 10 ^ 7 \<Longrightarrow>
    texts_h5 info dir subs fs = Some (rows_text (concat (map R subs)))"
proof (induction subs)
  case (Cons s subs)
  have f: "rows_fit (R s)" "rows_fit (concat (map R subs))" using rows_fit_part [of "R s"] Cons.prems(2) by simp_all
  have "length (R s) < 10 ^ 7" using Cons.prems(3) by simp
  then show ?case
    using Cons assms f file_rows [OF f(1), of fs "rep_path (dir @ 47 # s) ana"] by (simp add: rep_dirs_fits rows_text_append)
qed (simp add: rows_text_def)

text \<open>
  C20. The report of an hour of \<^verbatim>\<open>A_000005\<close> has one row for each date and hour that occurs in the reports of
  its directories, in order, with the sums of the columns; nothing else changes. In every such run, after the
  file is written, the program reads nodes it has given back (the flag of the result).
\<close>

theorem hour5_report:
  assumes "rep_dirs dir ana R subs fs" and "can (rep_path dir ana)" and "name_ana_rh info = pad 64 ana"
  shows "\<exists>out. lcs_hcollect_ana_h5 sh can info dir subs fs = Some (fs(rep_path dir ana \<mapsto> rows_text out), True) \<and>
    merges (concat (map R subs)) out"
proof -
  note d = assms(1) [unfolded rep_dirs_def]
  have n: "fld (name_ana_rh info) = Some ana" using assms(3) d by (simp add: fld_pad safe_word word_no_zero)
  have "gen_loop_h5 sh can info dir subs fs = Some fs" by (rule gen_loop_none [OF n]) (use d in auto)
  moreover have "texts_h5 info dir subs (fs(rep_path dir ana := None)) = Some (rows_text (concat (map R subs)))"
    by (rule texts_rows [OF n]) (use d in auto)
  moreover have "length (rows_text (concat (map R subs))) < 2 ^ 32"
    using rows_text_short [of "concat (map R subs)"] d by (simp add: rows_fit_def)
  moreover obtain out where "lcs_hcollect005_sum True (rows_text (concat (map R subs))) = Some (Some (rows_text out), True)"
    "merges (concat (map R subs)) out" using merged d by blast
  ultimately show ?thesis using assms(2) n d rep_dirs_fits(2) [of dir ana "[]"] by (auto simp: lcs_hcollect_ana_h5_def)
qed

text \<open>\<^verbatim>\<open>cat src >> dest\<close>\<close>

definition cats :: "(bytes \<Rightarrow> files \<Rightarrow> files option) \<Rightarrow> bool" where
  "cats sh \<longleftrightarrow> (\<forall>src dest fs. safe src \<longrightarrow> safe dest \<longrightarrow> sh (lit ''cat '' @ src @ lit '' >> '' @ dest) fs =
     Some (fs(dest \<mapsto> (case fs dest of None \<Rightarrow> [] | Some t \<Rightarrow> t) @ (case fs src of None \<Rightarrow> [] | Some t \<Rightarrow> t))))"

lemma cat_rows:
  assumes "cats sh" and "length dir < 870" and "length ana < 64" and "safe dir" and "safe ana"
  shows "hs \<noteq> [] \<Longrightarrow> \<forall>s \<in> set hs. safe s \<and> length s < 16 \<and> fs (rep_path (dir @ 47 # s) ana) = Some (rows_text (R s)) \<Longrightarrow>
    cat_loop_d5 sh dir ana (rep_path dir ana) hs fs =
      Some (fs(rep_path dir ana \<mapsto> (case fs (rep_path dir ana) of None \<Rightarrow> [] | Some t \<Rightarrow> t) @ rows_text (concat (map R hs))))"
proof (induction hs arbitrary: fs)
  case (Cons h hs)
  have h: "safe (rep_path (dir @ 47 # h) ana)" "safe (rep_path dir ana)" "length h < 16"
    using Cons.prems(2) assms(4,5) safe_lits by (simp_all add: rep_path_def)
  have f: "fit 2048 (lit ''cat '' @ rep_path (dir @ 47 # h) ana @ lit '' >> '' @ rep_path dir ana) =
      Some (lit ''cat '' @ rep_path (dir @ 47 # h) ana @ lit '' >> '' @ rep_path dir ana)"
    using assms(2,3) h(3) by (simp add: fit_def rep_path_def)
  let ?fs = "fs(rep_path dir ana \<mapsto> (case fs (rep_path dir ana) of None \<Rightarrow> [] | Some t \<Rightarrow> t) @ rows_text (R h))"
  have "lcs_hcollect_sum_d5 sh (rep_path dir ana) (rep_path (dir @ 47 # h) ana) fs = Some ?fs"
    using assms(1) h f Cons.prems(2) by (simp add: lcs_hcollect_sum_d5_def cats_def)
  then have step: "cat_loop_d5 sh dir ana (rep_path dir ana) (h # hs) fs = cat_loop_d5 sh dir ana (rep_path dir ana) hs ?fs"
    using rep_dirs_fits(1) [OF assms(2,3) h(3)] by simp
  show ?case
  proof (cases "hs = []")
    case True
    then show ?thesis unfolding step by (simp add: fun_upd_def)
  next
    case False
    have "cat_loop_d5 sh dir ana (rep_path dir ana) hs ?fs =
      Some (?fs(rep_path dir ana \<mapsto> (case ?fs (rep_path dir ana) of None \<Rightarrow> [] | Some t \<Rightarrow> t) @ rows_text (concat (map R hs))))"
      by (rule Cons.IH [OF False]) (use Cons.prems(2) in auto)
    then show ?thesis unfolding step by (auto simp: rows_text_append)
  qed
qed simp

text \<open>one run over the hours' reports, behind the rows \<open>old\<close>\<close>

lemma day5_run:
  assumes "cats sh" and "rep_dirs dir ana R hs fs" and "can (rep_path dir ana)"
    and "fs (rep_path dir ana) = (if old = [] then None else Some (rows_text old))"
    and "rows_fit (old @ concat (map R hs))" and "length old < 10 ^ 6"
  shows "\<exists>out. day_end_d5 sh can dir ana hs fs = Some (fs(rep_path dir ana \<mapsto> rows_text out)) \<and>
    merges (old @ concat (map R hs)) out \<and> (\<forall>r \<in> set out. row_ok r \<and> 0 \<notin> set (date r) \<and> 0 \<notin> set (hour r)) \<and> nonneg out \<and> out \<noteq> []"
proof -
  note d = assms(2) [unfolded rep_dirs_def]
  let ?all = "old @ concat (map R hs)" and ?p = "rep_path dir ana"
  have hs: "hs \<noteq> []" using d by auto
  have "cat_loop_d5 sh dir ana ?p hs fs = Some (fs(?p \<mapsto> (case fs ?p of None \<Rightarrow> [] | Some t \<Rightarrow> t) @ rows_text (concat (map R hs))))"
    by (rule cat_rows [OF assms(1) _ _ _ _ hs]) (use d in auto)
  then have cat: "cat_loop_d5 sh dir ana ?p hs fs = Some (fs(?p \<mapsto> rows_text ?all))"
    by (auto simp: assms(4) rows_text_append rows_text_def)
  have t: "snd (lcs_file_text (fs(?p \<mapsto> rows_text ?all)) ?p) = Some (rows_text ?all @ [0])" "c_str (rows_text ?all @ [0]) = rows_text ?all"
    using file_rows [OF assms(5), of "fs(?p \<mapsto> rows_text ?all)" ?p] d assms(6) by simp_all
  obtain out where o: "lcs_hcollect005_sum True (rows_text ?all) = Some (Some (rows_text out), True)" "merges ?all out"
    "(\<forall>r \<in> set out. row_ok r \<and> 0 \<notin> set (date r) \<and> 0 \<notin> set (hour r)) \<and> nonneg out \<and> out \<noteq> []"
    using merged [OF assms(5)] d by blast
  have "rows_text ?all \<noteq> []"
  proof
    assume "rows_text ?all = []"
    then have "lcs_hcollect005_sum True (rows_text ?all) = Some (None, False)"
      by (simp add: lcs_hcollect005_sum_def collect_loop.simps strtok_def)
    then show False using o(1) by simp
  qed
  then have "day_end_d5 sh can dir ana hs fs = Some (fs(?p \<mapsto> rows_text out))"
    using rep_dirs_fits(2) [of dir ana "[]"] d cat t o(1) assms(3) by (simp add: day_end_d5_def)
  then show ?thesis using o(2,3) by blast
qed

section \<open>The whole run over complete hours\<close>

text \<open>the program, run on the files \<open>fs\<close>, ends without undefined behaviour, and leaves \<open>fs'\<close>, however it is scheduled\<close>

definition leaves5 :: "day_env \<Rightarrow> files \<Rightarrow> files \<Rightarrow> bool" where
  "leaves5 E fs fs' \<longleftrightarrow>
     (\<forall>t. reachable (\<lambda>s. s = Some (day_begin fs)) (day5_step E) t \<longrightarrow>
        (\<exists>u. t = Some u \<and> (d_pc u = Reported \<longrightarrow> d_files u = fs') \<and> (d_pc u \<noteq> Reported \<longrightarrow> (\<exists>t'. day5_step E t t')))) \<and>
     (\<exists>u. reachable (\<lambda>s. s = Some (day_begin fs)) (day5_step E) (Some u) \<and> d_pc u = Reported)"

text \<open>with a report for each hour no thread is started\<close>

definition complete_inv :: "day_env \<Rightarrow> files \<Rightarrow> files \<Rightarrow> day \<Rightarrow> bool" where
  "complete_inv E fs fs' s \<longleftrightarrow> d_threads s = [] \<and> d_count s = 0 \<and>
     d_files s = (if d_pc s = Reported then fs' else fs)"

lemma complete_step:
  assumes "rep_dirs (e_dir E) (e_ana E) R (e_sub E) fs"
    and "day_end_d5 (e_sh E) (e_can E) (e_dir E) (e_ana E) (e_sub E) fs = Some fs'"
    and "complete_inv E fs fs' s" and "day5_step E (Some s) t"
  shows "\<exists>u. t = Some u \<and> complete_inv E fs fs' u"
proof -
  note d = assms(1) [unfolded rep_dirs_def]
  have h: "fit 1024 (e_dir E @ 47 # h @ 47 # e_ana E @ lit ''.analysis'') = Some (rep_path (e_dir E @ 47 # h) (e_ana E)) \<and>
      fs (rep_path (e_dir E @ 47 # h) (e_ana E)) \<noteq> None" if "h \<in> set (e_sub E)" for h
    using that d rep_dirs_fits(1) [of "e_dir E" "e_ana E" h] by auto
  have f: "fit 1024 (e_dir E @ 47 # e_ana E @ lit ''.analysis'') = Some (rep_path (e_dir E) (e_ana E))"
    using d rep_dirs_fits(2) [of "e_dir E" "e_ana E" "[]"] by simp
  from assms(4) show ?thesis
  proof cases
    case (scan i)
    have "i < length (e_sub E) \<Longrightarrow> e_sub E ! i \<in> set (e_sub E)" by simp
    with scan h [of "e_sub E ! i"] f assms(3) show ?thesis
      by (auto simp: lcs_hcollect_ana_d5_def complete_inv_def Let_def)
  next
    case sum
    with f assms(2,3) show ?thesis by (auto simp: lcs_hcollect_ana_d5_def complete_inv_def)
  next
    case (hour i)
    then show ?thesis using assms(3) by (simp add: complete_inv_def)
  qed
qed

lemma complete_begin: "complete_inv E fs fs' (day_begin fs)"
  by (simp add: complete_inv_def day_begin_def)

interpretation day5_sys: invariant_system "\<lambda>s. s = Some (day_begin fs)" "day5_step E"
  "\<lambda>s. rep_dirs (e_dir E) (e_ana E) R (e_sub E) fs \<and>
     day_end_d5 (e_sh E) (e_can E) (e_dir E) (e_ana E) (e_sub E) fs = Some fs' \<longrightarrow> (\<exists>u. s = Some u \<and> complete_inv E fs fs' u)"
  by unfold_locales (auto intro: complete_begin dest: complete_step)

lemma scan_reaches:
  assumes "rep_dirs (e_dir E) (e_ana E) R (e_sub E) fs" and "i \<le> length (e_sub E)"
  shows "reachable (\<lambda>s. s = Some (day_begin fs)) (day5_step E) (Some ((day_begin fs)\<lparr>d_pc := Scan i\<rparr>))"
  using assms(2)
proof (induction i)
  case 0
  then show ?case by (auto simp: day_begin_def intro: reachable.start)
next
  case (Suc i)
  note d = assms(1) [unfolded rep_dirs_def]
  let ?s = "(day_begin fs)\<lparr>d_pc := Scan i\<rparr>"
  have h: "e_sub E ! i \<in> set (e_sub E)" using Suc.prems by simp
  then have "fit 1024 (e_dir E @ 47 # e_sub E ! i @ 47 # e_ana E @ lit ''.analysis'') = Some (rep_path (e_dir E @ 47 # e_sub E ! i) (e_ana E))"
    "fs (rep_path (e_dir E @ 47 # e_sub E ! i) (e_ana E)) \<noteq> None"
    using d rep_dirs_fits(1) [of "e_dir E" "e_ana E" "e_sub E ! i"] by auto
  moreover have "fit 1024 (e_dir E @ 47 # e_ana E @ lit ''.analysis'') = Some (rep_path (e_dir E) (e_ana E))"
    using d rep_dirs_fits(2) [of "e_dir E" "e_ana E" "[]"] by simp
  ultimately have "lcs_hcollect_ana_d5 E ?s = Some ((day_begin fs)\<lparr>d_pc := Scan (Suc i)\<rparr>)"
    using Suc.prems by (auto simp: lcs_hcollect_ana_d5_def day_begin_def)
  then show ?case
    using Suc day5_step.scan [of ?s i E] by (auto intro: reachable.step)
qed

lemma complete_leaves:
  assumes "rep_dirs (e_dir E) (e_ana E) R (e_sub E) fs"
    and "day_end_d5 (e_sh E) (e_can E) (e_dir E) (e_ana E) (e_sub E) fs = Some fs'"
  shows "leaves5 E fs fs'"
proof -
  have inv: "\<exists>u. t = Some u \<and> complete_inv E fs fs' u"
    if "reachable (\<lambda>s. s = Some (day_begin fs)) (day5_step E) t" for t
    using day5_sys.reachable_inv [OF that] assms by blast
  have f: "fit 1024 (e_dir E @ 47 # e_ana E @ lit ''.analysis'') = Some (rep_path (e_dir E) (e_ana E))"
    using assms(1) rep_dirs_fits(2) [of "e_dir E" "e_ana E" "[]"] by (simp add: rep_dirs_def)
  let ?r = "reachable (\<lambda>s. s = Some (day_begin fs)) (day5_step E)"
    and ?s = "(day_begin fs)\<lparr>d_pc := Scan (length (e_sub E))\<rparr>" and ?w = "(day_begin fs)\<lparr>d_pc := Waiting\<rparr>"
    and ?e = "(day_begin fs)\<lparr>d_files := fs', d_pc := Reported\<rparr>"
  have "lcs_hcollect_ana_d5 E ?s = Some ?w" "lcs_hcollect_ana_d5 E ?w = Some ?e"
    using f assms(2) by (simp_all add: lcs_hcollect_ana_d5_def day_begin_def)
  then have "?r (Some ?w)" "day5_step E (Some ?w) (Some ?e)"
    using scan_reaches [OF assms(1) order_refl] day5_step.scan [of ?s "length (e_sub E)" E] day5_step.sum [of ?w E]
    by (auto intro: reachable.step simp: day_begin_def)
  then have "?r (Some ?e)" by (rule reachable.step)
  moreover have "\<exists>t'. day5_step E (Some u) t'" if "complete_inv E fs fs' u" "d_pc u \<noteq> Reported" for u
    using that by (cases "d_pc u") (auto simp: complete_inv_def intro: day5_step.scan day5_step.sum)
  ultimately show ?thesis
    unfolding leaves5_def using inv by (force simp: complete_inv_def)
qed

text \<open>
  C21. The program of the day of \<^verbatim>\<open>A_000005\<close>, run over hours that all have their reports: the first report of the
  day has the sums of the rows of its hours. In a second run no thread is started, so the old report is not
  removed, and the rows of the hours are appended to it: in the report it leaves, each count is twice the sum.
\<close>

theorem day5_doubles:
  assumes "cats (e_sh E)" and "rep_dirs (e_dir E) (e_ana E) R (e_sub E) fs" and "e_can E (rep_path (e_dir E) (e_ana E))"
    and "fs (rep_path (e_dir E) (e_ana E)) = None"
    and "\<forall>k < 8. 2 * col k (concat (map R (e_sub E))) < 2 ^ 31"
  shows "\<exists>fs1 fs2 out1 out2. leaves5 E fs fs1 \<and> fs1 (rep_path (e_dir E) (e_ana E)) = Some (rows_text out1) \<and>
    merges (concat (map R (e_sub E))) out1 \<and>
    leaves5 E fs1 fs2 \<and> fs2 (rep_path (e_dir E) (e_ana E)) = Some (rows_text out2) \<and>
    row_key ` set out2 = row_key ` set (concat (map R (e_sub E))) \<and>
    (\<forall>q \<in> set out2. \<forall>k < 8. counts q ! k = 2 * col k (filter (\<lambda>r. row_key r = row_key q) (concat (map R (e_sub E)))))"
proof -
  let ?all = "concat (map R (e_sub E))" and ?p = "rep_path (e_dir E) (e_ana E)"
  let ?fin = "day_end_d5 (e_sh E) (e_can E) (e_dir E) (e_ana E) (e_sub E)"
  note d = assms(2) [unfolded rep_dirs_def]
  obtain out where o: "?fin fs = Some (fs(?p \<mapsto> rows_text out))" "merges ?all out"
    "\<forall>r \<in> set out. row_ok r \<and> 0 \<notin> set (date r) \<and> 0 \<notin> set (hour r)" "nonneg out" "out \<noteq> []"
    using day5_run [where can = "e_can E" and old = "[]", OF assms(1-3)] assms(4) d by auto
  let ?fs = "fs(?p \<mapsto> rows_text out)"
  have col: "col k out = col k ?all" if "k < 8" for k
  proof -
    have f: "finite (row_key ` set out)" "row_key ` set out \<subseteq> row_key ` set out" "row_key ` set ?all \<subseteq> row_key ` set out"
      using o(2) by (simp_all add: merges_def)
    show ?thesis using col_keys [OF f(1,2), of k] col_keys [OF f(1,3), of k] merges_col [OF o(2) that] by simp
  qed
  have fit: "rows_fit (out @ ?all)"
    using d o(3,4) col assms(5) by (auto simp: rows_fit_def nonneg_def col_append)
  have dirs: "rep_dirs (e_dir E) (e_ana E) R (e_sub E) ?fs" using d by (simp add: rep_dirs_def)
  have len: "length out < 10 ^ 6" using merges_length [OF o(2)] d by simp
  obtain out2 where o2: "?fin ?fs = Some (?fs(?p \<mapsto> rows_text out2))" "merges (out @ ?all) out2"
    using day5_run [where can = "e_can E" and old = out, OF assms(1) dirs assms(3)] fit len o(5) by auto
  have k: "row_key ` set out = row_key ` set ?all" using o(2) by (simp add: merges_def)
  have "row_key ` set out2 = row_key ` set ?all" using o2(2) k by (simp add: merges_def image_Un)
  moreover have "\<forall>q \<in> set out2. \<forall>k < 8. counts q ! k = 2 * col k (filter (\<lambda>r. row_key r = row_key q) ?all)"
    using o2(2) merges_col [OF o(2)] by (simp add: merges_def col_append)
  ultimately show ?thesis
    using o(2) complete_leaves [OF assms(2) o(1)] complete_leaves [OF dirs o2(1)]
    by (intro exI [of _ ?fs] exI [of _ "?fs(?p \<mapsto> rows_text out2)"] exI [of _ out] exI [of _ out2]) simp
qed

section \<open>Concrete inputs\<close>

definition demo_cat :: "bytes \<Rightarrow> files \<Rightarrow> files option" where
  "demo_cat cmd fs = (let r = drop 4 cmd; src = takeWhile (\<lambda>b. b \<noteq> 32) r; dest = drop (length src + 4) r in
     Some (fs(dest \<mapsto> (case fs dest of None \<Rightarrow> [] | Some t \<Rightarrow> t) @ (case fs src of None \<Rightarrow> [] | Some t \<Rightarrow> t))))"

lemma demo_cats: "cats demo_cat"
proof (unfold cats_def, intro allI impI)
  fix src dest :: bytes and fs :: files
  assume "safe src" "safe dest"
  have "\<forall>b \<in> set src. b \<noteq> 32" using safe_word [OF \<open>safe src\<close>] by (auto simp: word_def blank_def)
  then have t: "takeWhile (\<lambda>b. b \<noteq> 32) (src @ lit '' >> '' @ dest) = src" by (simp add: takeWhile_append lit_def)
  have d: "drop 4 (lit ''cat '' @ src @ lit '' >> '' @ dest) = src @ lit '' >> '' @ dest"
    "drop (length src + 4) (src @ lit '' >> '' @ dest) = dest" by (simp_all add: lit_def)
  show "demo_cat (lit ''cat '' @ src @ lit '' >> '' @ dest) fs =
     Some (fs(dest \<mapsto> (case fs dest of None \<Rightarrow> [] | Some t \<Rightarrow> t) @ (case fs src of None \<Rightarrow> [] | Some t \<Rightarrow> t)))"
    unfolding demo_cat_def d(1) t d(2) Let_def by (rule refl)
qed

definition demo_reps :: files where
  "demo_reps = [rep_path (lit ''d'' @ 47 # lit ''00'') (lit ''A'') \<mapsto> rows_text [demo_row]]"

lemma demo_fit: "rows_fit [demo_row]" "\<forall>k < 8. 2 * col k [demo_row] < 2 ^ 31"
proof -
  have "0 \<notin> set (date demo_row)" "0 \<notin> set (hour demo_row)" by (simp_all add: demo_row_def lit_no_zero)
  then show "rows_fit [demo_row]" using demo_row_ok demo_count_range by (fastforce simp: rows_fit_def)
  show "\<forall>k < 8. 2 * col k [demo_row] < 2 ^ 31" using demo_count_range by fastforce
qed

lemma demo_dirs: "rep_dirs (lit ''d'') (lit ''A'') (\<lambda>_. [demo_row]) [lit ''00''] demo_reps"
proof -
  have "safe (lit ''d'')" "safe (lit ''A'')" "safe (lit ''00'')" by code_simp+
  then show ?thesis using demo_fit by (simp add: rep_dirs_def demo_reps_def)
qed

theorem hour5_report_witness:
  "\<exists>out. lcs_hcollect_ana_h5 demo_cat (\<lambda>_. True) (empty_rh\<lparr>name_ana_rh := pad 64 (lit ''A'')\<rparr>) (lit ''d'') [lit ''00''] demo_reps =
      Some (demo_reps(rep_path (lit ''d'') (lit ''A'') \<mapsto> rows_text out), True) \<and> merges [demo_row] out"
  using hour5_report [OF demo_dirs, of "\<lambda>_. True" "empty_rh\<lparr>name_ana_rh := pad 64 (lit ''A'')\<rparr>" demo_cat] by simp

definition demo_day5 :: day_env where
  "demo_day5 = \<lparr>e_sh = demo_cat, e_can = \<lambda>_. True, e_dir = lit ''d'', e_ana = lit ''A'', e_prog = lit ''h'', e_prog5 = lit ''f'', e_sub = [lit ''00'']\<rparr>"

theorem day5_doubles_witness:
  "\<exists>fs1 fs2 out2. leaves5 demo_day5 demo_reps fs1 \<and> leaves5 demo_day5 fs1 fs2 \<and>
     fs2 (rep_path (lit ''d'') (lit ''A'')) = Some (rows_text out2) \<and>
     (\<forall>q \<in> set out2. row_key q = row_key demo_row \<and> counts q ! 0 = 10)"
proof -
  have n: "cats (e_sh demo_day5)" "rep_dirs (e_dir demo_day5) (e_ana demo_day5) (\<lambda>_. [demo_row]) (e_sub demo_day5) demo_reps"
    "e_can demo_day5 (rep_path (e_dir demo_day5) (e_ana demo_day5))" "demo_reps (rep_path (e_dir demo_day5) (e_ana demo_day5)) = None"
    "\<forall>k < 8. 2 * col k (concat (map (\<lambda>_. [demo_row]) (e_sub demo_day5))) < 2 ^ 31"
    using demo_cats demo_dirs demo_fit(2) by (simp_all add: demo_day5_def) (simp add: demo_reps_def)
  obtain fs1 fs2 out2 where o: "leaves5 demo_day5 demo_reps fs1" "leaves5 demo_day5 fs1 fs2"
    "fs2 (rep_path (lit ''d'') (lit ''A'')) = Some (rows_text out2)" "row_key ` set out2 = {row_key demo_row}"
    "\<forall>q \<in> set out2. \<forall>k < 8. counts q ! k = 2 * col k (filter (\<lambda>r. row_key r = row_key q) [demo_row])"
    using day5_doubles [OF n] by (auto simp: demo_day5_def)
  have "row_key q = row_key demo_row \<and> counts q ! 0 = 10" if "q \<in> set out2" for q
  proof -
    have "row_key q = row_key demo_row" using o(4) that by blast
    then show ?thesis using o(5) that by (simp add: demo_counts)
  qed
  then show ?thesis using o(1-3) by blast
qed

end
