(* ===== verification/ShmTables.thy ===== *)
theory ShmTables
  imports Children Reports
begin

text \<open>
  The tables of a day in shared memory: \<^verbatim>\<open>cluster/shmcreate/main.c\<close> puts the agents there and
  \<^verbatim>\<open>cluster/shmcreate_audd/main.c\<close> the entries of automatic calls (suffix \<open>d\<close>), each in an array of as many
  rows as the table has, and one more. A row has, beside its data, the slots of a bucket: the numbers of the
  first four, or two, rows whose hash value is its own number. The reports of five minutes look rows up by
  it (\<^verbatim>\<open>A_000007_05m/main.c\<close> the agents, \<^verbatim>\<open>A_000008_05m/a_000008.c\<close> both).

  SQLite is the record \<open>exec_db\<close>, without a state, since these programs only read; shared memory is a map from names
  to objects of a type. An object that is not there is made by a reader too, but has no bytes, and every access to
  it is undefined.

  Shown, for both tables by one locale: from rows that fit, the program that reads finds a key exactly when it
  belongs to one of the first rows of its bucket that have slots; the others are lost.
\<close>

section \<open>SQLite and shared memory\<close>

record exec_db =
  ex_open :: "bytes \<Rightarrow> int"
  ex_exec :: "bytes \<Rightarrow> bytes \<Rightarrow> bytes option list list \<times> int"

text \<open>the callback of \<^verbatim>\<open>sqlite3_exec\<close> on the rows in order\<close>

fun each_row :: "('r \<Rightarrow> 't \<Rightarrow> 't option) \<Rightarrow> 'r list \<Rightarrow> 't \<Rightarrow> 't option" where
  "each_row cb [] t = Some t"
| "each_row cb (r # rs) t = do { t' \<leftarrow> cb r t; each_row cb rs t' }"

text \<open>\<^verbatim>\<open>val[i]\<close>; what reads a null pointer or behind the columns is undefined\<close>

definition col_at :: "bytes option list \<Rightarrow> nat \<Rightarrow> bytes option" where
  "col_at val i = (if i < length val then val ! i else None)"

text \<open>\<^verbatim>\<open>sscanf\<close> with \<^verbatim>\<open>%lu\<close> and with \<^verbatim>\<open>%c\<close>: without a number, or a byte, nothing is stored\<close>

definition scan_to :: "bytes \<Rightarrow> 64 word \<Rightarrow> 64 word" where
  "scan_to v old = (case scan_lu v of None \<Rightarrow> old | Some (n, r) \<Rightarrow> n)"

definition scan_c :: "bytes \<Rightarrow> byte \<Rightarrow> byte" where
  "scan_c v old = (case v of [] \<Rightarrow> old | b # r \<Rightarrow> b)"

section \<open>The rows\<close>

record lcs_mmap_agents =
  id_a :: "64 word"
  version_a :: "64 word"
  agent_number :: bytes
  vcontext :: bytes
  agent_status :: bytes
  current_dnd :: bytes
  email :: bytes
  extension :: bytes
  is_allow_mapping :: byte
  is_enable :: byte
  is_inbound :: byte
  last_history_id :: "64 word"
  name_a :: bytes
  password_a :: bytes
  phone_number_a :: bytes
  priority :: "32 word"
  queue_id :: "32 word"
  f1_code :: bytes
  fixed_extension :: bytes
  customer_name :: bytes

record LCS_AGENTS_SHARED_AH =
  ah_a :: lcs_mmap_agents
  ah_h :: "int list"

record lcs_mmap_auto_dial_detail =
  id_d :: "64 word"
  phone_type :: bytes
  skill :: "16 word"
  customer_id :: bytes
  application_id :: bytes
  note_d :: bytes
  phone_number_d :: bytes

record LCS_AUDD_SHARED_AUH =
  auh_au :: lcs_mmap_auto_dial_detail
  auh_h :: "int list"

text \<open>cleared memory, and the slots set to -1 in all rows but the last\<close>

definition zero_agent :: lcs_mmap_agents where
  "zero_agent = \<lparr>id_a = 0, version_a = 0, agent_number = zeros 40, vcontext = zeros 255, agent_status = zeros 7,
     current_dnd = zeros 255, email = zeros 255, extension = zeros 255, is_allow_mapping = 0, is_enable = 0, is_inbound = 0,
     last_history_id = 0, name_a = zeros 40, password_a = zeros 40, phone_number_a = zeros 255, priority = 0, queue_id = 0,
     f1_code = zeros 255, fixed_extension = zeros 255, customer_name = zeros 255\<rparr>"

definition new_agents :: "nat \<Rightarrow> LCS_AGENTS_SHARED_AH list" where
  "new_agents n = replicate n \<lparr>ah_a = zero_agent, ah_h = replicate 4 (- 1)\<rparr> @ [\<lparr>ah_a = zero_agent, ah_h = replicate 4 0\<rparr>]"

definition zero_dial :: lcs_mmap_auto_dial_detail where
  "zero_dial = \<lparr>id_d = 0, phone_type = zeros 8, skill = 0, customer_id = zeros 16, application_id = zeros 32,
     note_d = zeros 255, phone_number_d = zeros 25\<rparr>"

definition new_dials :: "nat \<Rightarrow> LCS_AUDD_SHARED_AUH list" where
  "new_dials n = replicate n \<lparr>auh_au = zero_dial, auh_h = replicate 2 (- 1)\<rparr> @ [\<lparr>auh_au = zero_dial, auh_h = replicate 2 0\<rparr>]"

section \<open>Writing a row\<close>

text \<open>the loop over the slots: the first that is free gets the number of the row\<close>

fun put_slot :: "int \<Rightarrow> int list \<Rightarrow> int list" where
  "put_slot k [] = []"
| "put_slot k (x # xs) = (if x < 0 then k # xs else x # put_slot k xs)"

text \<open>the fields of an agent; a number that does not fit is cut to the width of its field\<close>

definition fill_agent :: "bytes option list \<Rightarrow> lcs_mmap_agents \<Rightarrow> lcs_mmap_agents option" where
  "fill_agent val a = do {
     v0 \<leftarrow> col_at val 0; v1 \<leftarrow> col_at val 1; v2 \<leftarrow> col_at val 2; v3 \<leftarrow> col_at val 3; v4 \<leftarrow> col_at val 4; v5 \<leftarrow> col_at val 5; v6 \<leftarrow> col_at val 6;
     v7 \<leftarrow> col_at val 7; v8 \<leftarrow> col_at val 8; v9 \<leftarrow> col_at val 9; v10 \<leftarrow> col_at val 10; v11 \<leftarrow> col_at val 11; v12 \<leftarrow> col_at val 12; v13 \<leftarrow> col_at val 13;
     v14 \<leftarrow> col_at val 14; v15 \<leftarrow> col_at val 15; v16 \<leftarrow> col_at val 16; v17 \<leftarrow> col_at val 17; v18 \<leftarrow> col_at val 18; v19 \<leftarrow> col_at val 19;
     x2 \<leftarrow> strcat_to (agent_number a) v2; x3 \<leftarrow> strcat_to (vcontext a) v3; x4 \<leftarrow> strcat_to (agent_status a) v4;
     x5 \<leftarrow> strcat_to (current_dnd a) v5; x6 \<leftarrow> strcat_to (email a) v6; x7 \<leftarrow> strcat_to (extension a) v7;
     x12 \<leftarrow> strcat_to (name_a a) v12; x13 \<leftarrow> strcat_to (password_a a) v13; x14 \<leftarrow> strcat_to (phone_number_a a) v14;
     x17 \<leftarrow> strcat_to (f1_code a) v17; x18 \<leftarrow> strcat_to (fixed_extension a) v18; x19 \<leftarrow> strcat_to (customer_name a) v19;
     Some \<lparr>id_a = scan_to v0 (id_a a), version_a = scan_to v1 (version_a a), agent_number = x2, vcontext = x3, agent_status = x4,
       current_dnd = x5, email = x6, extension = x7, is_allow_mapping = scan_c v8 (is_allow_mapping a),
       is_enable = scan_c v9 (is_enable a), is_inbound = scan_c v10 (is_inbound a), last_history_id = scan_to v11 (last_history_id a),
       name_a = x12, password_a = x13, phone_number_a = x14, priority = ucast (scan_to v15 (ucast (priority a))),
       queue_id = ucast (scan_to v16 (ucast (queue_id a))), f1_code = x17, fixed_extension = x18, customer_name = x19\<rparr>
   }"

record LCS_AGENTS_SHARED =
  ag_n :: int
  ag_i :: nat
  ag_ah :: "LCS_AGENTS_SHARED_AH list"

definition lcs_shm_write :: "bytes option list \<Rightarrow> LCS_AGENTS_SHARED \<Rightarrow> LCS_AGENTS_SHARED option" where
  "lcs_shm_write val s = do {
     v2 \<leftarrow> col_at val 2;
     index \<leftarrow> lcs_comm_hash v2 0 (ag_n s);
     let k = ag_i s; let ah = ag_ah s; let j = nat index;
     if k < length ah \<and> 0 \<le> index \<and> j < length ah then do {
       a \<leftarrow> fill_agent val (ah_a (ah ! k));
       let ah1 = ah[j := (ah ! j)\<lparr>ah_h := put_slot (int k) (ah_h (ah ! j))\<rparr>];
       Some (s\<lparr>ag_i := k + 1, ag_ah := ah1[k := (ah1 ! k)\<lparr>ah_a := a\<rparr>]\<rparr>)
     } else None
   }"

text \<open>\<^verbatim>\<open>lcs_comm_hash_audd\<close>, whose value is stored in an \<^verbatim>\<open>int\<close>\<close>

definition lcs_comm_hash_audd :: "64 word \<Rightarrow> int \<Rightarrow> int option" where
  "lcs_comm_hash_audd u n = (if n = 0 then None else Some (sint (ucast (u mod word_of_int n) :: 32 word)))"

definition fill_dial :: "bytes option list \<Rightarrow> lcs_mmap_auto_dial_detail \<Rightarrow> lcs_mmap_auto_dial_detail option" where
  "fill_dial val a = do {
     v0 \<leftarrow> col_at val 0; v1 \<leftarrow> col_at val 1; v2 \<leftarrow> col_at val 2; v3 \<leftarrow> col_at val 3; v4 \<leftarrow> col_at val 4; v5 \<leftarrow> col_at val 5; v6 \<leftarrow> col_at val 6;
     x1 \<leftarrow> strcat_to (phone_type a) v1; x3 \<leftarrow> strcat_to (customer_id a) v3; x4 \<leftarrow> strcat_to (application_id a) v4;
     x5 \<leftarrow> strcat_to (note_d a) v5; x6 \<leftarrow> strcat_to (phone_number_d a) v6;
     Some \<lparr>id_d = scan_to v0 (id_d a), phone_type = x1, skill = ucast (scan_to v2 (ucast (skill a))), customer_id = x3,
       application_id = x4, note_d = x5, phone_number_d = x6\<rparr>
   }"

record LCS_AUDD_GROUP =
  au_n :: int
  au_i :: nat
  au_data :: "LCS_AUDD_SHARED_AUH list"

definition lcs_audd_shmwrite :: "bytes option list \<Rightarrow> LCS_AUDD_GROUP \<Rightarrow> LCS_AUDD_GROUP option" where
  "lcs_audd_shmwrite val p =
     (let k = au_i p; d = au_data p in
      if k < length d then do {
        a \<leftarrow> fill_dial val (auh_au (d ! k));
        index \<leftarrow> lcs_comm_hash_audd (id_d a) (au_n p);
        let j = nat index;
        if 0 \<le> index \<and> j < length d then
          let d1 = d[j := (d ! j)\<lparr>auh_h := put_slot (int k) (auh_h (d ! j))\<rparr>] in
          Some (p\<lparr>au_i := k + 1, au_data := d1[k := (d1 ! k)\<lparr>auh_au := a\<rparr>]\<rparr>)
        else None
      } else None)"

section \<open>Writing the tables\<close>

datatype seg = Num int nat | Agents "LCS_AGENTS_SHARED_AH list" | Dials "LCS_AUDD_SHARED_AUH list"

type_synonym shmem = "bytes \<Rightarrow> seg option"

text \<open>
  \<^verbatim>\<open>lcs_create_shmagent\<close> and \<^verbatim>\<open>lcs_create_shmaudd\<close>: a null pointer (\<^term>\<open>None\<close>) if the object is there already, or
  cannot be made (\<open>can\<close>). \<open>new\<close> is the cleared object.
\<close>

definition lcs_create_shmagent :: "(bytes \<Rightarrow> bool) \<Rightarrow> bytes \<Rightarrow> seg \<Rightarrow> shmem \<Rightarrow> shmem option" where
  "lcs_create_shmagent can k new sh = (if sh k \<noteq> None \<or> \<not> can k then None else Some (sh(k \<mapsto> new)))"

definition lcs_agents_count :: "bytes option list \<Rightarrow> int \<Rightarrow> int option" where
  "lcs_agents_count val n = do { v \<leftarrow> col_at val 0; scan_d v n }"

definition agents_count_sql :: bytes where
  "agents_count_sql = lit ''select count(*) from agents where is_enable='' @ 39 # lit ''true'' @ 39 # lit '';''"

definition agents_sql :: bytes where
  "agents_sql = lit ''select * from agents where is_enable='' @ 39 # lit ''true'' @ 39 # lit '';''"

text \<open>
  \<^verbatim>\<open>lcs_shm_load(db, err)\<close>: \<^verbatim>\<open>*err\<close> and the memory. A row of agents has 2224 bytes, and the size of the array is
  an \<^verbatim>\<open>int\<close>.
\<close>

definition lcs_shm_load :: "exec_db \<Rightarrow> (bytes \<Rightarrow> bool) \<Rightarrow> bytes \<Rightarrow> bytes \<Rightarrow> shmem \<Rightarrow> (int \<times> shmem) option" where
  "lcs_shm_load D can prefix file sh =
     (if ex_open D file \<noteq> 0 then Some (ex_open D file, sh)
      else if snd (ex_exec D file (lit ''BEGIN TRANSACTION'')) \<noteq> 0 then Some (164, sh)
      else do {
        n \<leftarrow> each_row lcs_agents_count (fst (ex_exec D file agents_count_sql)) 0;
        if snd (ex_exec D file agents_count_sql) \<noteq> 0 then Some (173, sh)
        else if n = 0 then Some (178, sh)
        else do {
          k1 \<leftarrow> fit 256 (prefix @ lit ''.agent.num'');
          k2 \<leftarrow> fit 256 (prefix @ lit ''.agent.data'');
          case lcs_create_shmagent can k1 (Num n 0) sh of None \<Rightarrow> Some (189, sh)
          | Some sh1 \<Rightarrow>
              if n < 0 \<or> 2 ^ 31 \<le> (n + 1) * 2224 then None
              else case lcs_create_shmagent can k2 (Agents (new_agents (nat n))) sh1 of None \<Rightarrow> Some (202, sh1)
              | Some sh2 \<Rightarrow> do {
                  s \<leftarrow> each_row lcs_shm_write (fst (ex_exec D file agents_sql)) \<lparr>ag_n = n, ag_i = 0, ag_ah = new_agents (nat n)\<rparr>;
                  let sh3 = sh2(k1 \<mapsto> Num n (ag_i s), k2 \<mapsto> Agents (ag_ah s));
                  Some (if snd (ex_exec D file agents_sql) \<noteq> 0 then 219
                        else if snd (ex_exec D file (lit ''END TRANSACTION'')) \<noteq> 0 then 225 else 0, sh3)
                }
        }
      })"

definition lcs_shm_start :: "exec_db \<Rightarrow> (bytes \<Rightarrow> bool) \<Rightarrow> LCS_SHM_A_INFO_sa \<Rightarrow> files \<Rightarrow> shmem \<Rightarrow> (int \<times> shmem) option" where
  "lcs_shm_start D can info fs sh = do {
     dir \<leftarrow> fld (dbpath_sa info); prefix \<leftarrow> fld (prefixshmkey_sa info);
     file \<leftarrow> fit 1024 (dir @ lit ''/lcs.db'');
     if fs file = None then Some (135, sh) else lcs_shm_load D can prefix file sh
   }"

definition main_sa :: "exec_db \<Rightarrow> (bytes \<Rightarrow> bool) \<Rightarrow> bytes \<Rightarrow> files \<Rightarrow> shmem \<Rightarrow> (int \<times> shmem) option" where
  "main_sa D can cfg fs sh = do { info \<leftarrow> lcs_cfg_load_sa fs cfg empty_sa; lcs_shm_start D can info fs sh }"

definition audd_count_sql :: bytes where
  "audd_count_sql = lit ''select count(*) from auto_dial_detail;''"

definition audd_sql :: bytes where
  "audd_sql = lit ''select id, phone_type, skill, customer_id, application_id, note, phone_number from auto_dial_detail;''"

text \<open>a row has 360 bytes; the array is not tested, and a null pointer is followed\<close>

definition lcs_audd_shmload :: "exec_db \<Rightarrow> (bytes \<Rightarrow> bool) \<Rightarrow> bytes \<Rightarrow> bytes \<Rightarrow> shmem \<Rightarrow> (int \<times> shmem) option" where
  "lcs_audd_shmload D can prefix file sh =
     (if ex_open D file \<noteq> 0 then Some (172, sh)
      else if snd (ex_exec D file (lit ''BEGIN TRANSACTION'')) \<noteq> 0 then Some (178, sh)
      else do {
        n \<leftarrow> each_row lcs_agents_count (fst (ex_exec D file audd_count_sql)) 0;
        if snd (ex_exec D file audd_count_sql) \<noteq> 0 then Some (185, sh)
        else if n = 0 then Some (190, sh)
        else do {
          k1 \<leftarrow> fit 256 (prefix @ lit ''.audd.num'');
          k2 \<leftarrow> fit 256 (prefix @ lit ''.audd.data'');
          case lcs_create_shmagent can k1 (Num n 0) sh of None \<Rightarrow> Some (201, sh)
          | Some sh1 \<Rightarrow>
              if n < 0 \<or> 2 ^ 31 \<le> (n + 1) * 360 then None
              else do {
                sh2 \<leftarrow> lcs_create_shmagent can k2 (Dials (new_dials (nat n))) sh1;
                p \<leftarrow> each_row lcs_audd_shmwrite (fst (ex_exec D file audd_sql)) \<lparr>au_n = n, au_i = 0, au_data = new_dials (nat n)\<rparr>;
                let sh3 = sh2(k1 \<mapsto> Num n (au_i p), k2 \<mapsto> Dials (au_data p));
                Some (if snd (ex_exec D file audd_sql) \<noteq> 0 then 227
                      else if snd (ex_exec D file (lit ''END TRANSACTION'')) \<noteq> 0 then 234 else 0, sh3)
              }
        }
      })"

definition lcs_audd_start :: "exec_db \<Rightarrow> (bytes \<Rightarrow> bool) \<Rightarrow> LCS_AUDD_INFO_sd \<Rightarrow> files \<Rightarrow> shmem \<Rightarrow> (int \<times> shmem) option" where
  "lcs_audd_start D can info fs sh = do {
     dir \<leftarrow> fld (dbpath_sd info); prefix \<leftarrow> fld (prefixshmkey_sd info);
     file \<leftarrow> fit 1024 (dir @ lit ''/lcs.db'');
     if fs file = None then Some (148, sh) else lcs_audd_shmload D can prefix file sh
   }"

definition main_sd :: "exec_db \<Rightarrow> (bytes \<Rightarrow> bool) \<Rightarrow> bytes \<Rightarrow> files \<Rightarrow> shmem \<Rightarrow> (int \<times> shmem) option" where
  "main_sd D can cfg fs sh = do { info \<leftarrow> lcs_cfg_load_sd fs cfg empty_sd; lcs_audd_start D can info fs sh }"

section \<open>Reading\<close>

text \<open>the loop over the slots of a bucket; \<open>P j\<close> says whether row \<open>j\<close> is the one, and may leave its objects\<close>

fun slot_loop :: "(nat \<Rightarrow> bool option) \<Rightarrow> int list \<Rightarrow> nat option option" where
  "slot_loop P [] = Some None"
| "slot_loop P (x # xs) =
     (if x < 0 then Some None
      else case P (nat x) of None \<Rightarrow> None | Some b \<Rightarrow> if b then Some (Some (nat x)) else slot_loop P xs)"

text \<open>the agent with the number \<open>v\<close>; \<open>h\<close> is -1 before \<^verbatim>\<open>lcs_comm_hash\<close>\<close>

definition find_agent :: "int \<Rightarrow> LCS_AGENTS_SHARED_AH list \<Rightarrow> bytes \<Rightarrow> lcs_mmap_agents option option" where
  "find_agent n ah v = do {
     h \<leftarrow> lcs_comm_hash v (- 1) n;
     if h \<le> - 1 then Some None
     else if nat h < length ah then do {
       r \<leftarrow> slot_loop (\<lambda>j. if j < length ah then map_option (\<lambda>s. s = v) (fld (agent_number (ah_a (ah ! j)))) else None) (ah_h (ah ! nat h));
       Some (map_option (\<lambda>j. ah_a (ah ! j)) r)
     } else None
   }"

text \<open>the entry with the number in \<open>v\<close>, or 0\<close>

definition find_dial :: "int \<Rightarrow> LCS_AUDD_SHARED_AUH list \<Rightarrow> bytes \<Rightarrow> lcs_mmap_auto_dial_detail option option" where
  "find_dial n d v = do {
     let u = scan_to v 0;
     h \<leftarrow> lcs_comm_hash_audd u n;
     if h \<le> - 1 then Some None
     else if nat h < length d then do {
       r \<leftarrow> slot_loop (\<lambda>j. if j < length d then Some (u = id_d (auh_au (d ! j))) else None) (auh_h (d ! nat h));
       Some (map_option (\<lambda>j. auh_au (d ! j)) r)
     } else None
   }"

text \<open>\<^verbatim>\<open>lcs_load_shmagent\<close>: \<^verbatim>\<open>err\<close>, and the number of agents with their array; \<open>avail\<close> is the outcome of \<^verbatim>\<open>shm_open\<close>\<close>

definition lcs_load_shmagent :: "(bytes \<Rightarrow> bool) \<Rightarrow> bytes \<Rightarrow> shmem \<Rightarrow> (int \<times> (int \<times> LCS_AGENTS_SHARED_AH list) option) option" where
  "lcs_load_shmagent avail prefix sh = do {
     k1 \<leftarrow> fit 256 (prefix @ lit ''.agent.num'');
     if \<not> avail k1 then Some (427, None)
     else do {
       n \<leftarrow> (case sh k1 of Some (Num n i) \<Rightarrow> Some n | _ \<Rightarrow> None);
       k2 \<leftarrow> fit 256 (prefix @ lit ''.agent.data'');
       if \<not> avail k2 then Some (437, None)
       else Some (0, Some (n, case sh k2 of Some (Agents ah) \<Rightarrow> ah | _ \<Rightarrow> []))
     }
   }"

section \<open>Buckets\<close>

text \<open>the rows of a bucket, and its \<open>N\<close> slots\<close>

definition bucket :: "('r \<Rightarrow> nat) \<Rightarrow> 'r list \<Rightarrow> nat \<Rightarrow> nat list" where
  "bucket hash rs j = filter (\<lambda>k. hash (rs ! k) = j) [0..<length rs]"

definition slots_of :: "nat \<Rightarrow> nat list \<Rightarrow> int list" where
  "slots_of N ks = map int (take N ks) @ replicate (N - length ks) (- 1)"

lemma put_slot_app: "put_slot k (map int ks @ xs) = map int ks @ put_slot k xs"
  by (induction ks) simp_all

lemma put_slot_slots: "put_slot (int k) (slots_of N ks) = slots_of N (ks @ [k])"
proof (cases "length ks < N")
  case True
  then obtain m where "N - length ks = Suc m" by (cases "N - length ks") auto
  moreover from this have "N - Suc (length ks) = m" by simp
  ultimately show ?thesis using True by (simp add: slots_of_def put_slot_app)
qed (simp add: slots_of_def put_slot_app [of _ _ "[]", simplified])

lemma bucket_snoc: "bucket hash (rs @ [r]) j = bucket hash rs j @ (if hash r = j then [length rs] else [])"
  by (auto simp: bucket_def nth_append intro!: filter_cong)

lemma bucket_less: "k \<in> set (bucket hash rs j) \<Longrightarrow> k < length rs"
  by (simp add: bucket_def)

lemma slot_loop_find:
  assumes "\<forall>k \<in> set ks. P k = Some (Q k)"
  shows "slot_loop P (map int ks @ replicate m (- 1)) = Some (find Q ks)"
  using assms
proof (induction ks)
  case Nil
  then show ?case by (cases m) simp_all
qed simp

lemma slot_loop_slots:
  assumes "\<forall>k \<in> set ks. P k = Some (Q k)"
  shows "slot_loop P (slots_of N ks) = Some (find Q (take N ks))"
  unfolding slots_of_def by (rule slot_loop_find) (use assms in \<open>auto dest: in_set_takeD\<close>)

lemma each_row_append: "each_row cb (rs @ rs') t = do { t' \<leftarrow> each_row cb rs t; each_row cb rs' t' }"
  by (induction rs arbitrary: t) (auto split: Option.bind_splits)

lemma bucket_rows: "map ((!) rs) (bucket hash rs j) = filter (\<lambda>r. hash r = j) rs"
proof -
  have "filter (\<lambda>r. hash r = j) (map ((!) rs) [0..<length rs]) = map ((!) rs) (bucket hash rs j)"
    by (simp add: filter_map bucket_def comp_def)
  then show ?thesis by (simp add: map_nth)
qed

lemma find_map: "find P (map f xs) = map_option f (find (\<lambda>x. P (f x)) xs)"
  by (induction xs) simp_all

lemma find_rows:
  "map_option (\<lambda>k. rs ! k) (find (\<lambda>k. P (rs ! k)) (take N (bucket hash rs j))) = find P (take N (filter (\<lambda>r. hash r = j) rs))"
  by (simp add: find_map take_map flip: bucket_rows)

text \<open>
  A table of \<open>n\<close> rows and one more, with \<open>N\<close> slots each, and the program that writes a row. \<open>data t\<close> are the rows
  without their slots, \<open>cnt t\<close> is the number of rows written.
\<close>

locale slot_table =
  fixes n N :: nat and zero :: 'e and put :: "'r \<Rightarrow> 't \<Rightarrow> 't option" and data :: "'t \<Rightarrow> 'e list"
    and slots :: "'t \<Rightarrow> int list list" and cnt :: "'t \<Rightarrow> nat" and inv :: "'t \<Rightarrow> bool" and good :: "'r \<Rightarrow> bool"
    and hash :: "'r \<Rightarrow> nat" and entry :: "'r \<Rightarrow> 'e"
  assumes shape: "inv t \<Longrightarrow> length (data t) = n + 1 \<and> length (slots t) = n + 1"
    and hash_less: "good r \<Longrightarrow> hash r < n"
    and write_row: "inv t \<Longrightarrow> good r \<Longrightarrow> cnt t < n \<Longrightarrow> data t ! cnt t = zero \<Longrightarrow>
      \<exists>t'. put r t = Some t' \<and> inv t' \<and> cnt t' = cnt t + 1 \<and> data t' = (data t)[cnt t := entry r] \<and>
        slots t' = (slots t)[hash r := put_slot (int (cnt t)) (slots t ! hash r)]"
begin

definition fresh :: "'t \<Rightarrow> bool" where
  "fresh t \<longleftrightarrow> inv t \<and> cnt t = 0 \<and> data t = replicate (n + 1) zero \<and> (\<forall>j < n. slots t ! j = replicate N (- 1))"

definition holds :: "'r list \<Rightarrow> 't \<Rightarrow> bool" where
  "holds rs t \<longleftrightarrow> inv t \<and> cnt t = length rs \<and> data t = map entry rs @ replicate (n + 1 - length rs) zero \<and>
     (\<forall>j < n. slots t ! j = slots_of N (bucket hash rs j))"

lemma table_written:
  assumes "fresh t" and "\<forall>r \<in> set rs. good r" and "length rs \<le> n"
  shows "\<exists>t'. each_row put rs t = Some t' \<and> holds rs t'"
  using assms(2,3)
proof (induction rs rule: rev_induct)
  case Nil
  then show ?case using assms(1) by (simp add: fresh_def holds_def bucket_def slots_of_def)
next
  case (snoc r rs)
  then obtain t1 where t1: "each_row put rs t = Some t1" "holds rs t1" by auto
  have h: "inv t1" "cnt t1 = length rs" "data t1 = map entry rs @ replicate (n + 1 - length rs) zero"
    "\<forall>j < n. slots t1 ! j = slots_of N (bucket hash rs j)"
    using t1(2) by (simp_all add: holds_def)
  have l: "length rs < n" "good r" using snoc.prems by simp_all
  then obtain m where m: "n + 1 - length rs = Suc m" "n + 1 - length (rs @ [r]) = m" by (cases "n + 1 - length rs") auto
  have "data t1 ! cnt t1 = zero" using h(2,3) m(1) by (simp add: nth_append)
  with write_row [OF h(1) l(2)] h(2) l(1) obtain t2 where t2: "put r t1 = Some t2" "inv t2" "cnt t2 = length rs + 1"
    "data t2 = (data t1)[length rs := entry r]" "slots t2 = (slots t1)[hash r := put_slot (int (length rs)) (slots t1 ! hash r)]"
    by auto
  have "data t2 = map entry (rs @ [r]) @ replicate (n + 1 - length (rs @ [r])) zero"
    using t2(4) h(3) m by (simp add: list_update_append)
  moreover have "slots t2 ! j = slots_of N (bucket hash (rs @ [r]) j)" if "j < n" for j
    using that h(4) hash_less [OF l(2)] shape [OF h(1)] by (cases "j = hash r") (simp_all add: t2(5) bucket_snoc put_slot_slots)
  ultimately show ?case using t1(1) t2 by (auto simp: each_row_append holds_def)
qed

text \<open>the loop over the slots of a bucket, as a search through its first rows\<close>

lemma looked_up:
  assumes "holds rs t" and "h < n" and "length rs \<le> n" and "\<forall>r \<in> set rs. P (entry r) = Some (Q r)"
    and "\<forall>j < n. f j = P (data t ! j) \<and> g j = data t ! j"
  shows "map_option (map_option g) (slot_loop f (slots t ! h)) = Some (map_option entry (find Q (take N (filter (\<lambda>r. hash r = h) rs))))"
proof -
  let ?b = "bucket hash rs h"
  have s: "slots t ! h = slots_of N ?b" using assms(1,2) by (simp add: holds_def)
  have d: "data t ! k = entry (rs ! k)" if "k < length rs" for k
    using that assms(1) by (simp add: holds_def nth_append)
  then have "slot_loop f (slots t ! h) = Some (find (\<lambda>k. Q (rs ! k)) (take N ?b))"
    unfolding s using assms(3-5) by (intro slot_loop_slots) (auto dest!: bucket_less)
  moreover have "map_option g (find (\<lambda>k. Q (rs ! k)) (take N ?b)) = map_option (\<lambda>k. entry (rs ! k)) (find (\<lambda>k. Q (rs ! k)) (take N ?b))"
  proof (rule option.map_cong0)
    fix k assume "k \<in> set_option (find (\<lambda>k. Q (rs ! k)) (take N ?b))"
    then have "find (\<lambda>k. Q (rs ! k)) (take N ?b) = Some k" by simp
    then have "k \<in> set (take N ?b)" unfolding find_Some_iff by (metis nth_mem)
    then show "g k = entry (rs ! k)" using d assms(3,5) by (auto dest!: in_set_takeD bucket_less)
  qed
  ultimately show ?thesis by (simp add: option.map_comp comp_def flip: find_rows)
qed

end

section \<open>Agents\<close>

text \<open>a row whose texts fit into their fields, and a number that is one\<close>

definition agent_room :: "(nat \<times> nat) list" where
  "agent_room = [(2, 40), (3, 255), (4, 7), (5, 255), (6, 255), (7, 255), (12, 40), (13, 40), (14, 255), (17, 255), (18, 255), (19, 255)]"

definition row_fits :: "nat \<Rightarrow> (nat \<times> nat) list \<Rightarrow> bytes option list \<Rightarrow> bool" where
  "row_fits m room r \<longleftrightarrow> length r = m \<and> (\<forall>v \<in> set r. v \<noteq> None) \<and>
     (\<forall>(i, k) \<in> set room. 0 \<notin> set (the (r ! i)) \<and> length (the (r ! i)) < k)"

definition numeral_is :: "bytes \<Rightarrow> int \<Rightarrow> bool" where
  "numeral_is v x \<longleftrightarrow> (\<forall>d. scan_d v d = Some x) \<and> 0 \<le> x"

definition agent_of :: "bytes option list \<Rightarrow> lcs_mmap_agents" where
  "agent_of r = the (fill_agent r zero_agent)"

definition agent_hash :: "nat \<Rightarrow> bytes option list \<Rightarrow> nat" where
  "agent_hash n r = nat (the (scan_d (the (r ! 2)) 0) mod int n)"

definition agent_row :: "bytes option list \<Rightarrow> bool" where
  "agent_row r \<longleftrightarrow> row_fits 20 agent_room r \<and> (\<exists>x. numeral_is (the (r ! 2)) x)"

lemma col_row: "row_fits m room r \<Longrightarrow> i < m \<Longrightarrow> col_at r i = Some (the (r ! i))"
  by (auto simp: row_fits_def col_at_def)

lemma strcat_zeros: "0 \<notin> set v \<Longrightarrow> length v < k \<Longrightarrow> strcat_to (zeros k) v = Some (pad k v)"
  using sprintf_zeros [of v k] by (simp add: strcat_to_def sprintf_to_def fld_zeros)

lemma agent_filled:
  assumes "agent_row r"
  shows "fill_agent r zero_agent = Some (agent_of r)" and "fld (agent_number (agent_of r)) = Some (the (r ! 2))"
proof -
  have f: "row_fits 20 agent_room r" using assms by (simp add: agent_row_def)
  note c = col_row [OF f]
  have v: "\<forall>(i, k) \<in> set agent_room. strcat_to (zeros k) (the (r ! i)) = Some (pad k (the (r ! i)))"
    using f strcat_zeros by (auto simp: row_fits_def)
  note v = v [unfolded agent_room_def, simplified]
  have "0 \<notin> set (the (r ! 2))" "length (the (r ! 2)) < 40" using f by (simp_all add: row_fits_def agent_room_def)
  then have n: "fld (pad 40 (the (r ! 2))) = Some (the (r ! 2))" by (simp add: fld_pad)
  have "\<exists>a. fill_agent r zero_agent = Some a \<and> fld (agent_number a) = Some (the (r ! 2))"
    unfolding fill_agent_def zero_agent_def by (simp add: c v n)
  then show "fill_agent r zero_agent = Some (agent_of r)" "fld (agent_number (agent_of r)) = Some (the (r ! 2))"
    by (auto simp: agent_of_def)
qed

lemma hash_numeral: "numeral_is v x \<Longrightarrow> 0 < n \<Longrightarrow> lcs_comm_hash v d (int n) = Some (x mod int n)"
  by (cases "x = 0") (auto simp: lcs_comm_hash_def numeral_is_def signed_modulo_int_def)

lemma agent_hash_numeral: "numeral_is (the (r ! 2)) x \<Longrightarrow> agent_hash n r = nat (x mod int n)"
  by (simp add: agent_hash_def numeral_is_def)

lemma map_same: "j < length xs \<Longrightarrow> f y = f (xs ! j) \<Longrightarrow> map f (xs[j := y]) = map f xs"
  using list_update_id [of "map f xs" j] by (simp add: map_update)

lemma write_agent:
  assumes "ag_n t = int n" "length (ag_ah t) = Suc n" "0 < n" "agent_row r" "ag_i t < n" "map ah_a (ag_ah t) ! ag_i t = zero_agent"
  shows "\<exists>t'. lcs_shm_write r t = Some t' \<and> (ag_n t' = int n \<and> length (ag_ah t') = Suc n) \<and> ag_i t' = ag_i t + 1 \<and>
    map ah_a (ag_ah t') = (map ah_a (ag_ah t))[ag_i t := agent_of r] \<and>
    map ah_h (ag_ah t') = (map ah_h (ag_ah t))[agent_hash n r := put_slot (int (ag_i t)) (map ah_h (ag_ah t) ! agent_hash n r)]"
proof -
  obtain x where x: "numeral_is (the (r ! 2)) x" using assms(4) by (auto simp: agent_row_def)
  have c: "col_at r 2 = Some (the (r ! 2))" using assms(4) col_row [of 20 agent_room r 2] by (simp add: agent_row_def)
  let ?k = "ag_i t" and ?ah = "ag_ah t" and ?j = "agent_hash n r"
  have j: "?j = nat (x mod int n)" "?j < n" "0 \<le> x mod int n" using agent_hash_numeral [OF x] assms(3) by (simp_all add: nat_less_iff)
  have z: "ah_a (?ah ! ?k) = zero_agent" using assms(2,5,6) by simp
  let ?ah1 = "?ah[?j := (?ah ! ?j)\<lparr>ah_h := put_slot (int ?k) (ah_h (?ah ! ?j))\<rparr>]"
  have w: "lcs_shm_write r t = Some (t\<lparr>ag_i := ?k + 1, ag_ah := ?ah1[?k := (?ah1 ! ?k)\<lparr>ah_a := agent_of r\<rparr>]\<rparr>)"
    using c hash_numeral [OF x assms(3)] j assms(1,2,5) agent_filled(1) [OF assms(4)] z by (simp add: lcs_shm_write_def Let_def)
  have "map ah_a ?ah1 = map ah_a ?ah" using j(2) assms(2) by (intro map_same) simp_all
  moreover have "map ah_h (?ah1[?k := (?ah1 ! ?k)\<lparr>ah_a := agent_of r\<rparr>]) = map ah_h ?ah1" using assms(2,5) by (intro map_same) simp_all
  ultimately show ?thesis using w assms(1,2) j(2) by (simp add: map_update)
qed

interpretation agents: slot_table n 4 zero_agent lcs_shm_write "\<lambda>t. map ah_a (ag_ah t)" "\<lambda>t. map ah_h (ag_ah t)" ag_i
  "\<lambda>t. ag_n t = int n \<and> length (ag_ah t) = Suc n" "\<lambda>r. 0 < n \<and> agent_row r" "agent_hash n" agent_of
  for n
proof (unfold_locales, goal_cases)
  case (2 r)
  then show ?case by (simp add: agent_hash_def nat_less_iff)
next
  case (3 t r)
  then show ?case using write_agent [of t n r] by blast
qed simp

lemma new_agents_fresh: "agents.fresh n \<lparr>ag_n = int n, ag_i = 0, ag_ah = new_agents n\<rparr>"
  by (simp add: agents.fresh_def new_agents_def nth_append replicate_append_same)

lemma found_agent:
  assumes h: "agents.holds n rs t" and rs: "\<forall>r \<in> set rs. agent_row r" and n: "length rs = n" "0 < n"
    and v: "numeral_is v x"
  shows "find_agent (int n) (ag_ah t) v =
    Some (map_option agent_of (find (\<lambda>r. the (r ! 2) = v) (take 4 (filter (\<lambda>r. agent_hash n r = nat (x mod int n)) rs))))"
proof -
  let ?h = "nat (x mod int n)" and ?ah = "ag_ah t"
  have len: "length ?ah = Suc n" using h by (simp add: agents.holds_def)
  have hn: "?h < n" "0 \<le> x mod int n" using n(2) by (simp_all add: nat_less_iff)
  have m: "(x mod int n \<le> - 1) = False" using hn(2) by (auto simp del: pos_mod_sign)
  let ?P = "\<lambda>a. map_option (\<lambda>s. s = v) (fld (agent_number a))"
  let ?f = "\<lambda>j. if j < length ?ah then ?P (ah_a (?ah ! j)) else None"
  have "map_option (map_option (\<lambda>j. ah_a (?ah ! j))) (slot_loop ?f (map ah_h ?ah ! ?h)) =
      Some (map_option agent_of (find (\<lambda>r. the (r ! 2) = v) (take 4 (filter (\<lambda>r. agent_hash n r = ?h) rs))))"
    by (rule agents.looked_up [OF h hn(1), where P = ?P]) (use n(1) rs agent_filled(2) len in auto)
  then show ?thesis
    using hash_numeral [OF v n(2), of "- 1"] hn len by (simp add: find_agent_def map_conv_bind_option comp_def m)
qed

text \<open>what the database answers, and the names the memory is found by\<close>

definition answers :: "exec_db \<Rightarrow> bytes \<Rightarrow> bytes \<Rightarrow> bytes \<Rightarrow> bytes option list list \<Rightarrow> bool" where
  "answers D file count_sql sql rs \<longleftrightarrow> ex_open D file = 0 \<and> snd (ex_exec D file (lit ''BEGIN TRANSACTION'')) = 0 \<and>
     ex_exec D file count_sql = ([[Some (sdec (int (length rs)))]], 0) \<and> ex_exec D file sql = (rs, 0) \<and>
     snd (ex_exec D file (lit ''END TRANSACTION'')) = 0"

lemma counted_rows: "int n < 2 ^ 31 \<Longrightarrow> each_row lcs_agents_count [[Some (sdec (int n))]] 0 = Some (int n)"
  by (simp add: lcs_agents_count_def col_at_def scan_d_sdec is_int_def)

text \<open>
  C15. What the agents' table finds, over both programs. From a database whose enabled agents have texts that fit
  and numbers that are not negative, \<^verbatim>\<open>shmcreate\<close> fills the memory without an error, and a program that reads it finds
  under a number \<open>v\<close> the data of the agent with it, if it is one of the first four, in the order of the database,
  whose numbers have the remainder of \<open>v\<close> modulo the number of agents; all others are lost, and found by no one.
\<close>

theorem agents_found:
  assumes "fld (dbpath_sa info) = Some dir" and "fld (prefixshmkey_sa info) = Some prefix" and "length dir < 1000"
    and "fs (dir @ lit ''/lcs.db'') \<noteq> None" and "answers D (dir @ lit ''/lcs.db'') agents_count_sql agents_sql rs"
    and "\<forall>r \<in> set rs. agent_row r" and "rs \<noteq> []" and "(int (length rs) + 1) * 2224 < 2 ^ 31"
    and "\<forall>k \<in> {prefix @ lit ''.agent.num'', prefix @ lit ''.agent.data''}. can k \<and> avail k \<and> sh k = None"
    and "length prefix < 128"
  shows "\<exists>sh' ah. lcs_shm_start D can info fs sh = Some (0, sh') \<and>
    lcs_load_shmagent avail prefix sh' = Some (0, Some (int (length rs), ah)) \<and>
    (\<forall>v x. numeral_is v x \<longrightarrow> find_agent (int (length rs)) ah v =
       Some (map_option agent_of (find (\<lambda>r. the (r ! 2) = v)
         (take 4 (filter (\<lambda>r. agent_hash (length rs) r = nat (x mod int (length rs))) rs)))))"
proof -
  let ?n = "length rs" and ?f = "dir @ lit ''/lcs.db''" and ?k1 = "prefix @ lit ''.agent.num''" and ?k2 = "prefix @ lit ''.agent.data''"
  let ?t = "\<lparr>ag_n = int ?n, ag_i = 0, ag_ah = new_agents ?n\<rparr>"
  obtain t where t: "each_row lcs_shm_write rs ?t = Some t" "agents.holds ?n rs t"
    using agents.table_written [OF new_agents_fresh, of rs ?n] assms(6,7) by auto
  have found: "find_agent (int ?n) (ag_ah t) v =
      Some (map_option agent_of (find (\<lambda>r. the (r ! 2) = v) (take 4 (filter (\<lambda>r. agent_hash ?n r = nat (x mod int ?n)) rs))))"
    if "numeral_is v x" for v x
    using found_agent [OF t(2) assms(6) refl _ that] assms(7) by simp
  have k: "fit 256 ?k1 = Some ?k1" "fit 256 ?k2 = Some ?k2" "?k1 \<noteq> ?k2" using assms(10) by (simp_all add: fit_def lit_def)
  let ?sh = "sh(?k1 \<mapsto> Num (int ?n) (ag_i t), ?k2 \<mapsto> Agents (ag_ah t))"
  have "lcs_shm_load D can prefix ?f sh = Some (0, ?sh)"
    using assms(5,7,8,9) counted_rows [of ?n] k t(1) by (simp add: lcs_shm_load_def answers_def lcs_create_shmagent_def Let_def)
  then have "lcs_shm_start D can info fs sh = Some (0, ?sh)"
    using assms(1-4) by (simp add: lcs_shm_start_def fit_def)
  moreover have "lcs_load_shmagent avail prefix ?sh = Some (0, Some (int ?n, ag_ah t))"
    using k assms(9) by (simp add: lcs_load_shmagent_def)
  ultimately show ?thesis using found by blast
qed

section \<open>Entries of automatic calls\<close>

definition dial_room :: "(nat \<times> nat) list" where
  "dial_room = [(1, 8), (3, 16), (4, 32), (5, 255), (6, 25)]"

definition dial_of :: "bytes option list \<Rightarrow> lcs_mmap_auto_dial_detail" where
  "dial_of r = the (fill_dial r zero_dial)"

definition dial_hash :: "nat \<Rightarrow> bytes option list \<Rightarrow> nat" where
  "dial_hash n r = unat (scan_to (the (r ! 0)) 0 mod of_nat n)"

lemma dial_filled:
  assumes "row_fits 7 dial_room r"
  shows "fill_dial r zero_dial = Some (dial_of r)" and "id_d (dial_of r) = scan_to (the (r ! 0)) 0"
proof -
  note c = col_row [OF assms]
  have v: "\<forall>(i, k) \<in> set dial_room. strcat_to (zeros k) (the (r ! i)) = Some (pad k (the (r ! i)))"
    using assms strcat_zeros by (auto simp: row_fits_def)
  note v = v [unfolded dial_room_def, simplified]
  have "\<exists>a. fill_dial r zero_dial = Some a \<and> id_d a = scan_to (the (r ! 0)) 0"
    unfolding fill_dial_def zero_dial_def by (simp add: c v)
  then show "fill_dial r zero_dial = Some (dial_of r)" "id_d (dial_of r) = scan_to (the (r ! 0)) 0"
    by (auto simp: dial_of_def)
qed

lemma sint_small: "unat x < 2 ^ 31 \<Longrightarrow> sint (ucast x :: 32 word) = int (unat x)"
  for x :: "64 word"
proof -
  assume "unat x < 2 ^ 31"
  then have "int (unat x) < int (2 ^ 31)" by (simp only: of_nat_less_iff)
  then have u: "uint x < 2 ^ 31" by simp
  moreover have "- (2 ^ 31) \<le> uint x" by (rule order_trans [OF _ uint_ge_0]) simp
  ultimately have "signed_take_bit 31 (uint x) = uint x" by (intro signed_take_bit_int_eq_self)
  then show ?thesis using u by (simp add: sint_uint unsigned_ucast_eq take_bit_int_eq_self)
qed

lemma hash_audd:
  assumes "0 < n" and "n < 2 ^ 31"
  shows "lcs_comm_hash_audd u (int n) = Some (int (unat (u mod of_nat n)))" and "unat (u mod of_nat n) < n"
proof -
  have "n < 2 ^ 64" by (rule less_le_trans [OF assms(2)]) simp
  then have "unat (of_nat n :: 64 word) = n" by (simp add: unat_of_nat take_bit_nat_eq_self)
  then show l: "unat (u mod of_nat n) < n" using assms(1) by (simp only: unat_mod_distrib mod_less_divisor)
  show "lcs_comm_hash_audd u (int n) = Some (int (unat (u mod of_nat n)))"
    using assms(1) sint_small [OF less_trans [OF l assms(2)]] by (simp only: lcs_comm_hash_audd_def of_int_of_nat_eq) simp
qed

lemma write_dial:
  assumes "au_n t = int n" "length (au_data t) = Suc n" "0 < n" "n < 2 ^ 31" "row_fits 7 dial_room r" "au_i t < n"
    "map auh_au (au_data t) ! au_i t = zero_dial"
  shows "\<exists>t'. lcs_audd_shmwrite r t = Some t' \<and> (au_n t' = int n \<and> length (au_data t') = Suc n) \<and> au_i t' = au_i t + 1 \<and>
    map auh_au (au_data t') = (map auh_au (au_data t))[au_i t := dial_of r] \<and>
    map auh_h (au_data t') = (map auh_h (au_data t))[dial_hash n r := put_slot (int (au_i t)) (map auh_h (au_data t) ! dial_hash n r)]"
proof -
  let ?k = "au_i t" and ?d = "au_data t" and ?j = "dial_hash n r"
  note h = hash_audd [OF assms(3,4), of "scan_to (the (r ! 0)) 0", folded dial_hash_def]
  have z: "auh_au (?d ! ?k) = zero_dial" using assms(2,6,7) by simp
  let ?d1 = "?d[?j := (?d ! ?j)\<lparr>auh_h := put_slot (int ?k) (auh_h (?d ! ?j))\<rparr>]"
  have w: "lcs_audd_shmwrite r t = Some (t\<lparr>au_i := ?k + 1, au_data := ?d1[?k := (?d1 ! ?k)\<lparr>auh_au := dial_of r\<rparr>]\<rparr>)"
    using dial_filled [OF assms(5)] h assms(1,2,6) z by (simp add: lcs_audd_shmwrite_def Let_def)
  have "map auh_au ?d1 = map auh_au ?d" using h(2) assms(2) by (intro map_same) simp_all
  moreover have "map auh_h (?d1[?k := (?d1 ! ?k)\<lparr>auh_au := dial_of r\<rparr>]) = map auh_h ?d1" using assms(2,6) by (intro map_same) simp_all
  ultimately show ?thesis using w assms(1,2) h(2) by (simp add: map_update)
qed

interpretation dials: slot_table n 2 zero_dial lcs_audd_shmwrite "\<lambda>t. map auh_au (au_data t)" "\<lambda>t. map auh_h (au_data t)" au_i
  "\<lambda>t. au_n t = int n \<and> length (au_data t) = Suc n" "\<lambda>r. (0 < n \<and> n < 2 ^ 31) \<and> row_fits 7 dial_room r" "dial_hash n" dial_of
  for n
proof (unfold_locales, goal_cases)
  case (2 r)
  then show ?case using hash_audd(2) unfolding dial_hash_def by blast
next
  case (3 t r)
  then show ?case using write_dial [of t n r] by blast
qed simp

lemma new_dials_fresh: "dials.fresh n \<lparr>au_n = int n, au_i = 0, au_data = new_dials n\<rparr>"
  by (simp add: dials.fresh_def new_dials_def nth_append replicate_append_same)

lemma found_dial:
  assumes h: "dials.holds n rs t" and rs: "\<forall>r \<in> set rs. row_fits 7 dial_room r" and n: "length rs = n" "0 < n" "n < 2 ^ 31"
  shows "find_dial (int n) (au_data t) v =
    Some (map_option dial_of (find (\<lambda>r. scan_to (the (r ! 0)) 0 = scan_to v 0)
      (take 2 (filter (\<lambda>r. dial_hash n r = unat (scan_to v 0 mod of_nat n)) rs))))"
proof -
  let ?u = "scan_to v 0" and ?d = "au_data t"
  let ?h = "unat (?u mod of_nat n)"
  note hn = hash_audd [OF n(2,3), of ?u]
  have len: "length ?d = Suc n" using h by (simp add: dials.holds_def)
  let ?f = "\<lambda>j. if j < length ?d then Some (?u = id_d (auh_au (?d ! j))) else None"
  have "map_option (map_option (\<lambda>j. auh_au (?d ! j))) (slot_loop ?f (map auh_h ?d ! ?h)) =
      Some (map_option dial_of (find (\<lambda>r. scan_to (the (r ! 0)) 0 = ?u) (take 2 (filter (\<lambda>r. dial_hash n r = ?h) rs))))"
    by (rule dials.looked_up [OF h hn(2), where P = "\<lambda>a. Some (?u = id_d a)"]) (use n(1) rs dial_filled(2) len in auto)
  then show ?thesis
    using hn len by (simp add: find_dial_def Let_def map_conv_bind_option comp_def del: of_nat_unat)
qed

text \<open>
  The same for the entries of automatic calls: of the entries whose ids have the same remainder only the first two
  are found. The remainder is taken as an unsigned number of 64 bits.
\<close>

theorem dials_found:
  assumes "fld (dbpath_sd info) = Some dir" and "fld (prefixshmkey_sd info) = Some prefix" and "length dir < 1000"
    and "fs (dir @ lit ''/lcs.db'') \<noteq> None" and "answers D (dir @ lit ''/lcs.db'') audd_count_sql audd_sql rs"
    and "\<forall>r \<in> set rs. row_fits 7 dial_room r" and "rs \<noteq> []" and "(int (length rs) + 1) * 360 < 2 ^ 31"
    and "\<forall>k \<in> {prefix @ lit ''.audd.num'', prefix @ lit ''.audd.data''}. can k \<and> sh k = None" and "length prefix < 128"
  shows "\<exists>sh' d. lcs_audd_start D can info fs sh = Some (0, sh') \<and> sh' (prefix @ lit ''.audd.data'') = Some (Dials d) \<and>
    (\<forall>v. find_dial (int (length rs)) d v =
       Some (map_option dial_of (find (\<lambda>r. scan_to (the (r ! 0)) 0 = scan_to v 0)
         (take 2 (filter (\<lambda>r. dial_hash (length rs) r = unat (scan_to v 0 mod of_nat (length rs))) rs)))))"
proof -
  let ?n = "length rs" and ?f = "dir @ lit ''/lcs.db''" and ?k1 = "prefix @ lit ''.audd.num''" and ?k2 = "prefix @ lit ''.audd.data''"
  let ?t = "\<lparr>au_n = int ?n, au_i = 0, au_data = new_dials ?n\<rparr>"
  have n: "0 < ?n" "?n < 2 ^ 31" using assms(7,8) by simp_all
  obtain t where t: "each_row lcs_audd_shmwrite rs ?t = Some t" "dials.holds ?n rs t"
    using dials.table_written [OF new_dials_fresh, of rs ?n] assms(6) n by auto
  have k: "fit 256 ?k1 = Some ?k1" "fit 256 ?k2 = Some ?k2" "?k1 \<noteq> ?k2" using assms(10) by (simp_all add: fit_def lit_def)
  let ?sh = "sh(?k1 \<mapsto> Num (int ?n) (au_i t), ?k2 \<mapsto> Dials (au_data t))"
  have "lcs_audd_shmload D can prefix ?f sh = Some (0, ?sh)"
    using assms(5,7,8,9) counted_rows [of ?n] k t(1) by (simp add: lcs_audd_shmload_def answers_def lcs_create_shmagent_def Let_def)
  then have "lcs_audd_start D can info fs sh = Some (0, ?sh)"
    using assms(1-4) by (simp add: lcs_audd_start_def fit_def)
  then show ?thesis using found_dial [OF t(2) assms(6) refl n] k(3) by (intro exI [of _ ?sh] exI [of _ "au_data t"]) simp
qed

section \<open>A concrete table\<close>

text \<open>five agents whose numbers have the same remainder\<close>

definition demo_agent :: "bytes \<Rightarrow> bytes option list" where
  "demo_agent v = [Some (lit ''1''), Some (lit ''1''), Some v] @ replicate 17 (Some (lit ''0''))"

definition demo_numbers :: "int list" where
  "demo_numbers = [100, 105, 110, 115, 120]"

definition demo_agents :: "bytes option list list" where
  "demo_agents = map (\<lambda>x. demo_agent (sdec x)) demo_numbers"

definition demo_exec_db :: exec_db where
  "demo_exec_db = \<lparr>ex_open = \<lambda>_. 0, ex_exec = \<lambda>_ q. if q = agents_count_sql then ([[Some (sdec 5)]], 0)
     else if q = agents_sql then (demo_agents, 0) else ([], 0)\<rparr>"

definition demo_info_sa :: LCS_SHM_A_INFO_sa where
  "demo_info_sa = empty_sa\<lparr>dbpath_sa := pad 1024 (lit ''d''), prefixshmkey_sa := pad 128 (lit ''p'')\<rparr>"

lemma demo_number: "x \<in> {0..<1000} \<Longrightarrow> numeral_is (sdec x) x"
  by (simp add: numeral_is_def scan_d_sdec is_int_def)

lemma demo_agent_row:
  assumes "x \<in> {0..<1000}"
  shows "agent_row (demo_agent (sdec x))"
proof -
  have "nat x < 10 ^ 3" using assms by auto
  then have "length (sdec x) \<le> 3" using assms length_dec [of "nat x" 3] by (simp add: sdec_def)
  then show ?thesis
    using demo_number [OF assms] sdec_plain [of x]
    by (auto simp: agent_row_def row_fits_def agent_room_def demo_agent_def lit_def nth_append)
qed

theorem agents_found_witness:
  "\<exists>sh' ah a. lcs_shm_start demo_exec_db (\<lambda>_. True) demo_info_sa [lit ''d/lcs.db'' \<mapsto> []] Map.empty = Some (0, sh') \<and>
     lcs_load_shmagent (\<lambda>_. True) (lit ''p'') sh' = Some (0, Some (5, ah)) \<and>
     find_agent 5 ah (sdec 115) = Some (Some a) \<and> find_agent 5 ah (sdec 120) = Some None"
proof -
  let ?rs = demo_agents
  have q: "agents_count_sql \<noteq> lit ''BEGIN TRANSACTION''" "agents_sql \<noteq> lit ''BEGIN TRANSACTION''"
    "agents_count_sql \<noteq> lit ''END TRANSACTION''" "agents_sql \<noteq> lit ''END TRANSACTION''" "agents_sql \<noteq> agents_count_sql"
    by code_simp+
  have n: "length ?rs = 5" by (simp add: demo_agents_def demo_numbers_def)
  have d: "answers demo_exec_db (lit ''d'' @ lit ''/lcs.db'') agents_count_sql agents_sql ?rs"
    using q n by (simp add: answers_def demo_exec_db_def)
  have r: "\<forall>r \<in> set ?rs. agent_row r" using demo_agent_row by (auto simp: demo_agents_def demo_numbers_def)
  have i: "fld (dbpath_sa demo_info_sa) = Some (lit ''d'')" "fld (prefixshmkey_sa demo_info_sa) = Some (lit ''p'')"
    by (simp_all add: demo_info_sa_def fld_pad lit_no_zero)
  have p: "lit ''d'' @ lit ''/lcs.db'' = lit ''d/lcs.db''" by (simp add: lit_def)
  have e: "?rs \<noteq> []" "(int (length ?rs) + 1) * 2224 < 2 ^ 31" using n by (auto simp del: length_0_conv)
  have l: "length (lit ''d'') < 1000" "length (lit ''p'') < 128" by (simp_all add: lit_def)
  have "\<exists>sh' ah. lcs_shm_start demo_exec_db (\<lambda>_. True) demo_info_sa [lit ''d/lcs.db'' \<mapsto> []] Map.empty = Some (0, sh') \<and>
    lcs_load_shmagent (\<lambda>_. True) (lit ''p'') sh' = Some (0, Some (int (length ?rs), ah)) \<and>
    (\<forall>v x. numeral_is v x \<longrightarrow> find_agent (int (length ?rs)) ah v = Some (map_option agent_of (find (\<lambda>r. the (r ! 2) = v)
       (take 4 (filter (\<lambda>r. agent_hash (length ?rs) r = nat (x mod int (length ?rs))) ?rs)))))"
    by (rule agents_found [OF i l(1) _ d r e _ l(2)]) (simp_all add: p)
  then obtain sh' ah where o: "lcs_shm_start demo_exec_db (\<lambda>_. True) demo_info_sa [lit ''d/lcs.db'' \<mapsto> []] Map.empty = Some (0, sh')"
    "lcs_load_shmagent (\<lambda>_. True) (lit ''p'') sh' = Some (0, Some (5, ah))"
    "\<And>v x. numeral_is v x \<Longrightarrow> find_agent 5 ah v = Some (map_option agent_of (find (\<lambda>r. the (r ! 2) = v)
       (take 4 (filter (\<lambda>r. agent_hash 5 r = nat (x mod 5)) ?rs))))"
    unfolding n by (metis of_nat_numeral)
  have h: "agent_hash 5 (demo_agent (sdec x)) = nat (x mod 5)" "the (demo_agent (sdec x) ! 2) = sdec x" if "x \<in> {0..<1000}" for x
    using agent_hash_numeral [of "demo_agent (sdec x)" x 5] demo_number [OF that] by (simp_all add: demo_agent_def)
  have s: "sdec 100 \<noteq> sdec 115" "sdec 105 \<noteq> sdec 115" "sdec 110 \<noteq> sdec 115" "sdec 100 \<noteq> sdec 120" "sdec 105 \<noteq> sdec 120"
    "sdec 110 \<noteq> sdec 120" "sdec 115 \<noteq> sdec 120" by code_simp+
  have "find_agent 5 ah (sdec 115) = Some (Some (agent_of (demo_agent (sdec 115))))" "find_agent 5 ah (sdec 120) = Some None"
    using o(3) [OF demo_number [of 115]] o(3) [OF demo_number [of 120]] s h
    by (simp_all add: demo_agents_def demo_numbers_def)
  then show ?thesis using o(1,2) by blast
qed

end
