(* ===== verification/Codec.thy ===== *)
theory Codec
  imports Prelude
begin

text \<open>
  The little-endian integer codecs of \<^verbatim>\<open>notify.system/msg_notify.c\<close>
  (\<^verbatim>\<open>uint64_2_arr\<close> ... \<^verbatim>\<open>arr_2_uint16\<close>), the layout of \<^verbatim>\<open>MSG_COMMON\<close>
  (\<^verbatim>\<open>msg_notify.h\<close>) and \<^verbatim>\<open>put_time_to_msg\<close>, with their round trips.
\<close>

section \<open>Integers as byte arrays\<close>

text \<open>
  The loop \<^verbatim>\<open>for(i = 0; i < sz; ++i) arr[i] = (n >> (i*8)) & 0xFF;\<close> from index \<open>i\<close>
  with \<open>k\<close> turns left. A shift by the width or more is undefined in C.
\<close>

fun put_le :: "'a::len word \<Rightarrow> nat \<Rightarrow> nat \<Rightarrow> bytes \<Rightarrow> bytes option" where
  "put_le n i 0 arr = Some arr"
| "put_le n i (Suc k) arr =
     (if i < length arr \<and> i * 8 < LENGTH('a)
      then put_le n (Suc i) k (arr[i := ucast (drop_bit (i * 8) n AND 0xFF)]) else None)"

text \<open>The loop \<^verbatim>\<open>t = arr[i]; ( *n) |= (t << (i*8));\<close>, with \<open>t\<close> of type \<open>'b word\<close>.\<close>

fun get_le :: "bytes \<Rightarrow> 'b::len itself \<Rightarrow> 'a::len word \<Rightarrow> nat \<Rightarrow> nat \<Rightarrow> 'a word option" where
  "get_le arr ty n i 0 = Some n"
| "get_le arr ty n i (Suc k) =
     (if i < length arr \<and> i * 8 < LENGTH('b)
      then get_le arr ty (n OR ucast (push_bit (i * 8) (ucast (arr ! i) :: 'b word))) (Suc i) k
      else None)"

text \<open>
  A null \<open>arr\<close> (or a null output pointer) leaves everything as it is; the return value is
  always 0. The array argument and the result value are \<^term>\<open>None\<close> for null.
\<close>

definition uint64_2_arr :: "bytes option \<Rightarrow> 64 word \<Rightarrow> int \<Rightarrow> (int \<times> bytes option) option" where
  "uint64_2_arr arr n sz =
     (case arr of None \<Rightarrow> Some (0, None)
      | Some a \<Rightarrow> map_option (\<lambda>a'. (0, Some a')) (put_le n 0 (nat sz) a))"

definition arr_2_uint64 ::
  "bytes option \<Rightarrow> 64 word option \<Rightarrow> int \<Rightarrow> (int \<times> 64 word option) option" where
  "arr_2_uint64 arr n sz =
     (case (arr, n) of
        (Some a, Some v) \<Rightarrow> map_option (\<lambda>r. (0, Some r)) (get_le a TYPE(64) 0 0 (nat sz))
      | _ \<Rightarrow> Some (0, n))"

definition uint32_2_arr :: "bytes option \<Rightarrow> 32 word \<Rightarrow> int \<Rightarrow> (int \<times> bytes option) option" where
  "uint32_2_arr arr n sz =
     (case arr of None \<Rightarrow> Some (0, None)
      | Some a \<Rightarrow> map_option (\<lambda>a'. (0, Some a')) (put_le n 0 (nat sz) a))"

definition arr_2_uint32 ::
  "bytes option \<Rightarrow> 32 word option \<Rightarrow> int \<Rightarrow> (int \<times> 32 word option) option" where
  "arr_2_uint32 arr n sz =
     (case (arr, n) of
        (Some a, Some v) \<Rightarrow> map_option (\<lambda>r. (0, Some r)) (get_le a TYPE(32) 0 0 (nat sz))
      | _ \<Rightarrow> Some (0, n))"

text \<open>The \<^verbatim>\<open>uint16_t\<close> argument is promoted to \<^verbatim>\<open>int\<close> before it is shifted.\<close>

definition uint16_2_arr :: "bytes option \<Rightarrow> 16 word \<Rightarrow> int \<Rightarrow> (int \<times> bytes option) option" where
  "uint16_2_arr arr n sz =
     (case arr of None \<Rightarrow> Some (0, None)
      | Some a \<Rightarrow> map_option (\<lambda>a'. (0, Some a')) (put_le (ucast n :: 32 word) 0 (nat sz) a))"

text \<open>Here the shifted byte is a \<^verbatim>\<open>uint32_t\<close>, or-ed into 16 bits.\<close>

definition arr_2_uint16 ::
  "bytes option \<Rightarrow> 16 word option \<Rightarrow> int \<Rightarrow> (int \<times> 16 word option) option" where
  "arr_2_uint16 arr n sz =
     (case (arr, n) of
        (Some a, Some v) \<Rightarrow> map_option (\<lambda>r. (0, Some r)) (get_le a TYPE(32) 0 0 (nat sz))
      | _ \<Rightarrow> Some (0, n))"

lemma put_le_eq:
  fixes n :: "'a::len word"
  assumes "i + k \<le> length arr" and "(i + k) * 8 \<le> LENGTH('a)"
  shows "put_le n i k arr =
    Some (take i arr @ map (\<lambda>j. ucast (drop_bit (j * 8) n AND 0xFF)) [i..<i + k] @ drop (i + k) arr)"
  using assms
proof (induction k arbitrary: i arr)
  case 0
  then show ?case by simp
next
  case (Suc k)
  let ?b = "ucast (drop_bit (i * 8) n AND 0xFF) :: byte"
  have "put_le n i (Suc k) arr = put_le n (Suc i) k (arr[i := ?b])"
    using Suc.prems by simp
  also have "\<dots> = Some (take (Suc i) (arr[i := ?b])
      @ map (\<lambda>j. ucast (drop_bit (j * 8) n AND 0xFF)) [Suc i..<Suc i + k]
      @ drop (Suc i + k) (arr[i := ?b]))"
    using Suc.prems by (intro Suc.IH) auto
  also have "take (Suc i) (arr[i := ?b]) = take i arr @ [?b]"
    using Suc.prems by (simp add: take_Suc_conv_app_nth)
  finally show ?case
    using Suc.prems by (simp add: upt_conv_Cons del: upt_Suc)
qed

lemma get_le_bits:
  fixes n :: "'a::len word"
  assumes "i + k \<le> length arr" and "(i + k) * 8 \<le> LENGTH('b::len)" and "LENGTH('a) \<le> LENGTH('b)"
  shows "\<exists>r. get_le arr TYPE('b) n i k = Some r \<and>
    (\<forall>j < LENGTH('a). bit r j \<longleftrightarrow>
       bit n j \<or> (i * 8 \<le> j \<and> j < (i + k) * 8 \<and> bit (arr ! (j div 8)) (j mod 8)))"
  using assms(1,2)
proof (induction k arbitrary: i n)
  case 0
  then show ?case by auto
next
  case (Suc k)
  let ?m = "n OR ucast (push_bit (i * 8) (ucast (arr ! i) :: 'b word)) :: 'a word"
  obtain r where r: "get_le arr TYPE('b) ?m (Suc i) k = Some r"
    and bits: "\<forall>j < LENGTH('a). bit r j \<longleftrightarrow>
      bit ?m j \<or> (Suc i * 8 \<le> j \<and> j < (Suc i + k) * 8 \<and> bit (arr ! (j div 8)) (j mod 8))"
    using Suc.IH [of "Suc i" ?m] Suc.prems by auto
  have step: "bit ?m j \<longleftrightarrow> bit n j \<or> (j div 8 = i \<and> bit (arr ! i) (j mod 8))"
    if j: "j < LENGTH('a)" for j
  proof -
    have "bit (arr ! i) (j - i * 8) \<Longrightarrow> j - i * 8 < 8"
      using bit_imp_le_length by fastforce
    moreover have "j - i * 8 < 8 \<Longrightarrow> i * 8 \<le> j \<Longrightarrow> j div 8 = i \<and> j mod 8 = j - i * 8"
      by presburger
    moreover have "j div 8 = i \<Longrightarrow> i * 8 \<le> j \<and> j mod 8 = j - i * 8"
      by presburger
    ultimately have
      "i * 8 \<le> j \<and> bit (arr ! i) (j - i * 8) \<longleftrightarrow> j div 8 = i \<and> bit (arr ! i) (j mod 8)"
      by metis
    with j assms(3) show ?thesis
      by (auto simp: bit_simps)
  qed
  have "bit r j \<longleftrightarrow>
      bit n j \<or> (i * 8 \<le> j \<and> j < (i + Suc k) * 8 \<and> bit (arr ! (j div 8)) (j mod 8))"
    if "j < LENGTH('a)" for j
  proof -
    have "(j div 8 = i \<or> Suc i * 8 \<le> j \<and> j < (Suc i + k) * 8) \<longleftrightarrow> i * 8 \<le> j \<and> j < (i + Suc k) * 8"
      by auto
    with bits step that show ?thesis by auto
  qed
  with r Suc.prems show ?case by auto
qed

text \<open>Decoding what was encoded gives the number back, whatever follows in the array.\<close>

lemma get_put_le:
  fixes n :: "'a::len word"
  assumes "k * 8 = LENGTH('a)" and "k \<le> length arr" and "LENGTH('a) \<le> LENGTH('b::len)"
    and "put_le (ucast n :: 'b word) 0 k arr = Some arr'"
  shows "get_le arr' TYPE('b) (0 :: 'a word) 0 k = Some n"
proof -
  let ?byte = "\<lambda>j. ucast (drop_bit (j * 8) (ucast n :: 'b word) AND 0xFF) :: byte"
  have arr': "arr' = map ?byte [0..<k] @ drop k arr"
    using assms put_le_eq [of 0 k arr "ucast n :: 'b word"] by simp
  then have len: "k \<le> length arr'" using assms(2) by simp
  obtain r where r: "get_le arr' TYPE('b) (0 :: 'a word) 0 k = Some r"
    and bits: "\<forall>j < LENGTH('a). bit r j \<longleftrightarrow> j < k * 8 \<and> bit (arr' ! (j div 8)) (j mod 8)"
    using get_le_bits [where 'a = 'a and 'b = 'b, of 0 k arr' 0] assms len by auto
  have "r = n"
  proof (rule bit_word_eqI)
    fix j assume j: "j < LENGTH('a)"
    then have jk: "j div 8 < k" using assms(1) by (simp add: less_mult_imp_div_less)
    then have nth: "arr' ! (j div 8) = ?byte (j div 8)"
      by (simp add: arr' nth_append)
    have "bit (?byte (j div 8)) (j mod 8) \<longleftrightarrow> bit n j"
      using j assms(3)
      by (auto simp: bit_simps div_mult_mod_eq)
    then show "bit r j \<longleftrightarrow> bit n j"
      using bits j assms(1) nth by simp
  qed
  with r show ?thesis by simp
qed

lemma put_le_total:
  fixes n :: "'a::len word"
  assumes "k \<le> length arr" and "k * 8 \<le> LENGTH('a)"
  shows "\<exists>arr'. put_le n 0 k arr = Some arr' \<and> length arr' = length arr \<and> drop k arr' = drop k arr"
  using assms put_le_eq [of 0 k arr n] by simp

text \<open>
  The shape shared by the three pairs of codecs: encode into the first \<open>k\<close> bytes, decode,
  get the number back; the rest of the array is untouched.
\<close>

lemma codec_roundtrip:
  fixes n :: "'a::len word"
  assumes "k * 8 = LENGTH('a)" and "k \<le> length a" and "LENGTH('a) \<le> LENGTH('b::len)"
  shows "\<exists>a'. put_le (ucast n :: 'b word) 0 k a = Some a' \<and> length a' = length a
    \<and> drop k a' = drop k a \<and> get_le a' TYPE('b) (0 :: 'a word) 0 k = Some n"
proof -
  have "k * 8 \<le> LENGTH('b)" using assms(1,3) by simp
  with assms(2) obtain a' where a': "put_le (ucast n :: 'b word) 0 k a = Some a'"
    and "length a' = length a" and "drop k a' = drop k a"
    using put_le_total by blast
  moreover have "get_le a' TYPE('b) (0 :: 'a word) 0 k = Some n"
    by (rule get_put_le [OF assms a'])
  ultimately show ?thesis by blast
qed

section \<open>The message header\<close>

datatype MSG_ENUM = MSG_REG | MSG_TRA | MSG_NTF | MSG_CNF | MSG_GET_AES

datatype MSG_ROUTE = G_NTF_CLI | F_NTF_CLI | G_CLI_NTF | F_CLI_NTF
  | G_CLI_SRV | F_SRV_CLI | G_NTF_SRV | F_SRV_NTF

datatype RSA_AES = ENCRYPT_NON | ENCRYPT_SRV_PUB | ENCRYPT_CLI_PUB | ENCRYPT_AES

primrec msg_type :: "MSG_ENUM \<Rightarrow> byte" where
  "msg_type MSG_REG = 0" | "msg_type MSG_TRA = 1" | "msg_type MSG_NTF = 2"
| "msg_type MSG_CNF = 3" | "msg_type MSG_GET_AES = 4"

primrec msg_route :: "MSG_ROUTE \<Rightarrow> byte" where
  "msg_route G_NTF_CLI = 0" | "msg_route F_NTF_CLI = 1" | "msg_route G_CLI_NTF = 2"
| "msg_route F_CLI_NTF = 3" | "msg_route G_CLI_SRV = 4" | "msg_route F_SRV_CLI = 5"
| "msg_route G_NTF_SRV = 6" | "msg_route F_SRV_NTF = 7"

primrec enc_mark :: "RSA_AES \<Rightarrow> byte" where
  "enc_mark ENCRYPT_NON = 0" | "enc_mark ENCRYPT_SRV_PUB = 1"
| "enc_mark ENCRYPT_CLI_PUB = 2" | "enc_mark ENCRYPT_AES = 3"

abbreviation (input) LEN_DEVID :: nat where "LEN_DEVID \<equiv> 40"
abbreviation (input) MAX_MSG :: nat where "MAX_MSG \<equiv> 1200"
abbreviation (input) AES_BYTES :: nat where "AES_BYTES \<equiv> 32"
abbreviation (input) AES_IV_BYTES :: nat where "AES_IV_BYTES \<equiv> 16"
abbreviation (input) sizeof_MSG_COMMON :: nat where "sizeof_MSG_COMMON \<equiv> 100"

text \<open>
  \<^verbatim>\<open>MSG_COMMON\<close>: every field is made of \<^verbatim>\<open>char\<close>s, so the struct has no padding and
  its 100 bytes are the fields one after the other.
\<close>

record MSG_COMMON =
  com_type :: byte
  com_ifroute :: byte
  com_dev_id :: bytes
  com_ntf_id :: bytes
  com_second :: bytes
  com_nano :: bytes
  com_len :: bytes

abbreviation (input) off_type :: nat where "off_type \<equiv> 0"
abbreviation (input) off_ifroute :: nat where "off_ifroute \<equiv> 1"
abbreviation (input) off_dev_id :: nat where "off_dev_id \<equiv> 2"
abbreviation (input) off_ntf_id :: nat where "off_ntf_id \<equiv> 42"
abbreviation (input) off_second :: nat where "off_second \<equiv> 82"
abbreviation (input) off_nano :: nat where "off_nano \<equiv> 90"
abbreviation (input) off_len :: nat where "off_len \<equiv> 98"

text \<open>the cast \<^verbatim>\<open>(MSG_COMMON * ) p\<close> of a buffer of at least 100 bytes, and its inverse\<close>

definition com_of :: "bytes \<Rightarrow> MSG_COMMON" where
  "com_of b = \<lparr>com_type = b ! 0, com_ifroute = b ! 1,
     com_dev_id = take LEN_DEVID (drop off_dev_id b),
     com_ntf_id = take LEN_DEVID (drop off_ntf_id b),
     com_second = take 8 (drop off_second b), com_nano = take 8 (drop off_nano b),
     com_len = take 2 (drop off_len b)\<rparr>"

definition bytes_of :: "MSG_COMMON \<Rightarrow> bytes" where
  "bytes_of c = [com_type c, com_ifroute c] @ com_dev_id c @ com_ntf_id c
     @ com_second c @ com_nano c @ com_len c"

definition wf_com :: "MSG_COMMON \<Rightarrow> bool" where
  "wf_com c \<longleftrightarrow> length (com_dev_id c) = LEN_DEVID \<and> length (com_ntf_id c) = LEN_DEVID
     \<and> length (com_second c) = 8 \<and> length (com_nano c) = 8 \<and> length (com_len c) = 2"

lemma length_bytes_of: "wf_com c \<Longrightarrow> length (bytes_of c) = sizeof_MSG_COMMON"
  by (simp add: bytes_of_def wf_com_def)

lemma com_of_bytes_of: "wf_com c \<Longrightarrow> com_of (bytes_of c @ rest) = c"
  by (simp add: com_of_def bytes_of_def wf_com_def drop_Cons')

lemma bytes_of_com_of:
  assumes "sizeof_MSG_COMMON \<le> length b"
  shows "bytes_of (com_of b) = take sizeof_MSG_COMMON b"
proof -
  have split: "take (m + n) xs = take m xs @ take n (drop m xs)" for m n :: nat and xs :: bytes
    by (rule take_add)
  obtain x y r where b: "b = x # y # r" and r: "98 \<le> length r"
    using assms by (metis Suc_le_length_iff length_Cons numeral_nat(7) One_nat_def eval_nat_numeral(3)
        eval_nat_numeral(2) BitM.simps Suc_le_mono numeral_eq_Suc pred_numeral_simps(3))
  have "take 98 r = take 40 r @ take 40 (drop 40 r) @ take 8 (drop 80 r)
      @ take 8 (drop 88 r) @ take 2 (drop 96 r)"
    using split [of 40 58 r] split [of 40 18 "drop 40 r"] split [of 8 10 "drop 80 r"]
      split [of 8 2 "drop 88 r"] by simp
  then show ?thesis
    by (simp add: b bytes_of_def com_of_def drop_Cons' take_Cons')
qed

section \<open>Time stamps\<close>

record timespec =
  tv_sec :: "64 word"
  tv_nsec :: "64 word"

text \<open>a field that \<^verbatim>\<open>uint64_2_arr\<close> or \<^verbatim>\<open>uint16_2_arr\<close> fills in place\<close>

definition set_u64 :: "bytes \<Rightarrow> nat \<Rightarrow> 64 word \<Rightarrow> bytes option" where
  "set_u64 m off v = on_field m off 8 (\<lambda>x. do { (rc, y) \<leftarrow> uint64_2_arr (Some x) v 8; y })"

definition set_u16 :: "bytes \<Rightarrow> nat \<Rightarrow> 16 word \<Rightarrow> bytes option" where
  "set_u16 m off v = on_field m off 2 (\<lambda>x. do { (rc, y) \<leftarrow> uint16_2_arr (Some x) v 2; y })"

text \<open>\<^verbatim>\<open>put_time_to_msg(msg, t)\<close>: a null \<open>t\<close> or a null \<open>msg\<close> changes nothing.\<close>

definition put_time_to_msg :: "bytes option \<Rightarrow> timespec option \<Rightarrow> bytes option option" where
  "put_time_to_msg msg t =
     (case t of None \<Rightarrow> Some msg
      | Some ts \<Rightarrow> (case msg of None \<Rightarrow> Some None
        | Some m \<Rightarrow> do {
            m1 \<leftarrow> mem_write m off_second (zeros 8);
            m2 \<leftarrow> mem_write m1 off_nano (zeros 8);
            m3 \<leftarrow> set_u64 m2 off_second (tv_sec ts);
            m4 \<leftarrow> set_u64 m3 off_nano (tv_nsec ts);
            Some (Some m4) }))"

text \<open>the bytes the codecs write\<close>

definition le_bytes :: "nat \<Rightarrow> 'a::len word \<Rightarrow> bytes" where
  "le_bytes k n = map (\<lambda>j. ucast (drop_bit (j * 8) n)) [0..<k]"

lemma length_le_bytes [simp]: "length (le_bytes k n) = k"
  by (simp add: le_bytes_def)

lemma put_le_whole:
  fixes n :: "'a::len word"
  shows "length a = k \<Longrightarrow> k * 8 \<le> LENGTH('a) \<Longrightarrow> put_le n 0 k a = Some (le_bytes k n)"
  using put_le_eq [of 0 k a n] by (simp add: le_bytes_def)

lemma uint64_2_arr_8: "length a = 8 \<Longrightarrow> uint64_2_arr (Some a) n 8 = Some (0, Some (le_bytes 8 n))"
  by (simp add: uint64_2_arr_def put_le_whole)

lemma uint16_2_arr_2:
  "length a = 2 \<Longrightarrow>
    uint16_2_arr (Some a) n 2 = Some (0, Some (le_bytes 2 (ucast n :: 32 word)))"
  by (simp add: uint16_2_arr_def put_le_whole)

lemma get_le_le_bytes:
  fixes n :: "'a::len word"
  assumes "k * 8 = LENGTH('a)" and "LENGTH('a) \<le> LENGTH('b::len)"
  shows "get_le (le_bytes k (ucast n :: 'b word)) TYPE('b) (0 :: 'a word) 0 k = Some n"
  using assms
  by (intro get_put_le [where arr = "replicate k 0"]) (auto simp: put_le_whole)

lemma arr_2_uint64_le_bytes: "arr_2_uint64 (Some (le_bytes 8 n)) (Some v) 8 = Some (0, Some n)"
  using get_le_le_bytes [where 'a = 64 and 'b = 64, of 8 n] by (simp add: arr_2_uint64_def)

lemma arr_2_uint16_le_bytes:
  "arr_2_uint16 (Some (le_bytes 2 (ucast n :: 32 word))) (Some v) 2 = Some (0, Some n)"
  using get_le_le_bytes [where 'a = 16 and 'b = 32, of 2 n] by (simp add: arr_2_uint16_def)

lemma set_u64_eq: "set_u64 m off v = mem_write m off (le_bytes 8 v)"
  by (auto simp: set_u64_def on_field_def mem_read_def mem_write_def uint64_2_arr_8)

lemma set_u16_eq: "set_u16 m off v = mem_write m off (le_bytes 2 (ucast v :: 32 word))"
  by (auto simp: set_u16_def on_field_def mem_read_def mem_write_def uint16_2_arr_2)

text \<open>On a whole header the call writes the two stamps and nothing else.\<close>

lemma put_time_to_msg_eq:
  assumes "sizeof_MSG_COMMON \<le> length m"
  shows "put_time_to_msg (Some m) (Some ts) =
    Some (Some (take off_second m @ le_bytes 8 (tv_sec ts) @ le_bytes 8 (tv_nsec ts)
      @ drop off_len m))"
  using assms
  by (simp add: put_time_to_msg_def set_u64_eq mem_write_def min_def drop_Cons')

text \<open>
  A number written by \<^verbatim>\<open>uintN_2_arr\<close> into the first N/8 bytes of an array is what
  \<^verbatim>\<open>arr_2_uintN\<close> reads back, for N = 64, 32 and 16; both calls return 0, stay inside the array
  and leave the bytes after the number alone.
\<close>

theorem uint_arr_roundtrip:
  assumes "8 \<le> length a"
  shows "(\<exists>a'. uint64_2_arr (Some a) n64 8 = Some (0, Some a') \<and> drop 8 a' = drop 8 a
           \<and> arr_2_uint64 (Some a') (Some v64) 8 = Some (0, Some n64))
       \<and> (\<exists>a'. uint32_2_arr (Some a) n32 4 = Some (0, Some a') \<and> drop 4 a' = drop 4 a
           \<and> arr_2_uint32 (Some a') (Some v32) 4 = Some (0, Some n32))
       \<and> (\<exists>a'. uint16_2_arr (Some a) n16 2 = Some (0, Some a') \<and> drop 2 a' = drop 2 a
           \<and> arr_2_uint16 (Some a') (Some v16) 2 = Some (0, Some n16))"
  using assms codec_roundtrip [where 'a = 64 and 'b = 64, of 8 a n64]
    codec_roundtrip [where 'a = 32 and 'b = 32, of 4 a n32]
    codec_roundtrip [where 'a = 16 and 'b = 32, of 2 a n16]
  by (auto simp: uint64_2_arr_def arr_2_uint64_def uint32_2_arr_def arr_2_uint32_def
      uint16_2_arr_def arr_2_uint16_def)

theorem uint_arr_roundtrip_witness:
  "\<exists>a'. uint64_2_arr (Some (zeros 8)) 0x112233446677 8 = Some (0, Some a')
     \<and> arr_2_uint64 (Some a') (Some 0) 8 = Some (0, Some 0x112233446677)"
  using uint_arr_roundtrip [of "zeros 8" "0x112233446677" 0 0 0 0 0] by auto

text \<open>
  \<^verbatim>\<open>put_time_to_msg\<close> on a message of at least the header's size stays inside it, stores
  both halves of the time stamp so that \<^verbatim>\<open>arr_2_uint64\<close> gives them back, and changes no
  other field and no byte of the data after the header.
\<close>

theorem put_time_roundtrip:
  assumes "sizeof_MSG_COMMON \<le> length m"
  shows "\<exists>m'. put_time_to_msg (Some m) (Some ts) = Some (Some m')
    \<and> arr_2_uint64 (Some (com_second (com_of m'))) (Some 0) 8 = Some (0, Some (tv_sec ts))
    \<and> arr_2_uint64 (Some (com_nano (com_of m'))) (Some 0) 8 = Some (0, Some (tv_nsec ts))
    \<and> com_of m' = (com_of m)\<lparr>com_second := com_second (com_of m'), com_nano := com_nano (com_of m')\<rparr>
    \<and> drop sizeof_MSG_COMMON m' = drop sizeof_MSG_COMMON m"
  using assms
  by (simp add: put_time_to_msg_eq com_of_def arr_2_uint64_le_bytes nth_append min_def take_drop)

theorem put_time_roundtrip_witness:
  "\<exists>m'. put_time_to_msg (Some (zeros 100)) (Some \<lparr>tv_sec = 1684300000, tv_nsec = 5\<rparr>) = Some (Some m')
    \<and> arr_2_uint64 (Some (com_second (com_of m'))) (Some 0) 8 = Some (0, Some 1684300000)"
  using put_time_roundtrip [of "zeros 100" "\<lparr>tv_sec = 1684300000, tv_nsec = 5\<rparr>"] by auto

end
