(* ===== verification/Crypto.thy ===== *)
theory Crypto
  imports Codec CText
begin

text \<open>
  The cryptographic layer of \<^verbatim>\<open>notify.system/msg_notify.c\<close>: key files, RSA blocks, the AES-GCM
  calls and the message envelope (\<^verbatim>\<open>msg_aes_enc\<close>, \<^verbatim>\<open>msg_aes_dec\<close>).
  OpenSSL, the file system and the allocator are not part of the repository. They are the fields
  of the record \<open>ext\<close>, an argument of every definition that calls them; what their manuals
  promise is stated by \<open>evp_gcm\<close> and \<open>rsa_pair\<close>, hypotheses of the theorems that need it.
\<close>

section \<open>The world outside the repository\<close>

text \<open>
  \<open>'k\<close> is the type of RSA keys, \<open>'c\<close> of EVP cipher contexts. An RSA call that fails
  (returns -1) is \<^term>\<open>None\<close>. An EVP call gives the bytes it writes and the next context; a
  failing EVP call only makes the code print a line, so return codes other than that of
  \<^verbatim>\<open>EVP_DecryptFinal_ex\<close> do not matter.
\<close>

record ('k, 'c) ext =
  x_usable :: "nat \<Rightarrow> nat"                        \<comment> \<open>size of the block \<^verbatim>\<open>malloc(n)\<close> gives\<close>
  x_realloc_in_place :: "nat \<Rightarrow> nat \<Rightarrow> bool"      \<comment> \<open>\<^verbatim>\<open>realloc\<close> from one size to another keeps the address\<close>
  x_fopen :: "bytes \<Rightarrow> (nat \<times> bytes) option"      \<comment> \<open>size of a file and what \<^verbatim>\<open>fread\<close> reads\<close>
  x_fclose :: "bytes \<Rightarrow> int"
  x_pem_pub :: "bytes \<Rightarrow> 'k option"               \<comment> \<open>\<^verbatim>\<open>PEM_read_bio_RSA_PUBKEY\<close>\<close>
  x_pem_prv :: "bytes \<Rightarrow> 'k option"               \<comment> \<open>\<^verbatim>\<open>PEM_read_bio_RSAPrivateKey\<close>\<close>
  x_rsa_head :: "'k \<Rightarrow> bytes"                     \<comment> \<open>the first 8 bytes of an \<^verbatim>\<open>RSA\<close> object\<close>
  x_rsa_size :: "'k \<Rightarrow> int"
  x_rsa_public_encrypt :: "'k \<Rightarrow> int \<Rightarrow> bytes \<Rightarrow> bytes option"
  x_rsa_private_decrypt :: "'k \<Rightarrow> int \<Rightarrow> bytes \<Rightarrow> bytes option"
  x_evp_new :: "'c option"
  x_enc_init :: "'c \<Rightarrow> 'c"
  x_dec_init :: "'c \<Rightarrow> 'c"
  x_set_ivlen :: "'c \<Rightarrow> int \<Rightarrow> 'c"
  x_enc_key :: "'c \<Rightarrow> bytes \<Rightarrow> bytes \<Rightarrow> 'c"
  x_dec_key :: "'c \<Rightarrow> bytes \<Rightarrow> bytes \<Rightarrow> 'c"
  x_enc_aad :: "'c \<Rightarrow> bytes \<Rightarrow> 'c"
  x_dec_aad :: "'c \<Rightarrow> bytes \<Rightarrow> 'c"
  x_enc_update :: "'c \<Rightarrow> bytes \<Rightarrow> bytes \<times> 'c"
  x_dec_update :: "'c \<Rightarrow> bytes \<Rightarrow> bytes \<times> 'c"
  x_enc_final :: "'c \<Rightarrow> bytes \<times> 'c"
  x_dec_final :: "'c \<Rightarrow> int \<times> bytes"
  x_get_tag :: "'c \<Rightarrow> bytes"
  x_set_tag :: "'c \<Rightarrow> bytes \<Rightarrow> 'c"

section \<open>Key files\<close>

text \<open>
  \<^verbatim>\<open>file_2_bytes(path, output)\<close>: the result is the error code and the value stored at
  \<open>output\<close>. \<open>path\<close> and \<open>output\<close> are \<^term>\<open>None\<close> for null; with a null
  \<open>output\<close> the cleanup \<^verbatim>\<open>if ( *output)\<close> dereferences null. The size goes through an
  \<^verbatim>\<open>unsigned int\<close>, and the last \<^verbatim>\<open>err = fclose(fp)\<close> overwrites an earlier error.
\<close>

definition file_2_bytes ::
  "('k, 'c) ext \<Rightarrow> bytes option \<Rightarrow> bytes option option \<Rightarrow> (int \<times> bytes option) option" where
  "file_2_bytes X path output =
     (case output of None \<Rightarrow> None
      | Some old \<Rightarrow>
        (case path of None \<Rightarrow> Some (1, None)
         | Some pth \<Rightarrow>
           (case x_fopen X pth of None \<Rightarrow> Some (1, None)
            | Some (fsize, content) \<Rightarrow>
              (let sz = fsize mod 2 ^ 32; got = take sz content
               in if length got \<noteq> sz then Some (x_fclose X pth, None)
                  else Some (x_fclose X pth, Some (got @ [0]))))))"

text \<open>
  \<^verbatim>\<open>file_2_pubrsa\<close> and \<^verbatim>\<open>file_2_prvrsa\<close>: a key that does not parse is only logged, the
  error code stays 0 and the output becomes null.
\<close>

definition file_2_rsa ::
  "(bytes \<Rightarrow> 'k option) \<Rightarrow> ('k, 'c) ext \<Rightarrow> bytes option \<Rightarrow> 'k option option \<Rightarrow> (int \<times> 'k option) option"
where
  "file_2_rsa pem X path output =
     (case output of None \<Rightarrow> Some (1, None)
      | Some old \<Rightarrow> do {
          (err, str) \<leftarrow> file_2_bytes X path (Some None);
          (if err \<noteq> 0 then Some (err, old)
           else (case str of None \<Rightarrow> Some (1, old)
                 | Some s \<Rightarrow> Some (0, pem (c_str s)))) })"

lemma file_2_rsa_total: "\<exists>err k. file_2_rsa pem X path (Some old) = Some (err, k)"
proof -
  have "\<exists>e str. file_2_bytes X path (Some None) = Some (e, str)"
    by (auto simp: file_2_bytes_def Let_def split: option.splits prod.splits)
  then show ?thesis by (auto simp: file_2_rsa_def split: option.splits)
qed

definition file_2_pubrsa ::
  "('k, 'c) ext \<Rightarrow> bytes option \<Rightarrow> 'k option option \<Rightarrow> (int \<times> 'k option) option" where
  "file_2_pubrsa X = file_2_rsa (x_pem_pub X) X"

definition file_2_prvrsa ::
  "('k, 'c) ext \<Rightarrow> bytes option \<Rightarrow> 'k option option \<Rightarrow> (int \<times> 'k option) option" where
  "file_2_prvrsa X = file_2_rsa (x_pem_prv X) X"

text \<open>
  \<^verbatim>\<open>get_srv_prv\<close> keeps the key it loaded in a static variable, here threaded as \<open>p\<close>.
\<close>

definition get_srv_prv :: "('k, 'c) ext \<Rightarrow> 'k option \<Rightarrow> ('k option) option" where
  "get_srv_prv X p =
     (case p of Some k \<Rightarrow> Some (Some k)
      | None \<Rightarrow> do { (err, k) \<leftarrow> file_2_prvrsa X (Some (lit ''srv-private-key.pem'')) (Some None);
                    Some k })"

text \<open>The path buffers of \<^verbatim>\<open>get_cli_pub\<close> and \<^verbatim>\<open>get_cli_prv\<close> hold 1024 bytes.\<close>

definition key_path :: "bytes \<Rightarrow> string \<Rightarrow> bytes option" where
  "key_path idd suffix =
     (if length (c_str idd) + length suffix < 1024 then Some (c_str idd @ lit suffix) else None)"

definition get_cli_pub :: "('k, 'c) ext \<Rightarrow> bytes \<Rightarrow> ('k option) option" where
  "get_cli_pub X idd = do {
     path \<leftarrow> key_path idd ''.public-key.pem'';
     (err, k) \<leftarrow> file_2_pubrsa X (Some path) (Some None);
     Some k }"

definition get_cli_prv :: "('k, 'c) ext \<Rightarrow> bytes \<Rightarrow> ('k option) option" where
  "get_cli_prv X idd = do {
     path \<leftarrow> key_path idd ''.private-key.pem'';
     (err, k) \<leftarrow> file_2_prvrsa X (Some path) (Some None);
     Some k }"

section \<open>RSA blocks\<close>

text \<open>C's remainder, which truncates towards zero\<close>

definition c_mod :: "int \<Rightarrow> int \<Rightarrow> int" where
  "c_mod a b = sgn a * (\<bar>a\<bar> mod \<bar>b\<bar>)"

text \<open>the size \<^verbatim>\<open>rsa_enc\<close> and \<^verbatim>\<open>rsa_dec\<close> allocate for \<open>lenin\<close> bytes of input\<close>

definition rsa_buflen :: "int \<Rightarrow> int \<Rightarrow> int" where
  "rsa_buflen lenin blk =
     (if c_mod lenin blk \<noteq> 0 then lenin + (blk - c_mod lenin blk) + 1 else lenin + 1)"

text \<open>
  \<^verbatim>\<open>rsa_enc(pubkey, in, out, lenin, outlen)\<close>. The result is the error code, the block stored at
  \<open>out\<close> (its old value when nothing is stored) and the value at \<open>outlen\<close>. An RSA failure
  breaks out with \<open>err = 0\<close> and nothing stored.
\<close>

definition rsa_enc ::
  "('k, 'c) ext \<Rightarrow> 'k option \<Rightarrow> bytes \<Rightarrow> bytes option option \<Rightarrow> int \<Rightarrow> int option \<Rightarrow>
     (int \<times> bytes option \<times> int option) option" where
  "rsa_enc X pubkey inp out lenin outlen =
     (case pubkey of None \<Rightarrow> Some (1, Option.bind out id, outlen)
      | Some k \<Rightarrow>
       (case out of None \<Rightarrow> Some (1, None, outlen)
        | Some old \<Rightarrow>
          (let blk = x_rsa_size X k
           in if blk < 1 then Some (0, old, outlen)
              else do {
                from \<leftarrow> mem_read inp 0 (nat lenin);
                (case x_rsa_public_encrypt X k lenin from of
                   None \<Rightarrow> Some (0, old, outlen)
                 | Some c \<Rightarrow>
                    if c = [] then Some (0, old, outlen)
                    else do {
                      buf \<leftarrow> mem_write (zeros (nat (rsa_buflen lenin blk))) 0 c;
                      Some (0, Some buf, map_option (\<lambda>_. int (length c)) outlen) }) })))"

text \<open>\<^verbatim>\<open>rsa_dec\<close> also checks its input pointer and reports an RSA failure with \<open>err = 1\<close>.\<close>

definition rsa_dec ::
  "('k, 'c) ext \<Rightarrow> 'k option \<Rightarrow> bytes option \<Rightarrow> bytes option option \<Rightarrow> int \<Rightarrow> int option \<Rightarrow>
     (int \<times> bytes option \<times> int option) option" where
  "rsa_dec X priv inp out lenin outlen =
     (case priv of None \<Rightarrow> Some (1, Option.bind out id, outlen)
      | Some k \<Rightarrow>
       (case inp of None \<Rightarrow> Some (1, Option.bind out id, outlen)
        | Some i \<Rightarrow>
         (case out of None \<Rightarrow> Some (1, None, outlen)
          | Some old \<Rightarrow>
            (let blk = x_rsa_size X k
             in if blk < 1 then Some (0, old, outlen)
                else do {
                  from \<leftarrow> mem_read i 0 (nat lenin);
                  (case x_rsa_private_decrypt X k lenin from of
                     None \<Rightarrow> Some (1, old, outlen)
                   | Some m \<Rightarrow>
                      if m = [] then Some (1, old, outlen)
                      else do {
                        buf \<leftarrow> mem_write (zeros (nat (rsa_buflen lenin blk))) 0 m;
                        Some (0, Some buf, map_option (\<lambda>_. int (length m)) outlen) }) }))))"

section \<open>AES-GCM\<close>

text \<open>
  \<^verbatim>\<open>gcm_encrypt\<close>: the bytes written to \<open>ciphertext\<close> (their number is the return value)
  and the 16-byte tag. The context comes from \<^verbatim>\<open>EVP_CIPHER_CTX_new\<close>; on a null context the code
  prints a line and goes on to dereference it.
\<close>

definition gcm_encrypt ::
  "('k, 'c) ext \<Rightarrow> bytes \<Rightarrow> bytes \<Rightarrow> bytes \<Rightarrow> bytes \<Rightarrow> int \<Rightarrow> (bytes \<times> bytes) option" where
  "gcm_encrypt X plaintext aad key iv iv_len = do {
     ctx0 \<leftarrow> x_evp_new X;
     let ctx1 = x_enc_init X ctx0;
     let ctx2 = x_set_ivlen X ctx1 iv_len;
     let ctx3 = x_enc_key X ctx2 key iv;
     let ctx4 = x_enc_aad X ctx3 aad;
     let (out1, ctx5) = x_enc_update X ctx4 plaintext;
     let (out2, ctx6) = x_enc_final X ctx5;
     Some (out1 @ out2, x_get_tag X ctx6) }"

text \<open>
  \<^verbatim>\<open>gcm_decrypt\<close>: the return value (the plaintext's length, or -1 when verification fails) and
  the bytes written to \<open>plaintext\<close>. They are written before the tag is checked.
\<close>

definition gcm_decrypt ::
  "('k, 'c) ext \<Rightarrow> bytes \<Rightarrow> bytes \<Rightarrow> bytes \<Rightarrow> bytes \<Rightarrow> bytes \<Rightarrow> int \<Rightarrow> (int \<times> bytes) option" where
  "gcm_decrypt X ciphertext aad tag key iv iv_len = do {
     ctx0 \<leftarrow> x_evp_new X;
     let ctx1 = x_dec_init X ctx0;
     let ctx2 = x_set_ivlen X ctx1 iv_len;
     let ctx3 = x_dec_key X ctx2 key iv;
     let ctx4 = x_dec_aad X ctx3 aad;
     let (out1, ctx5) = x_dec_update X ctx4 ciphertext;
     let ctx6 = x_set_tag X ctx5 tag;
     let (ret, out2) = x_dec_final X ctx6;
     Some (if ret > 0 then int (length (out1 @ out2)) else -1, out1 @ out2) }"

text \<open>
  What OpenSSL documents for EVP AES-256-GCM: the ciphertext is as long as the plaintext, the
  final call writes nothing, the tag has 16 bytes, and decrypting with the same key, IV, additional
  data and tag gives the plaintext and a positive return value.
\<close>

definition evp_gcm :: "('k, 'c) ext \<Rightarrow> bool" where
  "evp_gcm X \<longleftrightarrow> (\<exists>c. x_evp_new X = Some c \<and>
     (\<forall>ivlen key iv aad pt.
        let e = x_enc_aad X (x_enc_key X (x_set_ivlen X (x_enc_init X c) ivlen) key iv) aad;
            (ct, e1) = x_enc_update X e pt; (fin, e2) = x_enc_final X e1;
            d = x_dec_aad X (x_dec_key X (x_set_ivlen X (x_dec_init X c) ivlen) key iv) aad;
            (pt', d1) = x_dec_update X d ct;
            (ret, fin') = x_dec_final X (x_set_tag X d1 (x_get_tag X e2))
        in length ct = length pt \<and> fin = [] \<and> length (x_get_tag X e2) = AES_IV_BYTES
           \<and> pt' = pt \<and> ret > 0 \<and> fin' = []))"

lemma gcm_roundtrip:
  assumes "evp_gcm X"
  shows "\<exists>ct tag. gcm_encrypt X pt aad key iv ivlen = Some (ct, tag)
    \<and> length ct = length pt \<and> length tag = AES_IV_BYTES
    \<and> gcm_decrypt X ct aad tag key iv ivlen = Some (int (length pt), pt)"
proof -
  from assms obtain c where c: "x_evp_new X = Some c"
    and laws: "\<And>ivlen key iv aad pt.
        let e = x_enc_aad X (x_enc_key X (x_set_ivlen X (x_enc_init X c) ivlen) key iv) aad;
            (ct, e1) = x_enc_update X e pt; (fin, e2) = x_enc_final X e1;
            d = x_dec_aad X (x_dec_key X (x_set_ivlen X (x_dec_init X c) ivlen) key iv) aad;
            (pt', d1) = x_dec_update X d ct;
            (ret, fin') = x_dec_final X (x_set_tag X d1 (x_get_tag X e2))
        in length ct = length pt \<and> fin = [] \<and> length (x_get_tag X e2) = AES_IV_BYTES
           \<and> pt' = pt \<and> ret > 0 \<and> fin' = []"
    unfolding evp_gcm_def by blast
  show ?thesis
    using laws [of ivlen key iv aad pt]
    by (auto simp: gcm_encrypt_def gcm_decrypt_def c Let_def split: prod.splits)
qed

section \<open>The message envelope\<close>

text \<open>
  \<^verbatim>\<open>msg_aes_enc(in, buffer, key, iv, lenin, lenout, lim)\<close>: ciphertext, tag and one mark byte,
  written from the start of \<open>buffer\<close>. A null pointer is \<^term>\<open>None\<close>; \<open>lenout\<close> is the
  value it points to. The result is the error code, the buffer and the value at \<open>lenout\<close>.
\<close>

definition msg_aes_enc ::
  "('k, 'c) ext \<Rightarrow> bytes option \<Rightarrow> bytes option \<Rightarrow> bytes option \<Rightarrow> bytes option \<Rightarrow> int \<Rightarrow>
     int option \<Rightarrow> int \<Rightarrow> (int \<times> bytes option \<times> int option) option" where
  "msg_aes_enc X inp buffer key iv lenin lenout lim =
     (case (inp, buffer, key, iv, lenout) of
        (Some i, Some b, Some k, Some v, Some l) \<Rightarrow>
          if lim < lenin + 1 + int AES_IV_BYTES then Some (1, buffer, lenout)
          else do {
            pt \<leftarrow> mem_read i 0 (nat lenin);
            k' \<leftarrow> mem_read k 0 AES_BYTES;
            v' \<leftarrow> mem_read v 0 AES_IV_BYTES;
            (ct, tag) \<leftarrow> gcm_encrypt X pt v' k' v' (int AES_IV_BYTES);
            b1 \<leftarrow> mem_write b 0 ct;
            b2 \<leftarrow> mem_write b1 (length ct) (take AES_IV_BYTES tag);
            b3 \<leftarrow> put_byte b2 (length ct + AES_IV_BYTES) (enc_mark ENCRYPT_AES);
            Some (0, Some b3, Some (int (length ct) + int AES_IV_BYTES + 1)) }
      | _ \<Rightarrow> Some (1, buffer, lenout))"

text \<open>
  \<^verbatim>\<open>msg_aes_dec\<close>: the tag is taken from before the mark byte, the plaintext is written from the
  start of \<open>buf\<close>; a failed verification sets \<open>lenout\<close> to 0 and the error to 1.
\<close>

definition msg_aes_dec ::
  "('k, 'c) ext \<Rightarrow> bytes option \<Rightarrow> bytes option \<Rightarrow> bytes option \<Rightarrow> bytes option \<Rightarrow> int \<Rightarrow>
     int option \<Rightarrow> int \<Rightarrow> (int \<times> bytes option \<times> int option) option" where
  "msg_aes_dec X inp buf key iv lenin lenout lim =
     (case (inp, buf, key, iv, lenout) of
        (Some i, Some b, Some k, Some v, Some l) \<Rightarrow>
          if lenin > int MAX_MSG + 1 then Some (1, buf, lenout)
          else if lenin < int AES_IV_BYTES + 1 then Some (1, buf, lenout)
          else if lim < lenin - 1 - int AES_IV_BYTES then Some (1, buf, lenout)
          else do {
            tag \<leftarrow> mem_read i (nat lenin - 1 - AES_IV_BYTES) AES_IV_BYTES;
            ct \<leftarrow> mem_read i 0 (nat lenin - 1 - AES_IV_BYTES);
            k' \<leftarrow> mem_read k 0 AES_BYTES;
            v' \<leftarrow> mem_read v 0 AES_IV_BYTES;
            (len, pt) \<leftarrow> gcm_decrypt X ct v' tag k' v' (int AES_IV_BYTES);
            b1 \<leftarrow> mem_write b 0 pt;
            (if len < 0 then Some (1, Some b1, Some 0) else Some (0, Some b1, Some len)) }
      | _ \<Rightarrow> Some (1, buf, lenout))"

text \<open>
  \<^verbatim>\<open>ev_aes_enc\<close> and \<^verbatim>\<open>ev_aes_dec\<close> work through a stack buffer of 1201 bytes and store a
  fresh block at \<open>out\<close>. \<^verbatim>\<open>memset(tag, 0, sizeof(tag))\<close> clears 8 bytes, the size of a pointer;
  the 16 bytes of the tag are written over them.
\<close>

definition ev_aes_enc ::
  "('k, 'c) ext \<Rightarrow> bytes option \<Rightarrow> bytes option option \<Rightarrow> bytes option \<Rightarrow> bytes option \<Rightarrow> int \<Rightarrow>
     int option \<Rightarrow> bytes \<Rightarrow> (int \<times> bytes option \<times> int option \<times> bytes) option" where
  "ev_aes_enc X inp out key iv lenin outlen tag =
     (case (inp, out, key, iv, outlen) of
        (Some i, Some old, Some k, Some v, Some l) \<Rightarrow> do {
          tag0 \<leftarrow> mem_write tag 0 (zeros 8);
          pt \<leftarrow> mem_read i 0 (nat lenin);
          k' \<leftarrow> mem_read k 0 AES_BYTES;
          v' \<leftarrow> mem_read v 0 AES_IV_BYTES;
          (ct, tg) \<leftarrow> gcm_encrypt X pt v' k' v' (int AES_IV_BYTES);
          b1 \<leftarrow> mem_write (zeros (MAX_MSG + 1)) 0 ct;
          tag1 \<leftarrow> mem_write tag0 0 tg;
          (if int (length ct) < 1 then Some (1, old, outlen, tag1)
           else Some (0, Some (take (length ct) b1 @ [0]), Some (int (length ct)), tag1)) }
      | _ \<Rightarrow> Some (1, Option.bind out id, outlen, tag))"

definition ev_aes_dec ::
  "('k, 'c) ext \<Rightarrow> bytes option \<Rightarrow> bytes option option \<Rightarrow> bytes option \<Rightarrow> bytes option \<Rightarrow> int \<Rightarrow>
     int option \<Rightarrow> bytes \<Rightarrow> (int \<times> bytes option \<times> int option) option" where
  "ev_aes_dec X inp out key iv lenin outlen tag =
     (case (inp, out, key, iv, outlen) of
        (Some i, Some old, Some k, Some v, Some l) \<Rightarrow> do {
          ct \<leftarrow> mem_read i 0 (nat lenin);
          tg \<leftarrow> mem_read tag 0 AES_IV_BYTES;
          k' \<leftarrow> mem_read k 0 AES_BYTES;
          v' \<leftarrow> mem_read v 0 AES_IV_BYTES;
          (n, pt) \<leftarrow> gcm_decrypt X ct v' tg k' v' (int AES_IV_BYTES);
          b1 \<leftarrow> mem_write (zeros (MAX_MSG + 1)) 0 pt;
          (if n < 1 then Some (1, old, outlen)
           else Some (0, Some (take (nat n) b1 @ [0]), Some n)) }
      | _ \<Rightarrow> Some (1, Option.bind out id, outlen))"

section \<open>Properties\<close>

text \<open>
  What OpenSSL documents for RSA with PKCS1 padding on a key pair of \<open>blk\<close> bytes: up to
  \<open>blk - 11\<close> bytes encrypt to one block, the private key gives them back, more bytes are refused,
  and so is a negative length.
\<close>

definition rsa_pair :: "('k, 'c) ext \<Rightarrow> 'k \<Rightarrow> 'k \<Rightarrow> nat \<Rightarrow> bool" where
  "rsa_pair X pub prv blk \<longleftrightarrow> 11 < blk \<and> x_rsa_size X pub = int blk \<and> x_rsa_size X prv = int blk
     \<and> (\<forall>m. length m \<le> blk - 11 \<longrightarrow>
          (\<exists>c. x_rsa_public_encrypt X pub (int (length m)) m = Some c \<and> length c = blk
             \<and> x_rsa_private_decrypt X prv (int blk) c = Some m))
     \<and> (\<forall>m. blk - 11 < length m \<longrightarrow> x_rsa_public_encrypt X pub (int (length m)) m = None)
     \<and> (\<forall>n m. n < 0 \<longrightarrow> x_rsa_private_decrypt X prv n m = None)"

lemma rsa_buflen_enough:
  assumes "0 < n" and "0 < blk"
  shows "blk + 1 \<le> nat (rsa_buflen (int n) (int blk))" and "n + 1 \<le> nat (rsa_buflen (int n) (int blk))"
proof -
  have m: "c_mod (int n) (int blk) = int (n mod blk)"
    using assms by (simp add: c_mod_def zmod_int)
  have le: "n mod blk \<le> n" and lt: "n mod blk < blk"
    using assms by auto
  have "blk \<le> n \<or> n mod blk = n" by (metis mod_less not_le)
  with assms le lt show "blk + 1 \<le> nat (rsa_buflen (int n) (int blk))"
    and "n + 1 \<le> nat (rsa_buflen (int n) (int blk))"
    by (auto simp: rsa_buflen_def m)
qed

lemma rsa_pairD:
  assumes "rsa_pair X pub prv blk" and "length m \<le> blk - 11"
  obtains c where "x_rsa_public_encrypt X pub (int (length m)) m = Some c" and "length c = blk"
    and "x_rsa_private_decrypt X prv (int blk) c = Some m"
  using assms unfolding rsa_pair_def by blast

lemma rsa_enc_eq:
  assumes P: "rsa_pair X pub prv blk" and n: "0 < n" "n \<le> blk - 11" "n \<le> length inp"
  shows "\<exists>c buf. rsa_enc X (Some pub) inp (Some old) (int n) (Some l) = Some (0, Some buf, Some (int blk))
    \<and> take blk buf = c \<and> length c = blk \<and> blk < length buf
    \<and> x_rsa_private_decrypt X prv (int blk) c = Some (take n inp)"
proof -
  have len: "length (take n inp) = n" using n by simp
  obtain c where c: "x_rsa_public_encrypt X pub (int n) (take n inp) = Some c" "length c = blk"
    "x_rsa_private_decrypt X prv (int blk) c = Some (take n inp)"
    using rsa_pairD [OF P, of "take n inp"] n len by auto
  have blk: "0 < blk" "x_rsa_size X pub = int blk"
    using P by (auto simp: rsa_pair_def)
  have room: "blk < nat (rsa_buflen (int n) (int blk))"
    using rsa_buflen_enough(1) [of n blk] n(1) blk(1) by simp
  have "c \<noteq> []" using c(2) blk(1) by auto
  then show ?thesis
    using n blk c room
    by (auto simp: rsa_enc_def mem_read_def mem_write_def Let_def)
qed

lemma rsa_dec_eq:
  assumes P: "rsa_pair X pub prv blk" and c: "x_rsa_private_decrypt X prv (int blk) (take blk b) = Some m"
    and b: "blk \<le> length b" and m: "m \<noteq> []" "length m \<le> blk"
  shows "\<exists>buf. rsa_dec X (Some prv) (Some b) (Some old) (int blk) (Some l)
      = Some (0, Some buf, Some (int (length m)))
    \<and> take (length m) buf = m \<and> length m < length buf"
proof -
  have blk: "0 < blk" "x_rsa_size X prv = int blk"
    using P by (auto simp: rsa_pair_def)
  have room: "blk < nat (rsa_buflen (int blk) (int blk))"
    using rsa_buflen_enough(2) [of blk blk] blk(1) by simp
  show ?thesis
    using b m c blk room
    by (auto simp: rsa_dec_def mem_read_def mem_write_def Let_def)
qed

text \<open>
  C32. With an RSA key pair, \<^verbatim>\<open>rsa_dec\<close> on the block \<^verbatim>\<open>rsa_enc\<close> made gives back the
  message, for every message of 1 to \<open>blk - 11\<close> bytes; both report success, the output block is
  inside the buffer the code allocates, and so is the decrypted message.
\<close>

theorem rsa_roundtrip:
  assumes "rsa_pair X pub prv blk" and "0 < n" and "n \<le> blk - 11" and "n \<le> length inp"
  shows "\<exists>e d. rsa_enc X (Some pub) inp (Some None) (int n) (Some 0) = Some (0, Some e, Some (int blk))
    \<and> rsa_dec X (Some prv) (Some e) (Some None) (int blk) (Some 0) = Some (0, Some d, Some (int n))
    \<and> take n d = take n inp \<and> blk < length e \<and> n < length d"
proof -
  from rsa_enc_eq [OF assms] obtain e where
    e: "rsa_enc X (Some pub) inp (Some None) (int n) (Some 0) = Some (0, Some e, Some (int blk))"
    "blk < length e" and dec: "x_rsa_private_decrypt X prv (int blk) (take blk e) = Some (take n inp)"
    by blast
  have m: "take n inp \<noteq> []" "length (take n inp) = n" "n \<le> blk"
    using assms(2-4) by auto
  with rsa_dec_eq [OF assms(1) dec, of None 0] e show ?thesis by auto
qed

text \<open>The envelope \<^verbatim>\<open>msg_aes_enc\<close> builds, as one equation.\<close>

lemma msg_aes_enc_eq:
  assumes "evp_gcm X" and "n \<le> length i" and "AES_BYTES \<le> length k" and "AES_IV_BYTES \<le> length v"
    and "n + 1 + AES_IV_BYTES \<le> lim" and "n + 1 + AES_IV_BYTES \<le> length b"
  shows "\<exists>ct tag. gcm_encrypt X (take n i) (take AES_IV_BYTES v) (take AES_BYTES k) (take AES_IV_BYTES v)
        (int AES_IV_BYTES) = Some (ct, tag)
    \<and> length ct = n \<and> length tag = AES_IV_BYTES
    \<and> gcm_decrypt X ct (take AES_IV_BYTES v) tag (take AES_BYTES k) (take AES_IV_BYTES v)
        (int AES_IV_BYTES) = Some (int n, take n i)
    \<and> msg_aes_enc X (Some i) (Some b) (Some k) (Some v) (int n) (Some l) (int lim)
      = Some (0, Some (ct @ tag @ enc_mark ENCRYPT_AES # drop (n + 17) b), Some (int n + 17))"
proof -
  let ?v = "take AES_IV_BYTES v"
  have "length (take n i) = n" using assms(2) by simp
  with gcm_roundtrip [OF assms(1), of "take n i" ?v "take AES_BYTES k" ?v "int AES_IV_BYTES"]
  obtain ct tag where g: "gcm_encrypt X (take n i) ?v (take AES_BYTES k) ?v (int AES_IV_BYTES) = Some (ct, tag)"
    "length ct = n" "length tag = AES_IV_BYTES"
    "gcm_decrypt X ct ?v tag (take AES_BYTES k) ?v (int AES_IV_BYTES) = Some (int n, take n i)"
    by auto
  have "drop (16 + n) b = b ! (n + 16) # drop (n + 17) b"
    using assms(6) by (simp add: Cons_nth_drop_Suc [symmetric] add.commute)
  with g assms show ?thesis
    by (simp add: msg_aes_enc_def mem_read_def mem_write_def put_byte_def list_update_append)
qed

text \<open>
  What one side seals the other side opens, when the first 32 bytes of the keys and the first 16 of
  the IVs agree; the receiver's buffer keeps what lies behind the message.
\<close>

lemma aes_seal_open:
  assumes "evp_gcm X" and "n \<le> length i" and "AES_BYTES \<le> length k" and "AES_IV_BYTES \<le> length v"
    and "n + 17 \<le> MAX_MSG + 1"
  obtains d where "length d = n + 16"
    and "\<And>b l. n + 17 \<le> length b \<Longrightarrow>
      msg_aes_enc X (Some i) (Some b) (Some k) (Some v) (int n) (Some l) (int MAX_MSG + 1)
        = Some (0, Some (d @ enc_mark ENCRYPT_AES # drop (n + 17) b), Some (int n + 17))"
    and "\<exists>ct tag. gcm_encrypt X (take n i) (take AES_IV_BYTES v) (take AES_BYTES k) (take AES_IV_BYTES v)
        (int AES_IV_BYTES) = Some (ct, tag) \<and> d = ct @ tag"
    and "\<And>rest bo k' v' l. n \<le> length bo \<Longrightarrow> AES_BYTES \<le> length k' \<Longrightarrow> AES_IV_BYTES \<le> length v' \<Longrightarrow>
      take AES_BYTES k' = take AES_BYTES k \<Longrightarrow> take AES_IV_BYTES v' = take AES_IV_BYTES v \<Longrightarrow>
      msg_aes_dec X (Some (d @ enc_mark ENCRYPT_AES # rest)) (Some bo) (Some k') (Some v') (int n + 17) (Some l)
        (int MAX_MSG + 1) = Some (0, Some (take n i @ drop n bo), Some (int n))"
proof -
  let ?v = "take AES_IV_BYTES v"
  have "length (take n i) = n" using assms(2) by simp
  with gcm_roundtrip [OF assms(1), of "take n i" ?v "take AES_BYTES k" ?v "int AES_IV_BYTES"]
  obtain ct tag where g: "gcm_encrypt X (take n i) ?v (take AES_BYTES k) ?v (int AES_IV_BYTES) = Some (ct, tag)"
    "length ct = n" "length tag = AES_IV_BYTES"
    "gcm_decrypt X ct ?v tag (take AES_BYTES k) ?v (int AES_IV_BYTES) = Some (int n, take n i)"
    by auto
  show ?thesis
  proof (rule that [of "ct @ tag"])
    fix b :: bytes and l assume "n + 17 \<le> length b"
    with msg_aes_enc_eq [OF assms(1-4), of "MAX_MSG + 1" b l] assms(5) g(1)
    show "msg_aes_enc X (Some i) (Some b) (Some k) (Some v) (int n) (Some l) (int MAX_MSG + 1)
        = Some (0, Some ((ct @ tag) @ enc_mark ENCRYPT_AES # drop (n + 17) b), Some (int n + 17))" by auto
  next
    fix rest bo k' v' :: bytes and l
    assume "n \<le> length bo" "AES_BYTES \<le> length k'" "AES_IV_BYTES \<le> length v'"
      "take AES_BYTES k' = take AES_BYTES k" "take AES_IV_BYTES v' = ?v"
    moreover have "nat (int n + 17) = n + 17" by simp
    ultimately show "msg_aes_dec X (Some ((ct @ tag) @ enc_mark ENCRYPT_AES # rest)) (Some bo) (Some k') (Some v')
        (int n + 17) (Some l) (int MAX_MSG + 1) = Some (0, Some (take n i @ drop n bo), Some (int n))"
      using g assms by (simp add: msg_aes_dec_def mem_read_def mem_write_def)
  qed (use g in auto)
qed

text \<open>
  C31. A message of at most 1184 bytes sealed by \<^verbatim>\<open>msg_aes_enc\<close> into a buffer with room for it
  is opened by \<^verbatim>\<open>msg_aes_dec\<close> with the same key and IV to the same bytes: both return 0, the
  sealed length is the message's plus 17, the last sealed byte is the mark \<^verbatim>\<open>ENCRYPT_AES\<close>, and
  the bytes of either buffer after the written part are unchanged.
\<close>

theorem msg_aes_roundtrip:
  assumes "evp_gcm X" and "n \<le> length i" and "AES_BYTES \<le> length k" and "AES_IV_BYTES \<le> length v"
    and "n + 17 \<le> lim" and "n + 17 \<le> length b" and "n + 17 \<le> MAX_MSG + 1"
    and "n \<le> lim2" and "n \<le> length o2"
  shows "\<exists>s p. msg_aes_enc X (Some i) (Some b) (Some k) (Some v) (int n) (Some l) (int lim)
        = Some (0, Some s, Some (int n + 17))
    \<and> s ! (n + 16) = enc_mark ENCRYPT_AES \<and> drop (n + 17) s = drop (n + 17) b
    \<and> msg_aes_dec X (Some s) (Some o2) (Some k) (Some v) (int n + 17) (Some l2) (int lim2)
        = Some (0, Some p, Some (int n))
    \<and> take n p = take n i \<and> drop n p = drop n o2"
proof -
  from msg_aes_enc_eq [OF assms(1-4), of lim b l] assms(5,6)
  obtain ct tag where g: "length ct = n" "length tag = AES_IV_BYTES"
    "gcm_decrypt X ct (take AES_IV_BYTES v) tag (take AES_BYTES k) (take AES_IV_BYTES v)
      (int AES_IV_BYTES) = Some (int n, take n i)"
    and e: "msg_aes_enc X (Some i) (Some b) (Some k) (Some v) (int n) (Some l) (int lim)
      = Some (0, Some (ct @ tag @ enc_mark ENCRYPT_AES # drop (n + 17) b), Some (int n + 17))"
    by auto
  let ?s = "ct @ tag @ enc_mark ENCRYPT_AES # drop (n + 17) b"
  have "nat (int n + 17) = n + 17" by simp
  then have "msg_aes_dec X (Some ?s) (Some o2) (Some k) (Some v) (int n + 17) (Some l2) (int lim2)
        = Some (0, Some (take n i @ drop n o2), Some (int n))"
    using g assms by (simp add: msg_aes_dec_def mem_read_def mem_write_def)
  with e g assms(2) show ?thesis
    by (intro exI [of _ ?s] exI [of _ "take n i @ drop n o2"]) (auto simp: nth_append)
qed

text \<open>
  C33. \<^verbatim>\<open>msg_aes_dec\<close> reports an error and touches no buffer for a datagram shorter than 17 or
  longer than 1201 bytes or with too little room; when the tag does not verify it reports the
  error with a length of 0, whatever the buffers hold.
\<close>

theorem msg_aes_dec_rejects:
  assumes "AES_BYTES \<le> length k" and "AES_IV_BYTES \<le> length v"
  shows "(lenin < 17 \<or> lenin > 1201 \<or> lim < lenin - 17 \<longrightarrow>
      msg_aes_dec X (Some i) (Some b) (Some k) (Some v) lenin (Some l) lim = Some (1, Some b, Some l))
    \<and> (17 \<le> lenin \<and> lenin \<le> 1201 \<and> lenin - 17 \<le> lim \<and> nat lenin \<le> length i
       \<and> gcm_decrypt X (take (nat lenin - 17) i) (take 16 v) (take 16 (drop (nat lenin - 17) i))
            (take 32 k) (take 16 v) 16 = Some (-1, pt) \<and> length pt \<le> length b \<longrightarrow>
      (\<exists>b'. msg_aes_dec X (Some i) (Some b) (Some k) (Some v) lenin (Some l) lim
         = Some (1, Some b', Some 0)))"
  using assms by (auto simp: msg_aes_dec_def mem_read_def mem_write_def)

section \<open>An instance of the outside world\<close>

text \<open>
  A concrete \<open>ext\<close> for which the documented behaviour holds: a stream cipher that xors with the
  first key byte and a tag of 16 copies of it, RSA as padding to 512 bytes, every key file present
  except names that end in a dot.
\<close>

definition demo_ext :: "(nat, byte \<times> bool) ext" where
  "demo_ext = \<lparr>
     x_usable = (\<lambda>n. ((n + 8) div 16 + 1) * 16 - 8),
     x_realloc_in_place = (\<lambda>a b. True),
     x_fopen = (\<lambda>p. if p \<noteq> [] \<and> last p = of_char (CHR ''.'') then None else Some (1, [65])),
     x_fclose = (\<lambda>_. 0),
     x_pem_pub = (\<lambda>b. if b = [] then None else Some 1),
     x_pem_prv = (\<lambda>b. if b = [] then None else Some 1),
     x_rsa_head = (\<lambda>_. zeros 8),
     x_rsa_size = (\<lambda>_. 512),
     x_rsa_public_encrypt = (\<lambda>k n m. if length m \<le> 501 then Some (zeros (511 - length m) @ 1 # m) else None),
     x_rsa_private_decrypt = (\<lambda>k n c. if n \<noteq> 512 \<or> length c \<noteq> 512 then None
        else (case dropWhile (\<lambda>x. x = 0) c of [] \<Rightarrow> None
              | x # m \<Rightarrow> if length m \<le> 501 then Some m else None)),
     x_evp_new = Some (0, True),
     x_enc_init = id, x_dec_init = id, x_set_ivlen = (\<lambda>c _. c),
     x_enc_key = (\<lambda>c key iv. (if key = [] then 0 else hd key, True)),
     x_dec_key = (\<lambda>c key iv. (if key = [] then 0 else hd key, True)),
     x_enc_aad = (\<lambda>c _. c), x_dec_aad = (\<lambda>c _. c),
     x_enc_update = (\<lambda>c pt. (map (\<lambda>x. x XOR fst c) pt, c)),
     x_dec_update = (\<lambda>c ct. (map (\<lambda>x. x XOR fst c) ct, c)),
     x_enc_final = (\<lambda>c. ([], c)),
     x_dec_final = (\<lambda>c. (if snd c then 1 else 0, [])),
     x_get_tag = (\<lambda>c. replicate 16 (fst c)),
     x_set_tag = (\<lambda>c t. (fst c, t = replicate 16 (fst c)))\<rparr>"

lemma demo_evp_gcm: "evp_gcm demo_ext"
  unfolding evp_gcm_def
  by (intro exI [of _ "(0, True)"]) (simp add: demo_ext_def Let_def comp_def xor.assoc)

lemma dropWhile_zeros: "dropWhile (\<lambda>x. x = 0) (zeros n @ 1 # m) = 1 # (m :: bytes)"
  by (induction n) auto

lemma demo_rsa_pair: "rsa_pair demo_ext 1 1 512"
  by (simp add: rsa_pair_def demo_ext_def dropWhile_zeros)

theorem rsa_roundtrip_witness:
  "\<exists>e d. rsa_enc demo_ext (Some 1) (zeros 100) (Some None) 100 (Some 0) = Some (0, Some e, Some 512)
    \<and> rsa_dec demo_ext (Some 1) (Some e) (Some None) 512 (Some 0) = Some (0, Some d, Some 100)
    \<and> take 100 d = zeros 100"
  using rsa_roundtrip [OF demo_rsa_pair, of 100 "zeros 100"] by auto

theorem msg_aes_roundtrip_witness:
  "\<exists>s p. msg_aes_enc demo_ext (Some (zeros 100)) (Some (zeros 1201)) (Some (zeros 32)) (Some (zeros 16))
        100 (Some 0) 1201 = Some (0, Some s, Some 117)
    \<and> msg_aes_dec demo_ext (Some s) (Some (zeros 1201)) (Some (zeros 32)) (Some (zeros 16)) 117 (Some 0) 1201
        = Some (0, Some p, Some 100) \<and> take 100 p = zeros 100"
  using msg_aes_roundtrip [OF demo_evp_gcm, of 100 "zeros 100" "zeros 32" "zeros 16" 1201 "zeros 1201"
      1201 "zeros 1201" 0 0] by auto

theorem msg_aes_dec_rejects_witness:
  "msg_aes_dec demo_ext (Some (zeros 5)) (Some (zeros 9)) (Some (zeros 32)) (Some (zeros 16)) 5 (Some 7) 9
     = Some (1, Some (zeros 9), Some 7)"
  using msg_aes_dec_rejects [of "zeros 32" "zeros 16" 5 9 demo_ext "zeros 5" "zeros 9" 7] by simp

end
