(* ===== verification/Registry.thy ===== *)
theory Registry
  imports Crypto
begin

text \<open>
  The device registry of \<^verbatim>\<open>notify.system/msg_notify.c\<close>: \<^verbatim>\<open>hash_func\<close>, the table
  \<^verbatim>\<open>list_reg_dev\<close> of buckets, registration (\<^verbatim>\<open>reg_to_table\<close>, \<^verbatim>\<open>put_pubkey_msg\<close>,
  \<^verbatim>\<open>load_reg_list\<close>) and tracking (\<^verbatim>\<open>hl_track_msg\<close>). The locale \<open>device_table\<close> is the
  contract the rest of the server relies on; the table of the code is an interpretation of it.
\<close>

section \<open>The hash function\<close>

abbreviation (input) HASH_SIZE :: nat where "HASH_SIZE \<equiv> 10001"

text \<open>the inner loop: \<open>k\<close> after \<open>j\<close> turns of \<^verbatim>\<open>k *= 71; k %= HASH_SIZE;\<close>\<close>

fun hash_k :: "nat \<Rightarrow> 64 word" where
  "hash_k 0 = 1"
| "hash_k (Suc j) = (hash_k j * 71) mod of_nat HASH_SIZE"

text \<open>
  The outer loop from index \<open>i\<close> with \<open>m\<close> turns left. \<^verbatim>\<open>id[i]\<close> is a \<^verbatim>\<open>char\<close>, signed on
  the targets of the Makefile, and is sign-extended to the 64 bits of \<open>k\<close>; the sum is kept in
  32 bits.
\<close>

fun hash_loop :: "bytes \<Rightarrow> nat \<Rightarrow> nat \<Rightarrow> 32 word \<Rightarrow> 32 word option" where
  "hash_loop idd i 0 res = Some res"
| "hash_loop idd i (Suc m) res = do {
     c \<leftarrow> get_byte idd i;
     hash_loop idd (Suc i) m
       (ucast (ucast res + ((scast c :: 64 word) * hash_k i) mod of_nat HASH_SIZE)) }"

definition hash_func :: "bytes \<Rightarrow> int \<Rightarrow> 32 word option" where
  "hash_func idd n = map_option (\<lambda>r. r mod of_nat HASH_SIZE) (hash_loop idd 0 (nat n) 0)"

section \<open>Items and buckets\<close>

record sockaddr_in =
  sin_family :: "16 word"
  sin_port :: "16 word"
  sin_addr :: "32 word"

definition zero_addr :: sockaddr_in where
  "zero_addr = \<lparr>sin_family = 0, sin_port = 0, sin_addr = 0\<rparr>"

text \<open>
  \<^verbatim>\<open>HASH_ITEM\<close>. The \<open>next\<close> pointers are the order of the list an item is in; the fields
  \<open>ipv4_ntfier\<close>, \<open>ipv6\<close> and \<open>crt\<close> are never read or written. On a 64-bit target the
  struct has 96 bytes.
\<close>

record HASH_ITEM =
  ipv4 :: sockaddr_in
  n_msg :: nat
  msg :: bytes

abbreviation (input) sizeof_HASH_ITEM :: nat where "sizeof_HASH_ITEM \<equiv> 96"

record HASH_LIST =
  hl_n :: int
  hl_group :: "HASH_ITEM list"

type_synonym table = "nat \<Rightarrow> HASH_LIST"

definition empty_table :: table where
  "empty_table = (\<lambda>_. \<lparr>hl_n = 0, hl_group = []\<rparr>)"

text \<open>
  The search loop of \<^verbatim>\<open>reg_to_table\<close> and \<^verbatim>\<open>hl_track_msg\<close>: position of the first item
  whose \<open>dev_id\<close> compares equal, looking at no more than \<open>n\<close> items.
\<close>

fun scan_group :: "bytes \<Rightarrow> HASH_ITEM list \<Rightarrow> int \<Rightarrow> int \<Rightarrow> nat option option" where
  "scan_group d [] j n = Some None"
| "scan_group d (h # hs) j n = do {
     k \<leftarrow> c_strncmp d (drop off_dev_id (msg h)) LEN_DEVID;
     (if k = 0 then Some (Some 0)
      else if j + 1 \<ge> n then Some None
      else map_option (map_option Suc) (scan_group d hs (j + 1) n)) }"

text \<open>the bucket of the device id at \<open>off\<close> in message \<open>m\<close>\<close>

definition bucket_of :: "bytes \<Rightarrow> nat \<Rightarrow> nat option" where
  "bucket_of m off = do {
     l \<leftarrow> c_strlen m off;
     h \<leftarrow> hash_func (drop off m) (int (min MAX_MSG l));
     Some (unat h) }"

section \<open>Registration\<close>

text \<open>
  \<^verbatim>\<open>put_pubkey_msg(m, n)\<close>: the file name it looks for ends in a dot. When the key loads, the
  block is reallocated and the first 8 bytes of the RSA object (not a pointer to it) are copied
  behind the header. The result is the error code, the block and the size.
\<close>

definition put_pubkey_msg :: "('k, 'c) ext \<Rightarrow> bytes \<Rightarrow> int \<Rightarrow> (int \<times> bytes \<times> int) option" where
  "put_pubkey_msg X m n = do {
     l \<leftarrow> c_strlen m off_dev_id;
     let path = take 2047 (take l (drop off_dev_id m) @ lit ''.public-key.pem.'');
     (err, rsa) \<leftarrow> file_2_pubrsa X (Some path) (Some None);
     (if err \<noteq> 0 then Some (1, m, n)
      else (case rsa of None \<Rightarrow> Some (1, m, n)
        | Some k \<Rightarrow> do {
            let m1 = take (nat n + 8) (m @ zeros 8);
            m2 \<leftarrow> mem_write m1 sizeof_MSG_COMMON (zeros 8);
            m3 \<leftarrow> mem_write m2 sizeof_MSG_COMMON (x_rsa_head X k);
            m4 \<leftarrow> set_u16 m3 off_len 8;
            Some (0, m4, n + 8) })) }"

text \<open>
  The item \<^verbatim>\<open>reg_to_table\<close> makes: a block of \<open>bsize\<close> bytes into which \<open>n\<close> bytes of the
  message are copied. The allocator may give more than \<open>bsize\<close> bytes (\<open>x_usable\<close>); a copy
  beyond them is out of bounds. A key that loads moves the block while the item keeps the old
  pointer, unless \<^verbatim>\<open>realloc\<close> can extend the block in place.
\<close>

definition new_item :: "('k, 'c) ext \<Rightarrow> nat \<Rightarrow> bytes \<Rightarrow> nat \<Rightarrow> HASH_ITEM option" where
  "new_item X bsize m n = do {
     src \<leftarrow> mem_read m 0 n;
     blk \<leftarrow> (if n \<le> x_usable X bsize then Some (src @ zeros (bsize - n)) else None);
     (err, blk', sz) \<leftarrow> put_pubkey_msg X blk (int n);
     (if err = 0 \<and> \<not> x_realloc_in_place X bsize (nat sz) then None
      else Some \<lparr>ipv4 = zero_addr, n_msg = 0, msg = blk'\<rparr>) }"

text \<open>
  \<^verbatim>\<open>reg_to_table(msg, n, t)\<close> on the table \<open>T\<close>. The result is the return value, the table and
  the caller's message, which gets a time stamp when the bucket is not empty.
\<close>

definition reg_to_table ::
  "('k, 'c) ext \<Rightarrow> table \<Rightarrow> bytes \<Rightarrow> nat \<Rightarrow> timespec option \<Rightarrow> (int \<times> table \<times> bytes) option" where
  "reg_to_table X T m n t = do {
     hn \<leftarrow> bucket_of m off_dev_id;
     let hi = T hn;
     (if hl_n hi \<noteq> 0 then
        (if hl_group hi = [] then Some (0, T(hn := hi\<lparr>hl_n := 0\<rparr>), m)
         else do {
           found \<leftarrow> scan_group (drop off_dev_id m) (hl_group hi) 0 (hl_n hi);
           m' \<leftarrow> put_time_to_msg (Some m) t;
           m1 \<leftarrow> m';
           (case found of Some j \<Rightarrow> Some (0, T, m1)
            | None \<Rightarrow> do {
                it \<leftarrow> new_item X sizeof_HASH_ITEM m1 n;
                Some (1, T(hn := hi\<lparr>hl_n := hl_n hi + 1, hl_group := it # hl_group hi\<rparr>), m1) }) })
      else do {
        it \<leftarrow> new_item X n m n;
        Some (1, T(hn := hi\<lparr>hl_n := 1, hl_group := [it]\<rparr>), m) }) }"

section \<open>Tracking\<close>

text \<open>
  \<^verbatim>\<open>hl_track_msg(msg, n, addr, type)\<close>: the address the tracking datagram came from becomes the
  address of the device it names.
\<close>

definition hl_track_msg :: "table \<Rightarrow> bytes \<Rightarrow> sockaddr_in \<Rightarrow> (int \<times> table) option" where
  "hl_track_msg T m addr = do {
     hn \<leftarrow> bucket_of m off_dev_id;
     let hi = T hn;
     (if hl_n hi \<noteq> 0 then
        (if hl_group hi = [] then Some (0, T(hn := hi\<lparr>hl_n := 0\<rparr>))
         else do {
           found \<leftarrow> scan_group (drop off_dev_id m) (hl_group hi) 0 (hl_n hi);
           (case found of None \<Rightarrow> Some (0, T)
            | Some j \<Rightarrow> Some (1, T(hn := hi\<lparr>hl_group :=
                (hl_group hi)[j := (hl_group hi ! j)\<lparr>ipv4 := addr\<rparr>]\<rparr>))) })
      else Some (0, T)) }"

section \<open>The list of registered devices\<close>

definition crlf :: "byte \<Rightarrow> bool" where
  "crlf b \<longleftrightarrow> b = 10 \<or> b = 13"

text \<open>
  The loop \<^verbatim>\<open>pch = strtok(data, "\r\n"); while (pch) ...\<close> over what is left of \<open>data\<close>
  (a list that ends in the terminating NUL). From \<open>pch\<close> on, memory holds the token, the NUL
  \<^verbatim>\<open>strtok\<close> put behind it, the rest of \<open>data\<close> and what follows the block, \<open>slack\<close>; the
  copy of 40 bytes into \<open>dev_id\<close> reads all of these. \<open>i\<close> counts the calls of
  \<^verbatim>\<open>clock_gettime\<close>, whose results are \<open>clk\<close>.
\<close>

lemma strtok_rest_shorter:
  assumes "takeWhile P (dropWhile crlf s) \<noteq> []"
  shows "length (tl (drop (length (takeWhile P (dropWhile crlf s))) (dropWhile crlf s))) < length s"
proof -
  have "0 < length (takeWhile P (dropWhile crlf s))" using assms by simp
  moreover have "length (takeWhile P (dropWhile crlf s)) \<le> length (dropWhile crlf s)"
    by (rule length_takeWhile_le)
  moreover have "length (dropWhile crlf s) \<le> length s" by (rule length_dropWhile_le)
  ultimately show ?thesis by (simp only: length_tl length_drop)
qed

function load_loop ::
  "('k, 'c) ext \<Rightarrow> (nat \<Rightarrow> timespec) \<Rightarrow> bytes \<Rightarrow> bytes \<Rightarrow> nat \<Rightarrow> int \<Rightarrow> table \<Rightarrow> (int \<times> table) option" where
  "load_loop X clk slack s i ret T =
     (let s1 = dropWhile crlf s; tok = takeWhile (\<lambda>b. \<not> crlf b \<and> b \<noteq> 0) s1;
          rest = drop (length tok) s1
      in if tok = [] then Some (ret, T)
         else if length tok > 30 then do {
           idd \<leftarrow> mem_read (tok @ 0 # tl rest @ slack) 0 LEN_DEVID;
           m \<leftarrow> mem_write (zeros sizeof_MSG_COMMON) off_dev_id idd;
           (r, T', m') \<leftarrow> reg_to_table X T m sizeof_MSG_COMMON (Some (clk i));
           load_loop X clk slack (tl rest) (Suc i) r T' }
         else load_loop X clk slack (tl rest) i ret T)"
  by pat_completeness auto
termination
  by (relation "measure (\<lambda>(X, clk, slack, s, i, ret, T). length s)") (auto dest: strtok_rest_shorter)

declare load_loop.simps [simp del]

definition load_reg_list ::
  "('k, 'c) ext \<Rightarrow> (nat \<Rightarrow> timespec) \<Rightarrow> bytes \<Rightarrow> table \<Rightarrow> (int \<times> table) option" where
  "load_reg_list X clk slack T =
     (case x_fopen X (lit ''list_dev_id.h'') of None \<Rightarrow> Some (0, T)
      | Some (len, content) \<Rightarrow>
        if len < 1 then Some (0, T)
        else if length content > len then None
        else load_loop X clk slack (content @ zeros (len + 1 - length content)) 0 0 T)"

section \<open>Properties of the hash function\<close>

lemma hash_k_unat: "unat (hash_k j) = 71 ^ j mod HASH_SIZE"
proof (induction j)
  case (Suc j)
  have lt: "unat (hash_k j) < HASH_SIZE" using Suc.IH by simp
  then have "unat (hash_k j) * 71 < 2 ^ 64" by simp
  then have "unat (hash_k j * 71) = unat (hash_k j) * 71"
    by (simp add: unat_word_ariths)
  moreover have "71 ^ j mod HASH_SIZE * 71 mod HASH_SIZE = 71 ^ Suc j mod HASH_SIZE"
    by (metis mod_mult_left_eq mult.commute power_Suc)
  ultimately show ?case
    using Suc.IH by (simp add: unat_mod)
qed simp

lemma hash_term:
  assumes "c < (128 :: byte)"
  shows "unat (((scast c :: 64 word) * hash_k i) mod of_nat HASH_SIZE) = unat c * 71 ^ i mod HASH_SIZE"
proof -
  have c: "unat c < 128" using assms by (simp add: word_less_nat_alt)
  have s: "unat (scast c :: 64 word) = unat c"
    using assms by (simp add: scast_eq_ucast unat_ucast_up)
  have "unat (hash_k i) < HASH_SIZE" by (simp add: hash_k_unat)
  then have "unat c * unat (hash_k i) \<le> 128 * HASH_SIZE"
    using c by (intro mult_le_mono) auto
  then have "unat ((scast c :: 64 word) * hash_k i) = unat c * unat (hash_k i)"
    using s by (simp add: unat_word_ariths)
  then show ?thesis by (simp add: unat_mod hash_k_unat mod_mult_right_eq)
qed

lemma hash_loop_total: "i + m \<le> length idd \<Longrightarrow> \<exists>r. hash_loop idd i m res = Some r"
  by (induction m arbitrary: i res) (auto simp: get_byte_def)

lemma hash_loop_append:
  "i + m \<le> length p \<Longrightarrow> hash_loop (p @ q) i m res = hash_loop p i m res"
  by (induction m arbitrary: i res) (auto simp: get_byte_def nth_append)

lemma hash_func_total: "nat n \<le> length idd \<Longrightarrow> \<exists>h. hash_func idd n = Some h"
  using hash_loop_total [of 0 "nat n" idd 0] by (auto simp: hash_func_def)

lemma hash_func_append: "nat n \<le> length p \<Longrightarrow> hash_func (p @ q) n = hash_func p n"
  by (simp add: hash_func_def hash_loop_append)

lemma hash_loop_sum:
  assumes "i + m \<le> length idd" and "\<forall>x \<in> set idd. x < 128" and "unat res + m * HASH_SIZE < 2 ^ 32"
  shows "\<exists>r. hash_loop idd i m res = Some r \<and>
    unat r = unat res + (\<Sum>j = i..<i + m. unat (idd ! j) * 71 ^ j mod HASH_SIZE)"
  using assms(1,3)
proof (induction m arbitrary: i res)
  case (Suc m)
  let ?t = "unat (idd ! i) * 71 ^ i mod HASH_SIZE"
  let ?r = "ucast (ucast res + ((scast (idd ! i) :: 64 word) * hash_k i) mod of_nat HASH_SIZE) :: 32 word"
  have i: "i < length idd" "idd ! i < 128" using Suc.prems assms(2) by auto
  have t: "unat (((scast (idd ! i) :: 64 word) * hash_k i) mod of_nat HASH_SIZE) = ?t"
    using i by (intro hash_term) simp
  have lt: "?t < HASH_SIZE" by simp
  have "unat (ucast res :: 64 word) = unat res"
    by (simp add: unat_ucast_up)
  then have r: "unat ?r = unat res + ?t"
    using t lt Suc.prems(2) by (simp add: unsigned_ucast_eq unat_word_ariths take_bit_eq_mod)
  have "unat ?r + m * HASH_SIZE < 2 ^ 32" "Suc i + m \<le> length idd"
    using Suc.prems lt unfolding r by auto
  from Suc.IH [OF this(2,1)]
  obtain r where "hash_loop idd (Suc i) m ?r = Some r"
    and "unat r = unat ?r + (\<Sum>j = Suc i..<Suc i + m. unat (idd ! j) * 71 ^ j mod HASH_SIZE)"
    by blast
  then show ?case
    using i unfolding r
    by (auto simp: get_byte_def sum.atLeast_Suc_lessThan simp del: sum.op_ivl_Suc)
qed simp

lemma hash_func_bound: "hash_func idd n = Some h \<Longrightarrow> unat h < HASH_SIZE"
  by (auto simp: hash_func_def unat_mod)

section \<open>The contract of a device table\<close>

text \<open>
  What the server needs from its table: registering a new key adds it with the null address and
  returns 1, registering a known key changes nothing and returns 0, tracking a known key replaces
  its address and returns 1, tracking an unknown key changes nothing and returns 0.
\<close>

locale device_table =
  fixes inv :: "'t \<Rightarrow> bool" and abs :: "'t \<Rightarrow> 'k \<Rightarrow> 'a option" and empty :: 't
    and reg :: "'t \<Rightarrow> 'm \<Rightarrow> (int \<times> 't) option"
    and track :: "'t \<Rightarrow> 'm \<Rightarrow> 'a \<Rightarrow> (int \<times> 't) option"
    and key :: "'m \<Rightarrow> 'k" and good :: "'m \<Rightarrow> bool" and fresh :: 'a
  assumes inv_empty: "inv empty" and abs_empty: "abs empty k = None"
    and reg_new: "inv T \<Longrightarrow> good m \<Longrightarrow> abs T (key m) = None \<Longrightarrow>
        \<exists>T'. reg T m = Some (1, T') \<and> inv T' \<and> abs T' = (abs T)(key m \<mapsto> fresh)"
    and reg_old: "inv T \<Longrightarrow> good m \<Longrightarrow> abs T (key m) = Some a \<Longrightarrow> reg T m = Some (0, T)"
    and track_known: "inv T \<Longrightarrow> good m \<Longrightarrow> abs T (key m) = Some b \<Longrightarrow>
        \<exists>T'. track T m a = Some (1, T') \<and> inv T' \<and> abs T' = (abs T)(key m \<mapsto> a)"
    and track_unknown: "inv T \<Longrightarrow> good m \<Longrightarrow> abs T (key m) = None \<Longrightarrow> track T m a = Some (0, T)"
begin

text \<open>registering a sequence of messages\<close>

fun reg_all :: "'t \<Rightarrow> 'm list \<Rightarrow> 't option" where
  "reg_all T [] = Some T"
| "reg_all T (m # ms) = Option.bind (reg T m) (\<lambda>(r, T'). reg_all T' ms)"

lemma reg_total:
  assumes "inv T" and "good m"
  shows "\<exists>r T'. reg T m = Some (r, T') \<and> inv T' \<and> dom (abs T') = insert (key m) (dom (abs T))
    \<and> (r = 1 \<longleftrightarrow> abs T (key m) = None) \<and> (r = 0 \<longleftrightarrow> abs T (key m) \<noteq> None)
    \<and> abs T' = (if abs T (key m) = None then (abs T)(key m \<mapsto> fresh) else abs T)"
proof (cases "abs T (key m)")
  case None
  with reg_new [OF assms] show ?thesis by auto
next
  case (Some a)
  then have "key m \<in> dom (abs T)" by auto
  with reg_old [OF assms Some] assms Some show ?thesis by (auto simp: insert_absorb)
qed

lemma reg_all_dom:
  assumes "inv T" and "\<forall>m \<in> set ms. good m"
  shows "\<exists>T'. reg_all T ms = Some T' \<and> inv T' \<and> dom (abs T') = dom (abs T) \<union> key ` set ms
    \<and> (\<forall>k a. abs T k = Some a \<longrightarrow> abs T' k = Some a)
    \<and> (\<forall>k a. abs T k = None \<longrightarrow> abs T' k = Some a \<longrightarrow> a = fresh)"
  using assms
proof (induction ms arbitrary: T)
  case (Cons m ms)
  from reg_total [of T m] Cons.prems obtain r T1 where T1: "reg T m = Some (r, T1)" "inv T1"
    "dom (abs T1) = insert (key m) (dom (abs T))"
    "abs T1 = (if abs T (key m) = None then (abs T)(key m \<mapsto> fresh) else abs T)"
    by auto
  from Cons.IH [OF T1(2)] Cons.prems(2) obtain T2 where T2: "reg_all T1 ms = Some T2" "inv T2"
    "dom (abs T2) = dom (abs T1) \<union> key ` set ms"
    "\<forall>k a. abs T1 k = Some a \<longrightarrow> abs T2 k = Some a"
    "\<forall>k a. abs T1 k = None \<longrightarrow> abs T2 k = Some a \<longrightarrow> a = fresh"
    by auto
  have step: "abs T1 k = abs T k \<or> abs T k = None \<and> abs T1 k = Some fresh" for k
    by (simp add: T1(4))
  have keep: "abs T k = Some a \<Longrightarrow> abs T2 k = Some a" for k a
    using step [of k] T2(4) by auto
  have new: "abs T k = None \<Longrightarrow> abs T2 k = Some a \<Longrightarrow> a = fresh" for k a
    using step [of k] T2(4,5) by (metis option.inject)
  have "reg_all T (m # ms) = Some T2" using T1(1) T2(1) by simp
  moreover have "dom (abs T2) = dom (abs T) \<union> key ` set (m # ms)"
    using T1(3) T2(3) by auto
  ultimately show ?case using T2(2) keep new by blast
qed auto

text \<open>Tracking never adds or removes a device, and touches the address of one device only.\<close>

lemma track_frame:
  assumes "inv T" and "good m" and "track T m a = Some (r, T')"
  shows "inv T' \<and> dom (abs T') = dom (abs T) \<and> (\<forall>k. k \<noteq> key m \<longrightarrow> abs T' k = abs T k)
    \<and> (r = 1 \<longleftrightarrow> key m \<in> dom (abs T)) \<and> (r = 1 \<longrightarrow> abs T' (key m) = Some a)"
proof (cases "abs T (key m)")
  case None
  with track_unknown [OF assms(1,2)] assms(1,3) show ?thesis by auto
next
  case (Some b)
  with track_known [OF assms(1,2) Some, of a] assms(3) show ?thesis by auto
qed

end

section \<open>The table of the code\<close>

definition id_key :: "bytes \<Rightarrow> nat \<Rightarrow> bytes" where
  "id_key m off = c_str (take LEN_DEVID (drop off m))"

definition dev_key :: "bytes \<Rightarrow> bytes" where
  "dev_key m = c_str (take LEN_DEVID (drop off_dev_id m))"

lemma dev_key_id: "dev_key m = id_key m off_dev_id"
  by (simp add: dev_key_def id_key_def)

text \<open>a whole header whose device id is ended by a NUL, at the latest right behind its 40 bytes\<close>

definition good_id :: "bytes \<Rightarrow> bool" where
  "good_id m \<longleftrightarrow> sizeof_MSG_COMMON \<le> length m \<and> 0 \<in> set (take (Suc LEN_DEVID) (drop off_dev_id m))"

definition hash_ix :: "bytes \<Rightarrow> nat" where
  "hash_ix k = unat (the (hash_func k (int (length k))))"

text \<open>
  A bucket counts its items, holds no device twice, and holds only devices that hash to it, each
  with a whole header.
\<close>

definition bucket_ok :: "nat \<Rightarrow> HASH_LIST \<Rightarrow> bool" where
  "bucket_ok i hi \<longleftrightarrow> hl_n hi = int (length (hl_group hi))
     \<and> distinct (map (\<lambda>h. dev_key (msg h)) (hl_group hi))
     \<and> (\<forall>h \<in> set (hl_group hi). sizeof_MSG_COMMON \<le> length (msg h) \<and> hash_ix (dev_key (msg h)) = i)"

definition reg_inv :: "table \<Rightarrow> bool" where
  "reg_inv T \<longleftrightarrow> (\<forall>i. bucket_ok i (T i))"

lemma reg_invD:
  assumes "reg_inv T"
  shows "hl_n (T i) = int (length (hl_group (T i)))"
    and "distinct (map (\<lambda>h. dev_key (msg h)) (hl_group (T i)))"
    and "h \<in> set (hl_group (T i)) \<Longrightarrow> sizeof_MSG_COMMON \<le> length (msg h)"
    and "h \<in> set (hl_group (T i)) \<Longrightarrow> hash_ix (dev_key (msg h)) = i"
  using assms by (auto simp: reg_inv_def bucket_ok_def)

lemma reg_inv_upd: "reg_inv T \<Longrightarrow> bucket_ok i hi \<Longrightarrow> reg_inv (T(i := hi))"
  by (simp add: reg_inv_def)

definition reg_abs :: "table \<Rightarrow> bytes \<Rightarrow> sockaddr_in option" where
  "reg_abs T k = map_option ipv4 (find (\<lambda>h. dev_key (msg h) = k) (hl_group (T (hash_ix k))))"

text \<open>
  The allocator gives at least what is asked for, and at least the size of a header for a block of
  \<^verbatim>\<open>sizeof(HASH_ITEM)\<close> bytes (glibc gives 104); there is no key file whose name ends in a dot.
\<close>

definition ext_ok :: "('k, 'c) ext \<Rightarrow> bool" where
  "ext_ok X \<longleftrightarrow> (\<forall>n. n \<le> x_usable X n) \<and> sizeof_MSG_COMMON \<le> x_usable X sizeof_HASH_ITEM
     \<and> (\<forall>p. x_fopen X (p @ lit ''.public-key.pem.'') = None)"

lemma id_key_str:
  assumes "0 \<in> set (take (Suc LEN_DEVID) (drop off m))"
  shows "c_str (drop off m) = id_key m off" and "length (id_key m off) \<le> LEN_DEVID"
    and "c_strlen m off = Some (length (id_key m off))"
proof -
  let ?s = "drop off m"
  have "\<exists>x \<in> set (take (Suc LEN_DEVID) ?s). \<not> x \<noteq> 0" using assms by auto
  then have len: "length (c_str ?s) \<le> LEN_DEVID"
    unfolding c_str_def by (rule length_takeWhile_bound)
  then show k: "c_str ?s = id_key m off"
    by (simp add: id_key_def c_str_def takeWhile_take)
  with len show "length (id_key m off) \<le> LEN_DEVID" by simp
  have z: "0 \<in> set ?s" using assms in_set_takeD by fastforce
  then have "off \<le> length m" by (cases "off \<le> length m") auto
  with z k show "c_strlen m off = Some (length (id_key m off))"
    by (simp add: c_strlen_Some_iff)
qed

lemma bucket_at:
  assumes "0 \<in> set (take (Suc LEN_DEVID) (drop off m))"
  shows "bucket_of m off = Some (hash_ix (id_key m off))"
proof -
  let ?k = "id_key m off"
  have split: "drop off m = ?k @ dropWhile (\<lambda>x. x \<noteq> 0) (drop off m)"
    using id_key_str(1) [OF assms] by (metis c_str_def takeWhile_dropWhile_id)
  have len: "length ?k \<le> LEN_DEVID" by (rule id_key_str(2) [OF assms])
  obtain h where h: "hash_func ?k (int (length ?k)) = Some h"
    using hash_func_total [of "int (length ?k)" ?k] by auto
  have "hash_func (drop off m) (int (length ?k)) = Some h"
    using hash_func_append [of "int (length ?k)" ?k] h by (subst split) simp
  with h len show ?thesis
    by (simp add: bucket_of_def id_key_str(3) [OF assms] hash_ix_def min_def)
qed

lemma good_id_str:
  assumes "good_id m"
  shows "c_str (drop off_dev_id m) = dev_key m" and "length (dev_key m) \<le> LEN_DEVID"
    and "c_strlen m off_dev_id = Some (length (dev_key m))"
  using id_key_str [of off_dev_id m] assms by (simp_all add: good_id_def dev_key_id)

lemma bucket_of_good: "good_id m \<Longrightarrow> bucket_of m off_dev_id = Some (hash_ix (dev_key m))"
  using bucket_at [of off_dev_id m] by (simp add: good_id_def dev_key_id)

lemma scan_group_spec:
  assumes "LEN_DEVID \<le> length d" and "\<forall>h \<in> set hs. sizeof_MSG_COMMON \<le> length (msg h)"
  shows "\<exists>r. scan_group d hs j (j + int (length hs)) = Some r \<and>
    (case r of None \<Rightarrow> \<forall>h \<in> set hs. dev_key (msg h) \<noteq> c_str (take LEN_DEVID d)
     | Some i \<Rightarrow> i < length hs \<and> dev_key (msg (hs ! i)) = c_str (take LEN_DEVID d))"
  using assms(2)
proof (induction hs arbitrary: j)
  case (Cons h hs)
  have len: "LEN_DEVID \<le> length (drop off_dev_id (msg h))" using Cons.prems by auto
  obtain k where k: "c_strncmp d (drop off_dev_id (msg h)) LEN_DEVID = Some k"
    using c_strncmp_total [OF assms(1) len] by blast
  have eq: "k = 0 \<longleftrightarrow> dev_key (msg h) = c_str (take LEN_DEVID d)"
    using c_strncmp_eq_0 [OF assms(1) len] k by (auto simp: dev_key_def)
  obtain r where r: "scan_group d hs (j + 1) (j + 1 + int (length hs)) = Some r"
    "case r of None \<Rightarrow> \<forall>h \<in> set hs. dev_key (msg h) \<noteq> c_str (take LEN_DEVID d)
     | Some i \<Rightarrow> i < length hs \<and> dev_key (msg (hs ! i)) = c_str (take LEN_DEVID d)"
    using Cons.IH [of "j + 1"] Cons.prems by auto
  show ?case
  proof (cases "k = 0 \<or> hs = []")
    case True
    with k eq show ?thesis by auto
  next
    case False
    with k eq r show ?thesis
      by (cases r) (auto simp: algebra_simps)
  qed
qed simp

lemma good_id_prefix:
  "good_id m \<Longrightarrow> length m' \<ge> sizeof_MSG_COMMON \<Longrightarrow> take off_second m' = take off_second m \<Longrightarrow>
     good_id m' \<and> dev_key m' = dev_key m"
proof -
  assume a: "good_id m" "length m' \<ge> sizeof_MSG_COMMON" "take off_second m' = take off_second m"
  have "take n (drop off_dev_id m') = take n (drop off_dev_id m)" if "n \<le> 80" for n
  proof -
    have "take n (drop off_dev_id x) = take n (drop off_dev_id (take off_second x))" for x :: bytes
      using that by (simp add: take_drop min_def)
    then show ?thesis using a(3) by metis
  qed
  with a show ?thesis by (auto simp: good_id_def dev_key_def)
qed

lemma put_pubkey_missing:
  assumes "c_strlen m off_dev_id = Some l" and "take l (drop off_dev_id m) = k" and "length k \<le> LEN_DEVID"
    and "x_fopen X (k @ lit ''.public-key.pem.'') = None"
  shows "put_pubkey_msg X m n = Some (1, m, n)"
proof -
  have "take 2047 (k @ lit ''.public-key.pem.'') = k @ lit ''.public-key.pem.''"
    using assms(3) by simp
  with assms show ?thesis
    by (simp add: put_pubkey_msg_def file_2_pubrsa_def file_2_rsa_def file_2_bytes_def del: take_append)
qed

lemma new_item_ok:
  assumes X: "ext_ok X" and g: "good_id m" and b: "sizeof_MSG_COMMON \<le> x_usable X bs"
  shows "\<exists>it. new_item X bs m sizeof_MSG_COMMON = Some it \<and> ipv4 it = zero_addr
    \<and> sizeof_MSG_COMMON \<le> length (msg it) \<and> dev_key (msg it) = dev_key m"
proof -
  let ?blk = "take sizeof_MSG_COMMON m @ zeros (bs - sizeof_MSG_COMMON)"
  have len: "sizeof_MSG_COMMON \<le> length m" using g by (simp add: good_id_def)
  then have blk: "good_id ?blk" "dev_key ?blk = dev_key m"
    using good_id_prefix [OF g, of ?blk] by auto
  have "take (length (dev_key m)) (drop off_dev_id ?blk) = dev_key m"
    using good_id_str(1) [OF blk(1)] blk(2) by (metis c_str_def takeWhile_eq_take)
  moreover have "c_strlen ?blk off_dev_id = Some (length (dev_key m))"
    using good_id_str(3) [OF blk(1)] blk(2) by simp
  moreover have "x_fopen X (dev_key m @ lit ''.public-key.pem.'') = None"
    using X by (simp add: ext_ok_def)
  ultimately have "put_pubkey_msg X ?blk (int sizeof_MSG_COMMON) = Some (1, ?blk, int sizeof_MSG_COMMON)"
    using good_id_str(2) [OF g] by (intro put_pubkey_missing)
  with len b blk show ?thesis
    by (simp add: new_item_def mem_read_def)
qed

lemma reg_abs_None_iff:
  "reg_abs T k = None \<longleftrightarrow> (\<forall>h \<in> set (hl_group (T (hash_ix k))). dev_key (msg h) \<noteq> k)"
  by (auto simp: reg_abs_def find_None_iff)

lemma good_id_drop_len: "good_id m \<Longrightarrow> LEN_DEVID \<le> length (drop off_dev_id m)"
  by (auto simp: good_id_def)

lemma scan_bucket:
  assumes "reg_inv T" and "good_id m"
  shows "\<exists>r. scan_group (drop off_dev_id m) (hl_group (T (hash_ix (dev_key m)))) 0
      (hl_n (T (hash_ix (dev_key m)))) = Some r \<and>
    (case r of None \<Rightarrow> reg_abs T (dev_key m) = None
     | Some i \<Rightarrow> i < length (hl_group (T (hash_ix (dev_key m))))
         \<and> dev_key (msg (hl_group (T (hash_ix (dev_key m))) ! i)) = dev_key m
         \<and> reg_abs T (dev_key m) \<noteq> None)"
proof -
  let ?hs = "hl_group (T (hash_ix (dev_key m)))"
  have "\<forall>h \<in> set ?hs. sizeof_MSG_COMMON \<le> length (msg h)"
    and n: "hl_n (T (hash_ix (dev_key m))) = 0 + int (length ?hs)"
    using reg_invD [OF assms(1)] by auto
  from scan_group_spec [OF good_id_drop_len [OF assms(2)] this(1), of 0]
  obtain r where r: "scan_group (drop off_dev_id m) ?hs 0 (0 + int (length ?hs)) = Some r"
    "case r of None \<Rightarrow> \<forall>h \<in> set ?hs. dev_key (msg h) \<noteq> dev_key m
     | Some i \<Rightarrow> i < length ?hs \<and> dev_key (msg (?hs ! i)) = dev_key m"
    unfolding dev_key_def by auto
  then have "case r of None \<Rightarrow> reg_abs T (dev_key m) = None
     | Some i \<Rightarrow> i < length ?hs \<and> dev_key (msg (?hs ! i)) = dev_key m \<and> reg_abs T (dev_key m) \<noteq> None"
    by (cases r) (auto simp: reg_abs_None_iff)
  with r(1) show ?thesis unfolding n by blast
qed

text \<open>Adding a new item to its bucket, whichever branch of the code does it.\<close>

lemma push_item:
  assumes "reg_inv T" and "reg_abs T k = None" and "ipv4 it = a"
    and "sizeof_MSG_COMMON \<le> length (msg it)" and "dev_key (msg it) = k"
    and "T' = T(hash_ix k := (T (hash_ix k))\<lparr>hl_n := hl_n (T (hash_ix k)) + 1,
           hl_group := it # hl_group (T (hash_ix k))\<rparr>)"
  shows "reg_inv T' \<and> reg_abs T' = (reg_abs T)(k \<mapsto> a)"
proof
  show "reg_inv T'"
    unfolding assms(6) using assms(2,4,5) reg_invD [OF assms(1), where i = "hash_ix k"]
    by (intro reg_inv_upd [OF assms(1)]) (auto simp: bucket_ok_def reg_abs_None_iff)
  have "reg_abs T' j = ((reg_abs T)(k \<mapsto> a)) j" for j
    using assms(3,5,6) by (auto simp: reg_abs_def)
  then show "reg_abs T' = (reg_abs T)(k \<mapsto> a)" by blast
qed

lemma reg_to_table_new:
  assumes X: "ext_ok X" and T: "reg_inv T" and g: "good_id m" and new: "reg_abs T (dev_key m) = None"
  shows "\<exists>T' m'. reg_to_table X T m sizeof_MSG_COMMON t = Some (1, T', m') \<and> reg_inv T'
    \<and> reg_abs T' = (reg_abs T)(dev_key m \<mapsto> zero_addr)"
proof -
  let ?i = "hash_ix (dev_key m)" and ?hi = "T (hash_ix (dev_key m))"
  have bk: "bucket_of m off_dev_id = Some ?i" by (rule bucket_of_good [OF g])
  have n: "hl_n ?hi = int (length (hl_group ?hi))" by (rule reg_invD(1) [OF T])
  have len: "sizeof_MSG_COMMON \<le> length m" using g by (simp add: good_id_def)
  show ?thesis
  proof (cases "hl_group ?hi = []")
    case True
    obtain it where it: "new_item X sizeof_MSG_COMMON m sizeof_MSG_COMMON = Some it"
      "ipv4 it = zero_addr" "sizeof_MSG_COMMON \<le> length (msg it)" "dev_key (msg it) = dev_key m"
      using new_item_ok [OF X g, of sizeof_MSG_COMMON] X by (auto simp: ext_ok_def)
    let ?T = "T(?i := ?hi\<lparr>hl_n := hl_n ?hi + 1, hl_group := it # hl_group ?hi\<rparr>)"
    have "reg_to_table X T m sizeof_MSG_COMMON t = Some (1, ?T, m)"
      using True n it by (simp add: reg_to_table_def bk)
    with push_item [OF T new it(2-4) refl] show ?thesis by auto
  next
    case False
    obtain m1 where m1: "put_time_to_msg (Some m) t = Some (Some m1)"
      "sizeof_MSG_COMMON \<le> length m1" "take off_second m1 = take off_second m"
      using len by (cases t) (auto simp: put_time_to_msg_eq, auto simp: put_time_to_msg_def)
    then have g1: "good_id m1" "dev_key m1 = dev_key m"
      using good_id_prefix [OF g] by auto
    obtain it where it: "new_item X sizeof_HASH_ITEM m1 sizeof_MSG_COMMON = Some it"
      "ipv4 it = zero_addr" "sizeof_MSG_COMMON \<le> length (msg it)" "dev_key (msg it) = dev_key m"
      using new_item_ok [OF X g1(1), of sizeof_HASH_ITEM] X g1(2) by (auto simp: ext_ok_def)
    let ?T = "T(?i := ?hi\<lparr>hl_n := hl_n ?hi + 1, hl_group := it # hl_group ?hi\<rparr>)"
    have "scan_group (drop off_dev_id m) (hl_group ?hi) 0 (hl_n ?hi) = Some None"
      using scan_bucket [OF T g] new by (auto split: option.splits)
    then have "reg_to_table X T m sizeof_MSG_COMMON t = Some (1, ?T, m1)"
      using False n it m1 by (simp add: reg_to_table_def bk Let_def)
    with push_item [OF T new it(2-4) refl] show ?thesis by auto
  qed
qed

lemma reg_to_table_old:
  assumes T: "reg_inv T" and g: "good_id m" and old: "reg_abs T (dev_key m) = Some a"
  shows "\<exists>m'. reg_to_table X T m sizeof_MSG_COMMON t = Some (0, T, m')"
proof -
  let ?hi = "T (hash_ix (dev_key m))"
  have bk: "bucket_of m off_dev_id = Some (hash_ix (dev_key m))" by (rule bucket_of_good [OF g])
  have n: "hl_n ?hi = int (length (hl_group ?hi))" by (rule reg_invD(1) [OF T])
  have len: "sizeof_MSG_COMMON \<le> length m" using g by (simp add: good_id_def)
  have ne: "hl_group ?hi \<noteq> []"
    using old by (auto simp: reg_abs_def)
  obtain m1 where m1: "put_time_to_msg (Some m) t = Some (Some m1)"
    using len by (cases t) (auto simp: put_time_to_msg_eq, auto simp: put_time_to_msg_def)
  obtain j where "scan_group (drop off_dev_id m) (hl_group ?hi) 0 (hl_n ?hi) = Some (Some j)"
    using scan_bucket [OF T g] old by (auto split: option.splits)
  with ne n m1 show ?thesis by (auto simp: reg_to_table_def bk)
qed

lemma find_distinct:
  assumes "distinct (map f xs)" and "i < length xs" and "f (xs ! i) = k"
  shows "find (\<lambda>x. f x = k) xs = Some (xs ! i)"
  using assms
proof (induction xs arbitrary: i)
  case (Cons x xs)
  then show ?case by (cases i) (auto simp: image_iff)
qed simp

text \<open>Replacing the address of one item of a bucket.\<close>

lemma set_item_addr:
  assumes T: "reg_inv T" and j: "j < length (hl_group (T i))" "dev_key (msg (hl_group (T i) ! j)) = k"
    and i: "hash_ix k = i"
    and T': "T' = T(i := (T i)\<lparr>hl_group := (hl_group (T i))[j := (hl_group (T i) ! j)\<lparr>ipv4 := a\<rparr>]\<rparr>)"
  shows "reg_inv T'" and "reg_abs T' = (reg_abs T)(k \<mapsto> a)"
proof -
  let ?hi = "T i" and ?k = "\<lambda>h. dev_key (msg h)"
  let ?g = "(hl_group ?hi)[j := (hl_group ?hi ! j)\<lparr>ipv4 := a\<rparr>]"
  have "map ?k ?g = (map ?k (hl_group ?hi))[j := ?k (hl_group ?hi ! j)]"
    by (simp add: map_update)
  then have keys: "map ?k ?g = map ?k (hl_group ?hi)"
    using j(1) by (metis list_update_id nth_map)
  have "h \<in> set ?g \<Longrightarrow> \<exists>h' \<in> set (hl_group ?hi). msg h = msg h'" for h
    using j(1) nth_mem by (fastforce dest!: set_update_subset_insert [THEN subsetD])
  then have "bucket_ok i (?hi\<lparr>hl_group := ?g\<rparr>)"
    using reg_invD [OF T, where i = i] keys by (force simp: bucket_ok_def)
  then show "reg_inv T'" unfolding T' by (rule reg_inv_upd [OF T])
  have "find (\<lambda>h. ?k h = k) ?g = Some (?g ! j)"
    using keys j reg_invD(2) [OF T, where i = i] by (intro find_distinct) auto
  then have at: "reg_abs T' k = Some a"
    using j(1) i by (simp add: reg_abs_def T')
  have find_upd: "find (\<lambda>h. ?k h = k') (xs[m := x]) = find (\<lambda>h. ?k h = k') xs"
    if "k' \<noteq> ?k (xs ! m)" "?k x = ?k (xs ! m)" for k' xs m x
    using that by (induction xs arbitrary: m) (auto split: nat.split)
  have "reg_abs T' k' = reg_abs T k'" if "k' \<noteq> k" for k'
    using that j(2) by (auto simp: reg_abs_def find_upd T')
  with at show "reg_abs T' = (reg_abs T)(k \<mapsto> a)"
    by (intro ext) (metis fun_upd_apply)
qed

lemma hl_track_known:
  assumes T: "reg_inv T" and g: "good_id m" and old: "reg_abs T (dev_key m) = Some b"
  shows "\<exists>T'. hl_track_msg T m a = Some (1, T') \<and> reg_inv T' \<and> reg_abs T' = (reg_abs T)(dev_key m \<mapsto> a)"
proof -
  let ?hi = "T (hash_ix (dev_key m))"
  have n: "hl_n ?hi = int (length (hl_group ?hi))" by (rule reg_invD(1) [OF T])
  have ne: "hl_group ?hi \<noteq> []"
    using old by (auto simp: reg_abs_def)
  obtain j where j: "scan_group (drop off_dev_id m) (hl_group ?hi) 0 (hl_n ?hi) = Some (Some j)"
    "j < length (hl_group ?hi)" "dev_key (msg (hl_group ?hi ! j)) = dev_key m"
    using scan_bucket [OF T g] old by (auto split: option.splits)
  with ne n set_item_addr [OF T j(2,3) refl refl, of a] show ?thesis
    by (simp add: hl_track_msg_def bucket_of_good [OF g] Let_def)
qed

text \<open>
  Whatever the datagram holds, as long as a NUL ends the id inside the buffer: tracking stays in
  bounds, keeps the invariant and the set of devices, and touches no device but the one named.
\<close>

lemma hl_track_any:
  assumes T: "reg_inv T" and len: "off_dev_id + LEN_DEVID \<le> length m" and z: "0 \<in> set (drop off_dev_id m)"
  shows "\<exists>r T'. hl_track_msg T m a = Some (r, T') \<and> reg_inv T' \<and> dom (reg_abs T') = dom (reg_abs T)
    \<and> (T' = T \<or> reg_abs T' = (reg_abs T)(dev_key m \<mapsto> a))"
proof -
  have sl: "c_strlen m off_dev_id = Some (length (c_str (drop off_dev_id m)))"
    using z len by (simp add: c_strlen_Some_iff)
  have "length (c_str (drop off_dev_id m)) \<le> length (drop off_dev_id m)"
    by (simp only: c_str_def length_takeWhile_le)
  then have "nat (int (min MAX_MSG (length (c_str (drop off_dev_id m))))) \<le> length (drop off_dev_id m)"
    by simp
  from hash_func_total [OF this] obtain i where i: "bucket_of m off_dev_id = Some i"
    by (auto simp: bucket_of_def sl)
  have n: "hl_n (T i) = 0 + int (length (hl_group (T i)))" using reg_invD(1) [OF T] by simp
  have "LEN_DEVID \<le> length (drop off_dev_id m)" using len by simp
  from scan_group_spec [OF this, of "hl_group (T i)" 0] reg_invD(3) [OF T] obtain r where
    r: "scan_group (drop off_dev_id m) (hl_group (T i)) 0 (hl_n (T i)) = Some r"
    "\<And>j. r = Some j \<Longrightarrow> j < length (hl_group (T i)) \<and> dev_key (msg (hl_group (T i) ! j)) = dev_key m"
    unfolding n by (fastforce simp: dev_key_def split: option.splits)
  show ?thesis
  proof (cases r)
    case None
    with i r(1) T n show ?thesis by (auto simp: hl_track_msg_def Let_def)
  next
    case (Some j)
    with r(2) have j: "j < length (hl_group (T i))" "dev_key (msg (hl_group (T i) ! j)) = dev_key m" by auto
    then have h: "hash_ix (dev_key m) = i" using reg_invD(4) [OF T nth_mem [OF j(1)]] by simp
    have "reg_abs T (dev_key m) \<noteq> None"
      using j h nth_mem [OF j(1)] by (auto simp: reg_abs_None_iff)
    then have "dom ((reg_abs T)(dev_key m \<mapsto> a)) = dom (reg_abs T)" by (auto simp: insert_absorb)
    with Some i r(1) j(1) n set_item_addr [OF T j h refl, of a] show ?thesis
      by (auto simp: hl_track_msg_def Let_def)
  qed
qed

lemma hl_track_unknown:
  assumes T: "reg_inv T" and g: "good_id m" and new: "reg_abs T (dev_key m) = None"
  shows "hl_track_msg T m a = Some (0, T)"
proof -
  let ?hi = "T (hash_ix (dev_key m))"
  have bk: "bucket_of m off_dev_id = Some (hash_ix (dev_key m))" by (rule bucket_of_good [OF g])
  have n: "hl_n ?hi = int (length (hl_group ?hi))" by (rule reg_invD(1) [OF T])
  have "scan_group (drop off_dev_id m) (hl_group ?hi) 0 (hl_n ?hi) = Some None"
    using scan_bucket [OF T g] new by (auto split: option.splits)
  with n show ?thesis by (auto simp: hl_track_msg_def bk Let_def)
qed

text \<open>
  The hash table of the code fulfils the contract. A message here is the buffer with the time of
  the call.
\<close>

interpretation reg: device_table reg_inv reg_abs empty_table
  "\<lambda>T (m, t). map_option (\<lambda>(r, T', m'). (r, T')) (reg_to_table X T m sizeof_MSG_COMMON t)"
  "\<lambda>T (m, t) a. hl_track_msg T m a"
  "\<lambda>(m, t). dev_key m" "\<lambda>(m, t). ext_ok X \<and> good_id m" zero_addr
  for X :: "('k, 'c) ext"
proof (unfold_locales, goal_cases)
  case 1
  show ?case by (simp add: reg_inv_def bucket_ok_def empty_table_def)
next
  case (2 k)
  show ?case by (simp add: reg_abs_def empty_table_def)
next
  case (3 T m)
  then show ?case using reg_to_table_new [of X T "fst m" "snd m"] by (auto simp: case_prod_beta)
next
  case (4 T m a)
  then show ?case using reg_to_table_old [of T "fst m" a X "snd m"] by (auto simp: case_prod_beta)
next
  case (5 T m b a)
  then show ?case using hl_track_known [of T "fst m" b a] by (auto simp: case_prod_beta)
next
  case (6 T m a)
  then show ?case using hl_track_unknown [of T "fst m" a] by (auto simp: case_prod_beta)
qed

section \<open>Loading the device list\<close>

text \<open>the lines of a text: the maximal runs without CR and LF\<close>

fun toks :: "bytes \<Rightarrow> bytes \<Rightarrow> bytes list" where
  "toks acc [] = (if acc = [] then [] else [acc])"
| "toks acc (b # bs) =
     (if crlf b then (if acc = [] then toks [] bs else acc # toks [] bs) else toks (acc @ [b]) bs)"

definition listed_ids :: "bytes \<Rightarrow> bytes set" where
  "listed_ids content = {take LEN_DEVID l |l. l \<in> set (toks [] content) \<and> 30 < length l}"

lemma toks_step:
  "toks acc s = (let t = acc @ takeWhile (\<lambda>b. \<not> crlf b) s; r = dropWhile (\<lambda>b. \<not> crlf b) s
     in (if t = [] then [] else [t]) @ toks [] (tl r))"
  by (induction s arbitrary: acc) (auto simp: Let_def)

lemma toks_skip: "toks [] s = toks [] (dropWhile crlf s)"
  by (induction s) auto

lemma listed_ids_step:
  assumes "s1 = dropWhile crlf s" and "tok = takeWhile (\<lambda>b. \<not> crlf b) s1"
    and "rest = drop (length tok) s1"
  shows "listed_ids s = (if 30 < length tok then {take LEN_DEVID tok} else {}) \<union> listed_ids (tl rest)"
proof -
  have "rest = dropWhile (\<lambda>b. \<not> crlf b) s1"
    using assms(2,3) by (metis dropWhile_eq_drop)
  then have "set (toks [] s) = (if tok = [] then {} else {tok}) \<union> set (toks [] (tl rest))"
    using toks_step [of "[]" s1] toks_skip [of s] assms(1,2) by (simp add: Let_def)
  then show ?thesis by (auto simp: listed_ids_def split: if_splits)
qed

lemma listed_ids_empty: "takeWhile (\<lambda>b. \<not> crlf b) (dropWhile crlf s) = [] \<Longrightarrow> listed_ids s = {}"
proof -
  assume "takeWhile (\<lambda>b. \<not> crlf b) (dropWhile crlf s) = []"
  then have "dropWhile crlf s = []"
    by (cases "dropWhile crlf s") (auto dest: dropWhile_eq_Cons_conv [THEN iffD1] split: if_splits)
  then have "toks [] s = toks [] []" by (simp only: toks_skip [of s])
  then show ?thesis by (simp add: listed_ids_def)
qed

text \<open>the message \<^verbatim>\<open>load_reg_list\<close> builds for one line\<close>

lemma load_msg:
  assumes "mem_read (tok @ 0 # q) 0 LEN_DEVID = Some idd" and "0 \<notin> set tok"
  shows "\<exists>m. mem_write (zeros sizeof_MSG_COMMON) off_dev_id idd = Some m \<and> good_id m
    \<and> dev_key m = take LEN_DEVID tok"
proof -
  have idd: "length idd = LEN_DEVID" "idd = take LEN_DEVID (tok @ 0 # q)"
    using assms(1) by (auto simp: mem_read_Some_iff)
  let ?m = "zeros 2 @ idd @ zeros 58"
  have "takeWhile (\<lambda>x. x \<noteq> 0) (tok @ 0 # q) = tok"
    using assms(2) by (simp add: takeWhile_tail takeWhile_eq_all_conv) (metis (mono_tags))
  moreover have "take LEN_DEVID (drop off_dev_id ?m) = take LEN_DEVID (tok @ 0 # q)"
  proof -
    have "take LEN_DEVID (drop off_dev_id ?m) = idd" using idd(1) by simp
    with idd(2) show ?thesis by (simp only:)
  qed
  ultimately have "dev_key ?m = take LEN_DEVID tok"
    by (simp only: dev_key_def c_str_def takeWhile_take)
  moreover have "good_id ?m" using idd(1) by (simp add: good_id_def)
  moreover have "mem_write (zeros sizeof_MSG_COMMON) off_dev_id idd = Some ?m"
    using idd(1) by (simp add: mem_write_def)
  ultimately show ?thesis by blast
qed

lemma takeWhile_ended:
  assumes "0 \<notin> set c"
  shows "takeWhile (\<lambda>b. \<not> crlf b \<and> b \<noteq> 0) (c @ 0 # z) = takeWhile (\<lambda>b. \<not> crlf b) c"
  using assms by (induction c) auto

lemma dropWhile_ended: "dropWhile crlf (c @ 0 # z) = dropWhile crlf c @ 0 # z"
  by (induction c) (auto simp: crlf_def)

lemma load_loop_ok:
  assumes "ext_ok X" and "8 \<le> length slack"
  shows "s = c @ 0 # zeros z \<Longrightarrow> 0 \<notin> set c \<Longrightarrow> reg_inv T \<Longrightarrow>
    \<exists>ret' T'. load_loop X clk slack s i ret T = Some (ret', T') \<and> reg_inv T'
      \<and> dom (reg_abs T') = dom (reg_abs T) \<union> listed_ids c"
proof (induction "length s" arbitrary: s c z i ret T rule: less_induct)
  case less
  let ?c1 = "dropWhile crlf c"
  let ?tok = "takeWhile (\<lambda>b. \<not> crlf b) ?c1"
  let ?rest = "drop (length ?tok) ?c1"
  have s1: "dropWhile crlf s = ?c1 @ 0 # zeros z"
    by (simp add: less.prems(1) dropWhile_ended)
  have c1: "0 \<notin> set ?c1" using less.prems(2) set_dropWhileD by fastforce
  then have tok: "takeWhile (\<lambda>b. \<not> crlf b \<and> b \<noteq> 0) (dropWhile crlf s) = ?tok" "0 \<notin> set ?tok"
    unfolding s1 by (auto simp: takeWhile_ended dest: set_takeWhileD)
  have rest: "drop (length ?tok) (dropWhile crlf s) = ?rest @ 0 # zeros z"
    unfolding s1 using length_takeWhile_le [of "\<lambda>b. \<not> crlf b" ?c1] by simp
  let ?next = "tl (?rest @ 0 # zeros z)"
  show ?case
  proof (cases "?tok = []")
    case True
    then show ?thesis
      using less.prems(3) listed_ids_empty [OF True]
      by (simp add: load_loop.simps [of _ _ _ s] tok(1) Let_def)
  next
    case False
    have shorter: "length ?next < length s"
      using strtok_rest_shorter [of "\<lambda>b. \<not> crlf b \<and> b \<noteq> 0" s] tok(1) rest False by simp
    obtain c' z' where nxt: "?next = c' @ 0 # zeros z' \<and> c' = tl ?rest \<or> ?next = zeros z \<and> ?rest = []"
      by (cases ?rest) auto
    have c': "0 \<notin> set (tl ?rest)"
      using c1 by (metis in_set_dropD list.set_sel(2) tl_Nil)
    have go: "\<exists>ret' T'. load_loop X clk slack ?next j r T1 = Some (ret', T') \<and> reg_inv T'
        \<and> dom (reg_abs T') = dom (reg_abs T1) \<union> listed_ids (tl ?rest)"
      if "reg_inv T1" for j r T1
    proof (cases "?rest = []")
      case True
      have "dropWhile crlf (zeros z) = zeros z" by (cases z) (auto simp: crlf_def)
      moreover have "takeWhile (\<lambda>b. \<not> crlf b \<and> b \<noteq> 0) (zeros z) = []" by (cases z) auto
      ultimately show ?thesis
        using that True by (simp add: load_loop.simps [of _ _ _ "zeros z"] listed_ids_def)
    next
      case False
      then have "?next = tl ?rest @ 0 # zeros z" by simp
      from less.hyps [OF shorter this c' that] show ?thesis by simp
    qed
    have ids: "listed_ids c = (if 30 < length ?tok then {take LEN_DEVID ?tok} else {}) \<union> listed_ids (tl ?rest)"
      by (rule listed_ids_step) auto
    show ?thesis
    proof (cases "30 < length ?tok")
      case False
      with go [OF less.prems(3), of i ret] \<open>?tok \<noteq> []\<close> ids show ?thesis
        by (simp add: load_loop.simps [of _ _ _ s] tok(1) rest Let_def)
    next
      case True
      let ?q = "?next @ slack"
      obtain idd where idd: "mem_read (?tok @ 0 # ?q) 0 LEN_DEVID = Some idd"
        using True assms(2) by (auto simp: mem_read_def)
      from load_msg [OF idd tok(2)] obtain m where
        m: "mem_write (zeros sizeof_MSG_COMMON) off_dev_id idd = Some m" "good_id m"
        "dev_key m = take LEN_DEVID ?tok" by blast
      from reg.reg_total [OF less.prems(3), of X "(m, Some (clk i))"] assms(1) m(2)
      obtain r T1 m' where T1: "reg_to_table X T m sizeof_MSG_COMMON (Some (clk i)) = Some (r, T1, m')"
        "reg_inv T1" "dom (reg_abs T1) = insert (dev_key m) (dom (reg_abs T))"
        by (auto split: prod.splits)
      from go [OF T1(2), of "Suc i" r] obtain ret' T' where
        T': "load_loop X clk slack ?next (Suc i) r T1 = Some (ret', T')" "reg_inv T'"
        "dom (reg_abs T') = dom (reg_abs T1) \<union> listed_ids (tl ?rest)" by blast
      have "load_loop X clk slack s i ret T = load_loop X clk slack ?next (Suc i) r T1"
        using True \<open>?tok \<noteq> []\<close> idd m(1) T1(1)
        by (simp add: load_loop.simps [of _ _ _ s] tok(1) rest Let_def)
      with T' T1(3) m(3) ids True show ?thesis by simp
    qed
  qed
qed


section \<open>The registry is correct\<close>

text \<open>
  On a device id of ASCII characters, at most 1200 of which are hashed (the code's own limit),
  no step of \<^verbatim>\<open>hash_func\<close> overflows: the result is the polynomial of the characters in 71
  modulo 10001, so it indexes the table.
\<close>

theorem hash_func_polynomial:
  assumes "nat n \<le> length idd" and "nat n \<le> MAX_MSG" and "\<forall>c \<in> set idd. c < 128"
  shows "\<exists>h. hash_func idd n = Some h
    \<and> unat h = (\<Sum>j < nat n. unat (idd ! j) * 71 ^ j) mod HASH_SIZE \<and> unat h < HASH_SIZE"
proof -
  obtain r where r: "hash_loop idd 0 (nat n) 0 = Some r"
    "unat r = (\<Sum>j = 0..<nat n. unat (idd ! j) * 71 ^ j mod HASH_SIZE)"
    using hash_loop_sum [of 0 "nat n" idd 0] assms by auto
  then have "unat r mod HASH_SIZE = (\<Sum>j < nat n. unat (idd ! j) * 71 ^ j) mod HASH_SIZE"
    by (simp add: mod_sum_eq atLeast0LessThan)
  with r(1) show ?thesis by (simp add: hash_func_def unat_mod)
qed

theorem hash_func_polynomial_witness:
  "\<exists>h. hash_func [97, 98, 99] 3 = Some h \<and> unat h = (97 + 98 * 71 + 99 * 71 ^ 2) mod HASH_SIZE"
  using hash_func_polynomial [of 3 "[97, 98, 99]"] by (auto simp: lessThan_nat_numeral lessThan_Suc)

text \<open>
  C26. Registration refines insertion into a finite map from device ids to addresses: a new id is
  entered with the null address and 1 is returned, a known id is left alone, address included,
  and 0 is returned; the invariant of the table (counts, no duplicates, right buckets) is kept and
  no access is out of bounds.
\<close>

theorem reg_to_table_refines:
  assumes "reg_inv T" and "ext_ok X" and "good_id m"
  shows "\<exists>r T' m'. reg_to_table X T m sizeof_MSG_COMMON t = Some (r, T', m') \<and> reg_inv T'
    \<and> r = (if reg_abs T (dev_key m) = None then 1 else 0)
    \<and> reg_abs T' = (if reg_abs T (dev_key m) = None then (reg_abs T)(dev_key m \<mapsto> zero_addr)
                    else reg_abs T)"
  using reg.reg_total [OF assms(1), of X "(m, t)"] assms(2,3) by auto

text \<open>
  C27. Tracking refines an update of that map: the address of a registered device becomes the
  source address of the datagram and 1 is returned; for an unregistered id the table is unchanged
  and 0 is returned; no other device is affected.
\<close>

theorem hl_track_msg_refines:
  assumes "reg_inv T" and "good_id m"
  shows "\<exists>T'. hl_track_msg T m a = Some (if reg_abs T (dev_key m) = None then 0 else 1, T')
    \<and> reg_inv T' \<and> dom (reg_abs T') = dom (reg_abs T)
    \<and> reg_abs T' = (if reg_abs T (dev_key m) = None then reg_abs T else (reg_abs T)(dev_key m \<mapsto> a))"
proof (cases "reg_abs T (dev_key m)")
  case None
  with hl_track_unknown [OF assms None] assms(1) show ?thesis by simp
next
  case (Some b)
  with hl_track_known [OF assms Some, of a] show ?thesis by auto
qed

text \<open>
  C28. After \<^verbatim>\<open>load_reg_list\<close> the registered devices are those registered before and those on
  the lines of \<^verbatim>\<open>list_dev_id.h\<close> of more than 30 characters, cut to 40, whatever the memory
  behind the text holds, provided 8 bytes of it may be read: a line of 31 characters at the end of
  the text makes the copy of 40 bytes reach that far.
\<close>

theorem load_reg_list_registers:
  assumes "ext_ok X" and "reg_inv T" and "8 \<le> length slack" and "0 \<notin> set content"
    and "x_fopen X (lit ''list_dev_id.h'') = Some (length content, content)"
  shows "\<exists>r T'. load_reg_list X clk slack T = Some (r, T') \<and> reg_inv T'
    \<and> dom (reg_abs T') = dom (reg_abs T) \<union> listed_ids content"
proof (cases "content = []")
  case True
  with assms(2,5) show ?thesis by (simp add: load_reg_list_def listed_ids_def)
next
  case False
  with load_loop_ok [OF assms(1,3), of "content @ 0 # zeros 0" content 0 T clk 0 0] assms
  show ?thesis by (simp add: load_reg_list_def)
qed

text \<open>
  With an allocator that gives exactly what is asked for, registering a second device in a
  bucket writes behind its block: \<^verbatim>\<open>malloc(sizeof(HASH_ITEM))\<close> gives 96 bytes and the 100
  bytes of the header are copied into them.
\<close>

theorem reg_to_table_collision_overflow:
  assumes "reg_inv T" and "good_id m" and "reg_abs T (dev_key m) = None"
    and "hl_group (T (hash_ix (dev_key m))) \<noteq> []" and "x_usable X sizeof_HASH_ITEM = sizeof_HASH_ITEM"
  shows "reg_to_table X T m sizeof_MSG_COMMON t = None"
proof -
  let ?hi = "T (hash_ix (dev_key m))"
  have n: "hl_n ?hi \<noteq> 0" using reg_invD(1) [OF assms(1), of "hash_ix (dev_key m)"] assms(4) by simp
  have "scan_group (drop off_dev_id m) (hl_group ?hi) 0 (hl_n ?hi) = Some None"
    using scan_bucket [OF assms(1,2)] assms(3) by (auto split: option.splits)
  moreover have "new_item X sizeof_HASH_ITEM b sizeof_MSG_COMMON = None" for b
    using assms(5) by (simp add: new_item_def bind_eq_None_conv)
  ultimately show ?thesis
    using n assms(4)
    by (simp add: reg_to_table_def bucket_of_good [OF assms(2)] Let_def bind_eq_None_conv)
qed

section \<open>Instances\<close>

text \<open>a header with the id of the test programs, a table with one device, and two ids that collide\<close>

definition demo_msg :: "string \<Rightarrow> bytes" where
  "demo_msg s = [0, 4] @ take LEN_DEVID (lit s @ zeros LEN_DEVID) @ zeros 58"


definition demo_table :: table where
  "demo_table = empty_table(3520 := \<lparr>hl_n = 1,
     hl_group = [\<lparr>ipv4 = zero_addr, n_msg = 0, msg = demo_msg ''p0''\<rparr>]\<rparr>)"

lemma demo_msg_facts:
  "good_id (demo_msg ''p0'')" "dev_key (demo_msg ''p0'') = [112, 48]"
  "good_id (demo_msg '')1'')" "dev_key (demo_msg '')1'') = [41, 49]"
  "length (demo_msg ''p0'') = 100"
  by (simp_all add: demo_msg_def good_id_def dev_key_def lit_def c_str_def)

lemma hash_ix_ascii:
  assumes "length k \<le> MAX_MSG" and "\<forall>c \<in> set k. c < 128"
  shows "hash_ix k = (\<Sum>j < length k. unat (k ! j) * 71 ^ j mod HASH_SIZE) mod HASH_SIZE"
  using hash_loop_sum [of 0 "length k" k 0] assms
  by (auto simp: hash_ix_def hash_func_def unat_mod atLeast0LessThan)

lemma demo_hash: "hash_ix [112, 48] = 3520" "hash_ix [41, 49] = 3520"
  by (subst hash_ix_ascii; simp add: lessThan_Suc)+

lemma demo_table_inv: "reg_inv demo_table"
  unfolding demo_table_def
  by (rule reg_inv_upd)
    (simp_all add: reg.inv_empty bucket_ok_def demo_msg_facts demo_hash)

lemma demo_table_abs: "reg_abs demo_table [112, 48] = Some zero_addr" "reg_abs demo_table [41, 49] = None"
  by (simp_all add: reg_abs_def demo_hash demo_table_def demo_msg_facts)

lemma demo_ext_ok: "ext_ok demo_ext"
  by (simp add: ext_ok_def demo_ext_def lit_def) presburger

theorem reg_to_table_refines_witness:
  "\<exists>T' m'. reg_to_table demo_ext demo_table (demo_msg '')1'') sizeof_MSG_COMMON None = Some (1, T', m')
     \<and> reg_abs T' [41, 49] = Some zero_addr \<and> reg_abs T' [112, 48] = Some zero_addr"
  using reg_to_table_refines [OF demo_table_inv demo_ext_ok demo_msg_facts(3), of None]
  by (auto simp: demo_msg_facts demo_table_abs)

theorem hl_track_msg_refines_witness:
  "\<exists>T'. hl_track_msg demo_table (demo_msg ''p0'') (zero_addr\<lparr>sin_port := 5000\<rparr>) = Some (1, T')
     \<and> reg_abs T' [112, 48] = Some (zero_addr\<lparr>sin_port := 5000\<rparr>)"
  using hl_track_msg_refines [OF demo_table_inv demo_msg_facts(1), of "zero_addr\<lparr>sin_port := 5000\<rparr>"]
  by (auto simp: demo_msg_facts demo_table_abs)

theorem load_reg_list_registers_witness:
  "\<exists>r T'. load_reg_list
      (demo_ext\<lparr>x_fopen := \<lambda>p. if p = lit ''list_dev_id.h'' then Some (33, replicate 32 97 @ [10]) else None\<rparr>)
      (\<lambda>_. \<lparr>tv_sec = 0, tv_nsec = 0\<rparr>) (zeros 8) empty_table = Some (r, T')
    \<and> dom (reg_abs T') = {replicate 32 97}"
proof -
  let ?X = "demo_ext\<lparr>x_fopen := \<lambda>p. if p = lit ''list_dev_id.h'' then Some (33, replicate 32 97 @ [10]) else None\<rparr>"
  have ne: "p @ lit ''.public-key.pem.'' \<noteq> lit ''list_dev_id.h''" for p
  proof
    assume "p @ lit ''.public-key.pem.'' = lit ''list_dev_id.h''"
    then have "last (p @ lit ''.public-key.pem.'') = last (lit ''list_dev_id.h'')" by (simp only:)
    then show False by (simp add: lit_def)
  qed
  then have "ext_ok ?X"
    using demo_ext_ok by (simp add: ext_ok_def)
  moreover have "dom (reg_abs empty_table) = {}" by (simp add: reg.abs_empty dom_def)
  moreover have "listed_ids (replicate 32 97 @ [10]) = {replicate 32 97}"
  proof -
    have "toks [] (replicate 32 97 @ [10]) = [replicate 32 97]"
      by (subst toks_step) (simp add: takeWhile_append dropWhile_append crlf_def)
    then show ?thesis by (simp add: listed_ids_def)
  qed
  ultimately show ?thesis
    using load_reg_list_registers [OF _ reg.inv_empty, of ?X "zeros 8" "replicate 32 97 @ [10]"
        "\<lambda>_. \<lparr>tv_sec = 0, tv_nsec = 0\<rparr>"] by simp blast
qed

theorem reg_to_table_collision_overflow_witness:
  "reg_to_table (demo_ext\<lparr>x_usable := id\<rparr>) demo_table (demo_msg '')1'') sizeof_MSG_COMMON None = None"
  by (rule reg_to_table_collision_overflow [OF demo_table_inv demo_msg_facts(3)])
    (simp add: demo_msg_facts demo_table_abs, simp add: demo_msg_facts demo_hash demo_table_def, simp)

end
