(* ===== verification/Forward.thy ===== *)
theory Forward
  imports Registry
begin

text \<open>
  The queue of messages the server forwards, \<^verbatim>\<open>imd_fwd_lt\<close> of
  \<^verbatim>\<open>notify.system/msg_notify.c\<close>: \<^verbatim>\<open>add_to_item_list\<close> (\<^verbatim>\<open>add_to_imd_fwd\<close>) and
  \<^verbatim>\<open>send_to_dst\<close> (\<^verbatim>\<open>send_imd_fwd\<close>). The abstract view of a flush is \<open>deliver\<close>: the
  datagram one queued message becomes.
\<close>

section \<open>The process-wide key\<close>

definition aes_key :: bytes where
  "aes_key = [0xf0, 0xa1, 0xb3, 0xc0, 0xd5, 0x11, 0x13, 0x17,
     0x70, 0xa2, 0xb5, 0x70, 0xd1, 0x1a, 0x12, 0x87,
     0x70, 0xa2, 0xb5, 0x70, 0xd1, 0x1a, 0x12, 0x87,
     0x70, 0xa2, 0xb5, 0x70, 0xd1, 0x1a, 0x12, 0x87]"

text \<open>a string literal: its characters and the closing NUL\<close>

definition aes_iv :: bytes where
  "aes_iv = lit ''!@#$%^&*()(*&^%$#@!@#$%^&*(*&%$#@@@))'' @ [0]"

lemma length_aes_key [simp]: "length aes_key = AES_BYTES"
  by (simp add: aes_key_def)

lemma length_aes_iv [simp]: "length aes_iv = 38"
  by (simp add: aes_iv_def)

section \<open>Queueing\<close>

text \<open>
  \<^verbatim>\<open>add_to_item_list(msg, l, sz)\<close>: a copy of the first \<open>sz\<close> bytes of the message goes in
  front of the list. \<open>l\<close> is \<^term>\<open>None\<close> for null. A failing allocation (a negative \<open>sz\<close>
  among them) ends the process in \<^verbatim>\<open>MY_MALLOC\<close>; like an access out of bounds it has no
  result here.
\<close>

definition add_to_item_list ::
  "bytes \<Rightarrow> HASH_ITEM list option \<Rightarrow> int \<Rightarrow> (int \<times> HASH_ITEM list option) option" where
  "add_to_item_list m l sz =
     (case l of None \<Rightarrow> Some (1, None)
      | Some q \<Rightarrow>
        if sz < 0 then None
        else do {
          src \<leftarrow> mem_read m 0 (nat sz);
          Some (0, Some (\<lparr>ipv4 = zero_addr, n_msg = nat sz, msg = src\<rparr> # q)) })"

section \<open>Forwarding\<close>

text \<open>which of the two ids of the header names the receiver; other routes are not forwarded\<close>

definition route_off :: "byte \<Rightarrow> nat option" where
  "route_off r =
     (if r = msg_route G_NTF_CLI then Some off_dev_id
      else if r = msg_route F_SRV_CLI then Some off_dev_id
      else if r = msg_route G_NTF_SRV then Some off_dev_id
      else if r = msg_route F_SRV_NTF then Some off_dev_id
      else if r = msg_route G_CLI_NTF then Some off_ntf_id
      else None)"

text \<open>the loop \<^verbatim>\<open>while (gr)\<close>; unlike the search of the registry it has no bound\<close>

fun find_gr :: "bytes \<Rightarrow> HASH_ITEM list \<Rightarrow> HASH_ITEM option option" where
  "find_gr d [] = Some None"
| "find_gr d (h # hs) = do {
     k \<leftarrow> c_strncmp d (drop off_dev_id (msg h)) LEN_DEVID;
     (if k = 0 then Some (Some h) else find_gr d hs) }"

text \<open>
  What is put into \<open>buffer\<close> for a message: the error code, and the length and the buffer to
  send, or \<^term>\<open>None\<close> when the loop is left. A key request without a usable public key leaves
  the buffer cleared and \<open>sn\<close> as the last \<^verbatim>\<open>sendto\<close> left it.
\<close>

definition fwd_payload ::
  "('k, 'c) ext \<Rightarrow> bytes \<Rightarrow> nat \<Rightarrow> nat \<Rightarrow> int \<Rightarrow> int \<Rightarrow> (int \<times> (int \<times> bytes) option) option" where
  "fwd_payload X m off n err sn = (let buffer = zeros (MAX_MSG + 1) in do {
     ty \<leftarrow> get_byte m off_type;
     (if ty = msg_type MSG_GET_AES then do {
        pub \<leftarrow> get_cli_pub X (drop off m);
        (case pub of None \<Rightarrow> Some (1, Some (sn, buffer))
         | Some k \<Rightarrow> do {
             (rc, out, l) \<leftarrow> rsa_enc X (Some k) m (Some None) (int n) (Some sn);
             sn1 \<leftarrow> l;
             (case out of None \<Rightarrow> Some (err, Some (sn1, buffer))
              | Some o1 \<Rightarrow> do {
                  src \<leftarrow> mem_read o1 0 (nat sn1);
                  b1 \<leftarrow> mem_write buffer 0 src;
                  b2 \<leftarrow> put_byte b1 (nat sn1) (enc_mark ENCRYPT_CLI_PUB);
                  Some (err, Some (sn1 + 1, b2)) }) }) }
      else if ty = msg_type MSG_NTF then do {
        (e, b, l) \<leftarrow> msg_aes_enc X (Some m) (Some buffer) (Some aes_key) (Some aes_iv)
          (int n) (Some sn) (int MAX_MSG + 1);
        (if e \<noteq> 0 then Some (e, None)
         else do { b1 \<leftarrow> b; l1 \<leftarrow> l; Some (e, Some (l1, b1)) }) }
      else do {
        src \<leftarrow> mem_read m 0 n;
        b1 \<leftarrow> mem_write buffer 0 src;
        Some (err, Some (int n, b1)) }) })"

text \<open>
  The result of \<^verbatim>\<open>send_to_dst\<close>: the return value, the number of turns, the arguments of the
  \<^verbatim>\<open>sendto\<close> calls and the messages that were taken off the list and never looked at again.
\<close>

record fwd_result =
  fw_err :: int
  fw_count :: nat
  fw_calls :: "(sockaddr_in \<times> bytes) list"
  fw_lost :: "HASH_ITEM list"

text \<open>
  The loop. \<open>ok i\<close> tells whether the \<open>i\<close>-th \<^verbatim>\<open>sendto\<close> succeeds (it returns the length
  of the datagram) or fails (it returns -1); a negative length always fails. The variable \<open>t\<close> of
  the code survives an iteration: it is the item just sent, unless that was freed and \<open>t\<close>
  cleared.
\<close>

fun fwd_loop ::
  "('k, 'c) ext \<Rightarrow> table \<Rightarrow> (nat \<Rightarrow> bool) \<Rightarrow> bool \<Rightarrow> int \<Rightarrow> int \<Rightarrow> sockaddr_in option \<Rightarrow> nat \<Rightarrow>
     (sockaddr_in \<times> bytes) list \<Rightarrow> HASH_ITEM list \<Rightarrow> fwd_result option" where
  "fwd_loop X T ok clear err sn t i calls [] =
     Some \<lparr>fw_err = err, fw_count = i, fw_calls = calls, fw_lost = []\<rparr>"
| "fwd_loop X T ok clear err sn t i calls (hi # q) = do {
     r \<leftarrow> get_byte (msg hi) off_ifroute;
     (case route_off r of
        None \<Rightarrow> Some \<lparr>fw_err = err, fw_count = i, fw_calls = calls, fw_lost = hi # q\<rparr>
      | Some off \<Rightarrow> do {
          ix \<leftarrow> bucket_of (msg hi) off;
          (if hl_group (T ix) = [] then
             Some \<lparr>fw_err = 1, fw_count = i, fw_calls = calls, fw_lost = hi # q\<rparr>
           else do {
             gr \<leftarrow> find_gr (drop off (msg hi)) (hl_group (T ix));
             (case (case gr of Some h \<Rightarrow> Some (ipv4 h) | None \<Rightarrow> t) of
                None \<Rightarrow> Some \<lparr>fw_err = 1, fw_count = i, fw_calls = calls, fw_lost = hi # q\<rparr>
              | Some a \<Rightarrow> do {
                  (err1, pl) \<leftarrow> fwd_payload X (msg hi) off (n_msg hi) err sn;
                  (case pl of
                     None \<Rightarrow> Some \<lparr>fw_err = err1, fw_count = i, fw_calls = calls, fw_lost = hi # q\<rparr>
                   | Some (sn1, buffer) \<Rightarrow>
                      if sn1 < 0 then
                        fwd_loop X T ok clear err1 (-1) (if clear then None else Some (ipv4 hi))
                          (Suc i) calls q
                      else do {
                        d \<leftarrow> mem_read buffer 0 (nat sn1);
                        fwd_loop X T ok clear err1 (if ok i then sn1 else -1)
                          (if clear then None else Some (ipv4 hi)) (Suc i) (calls @ [(a, d)]) q }) }) }) }) }"

text \<open>The list is taken over and emptied under the lock before the loop starts.\<close>

definition send_to_dst ::
  "('k, 'c) ext \<Rightarrow> table \<Rightarrow> (nat \<Rightarrow> bool) \<Rightarrow> HASH_ITEM list option \<Rightarrow> bool \<Rightarrow>
     (fwd_result \<times> HASH_ITEM list option) option" where
  "send_to_dst X T ok l clear =
     (case l of None \<Rightarrow> Some (\<lparr>fw_err = 1, fw_count = 0, fw_calls = [], fw_lost = []\<rparr>, None)
      | Some q \<Rightarrow> map_option (\<lambda>r. (r, Some [])) (fwd_loop X T ok clear 0 0 None 0 [] q))"

section \<open>What a flush means\<close>

text \<open>
  What is sent for a message \<open>m\<close> whose receiver is named at \<open>off\<close>: a key request encrypted
  with the receiver's public key, a notification in the AES envelope, anything else as it is.
\<close>

definition seal :: "('k, 'c) ext \<Rightarrow> nat \<Rightarrow> bytes \<Rightarrow> bytes option" where
  "seal X off m =
     (if m ! off_type = msg_type MSG_GET_AES then do {
        pub \<leftarrow> get_cli_pub X (drop off m);
        k \<leftarrow> pub;
        c \<leftarrow> x_rsa_public_encrypt X k (int (length m)) m;
        Some (c @ [enc_mark ENCRYPT_CLI_PUB]) }
      else if m ! off_type = msg_type MSG_NTF then
        (if length m + AES_IV_BYTES \<le> MAX_MSG then do {
           (ct, tag) \<leftarrow> gcm_encrypt X m (take AES_IV_BYTES aes_iv) aes_key (take AES_IV_BYTES aes_iv)
             (int AES_IV_BYTES);
           Some (ct @ tag @ [enc_mark ENCRYPT_AES]) }
         else None)
      else Some m)"

text \<open>
  The receiver by the route: everything for a device, or that a device asked for, goes to the id of the
  device; only a device's answer to a notifier goes to the id of the notifier.
\<close>

definition receiver :: "byte \<Rightarrow> nat option" where
  "receiver r =
     (if r \<in> msg_route ` {G_NTF_CLI, F_SRV_CLI, G_NTF_SRV, F_SRV_NTF} then Some off_dev_id
      else if r = msg_route G_CLI_NTF then Some off_ntf_id else None)"

lemma route_off_receiver: "receiver r = route_off r"
  by (simp add: receiver_def route_off_def)

definition deliver ::
  "('k, 'c) ext \<Rightarrow> (bytes \<Rightarrow> sockaddr_in option) \<Rightarrow> HASH_ITEM \<Rightarrow> (sockaddr_in \<times> bytes) option" where
  "deliver X A it = do {
     off \<leftarrow> receiver (msg it ! off_ifroute);
     a \<leftarrow> A (id_key (msg it) off);
     d \<leftarrow> seal X off (msg it);
     Some (a, d) }"

text \<open>the messages at which the loop stops for good\<close>

definition blocked :: "(bytes \<Rightarrow> sockaddr_in option) \<Rightarrow> HASH_ITEM \<Rightarrow> bool" where
  "blocked A it \<longleftrightarrow>
     (case receiver (msg it ! off_ifroute) of None \<Rightarrow> True
      | Some off \<Rightarrow> A (id_key (msg it) off) = None
          \<or> msg it ! off_type = msg_type MSG_NTF \<and> MAX_MSG < length (msg it) + AES_IV_BYTES)"

lemma deliver_route:
  "deliver X A it = do {
     off \<leftarrow> route_off (msg it ! off_ifroute);
     a \<leftarrow> A (id_key (msg it) off);
     d \<leftarrow> seal X off (msg it);
     Some (a, d) }"
  by (simp add: deliver_def route_off_receiver)

lemma blocked_route:
  "blocked A it \<longleftrightarrow>
     (case route_off (msg it ! off_ifroute) of None \<Rightarrow> True
      | Some off \<Rightarrow> A (id_key (msg it) off) = None
          \<or> msg it ! off_type = msg_type MSG_NTF \<and> MAX_MSG < length (msg it) + AES_IV_BYTES)"
  by (simp add: blocked_def route_off_receiver)

text \<open>a queued message: a whole header with both ids ended by a NUL, no longer than the buffers\<close>

definition fwd_item :: "HASH_ITEM \<Rightarrow> bool" where
  "fwd_item it \<longleftrightarrow> n_msg it = length (msg it) \<and> sizeof_MSG_COMMON \<le> length (msg it)
     \<and> length (msg it) \<le> MAX_MSG + 1
     \<and> 0 \<in> set (take (Suc LEN_DEVID) (drop off_dev_id (msg it)))
     \<and> 0 \<in> set (take (Suc LEN_DEVID) (drop off_ntf_id (msg it)))"

text \<open>An RSA encryption fills exactly one block, of \<^verbatim>\<open>RSA_size\<close> bytes; keys of up to 9600 bits.\<close>

definition rsa_blocks :: "('k, 'c) ext \<Rightarrow> bool" where
  "rsa_blocks X \<longleftrightarrow> (\<forall>k n m c. x_rsa_public_encrypt X k n m = Some c \<longrightarrow>
     0 < length c \<and> length c \<le> MAX_MSG \<and> x_rsa_size X k = int (length c))"

lemma route_off_Some: "route_off r = Some off \<Longrightarrow> off = off_dev_id \<or> off = off_ntf_id"
  by (auto simp: route_off_def split: if_splits)

lemma fwd_item_id:
  assumes "fwd_item it" and "route_off r = Some off"
  shows "0 \<in> set (take (Suc LEN_DEVID) (drop off (msg it)))" and "LEN_DEVID \<le> length (drop off (msg it))"
  using assms route_off_Some [of r off] by (auto simp: fwd_item_def)

lemma find_gr_eq:
  assumes "LEN_DEVID \<le> length d" and "\<forall>h \<in> set hs. sizeof_MSG_COMMON \<le> length (msg h)"
  shows "find_gr d hs = Some (find (\<lambda>h. dev_key (msg h) = c_str (take LEN_DEVID d)) hs)"
  using assms(2)
proof (induction hs)
  case (Cons h hs)
  have len: "LEN_DEVID \<le> length (drop off_dev_id (msg h))" using Cons.prems by auto
  obtain k where k: "c_strncmp d (drop off_dev_id (msg h)) LEN_DEVID = Some k"
    using c_strncmp_total [OF assms(1) len] by blast
  have "k = 0 \<longleftrightarrow> dev_key (msg h) = c_str (take LEN_DEVID d)"
    using c_strncmp_eq_0 [OF assms(1) len] k by (auto simp: dev_key_def)
  with k Cons show ?case by auto
qed simp

lemma find_gr_table:
  assumes "reg_inv T" and "LEN_DEVID \<le> length (drop off m)"
  shows "\<exists>gr. find_gr (drop off m) (hl_group (T (hash_ix (id_key m off)))) = Some gr
    \<and> map_option ipv4 gr = reg_abs T (id_key m off)
    \<and> (hl_group (T (hash_ix (id_key m off))) = [] \<longrightarrow> reg_abs T (id_key m off) = None)"
  using find_gr_eq [OF assms(2)] reg_invD(3) [OF assms(1)] by (auto simp: reg_abs_def id_key_def)

lemma get_cli_pub_total: "length (c_str d) \<le> LEN_DEVID \<Longrightarrow> \<exists>k. get_cli_pub X d = Some k"
  using file_2_rsa_total [of "x_pem_pub X" X "Some (c_str d @ lit ''.public-key.pem'')" None]
  by (auto simp: get_cli_pub_def key_path_def file_2_pubrsa_def)

lemma rsa_enc_total:
  assumes "rsa_blocks X" and "0 < n" and "n \<le> length m"
  shows "\<exists>out sn1. rsa_enc X (Some k) m (Some None) (int n) (Some sn) = Some (0, out, Some sn1)
    \<and> (case out of None \<Rightarrow> sn1 = sn
       | Some buf \<Rightarrow> \<exists>c. x_rsa_public_encrypt X k (int n) (take n m) = Some c \<and> sn1 = int (length c)
           \<and> length c < length buf \<and> take (length c) buf = c \<and> length c \<le> MAX_MSG)
    \<and> (out = None \<longrightarrow> x_rsa_size X k < 1 \<or> x_rsa_public_encrypt X k (int n) (take n m) = None)"
proof (cases "x_rsa_size X k < 1 \<or> x_rsa_public_encrypt X k (int n) (take n m) = None")
  case True
  with assms(3) show ?thesis by (auto simp: rsa_enc_def mem_read_def Let_def)
next
  case False
  then obtain c where c: "x_rsa_public_encrypt X k (int n) (take n m) = Some c"
    and blk: "\<not> x_rsa_size X k < 1" by blast
  have len: "0 < length c" "length c \<le> MAX_MSG" "x_rsa_size X k = int (length c)"
    using assms(1) c by (auto simp: rsa_blocks_def)
  have "length c + 1 \<le> nat (rsa_buflen (int n) (int (length c)))"
    using rsa_buflen_enough(1) [OF assms(2) len(1)] by simp
  with c len assms(3) show ?thesis
    by (auto simp: rsa_enc_def mem_read_def mem_write_def Let_def)
qed

lemma take_first_upd: "0 < n \<Longrightarrow> take (Suc 0) ((zeros n)[0 := v]) = [v]"
  by (cases n) auto

text \<open>A message that can be sealed is sealed into the buffer.\<close>

lemma fwd_payload_seal:
  assumes "evp_gcm X" and "rsa_blocks X" and "fwd_item it" and "route_off r = Some off"
    and "seal X off (msg it) = Some d"
  shows "\<exists>buf. fwd_payload X (msg it) off (n_msg it) 0 sn = Some (0, Some (int (length d), buf))
    \<and> mem_read buf 0 (length d) = Some d"
proof -
  let ?m = "msg it" and ?n = "length (msg it)"
  have it: "n_msg it = ?n" "sizeof_MSG_COMMON \<le> ?n" "?n \<le> MAX_MSG + 1"
    using assms(3) by (auto simp: fwd_item_def)
  then have ty: "get_byte ?m off_type = Some (?m ! off_type)" by (auto simp: get_byte_def)
  consider (aes) "?m ! off_type = msg_type MSG_GET_AES" | (ntf) "?m ! off_type = msg_type MSG_NTF"
    | (plain) "?m ! off_type \<noteq> msg_type MSG_GET_AES" "?m ! off_type \<noteq> msg_type MSG_NTF" by blast
  then show ?thesis
  proof cases
    case aes
    with assms(5) obtain k c where k: "get_cli_pub X (drop off ?m) = Some (Some k)"
      and c: "x_rsa_public_encrypt X k (int ?n) ?m = Some c" and d: "d = c @ [enc_mark ENCRYPT_CLI_PUB]"
      by (auto simp: seal_def bind_eq_Some_conv)
    have "length c \<le> MAX_MSG" "\<not> x_rsa_size X k < 1" using assms(2) c by (auto simp: rsa_blocks_def)
    moreover have "0 < ?n" using it(2) by linarith
    ultimately obtain buf where
      "rsa_enc X (Some k) ?m (Some None) (int ?n) (Some sn) = Some (0, Some buf, Some (int (length c)))"
      "length c < length buf" "take (length c) buf = c" "length c \<le> MAX_MSG"
      using rsa_enc_total [OF assms(2) _ order_refl, of ?m k sn] c by (auto split: option.splits)
    with aes k d it(1) show ?thesis
      by (auto simp: fwd_payload_def ty mem_read_def mem_write_def put_byte_def nth_append
          list_update_append take_first_upd)
  next
    case ntf
    then have le: "?n + AES_IV_BYTES \<le> MAX_MSG" using assms(5) by (auto simp: seal_def split: if_splits)
    with msg_aes_enc_eq [OF assms(1), of ?n ?m aes_key aes_iv "MAX_MSG + 1" "zeros (MAX_MSG + 1)" sn]
    obtain ct tag where e: "gcm_encrypt X ?m (take AES_IV_BYTES aes_iv) aes_key (take AES_IV_BYTES aes_iv)
        (int AES_IV_BYTES) = Some (ct, tag)" "length ct = ?n" "length tag = AES_IV_BYTES"
      "msg_aes_enc X (Some ?m) (Some (zeros (MAX_MSG + 1))) (Some aes_key) (Some aes_iv) (int ?n) (Some sn)
        (int (MAX_MSG + 1)) = Some (0, Some (ct @ tag @ enc_mark ENCRYPT_AES # drop (?n + 17) (zeros (MAX_MSG + 1))),
          Some (int ?n + 17))"
      by auto
    then have "d = ct @ tag @ [enc_mark ENCRYPT_AES]" using ntf le assms(5) by (auto simp: seal_def)
    with e ntf it(1) le show ?thesis
      by (auto simp: fwd_payload_def ty mem_read_def)
  next
    case plain
    with assms(5) have "d = ?m" by (auto simp: seal_def)
    with plain it show ?thesis
      by (auto simp: fwd_payload_def ty mem_read_def mem_write_def)
  qed
qed

text \<open>The payload code stays inside its buffers for every queued message.\<close>

lemma fwd_payload_total:
  assumes "evp_gcm X" and "rsa_blocks X" and "fwd_item it" and "route_off r = Some off"
    and "sn \<le> int MAX_MSG + 1"
  shows "\<exists>err1 pl. fwd_payload X (msg it) off (n_msg it) err sn = Some (err1, pl)
    \<and> (\<forall>sn1 buf. pl = Some (sn1, buf) \<longrightarrow> sn1 \<le> int MAX_MSG + 1 \<and> length buf = MAX_MSG + 1)"
proof -
  let ?m = "msg it" and ?n = "length (msg it)"
  have it: "n_msg it = ?n" "0 < ?n" "?n \<le> MAX_MSG + 1"
    using assms(3) by (auto simp: fwd_item_def)
  then have ty: "get_byte ?m off_type = Some (?m ! off_type)" by (auto simp: get_byte_def)
  have "length (c_str (drop off ?m)) \<le> LEN_DEVID"
    using id_key_str [OF fwd_item_id(1) [OF assms(3,4)]] by simp
  then obtain pub where pub: "get_cli_pub X (drop off ?m) = Some pub"
    using get_cli_pub_total by blast
  consider (aes) "?m ! off_type = msg_type MSG_GET_AES" | (ntf) "?m ! off_type = msg_type MSG_NTF"
    | (plain) "?m ! off_type \<noteq> msg_type MSG_GET_AES" "?m ! off_type \<noteq> msg_type MSG_NTF" by blast
  then show ?thesis
  proof cases
    case aes
    show ?thesis
    proof (cases pub)
      case None
      with aes pub it assms(5) show ?thesis by (simp add: fwd_payload_def ty)
    next
      case (Some k)
      from rsa_enc_total [OF assms(2) it(2) order_refl, of k sn] obtain out sn1 where
        e: "rsa_enc X (Some k) ?m (Some None) (int ?n) (Some sn) = Some (0, out, Some sn1)"
        "case out of None \<Rightarrow> sn1 = sn
           | Some buf \<Rightarrow> \<exists>c. x_rsa_public_encrypt X k (int ?n) (take ?n ?m) = Some c \<and> sn1 = int (length c)
               \<and> length c < length buf \<and> take (length c) buf = c \<and> length c \<le> MAX_MSG"
        by blast
      with Some aes pub it assms(5) show ?thesis
        by (cases out) (auto simp: fwd_payload_def ty mem_read_def mem_write_def put_byte_def)
    qed
  next
    case ntf
    show ?thesis
    proof (cases "?n + AES_IV_BYTES \<le> MAX_MSG")
      case True
      with msg_aes_enc_eq [OF assms(1), of ?n ?m aes_key aes_iv "MAX_MSG + 1" "zeros (MAX_MSG + 1)" sn]
        ntf it show ?thesis by (auto simp: fwd_payload_def ty)
    next
      case False
      with ntf it show ?thesis by (auto simp: fwd_payload_def ty msg_aes_enc_def)
    qed
  next
    case plain
    with it show ?thesis by (auto simp: fwd_payload_def ty mem_read_def mem_write_def)
  qed
qed

lemma fwd_loop_total:
  assumes "reg_inv T" and "evp_gcm X" and "rsa_blocks X"
  shows "\<forall>it \<in> set q. fwd_item it \<Longrightarrow> sn \<le> int MAX_MSG + 1 \<Longrightarrow>
    \<exists>r. fwd_loop X T ok clear err sn t i calls q = Some r"
proof (induction q arbitrary: err sn t i calls)
  case (Cons hi q)
  have hi: "fwd_item hi" using Cons.prems by simp
  then have r: "get_byte (msg hi) off_ifroute = Some (msg hi ! off_ifroute)"
    by (auto simp: get_byte_def fwd_item_def)
  show ?case
  proof (cases "route_off (msg hi ! off_ifroute)")
    case None
    with r show ?thesis by simp
  next
    case (Some off)
    note id = fwd_item_id [OF hi Some]
    obtain gr where gr: "find_gr (drop off (msg hi)) (hl_group (T (hash_ix (id_key (msg hi) off)))) = Some gr"
      using find_gr_table [OF assms(1) id(2)] by blast
    obtain err1 pl where pl: "fwd_payload X (msg hi) off (n_msg hi) err sn = Some (err1, pl)"
      "\<And>sn1 buf. pl = Some (sn1, buf) \<Longrightarrow> sn1 \<le> int MAX_MSG + 1 \<and> length buf = MAX_MSG + 1"
      using fwd_payload_total [OF assms(2,3) hi Some Cons.prems(2)] by blast
    have next_ok: "\<exists>r. fwd_loop X T ok clear err1 s t' i' calls' q = Some r" if "s \<le> int MAX_MSG + 1"
      for s t' i' calls'
      using Cons.IH [of s] Cons.prems(1) that by simp
    from r Some bucket_at [OF id(1)] gr pl next_ok show ?thesis
      by (auto simp: mem_read_def split: option.splits)
  qed
qed simp

text \<open>A deliverable message is sent, and the loop goes on in the state it started in.\<close>

lemma fwd_loop_sent:
  assumes "reg_inv T" and "evp_gcm X" and "rsa_blocks X"
    and "fwd_item it" and "deliver X (reg_abs T) it = Some (a, d)"
  shows "\<exists>sn'. fwd_loop X T ok True 0 sn None i calls (it # q)
    = fwd_loop X T ok True 0 sn' None (Suc i) (calls @ [(a, d)]) q"
proof -
  from assms(5) obtain off where off: "route_off (msg it ! off_ifroute) = Some off"
    "reg_abs T (id_key (msg it) off) = Some a" "seal X off (msg it) = Some d"
    by (auto simp: deliver_route bind_eq_Some_conv)
  note id = fwd_item_id [OF assms(4) off(1)]
  obtain h where h: "find_gr (drop off (msg it)) (hl_group (T (hash_ix (id_key (msg it) off)))) = Some (Some h)"
    "ipv4 h = a" "hl_group (T (hash_ix (id_key (msg it) off))) \<noteq> []"
    using find_gr_table [OF assms(1) id(2)] off(2) by auto
  obtain buf where "fwd_payload X (msg it) off (n_msg it) 0 sn = Some (0, Some (int (length d), buf))"
    "mem_read buf 0 (length d) = Some d"
    using fwd_payload_seal [OF assms(2-4) off(1,3)] by blast
  moreover have "get_byte (msg it) off_ifroute = Some (msg it ! off_ifroute)"
    using assms(4) by (auto simp: get_byte_def fwd_item_def)
  ultimately show ?thesis using off(1) bucket_at [OF id(1)] h by auto
qed

text \<open>What has been sent stays sent.\<close>

lemma fwd_loop_calls:
  "fwd_loop X T ok clear err sn t i calls q = Some r \<Longrightarrow> \<exists>more. fw_calls r = calls @ more"
proof (induction q arbitrary: clear err sn t i calls)
  case (Cons hi q)
  from Cons.prems show ?case
    by (auto split: Option.bind_split_asm option.split_asm if_split_asm prod.split_asm dest!: Cons.IH)
qed auto

lemma fwd_loop_all_sent:
  assumes "reg_inv T" and "evp_gcm X" and "rsa_blocks X"
  shows "\<forall>it \<in> set pre. fwd_item it \<and> deliver X (reg_abs T) it = Some (D it) \<Longrightarrow>
    \<exists>sn'. fwd_loop X T ok True 0 sn None i calls (pre @ rest)
      = fwd_loop X T ok True 0 sn' None (i + length pre) (calls @ map D pre) rest"
proof (induction pre arbitrary: sn i calls)
  case (Cons it pre)
  obtain a d where D: "D it = (a, d)" by (cases "D it")
  then obtain sn1 where step: "fwd_loop X T ok True 0 sn None i calls (it # pre @ rest)
      = fwd_loop X T ok True 0 sn1 None (Suc i) (calls @ [D it]) (pre @ rest)"
    using fwd_loop_sent [OF assms, of it a d ok sn i calls] Cons.prems by auto
  from Cons.IH [of sn1 "Suc i" "calls @ [D it]"] Cons.prems obtain sn' where
    "fwd_loop X T ok True 0 sn1 None (Suc i) (calls @ [D it]) (pre @ rest)
      = fwd_loop X T ok True 0 sn' None (Suc i + length pre) ((calls @ [D it]) @ map D pre) rest"
    by auto
  with step show ?case by auto
qed auto

lemma fwd_loop_blocked:
  assumes "reg_inv T" and "fwd_item it" and "blocked (reg_abs T) it"
  shows "fwd_loop X T ok True 0 sn None i calls (it # q) =
    Some \<lparr>fw_err = (if route_off (msg it ! off_ifroute) = None then 0 else 1), fw_count = i,
      fw_calls = calls, fw_lost = it # q\<rparr>"
proof -
  have b: "get_byte (msg it) off_ifroute = Some (msg it ! off_ifroute)"
    "get_byte (msg it) off_type = Some (msg it ! off_type)"
    using assms(2) by (auto simp: get_byte_def fwd_item_def)
  show ?thesis
  proof (cases "route_off (msg it ! off_ifroute)")
    case None
    with b show ?thesis by simp
  next
    case (Some off)
    note id = fwd_item_id [OF assms(2) Some]
    obtain gr where gr: "find_gr (drop off (msg it)) (hl_group (T (hash_ix (id_key (msg it) off)))) = Some gr"
      "map_option ipv4 gr = reg_abs T (id_key (msg it) off)"
      using find_gr_table [OF assms(1) id(2)] by blast
    show ?thesis
    proof (cases "reg_abs T (id_key (msg it) off)")
      case None
      with gr Some b bucket_at [OF id(1)] show ?thesis by auto
    next
      case (Some a)
      with assms(3) \<open>route_off (msg it ! off_ifroute) = Some off\<close>
      have "fwd_payload X (msg it) off (n_msg it) 0 sn = Some (1, None)"
        using assms(2) b(2) by (auto simp: blocked_route fwd_payload_def msg_aes_enc_def fwd_item_def)
      with gr Some \<open>route_off (msg it ! off_ifroute) = Some off\<close> b bucket_at [OF id(1)] show ?thesis
        by (auto split: option.splits)
    qed
  qed
qed

section \<open>Properties of a flush\<close>

text \<open>
  C29. \<^verbatim>\<open>send_to_dst\<close> empties the list and hands every message up to the first one it cannot
  forward to \<^verbatim>\<open>sendto\<close>, once, in list order, to the address registered for the id its route
  selects, sealed as its type demands. At a message with another route, an unregistered receiver or
  a notification too large for the envelope it stops: that message and all behind it are lost. It
  returns 0 also when the route was the reason.
\<close>

theorem send_to_dst_delivers:
  assumes "reg_inv T" and "evp_gcm X" and "rsa_blocks X"
    and "\<forall>it \<in> set pre. fwd_item it \<and> deliver X (reg_abs T) it = Some (D it)"
    and "rest \<noteq> [] \<Longrightarrow> fwd_item (hd rest) \<and> blocked (reg_abs T) (hd rest)"
  shows "send_to_dst X T ok (Some (pre @ rest)) True =
    Some (\<lparr>fw_err = (if rest = [] \<or> receiver (msg (hd rest) ! off_ifroute) = None then 0 else 1),
            fw_count = length pre, fw_calls = map D pre, fw_lost = rest\<rparr>, Some [])"
proof -
  obtain sn where "fwd_loop X T ok True 0 0 None 0 [] (pre @ rest)
      = fwd_loop X T ok True 0 sn None (length pre) (map D pre) rest"
    using fwd_loop_all_sent [OF assms(1-4), of ok 0 0 "[]" rest] by auto
  with assms(5) show ?thesis
    by (cases rest)
      (auto simp: send_to_dst_def route_off_receiver fwd_loop_blocked [OF assms(1)] simp del: fwd_loop.simps(2))
qed

text \<open>
  C30. A flush never leaves its buffers: for every list of queued messages, deliverable or not, and
  whatever \<^verbatim>\<open>sendto\<close> returns, \<^verbatim>\<open>send_to_dst\<close> has a result, and the list is empty after it.
\<close>

theorem send_to_dst_safe:
  assumes "reg_inv T" and "evp_gcm X" and "rsa_blocks X" and "\<forall>it \<in> set q. fwd_item it"
  shows "\<exists>r. send_to_dst X T ok (Some q) clear = Some (r, Some [])"
  using fwd_loop_total [OF assms, of 0 ok clear 0 None 0 "[]"] by (auto simp: send_to_dst_def)

text \<open>queueing a sequence of messages, each with its length\<close>

fun add_all :: "bytes list \<Rightarrow> HASH_ITEM list option \<Rightarrow> HASH_ITEM list option option" where
  "add_all [] l = Some l"
| "add_all (m # ms) l = do { (e, l') \<leftarrow> add_to_item_list m l (int (length m)); add_all ms l' }"

definition queued :: "bytes \<Rightarrow> HASH_ITEM" where
  "queued m = \<lparr>ipv4 = zero_addr, n_msg = length m, msg = m\<rparr>"

lemma add_all_eq: "add_all ms (Some q) = Some (Some (rev (map queued ms) @ q))"
  by (induction ms arbitrary: q) (auto simp: add_to_item_list_def mem_read_def queued_def)

text \<open>
  The list is a stack: messages queued one after the other and then flushed leave in the
  reverse of the order they came in.
\<close>

theorem forward_order_reversed:
  assumes "reg_inv T" and "evp_gcm X" and "rsa_blocks X"
    and "\<forall>m \<in> set ms. fwd_item (queued m) \<and> deliver X (reg_abs T) (queued m) = Some (D m)"
  shows "\<exists>q. add_all ms (Some []) = Some (Some q) \<and> send_to_dst X T ok (Some q) True =
    Some (\<lparr>fw_err = 0, fw_count = length ms, fw_calls = rev (map D ms), fw_lost = []\<rparr>, Some [])"
proof -
  let ?q = "rev (map queued ms)"
  have "\<forall>it \<in> set ?q. fwd_item it \<and> deliver X (reg_abs T) it = Some ((D \<circ> msg) it)"
    using assms(4) by (auto simp: queued_def)
  from fwd_loop_all_sent [OF assms(1-3) this, of ok 0 0 "[]" "[]"]
  have "send_to_dst X T ok (Some ?q) True =
    Some (\<lparr>fw_err = 0, fw_count = length ms, fw_calls = map (D \<circ> msg) ?q, fw_lost = []\<rparr>, Some [])"
    by (auto simp: send_to_dst_def)
  moreover have "map (D \<circ> msg) ?q = rev (map D ms)" by (simp add: rev_map queued_def comp_def)
  ultimately show ?thesis by (simp add: add_all_eq)
qed

section \<open>Instances\<close>

text \<open>a message to the device of \<open>demo_table\<close> with the given type, route and data\<close>

definition demo_fwd :: "byte \<Rightarrow> byte \<Rightarrow> string \<Rightarrow> bytes \<Rightarrow> bytes" where
  "demo_fwd ty r dst dat = [ty, r] @ take LEN_DEVID (lit dst @ zeros LEN_DEVID) @ zeros 58 @ dat"

lemma demo_rsa_blocks: "rsa_blocks demo_ext"
  by (auto simp: rsa_blocks_def demo_ext_def split: if_splits)

lemma demo_fwd_item:
  "length dat \<le> 1101 \<Longrightarrow> length dst < LEN_DEVID \<Longrightarrow> fwd_item (queued (demo_fwd ty r dst dat))"
  by (auto simp: fwd_item_def queued_def demo_fwd_def)

lemma demo_deliver_plain:
  "deliver demo_ext (reg_abs demo_table) (queued (demo_fwd 0 5 ''p0'' dat)) = Some (zero_addr, demo_fwd 0 5 ''p0'' dat)"
  by (simp add: deliver_route queued_def demo_fwd_def route_off_def seal_def id_key_def c_str_def lit_def
      demo_table_abs)

theorem send_to_dst_delivers_witness:
  "\<exists>r. send_to_dst demo_ext demo_table (\<lambda>_. True)
      (Some [queued (demo_fwd 0 5 ''p0'' [7]), queued (demo_fwd 0 1 ''p0'' []), queued (demo_fwd 0 5 ''p0'' [])]) True
      = Some (r, Some []) \<and> fw_err r = 0 \<and> fw_count r = 1
    \<and> fw_lost r = [queued (demo_fwd 0 1 ''p0'' []), queued (demo_fwd 0 5 ''p0'' [])]"
proof -
  have "blocked (reg_abs demo_table) (queued (demo_fwd 0 1 ''p0'' []))"
    "route_off (msg (queued (demo_fwd 0 1 ''p0'' [])) ! off_ifroute) = None"
    by (simp_all add: blocked_route queued_def demo_fwd_def route_off_def)
  with send_to_dst_delivers [OF demo_table_inv demo_evp_gcm demo_rsa_blocks,
      of "[queued (demo_fwd 0 5 ''p0'' [7])]" "\<lambda>it. (zero_addr, msg it)"
      "[queued (demo_fwd 0 1 ''p0'' []), queued (demo_fwd 0 5 ''p0'' [])]" "\<lambda>_. True"]
  show ?thesis using demo_deliver_plain [of "[7]"] demo_fwd_item [of "[7]" "''p0''" 0 5]
      demo_fwd_item [of "[]" "''p0''" 0 1] by (simp add: queued_def route_off_receiver)
qed

theorem send_to_dst_safe_witness:
  "\<exists>r. send_to_dst demo_ext demo_table (\<lambda>_. False) (Some [queued (demo_fwd 4 5 ''p0'' [1])]) True = Some (r, Some [])"
  by (rule send_to_dst_safe [OF demo_table_inv demo_evp_gcm demo_rsa_blocks]) (simp add: demo_fwd_item)

theorem forward_order_reversed_witness:
  "\<exists>q r. add_all [demo_fwd 0 5 ''p0'' [1], demo_fwd 0 5 ''p0'' [2]] (Some []) = Some (Some q)
    \<and> send_to_dst demo_ext demo_table (\<lambda>_. True) (Some q) True = Some (r, Some [])
    \<and> fw_calls r = [(zero_addr, demo_fwd 0 5 ''p0'' [2]), (zero_addr, demo_fwd 0 5 ''p0'' [1])]"
  using forward_order_reversed [OF demo_table_inv demo_evp_gcm demo_rsa_blocks,
      of "[demo_fwd 0 5 ''p0'' [1], demo_fwd 0 5 ''p0'' [2]]" "\<lambda>m. (zero_addr, m)" "\<lambda>_. True"]
  by (auto simp: demo_fwd_item demo_deliver_plain)

end
