(* ===== verification/Server.thy ===== *)
theory Server
  imports Forward
begin

text \<open>
  The server process, \<^verbatim>\<open>notify.system/server.c\<close>: the receiving loop of \<^verbatim>\<open>main\<close> (socket S1), the
  loop of \<^verbatim>\<open>sending_routine_thread\<close> (socket S2), the signal handler and the waiting flag, with
  \<^verbatim>\<open>dum_msg\<close> of \<^verbatim>\<open>msg_notify.c\<close>, which S1 calls on every message. The two threads are a step
  relation on the shared state; its invariant is proved by rule induction.
\<close>

section \<open>Diagnostics\<close>

definition dum_text :: "string list" where
  "dum_text = [''Register'', ''Trace'', ''Notify'', ''Confirm'', '''']"

definition dum_ifr :: "string list" where
  "dum_ifr = [''From a notifier to server'', ''The server forwards to client'',
     ''From the server feedback to a notifier'', '' From a client to the server in order to confirm'',
     ''From the notifier feedback to the server to confirm and clean the list'', '''']"

definition elem_at :: "'a list \<Rightarrow> nat \<Rightarrow> 'a option" where
  "elem_at xs i = (if i < length xs then Some (xs ! i) else None)"

text \<open>\<^verbatim>\<open>sprintf(buf + len, ...)\<close> into \<^verbatim>\<open>char buf[2048]\<close>, its closing NUL included\<close>

definition put_txt :: "bytes \<Rightarrow> bytes \<Rightarrow> bytes option" where
  "put_txt buf s = (if length buf + length s < 2048 then Some (buf @ s) else None)"

text \<open>the string at \<open>off\<close> as \<^verbatim>\<open>%s\<close> reads it\<close>

definition str_at :: "bytes \<Rightarrow> nat \<Rightarrow> bytes option" where
  "str_at m off = do { l \<leftarrow> c_strlen m off; Some (take l (drop off m)) }"

text \<open>
  \<^verbatim>\<open>dum_msg(item, f, fu, line)\<close>: what it prints is the word \<open>buf\<close>; the text it builds is its
  result here. The two tables of texts have five and six entries, indexed by bytes of the message.
\<close>

definition dum_msg :: "bytes option \<Rightarrow> string \<Rightarrow> string \<Rightarrow> nat \<Rightarrow> bytes option" where
  "dum_msg item f fu line =
     (case item of None \<Rightarrow> Some []
      | Some m \<Rightarrow> do {
          type \<leftarrow> get_byte m off_type;
          ifro \<leftarrow> get_byte m off_ifroute;
          tx \<leftarrow> elem_at dum_text (unat type);
          b1 \<leftarrow> put_txt [] (lit ''------File: '' @ lit f @ lit '', Func: '' @ lit fu @ lit '' line: ''
                 @ dec line @ lit '' -------- Type of message: '' @ lit tx @ lit ''. '');
          d \<leftarrow> str_at m off_dev_id;
          b2 \<leftarrow> put_txt b1 (lit ''------Device ID: '' @ d @ lit ''. '');
          e \<leftarrow> str_at m off_ntf_id;
          b3 \<leftarrow> put_txt b2 (lit ''------Notifier ID: '' @ e @ lit ''. '');
          let sz = int (min MAX_MSG (length d));
          h1 \<leftarrow> hash_func (drop off_dev_id m) sz;
          b4 \<leftarrow> put_txt b3 (lit ''-------- Hash number device id: '' @ dec (unat h1) @ lit ''. '');
          h2 \<leftarrow> hash_func (drop off_ntf_id m) sz;
          b5 \<leftarrow> put_txt b4 (lit ''-------- Hash number notifier id: '' @ dec (unat h2) @ lit ''. '');
          ir \<leftarrow> elem_at dum_ifr (unat ifro);
          b6 \<leftarrow> put_txt b5 (lit ''-------- ifroute: '' @ lit ir @ lit ''. '');
          (rc, ld) \<leftarrow> arr_2_uint16 (Some (take 2 (drop off_len m))) (Some 0) 2;
          ldta \<leftarrow> ld;
          b7 \<leftarrow> put_txt b6 (lit ''-------- Len data: '' @ sdec (sint ldta) @ lit ''. '');
          (rc2, sc) \<leftarrow> arr_2_uint64 (Some (take 8 (drop off_second m))) (Some 0) 8;
          sec \<leftarrow> sc;
          (rc3, ns) \<leftarrow> arr_2_uint64 (Some (take 8 (drop off_nano m))) (Some 0) 8;
          nsec \<leftarrow> ns;
          put_txt b7 (lit ''-------- (sec, nano) = ('' @ dec (unat sec) @ lit '', '' @ dec (unat nsec) @ lit '')'') })"

section \<open>The shared state\<close>

text \<open>
  The globals of the process, the static key of \<^verbatim>\<open>get_srv_prv\<close>, and the buffers \<open>bufout\<close> of the
  two loops, which keep their contents from one turn to the next.
\<close>

record 'k server =
  g_waiting :: int
  g_runnow :: int
  list_reg_dev :: table
  imd_fwd_lt :: "HASH_ITEM list"
  srv_prv :: "'k option"
  bufout1 :: bytes
  bufout2 :: bytes

text \<open>\<open>rl\<close> and \<open>ru\<close> are what locking and unlocking the mutex return.\<close>

definition set_waiting :: "int \<Rightarrow> int \<Rightarrow> int \<Rightarrow> 'k server \<Rightarrow> int \<times> 'k server" where
  "set_waiting rl ru w s =
     (if ru \<noteq> 0 then ru else rl, s\<lparr>g_waiting := (if w \<noteq> 0 then 1 else 0)\<rparr>)"

text \<open>The branch for a null pointer writes through it.\<close>

definition get_waiting :: "int \<Rightarrow> int \<Rightarrow> int option \<Rightarrow> 'k server \<Rightarrow> (int \<times> int) option" where
  "get_waiting rl ru ret s =
     (case ret of None \<Rightarrow> None | Some r \<Rightarrow> Some (if ru \<noteq> 0 then ru else rl, g_waiting s))"

text \<open>
  \<^verbatim>\<open>handler\<close>: whether it passes the signal on to the sending thread, and the state. \<open>self\<close> is
  the thread it runs in.
\<close>

definition handler :: "int \<Rightarrow> int \<Rightarrow> nat \<Rightarrow> nat \<Rightarrow> 'k server \<Rightarrow> bool \<times> 'k server" where
  "handler main_pid si_pid self read_threadid s =
     (main_pid \<noteq> si_pid, if self = read_threadid then s\<lparr>g_runnow := 1\<rparr> else s)"

section \<open>Opening a datagram\<close>

text \<open>
  The last byte tells how a datagram is sealed. The result is the cached private key, the buffer
  \<open>bufout\<close>, and the opened message: its length, the buffer it is in, and whether that is
  \<open>bufout\<close>; no message when the code goes on to the next datagram. A message RSA cannot decrypt is
  taken as it is.
\<close>

definition open_msg ::
  "('k, 'c) ext \<Rightarrow> byte \<Rightarrow> int \<Rightarrow> bytes \<Rightarrow> bytes \<Rightarrow> 'k option \<Rightarrow>
     ('k option \<times> bytes \<times> (int \<times> bytes \<times> bool) option) option" where
  "open_msg X enc n buffer bufout prv0 =
     (if enc = enc_mark ENCRYPT_SRV_PUB then do {
        prv \<leftarrow> get_srv_prv X prv0;
        (case prv of None \<Rightarrow> Some (None, bufout, None)
         | Some k \<Rightarrow> do {
             (rc, out, l) \<leftarrow> rsa_dec X (Some k) (Some buffer) (Some None) (n - 1) (Some 0);
             (case out of None \<Rightarrow> Some (prv, bufout, Some (n, buffer, False))
              | Some o1 \<Rightarrow> do {
                  len \<leftarrow> l;
                  src \<leftarrow> mem_read o1 0 (nat len);
                  b \<leftarrow> mem_write (zeros (MAX_MSG + 1)) 0 src;
                  Some (prv, bufout, Some (len, b, False)) }) }) }
      else if enc = enc_mark ENCRYPT_AES then do {
        (err, b, l) \<leftarrow> msg_aes_dec X (Some buffer) (Some bufout) (Some aes_key) (Some aes_iv) n (Some n)
          (int MAX_MSG + 1);
        b1 \<leftarrow> b;
        (if err \<noteq> 0 then Some (prv0, b1, None)
         else do { n1 \<leftarrow> l; Some (prv0, b1, Some (n1, b1, True)) }) }
      else Some (prv0, bufout, Some (n, buffer, False)))"

text \<open>
  \<^verbatim>\<open>recvfrom\<close> with room for \<open>room\<close> bytes into a cleared buffer of 1201: the returned length (-1
  when there is no datagram), the buffer and the sender.
\<close>

definition recv :: "nat \<Rightarrow> (sockaddr_in \<times> bytes) option \<Rightarrow> int \<times> bytes \<times> sockaddr_in" where
  "recv room inp =
     (case inp of None \<Rightarrow> (-1, zeros (MAX_MSG + 1), zero_addr)
      | Some (a, d) \<Rightarrow> (let d1 = take room d
          in (int (length d1), d1 @ zeros (MAX_MSG + 1 - length d1), a)))"

section \<open>The loop of the sending thread\<close>

text \<open>
  Receiving and opening. The comparison \<^verbatim>\<open>n < sizeof(MSG_COMMON)\<close> is unsigned, so the -1 of an idle
  \<^verbatim>\<open>recvfrom\<close> passes it, and \<^verbatim>\<open>buffer[n-1]\<close> is read outside the buffer: undefined.
\<close>

definition s2_open ::
  "('k, 'c) ext \<Rightarrow> (sockaddr_in \<times> bytes) option \<Rightarrow> 'k server \<Rightarrow>
     ('k option \<times> bytes \<times> (int \<times> bytes \<times> bool) option) option" where
  "s2_open X inp s = (let (n, buffer, cliaddr) = recv MAX_MSG inp
     in if n < 0 then None
        else if n < int sizeof_MSG_COMMON then Some (srv_prv s, bufout2 s, None)
        else open_msg X (buffer ! (nat n - 1)) n buffer (bufout2 s) (srv_prv s))"

text \<open>One turn up to the flush.\<close>

definition s2_recv ::
  "('k, 'c) ext \<Rightarrow> (sockaddr_in \<times> bytes) option \<Rightarrow> 'k server \<Rightarrow> 'k server option" where
  "s2_recv X inp s = (let (n, buffer, cliaddr) = recv MAX_MSG inp;
     s1 = (if n < 1 then s\<lparr>g_runnow := (g_runnow s + 1) mod 3\<rparr> else s)
     in do {
       (prv, bo, opened) \<leftarrow> s2_open X inp s;
       let s2 = s1\<lparr>srv_prv := prv, bufout2 := bo\<rparr>;
       (case opened of None \<Rightarrow> Some s2
        | Some (n1, m, out) \<Rightarrow> do {
            type \<leftarrow> get_byte m off_type;
            (if type = msg_type MSG_TRA then do {
               (done, T) \<leftarrow> hl_track_msg (list_reg_dev s2) m cliaddr;
               Some (s2\<lparr>list_reg_dev := T\<rparr>) }
             else Some s2) }) })"

text \<open>The flush at the end of each turn.\<close>

definition s2_flush ::
  "('k, 'c) ext \<Rightarrow> (nat \<Rightarrow> bool) \<Rightarrow> 'k server \<Rightarrow> (fwd_result \<times> 'k server) option" where
  "s2_flush X ok s = do {
     (r, q) \<leftarrow> send_to_dst X (list_reg_dev s) ok (Some (imd_fwd_lt s)) True;
     q1 \<leftarrow> q;
     Some (r, s\<lparr>imd_fwd_lt := q1\<rparr>) }"

section \<open>The loop of the main thread\<close>

text \<open>
  The answer to a key request: the route is turned, the length field set to 48, and the AES key and
  IV are copied behind the \<open>n\<close> bytes of the message.
\<close>

definition attach_key :: "bytes \<Rightarrow> int \<Rightarrow> MSG_ROUTE \<Rightarrow> bytes option" where
  "attach_key m n r = do {
     m1 \<leftarrow> put_byte m off_ifroute (msg_route r);
     m2 \<leftarrow> set_u16 m1 off_len (of_nat (AES_BYTES + AES_IV_BYTES));
     m3 \<leftarrow> mem_write m2 (nat n) (take AES_BYTES aes_key);
     mem_write m3 (nat n + AES_BYTES) (take AES_IV_BYTES aes_iv) }"

text \<open>What main does with an opened message: the buffer and the list afterwards.\<close>

definition s1_dispatch :: "bytes \<Rightarrow> int \<Rightarrow> HASH_ITEM list \<Rightarrow> (bytes \<times> HASH_ITEM list) option" where
  "s1_dispatch m n q = do {
     r \<leftarrow> get_byte m off_ifroute;
     type \<leftarrow> get_byte m off_type;
     (if r = msg_route G_NTF_CLI \<or> r = msg_route G_CLI_NTF then
        (if type = msg_type MSG_NTF then do {
           (err, l) \<leftarrow> add_to_item_list m (Some q) n;
           q1 \<leftarrow> l;
           Some (m, q1) }
         else Some (m, q))
      else if r = msg_route G_CLI_SRV then do {
        m1 \<leftarrow> attach_key m n F_SRV_CLI;
        (err, l) \<leftarrow> add_to_item_list m1 (Some q) (n + int (AES_BYTES + AES_IV_BYTES));
        q1 \<leftarrow> l;
        Some (m1, q1) }
      else if r = msg_route G_NTF_SRV then do {
        m1 \<leftarrow> attach_key m n F_SRV_NTF;
        (err, l) \<leftarrow> add_to_item_list m1 (Some q) (n + int (AES_BYTES + AES_IV_BYTES));
        q1 \<leftarrow> l;
        Some (m1, q1) }
      else Some (m, q)) }"

definition s1_open ::
  "('k, 'c) ext \<Rightarrow> (sockaddr_in \<times> bytes) option \<Rightarrow> 'k server \<Rightarrow>
     ('k option \<times> bytes \<times> (int \<times> bytes \<times> bool) option) option" where
  "s1_open X inp s = (let (n, buffer, cliaddr) = recv (MAX_MSG + 1) inp
     in if n < 1 then Some (srv_prv s, bufout1 s, None)
        else if n < int sizeof_MSG_COMMON then Some (srv_prv s, bufout1 s, None)
        else open_msg X (buffer ! (nat n - 1)) n buffer (bufout1 s) (srv_prv s))"

definition s1_turn ::
  "('k, 'c) ext \<Rightarrow> (sockaddr_in \<times> bytes) option \<Rightarrow> 'k server \<Rightarrow> 'k server option" where
  "s1_turn X inp s = do {
     (prv, bo, opened) \<leftarrow> s1_open X inp s;
     let s1 = s\<lparr>srv_prv := prv, bufout1 := bo\<rparr>;
     (case opened of None \<Rightarrow> Some s1
      | Some (n1, m, out) \<Rightarrow> do {
          txt \<leftarrow> dum_msg (Some m) ''server.c'' ''main'' 352;
          (m1, q) \<leftarrow> s1_dispatch m n1 (imd_fwd_lt s1);
          Some (s1\<lparr>imd_fwd_lt := q, bufout1 := (if out then m1 else bo)\<rparr>) }) }"

text \<open>The process starts with an empty list; the device table is what \<^verbatim>\<open>load_reg_list\<close> made.\<close>

definition server_start :: "table \<Rightarrow> bytes \<Rightarrow> bytes \<Rightarrow> 'k server" where
  "server_start T b1 b2 = \<lparr>g_waiting = 1, g_runnow = 0, list_reg_dev = T, imd_fwd_lt = [], srv_prv = None,
     bufout1 = b1, bufout2 = b2\<rparr>"

section \<open>Which messages the dump can print\<close>

definition ids_ended :: "bytes \<Rightarrow> bool" where
  "ids_ended m \<longleftrightarrow> 0 \<in> set (take (Suc LEN_DEVID) (drop off_dev_id m))
     \<and> 0 \<in> set (take (Suc LEN_DEVID) (drop off_ntf_id m))"

definition header_ok :: "bytes \<Rightarrow> bool" where
  "header_ok m \<longleftrightarrow> sizeof_MSG_COMMON \<le> length m \<and> unat (m ! off_type) < 5 \<and> unat (m ! off_ifroute) < 6
     \<and> ids_ended m"

lemma str_at_id:
  assumes "0 \<in> set (take (Suc LEN_DEVID) (drop off m))"
  shows "\<exists>d. str_at m off = Some d \<and> length d \<le> LEN_DEVID"
  using id_key_str [OF assms] by (auto simp: str_at_def)

lemma arr_2_uint_total:
  "length a = 2 \<Longrightarrow> \<exists>v. arr_2_uint16 (Some a) (Some 0) 2 = Some (0, Some v)"
  "length b = 8 \<Longrightarrow> \<exists>w. arr_2_uint64 (Some b) (Some 0) 8 = Some (0, Some w)"
proof -
  show "length a = 2 \<Longrightarrow> \<exists>v. arr_2_uint16 (Some a) (Some 0) 2 = Some (0, Some v)"
    using get_le_bits [where 'a = 16 and 'b = 32, of 0 2 a 0] by (auto simp: arr_2_uint16_def)
  show "length b = 8 \<Longrightarrow> \<exists>w. arr_2_uint64 (Some b) (Some 0) 8 = Some (0, Some w)"
    using get_le_bits [where 'a = 64 and 'b = 64, of 0 8 b 0] by (auto simp: arr_2_uint64_def)
qed

lemma put_txt_ok: "length b + length t < 2048 \<Longrightarrow> put_txt b t = Some (b @ t)"
  by (simp add: put_txt_def)

lemma length_sdec: "length (sdec (sint (w :: 16 word))) \<le> 6"
proof -
  have "- 32768 \<le> sint w" "sint w < 32768"
    using sint_range_size [of w] by (auto simp: word_size)
  then have "length (dec (nat (- sint w))) \<le> 5" "length (dec (nat (sint w))) \<le> 5"
    by (auto intro!: length_dec)
  then show ?thesis by (auto simp: sdec_def)
qed

lemma dum_texts: "i < 5 \<Longrightarrow> length (dum_text ! i) \<le> 8" "j < 6 \<Longrightarrow> length (dum_ifr ! j) \<le> 70"
  by (auto simp: dum_text_def dum_ifr_def less_Suc_eq numeral_eq_Suc)

text \<open>A message with a sound header is printed inside the buffer of 2048 bytes.\<close>

lemma dum_msg_ok:
  assumes h: "header_ok m" and f: "length f + length fu \<le> 1000" and line: "line < 10 ^ 9"
  shows "\<exists>t. dum_msg (Some m) f fu line = Some t"
proof -
  have len: "sizeof_MSG_COMMON \<le> length m" using h by (simp add: header_ok_def)
  have tx: "elem_at dum_text (unat (m ! off_type)) = Some (dum_text ! unat (m ! off_type))"
    and ir: "elem_at dum_ifr (unat (m ! off_ifroute)) = Some (dum_ifr ! unat (m ! off_ifroute))"
    and txl: "length (dum_text ! unat (m ! off_type)) \<le> 8"
    and irl: "length (dum_ifr ! unat (m ! off_ifroute)) \<le> 70"
    using h dum_texts by (auto simp: header_ok_def elem_at_def dum_text_def dum_ifr_def)
  obtain d e where d: "str_at m off_dev_id = Some d" "length d \<le> LEN_DEVID"
    and e: "str_at m off_ntf_id = Some e" "length e \<le> LEN_DEVID"
    using h str_at_id [of off_dev_id m] str_at_id [of off_ntf_id m] by (auto simp: header_ok_def ids_ended_def)
  have hf: "\<exists>h. hash_func (drop off m) (int (length d)) = Some h" if "off \<le> off_ntf_id" for off
    using d(2) len that by (intro hash_func_total) simp
  obtain h1 h2 where h1: "hash_func (drop off_dev_id m) (int (length d)) = Some h1"
    and h2: "hash_func (drop off_ntf_id m) (int (length d)) = Some h2"
    using hf [of off_dev_id] hf [of off_ntf_id] by auto
  obtain v where v: "arr_2_uint16 (Some (take 2 (drop off_len m))) (Some 0) 2 = Some (0, Some v)"
    using arr_2_uint_total(1) [of "take 2 (drop off_len m)"] len by auto
  obtain w1 where w1: "arr_2_uint64 (Some (take 8 (drop off_second m))) (Some 0) 8 = Some (0, Some w1)"
    using arr_2_uint_total(2) [of "take 8 (drop off_second m)"] len by auto
  obtain w2 where w2: "arr_2_uint64 (Some (take 8 (drop off_nano m))) (Some 0) 8 = Some (0, Some w2)"
    using arr_2_uint_total(2) [of "take 8 (drop off_nano m)"] len by auto
  have digits: "length (dec (unat (x :: 'a::len word))) \<le> 20" if "LENGTH('a) \<le> 64" for x
  proof -
    have "unat x < 2 ^ LENGTH('a)" by (rule unsigned_less)
    also have "(2 :: nat) ^ LENGTH('a) \<le> 2 ^ 64" using that by (intro power_increasing) auto
    finally show ?thesis by (intro length_dec) simp_all
  qed
  have "length (dec line) \<le> 9" using line by (intro length_dec) simp_all
  moreover have "length (dec (unat h1)) \<le> 20" "length (dec (unat h2)) \<le> 20"
    "length (dec (unat w1)) \<le> 20" "length (dec (unat w2)) \<le> 20"
    by (rule digits; simp)+
  moreover have "get_byte m off_type = Some (m ! off_type)" "get_byte m off_ifroute = Some (m ! off_ifroute)"
    using len by (auto simp: get_byte_def)
  ultimately show ?thesis
    using f txl irl d e length_sdec [of v]
    by (simp add: dum_msg_def tx ir [unfolded One_nat_def] h1 h2 v w1 w2 put_txt_ok Let_def)
qed

section \<open>Opening stays in bounds\<close>

text \<open>
  What OpenSSL documents: decrypting gives at most \<^verbatim>\<open>RSA_size\<close> - 11 bytes and refuses an input
  length that is not positive; GCM decryption writes as many bytes as it reads, and the final call
  none.
\<close>

definition rsa_plain :: "('k, 'c) ext \<Rightarrow> bool" where
  "rsa_plain X \<longleftrightarrow> (\<forall>k n c m. x_rsa_private_decrypt X k n c = Some m \<longrightarrow>
     0 < n \<and> int (length m) + 11 \<le> x_rsa_size X k \<and> x_rsa_size X k \<le> int MAX_MSG)"

definition gcm_lengths :: "('k, 'c) ext \<Rightarrow> bool" where
  "gcm_lengths X \<longleftrightarrow> x_evp_new X \<noteq> None \<and> (\<forall>c ct. length (fst (x_dec_update X c ct)) = length ct)
     \<and> (\<forall>c. snd (x_dec_final X c) = [])"

lemma gcm_decrypt_total:
  assumes "gcm_lengths X"
  shows "\<exists>r pt. gcm_decrypt X ct aad tag key iv l = Some (r, pt) \<and> length pt = length ct
    \<and> (r = int (length ct) \<or> r = -1)"
proof -
  obtain c where c: "x_evp_new X = Some c" using assms by (auto simp: gcm_lengths_def)
  have "length (fst (x_dec_update X e i)) = length i" "snd (x_dec_final X e) = []" for e i
    using assms by (auto simp: gcm_lengths_def)
  then show ?thesis
    by (simp add: gcm_decrypt_def c Let_def case_prod_beta)
qed

lemma get_srv_prv_total: "\<exists>k. get_srv_prv X p = Some k"
  using file_2_rsa_total [of "x_pem_prv X" X "Some (lit ''srv-private-key.pem'')" None]
  by (auto simp: get_srv_prv_def file_2_prvrsa_def split: option.splits)

lemma rsa_dec_total:
  assumes "rsa_plain X" and "nat l \<le> length i" and "0 < l \<or> l < 0"
  shows "\<exists>rc out ln. rsa_dec X (Some k) (Some i) (Some None) l (Some 0) = Some (rc, out, Some ln)
    \<and> (\<forall>buf. out = Some buf \<longrightarrow> 0 \<le> ln \<and> ln \<le> int MAX_MSG - 11 \<and> nat ln \<le> length buf)"
proof (cases "x_rsa_size X k < 1 \<or> x_rsa_private_decrypt X k l (take (nat l) i) = None")
  case True
  with assms(2) show ?thesis by (auto simp: rsa_dec_def mem_read_def Let_def)
next
  case False
  then obtain m where m: "x_rsa_private_decrypt X k l (take (nat l) i) = Some m"
    and blk: "0 < x_rsa_size X k" by auto
  then have le: "0 < l" "int (length m) + 11 \<le> x_rsa_size X k" "x_rsa_size X k \<le> int MAX_MSG"
    using assms(1) by (auto simp: rsa_plain_def)
  have "nat (x_rsa_size X k) + 1 \<le> nat (rsa_buflen l (x_rsa_size X k))"
    using rsa_buflen_enough(1) [of "nat l" "nat (x_rsa_size X k)"] le(1) blk by simp
  then have "length m \<le> nat (rsa_buflen l (x_rsa_size X k))" using le(2) by linarith
  with m le blk assms(2) show ?thesis
    by (auto simp: rsa_dec_def mem_read_def mem_write_def Let_def)
qed

text \<open>
  The message of an unauthenticated datagram ends in a NUL whenever the buffer does; a message out
  of the AES envelope lies in \<open>bufout\<close>, whose end is whatever was there.
\<close>

lemma open_msg_total:
  assumes X: "rsa_plain X" "gcm_lengths X" and len: "length buffer = MAX_MSG + 1" "length bufout = MAX_MSG + 1"
    and n: "n = -1 \<or> 1 < n \<and> n \<le> int MAX_MSG + 1"
  shows "\<exists>prv bo opened. open_msg X enc n buffer bufout p = Some (prv, bo, opened)
    \<and> length bo = MAX_MSG + 1
    \<and> (\<forall>n1 m out. opened = Some (n1, m, out) \<longrightarrow> length m = MAX_MSG + 1 \<and> n1 \<le> int MAX_MSG + 1
        \<and> (n1 < 0 \<longrightarrow> n = -1) \<and> (out \<longrightarrow> bo = m) \<and> (\<not> out \<and> last buffer = 0 \<longrightarrow> last m = 0))"
proof -
  consider (rsa) "enc = enc_mark ENCRYPT_SRV_PUB" | (aes) "enc = enc_mark ENCRYPT_AES"
    | (plain) "enc \<noteq> enc_mark ENCRYPT_SRV_PUB" "enc \<noteq> enc_mark ENCRYPT_AES" by blast
  then show ?thesis
  proof cases
    case rsa
    obtain prv where prv: "get_srv_prv X p = Some prv" using get_srv_prv_total by blast
    show ?thesis
    proof (cases prv)
      case None
      with rsa prv len show ?thesis by (simp add: open_msg_def)
    next
      case (Some k)
      have "nat (n - 1) \<le> length buffer" "0 < n - 1 \<or> n - 1 < 0" using n len by auto
      from rsa_dec_total [OF X(1) this, of k] obtain rc out ln where
        d: "rsa_dec X (Some k) (Some buffer) (Some None) (n - 1) (Some 0) = Some (rc, out, Some ln)"
        "\<And>buf. out = Some buf \<Longrightarrow> 0 \<le> ln \<and> ln \<le> int MAX_MSG - 11 \<and> nat ln \<le> length buf" by blast
      with rsa prv Some len n show ?thesis
        by (cases out) (auto simp: open_msg_def mem_read_def mem_write_def)
    qed
  next
    case aes
    show ?thesis
    proof (cases "n < 17")
      case True
      with aes len show ?thesis by (auto simp: open_msg_def msg_aes_dec_def)
    next
      case False
      let ?k = "nat n - 17"
      obtain r pt where g: "gcm_decrypt X (take ?k buffer) (take 16 aes_iv) (take 16 (drop ?k buffer))
          aes_key (take 16 aes_iv) 16 = Some (r, pt)" "length pt = ?k" "r = int ?k \<or> r = -1"
        using gcm_decrypt_total [OF X(2), of "take ?k buffer" "take 16 aes_iv" "take 16 (drop ?k buffer)"
            aes_key "take 16 aes_iv" 16] n len False by auto
      with aes len n False show ?thesis
        by (auto simp: open_msg_def msg_aes_dec_def mem_read_def mem_write_def)
    qed
  next
    case plain
    with len n show ?thesis by (auto simp: open_msg_def)
  qed
qed

section \<open>Answering a key request\<close>

text \<open>the message queued for a request of \<open>n\<close> bytes: its data, then the AES key and IV\<close>

definition answer :: "bytes \<Rightarrow> nat \<Rightarrow> MSG_ROUTE \<Rightarrow> bytes" where
  "answer m n r = [m ! off_type, msg_route r] @ take 96 (drop off_dev_id m) @ [48, 0]
     @ take (n - sizeof_MSG_COMMON) (drop sizeof_MSG_COMMON m) @ aes_key @ take AES_IV_BYTES aes_iv"

lemma split_msg:
  fixes m :: bytes
  assumes "sizeof_MSG_COMMON \<le> n" and "n + 48 \<le> length m"
  obtains x y a l b c e where "m = [x, y] @ a @ l @ b @ c @ e" and "length a = 96" and "length l = 2"
    and "length b = n - sizeof_MSG_COMMON" and "length c = 48"
proof -
  obtain h r1 where m: "m = h @ r1" "length h = 2" using cut_list [of 2 m] assms by auto
  then obtain x y where h: "h = [x, y]" by (auto simp: numeral_2_eq_2 length_Suc_conv)
  obtain a r2 where a: "r1 = a @ r2" "length a = 96" using cut_list [of 96 r1] assms m by auto
  obtain l r3 where l: "r2 = l @ r3" "length l = 2" using cut_list [of 2 r2] assms m a by auto
  have "n - 100 \<le> length r3" using assms m a l by simp
  then obtain b r4 where b: "r3 = b @ r4" "length b = n - 100" by (rule cut_list)
  have "48 \<le> length r4" using assms m a l b by simp
  then obtain c e where c: "r4 = c @ e" "length c = 48" by (rule cut_list)
  show ?thesis using that [of x y a l b c e] m h a l b c by simp
qed

lemma attach_key_answer:
  assumes "sizeof_MSG_COMMON \<le> n" and "n + 48 \<le> length m"
  shows "attach_key m (int n) r = Some (answer m n r @ drop (n + 48) m)"
proof -
  obtain x y a l b c e where m: "m = [x, y] @ a @ l @ b @ c @ e" "length a = 96" "length l = 2"
    "length b = n - sizeof_MSG_COMMON" "length c = 48"
    using split_msg [OF assms] .
  have n: "n = 100 + length b" using m(4) assms(1) by simp
  have "le_bytes 2 (48 :: 32 word) = [48, 0]" by code_simp
  moreover have "nat (100 + int (length b)) = 100 + length b" by simp
  ultimately show ?thesis
    using m(2,3,5) unfolding m(1) n
    by (simp add: attach_key_def answer_def put_byte_def set_u16_eq mem_write_def take_Cons' drop_Cons')
qed

lemma length_answer: "n \<le> length m \<Longrightarrow> sizeof_MSG_COMMON \<le> n \<Longrightarrow> length (answer m n r) = n + 48"
  by (simp add: answer_def)

lemma ids_ended_cong: "take 81 (drop 2 m') = take 81 (drop 2 m) \<Longrightarrow> ids_ended m' = ids_ended m"
proof -
  assume a: "take 81 (drop 2 m') = take 81 (drop 2 m)"
  have 1: "take (Suc LEN_DEVID) (drop off_dev_id x) = take (Suc LEN_DEVID) (take 81 (drop 2 x))" for x :: bytes
    by simp
  have 2: "take (Suc LEN_DEVID) (drop off_ntf_id x) = drop 40 (take 81 (drop 2 x))" for x :: bytes
    by (simp add: drop_take)
  show ?thesis unfolding ids_ended_def 1 2 a ..
qed

section \<open>The invariant of the server\<close>

text \<open>an opened message the main thread can handle: a printable header and room for the key\<close>

definition s1_msg_ok :: "int \<Rightarrow> bytes \<Rightarrow> bool" where
  "s1_msg_ok n m \<longleftrightarrow> header_ok m \<and> int sizeof_MSG_COMMON \<le> n
     \<and> (m ! off_ifroute = msg_route G_CLI_SRV \<longrightarrow> n + 48 \<le> int MAX_MSG + 1)"

definition s1_clean :: "('k, 'c) ext \<Rightarrow> (sockaddr_in \<times> bytes) option \<Rightarrow> 'k server \<Rightarrow> bool" where
  "s1_clean X inp s =
     (case s1_open X inp s of Some (p, b, Some (n, m, out)) \<Rightarrow> s1_msg_ok n m | _ \<Rightarrow> True)"

text \<open>
  The sending thread can handle every datagram, except a message out of the AES envelope whose id is
  not ended anywhere in the buffer.
\<close>

definition s2_clean :: "('k, 'c) ext \<Rightarrow> (sockaddr_in \<times> bytes) option \<Rightarrow> 'k server \<Rightarrow> bool" where
  "s2_clean X inp s =
     (case s2_open X inp s of Some (p, b, Some (n, m, True)) \<Rightarrow> 0 \<in> set (drop off_dev_id m) | _ \<Rightarrow> True)"

definition srv_inv :: "bytes set \<Rightarrow> 'k server \<Rightarrow> bool" where
  "srv_inv A s \<longleftrightarrow> reg_inv (list_reg_dev s) \<and> dom (reg_abs (list_reg_dev s)) = A
     \<and> (\<forall>it \<in> set (imd_fwd_lt s). fwd_item it)
     \<and> length (bufout1 s) = MAX_MSG + 1 \<and> length (bufout2 s) = MAX_MSG + 1
     \<and> 0 \<le> g_runnow s \<and> g_runnow s < 3"

text \<open>what is assumed of OpenSSL\<close>

definition ssl_ok :: "('k, 'c) ext \<Rightarrow> bool" where
  "ssl_ok X \<longleftrightarrow> evp_gcm X \<and> rsa_blocks X \<and> rsa_plain X \<and> gcm_lengths X"

lemma fwd_item_queued:
  "fwd_item (queued m) \<longleftrightarrow> sizeof_MSG_COMMON \<le> length m \<and> length m \<le> MAX_MSG + 1 \<and> ids_ended m"
  by (auto simp: fwd_item_def queued_def ids_ended_def)

lemma ids_ended_take: "sizeof_MSG_COMMON \<le> n \<Longrightarrow> ids_ended (take n m) = ids_ended m"
  by (rule ids_ended_cong) (simp add: drop_take)

lemma ids_ended_answer:
  assumes "sizeof_MSG_COMMON \<le> length m"
  shows "ids_ended (answer m n r) = ids_ended m"
  using assms by (intro ids_ended_cong) (simp add: answer_def drop_Cons' min_def)

lemma id_key_answer: "sizeof_MSG_COMMON \<le> length m \<Longrightarrow> id_key (answer m n r) off_dev_id = id_key m off_dev_id"
  by (simp add: id_key_def answer_def min_def)

lemma answer_data:
  "sizeof_MSG_COMMON \<le> n \<Longrightarrow> n \<le> length m \<Longrightarrow> drop n (answer m n r) = aes_key @ take AES_IV_BYTES aes_iv"
  by (simp add: answer_def drop_Cons' min_def)

lemma add_queued:
  "n \<le> length m \<Longrightarrow> add_to_item_list m (Some q) (int n) = Some (0, Some (queued (take n m) # q))"
  by (simp add: add_to_item_list_def mem_read_def queued_def)

text \<open>The dispatch, branch by branch.\<close>

lemma s1_dispatch_key:
  assumes "sizeof_MSG_COMMON \<le> n" and "n + 48 \<le> length m"
    and "m ! off_ifroute = msg_route G_CLI_SRV \<and> r = F_SRV_CLI
      \<or> m ! off_ifroute = msg_route G_NTF_SRV \<and> r = F_SRV_NTF"
  shows "s1_dispatch m (int n) q = Some (answer m n r @ drop (n + 48) m, queued (answer m n r) # q)"
proof -
  have len: "length (answer m n r) = n + 48" using assms by (intro length_answer) auto
  have "get_byte m off_ifroute = Some (m ! off_ifroute)" "get_byte m off_type = Some (m ! off_type)"
    using assms(1,2) by (auto simp: get_byte_def)
  moreover have "add_to_item_list (answer m n r @ drop (n + 48) m) (Some q) (int n + 48)
      = Some (0, Some (queued (answer m n r) # q))"
    using add_queued [of "n + 48" "answer m n r @ drop (n + 48) m" q] len by simp
  ultimately show ?thesis
    using assms(3) attach_key_answer [OF assms(1,2)] by (auto simp: s1_dispatch_def)
qed

lemma s1_dispatch_other:
  assumes "sizeof_MSG_COMMON \<le> n" and "n \<le> length m"
    and "m ! off_ifroute \<noteq> msg_route G_CLI_SRV" and "m ! off_ifroute \<noteq> msg_route G_NTF_SRV"
  shows "s1_dispatch m (int n) q = Some (m,
    if m ! off_type = msg_type MSG_NTF
      \<and> (m ! off_ifroute = msg_route G_NTF_CLI \<or> m ! off_ifroute = msg_route G_CLI_NTF)
    then queued (take n m) # q else q)"
proof -
  have "get_byte m off_ifroute = Some (m ! off_ifroute)" "get_byte m off_type = Some (m ! off_type)"
    using assms(1,2) by (auto simp: get_byte_def)
  with assms(3,4) add_queued [OF assms(2)] show ?thesis by (auto simp: s1_dispatch_def)
qed

lemma s1_dispatch_ok:
  assumes "s1_msg_ok n m" and "length m = MAX_MSG + 1" and "n \<le> int MAX_MSG + 1"
    and "\<forall>it \<in> set q. fwd_item it"
  shows "\<exists>m1 q1. s1_dispatch m n q = Some (m1, q1) \<and> length m1 = MAX_MSG + 1 \<and> (\<forall>it \<in> set q1. fwd_item it)"
proof -
  obtain k where k: "n = int k" "sizeof_MSG_COMMON \<le> k" "k \<le> MAX_MSG + 1"
    using assms(1,3) by (intro that [of "nat n"]) (auto simp: s1_msg_ok_def)
  have ids: "ids_ended m" and r6: "unat (m ! off_ifroute) < 6"
    using assms(1) by (auto simp: s1_msg_ok_def header_ok_def)
  show ?thesis
  proof (cases "m ! off_ifroute = msg_route G_CLI_SRV")
    case True
    then have "k + 48 \<le> length m" using assms(1,2) k(1) by (auto simp: s1_msg_ok_def)
    with True s1_dispatch_key [OF k(2), of m F_SRV_CLI q] k assms(2,4) ids
      length_answer [of k m F_SRV_CLI] ids_ended_answer [of m k F_SRV_CLI]
    show ?thesis by (auto simp: fwd_item_queued)
  next
    case False
    moreover have "m ! off_ifroute \<noteq> msg_route G_NTF_SRV" using r6 by auto
    ultimately show ?thesis
      using s1_dispatch_other [OF k(2), of m q] k assms(2,4) ids ids_ended_take [OF k(2), of m]
      by (auto simp: fwd_item_queued)
  qed
qed

lemma recv_facts:
  assumes "recv room inp = (n, buffer, a)" and "room \<le> MAX_MSG + 1"
  shows "length buffer = MAX_MSG + 1" and "n \<le> int room" and "n < 0 \<Longrightarrow> n = -1"
    and "room \<le> MAX_MSG \<Longrightarrow> last buffer = 0"
  using assms by (auto simp: recv_def Let_def min_def split: option.splits if_splits)

lemma s1_turn_ok:
  assumes X: "ssl_ok X" and I: "srv_inv A s" and C: "s1_clean X inp s"
  shows "\<exists>s'. s1_turn X inp s = Some s' \<and> srv_inv A s'"
proof -
  obtain n buffer a where rc: "recv (MAX_MSG + 1) inp = (n, buffer, a)" by (cases "recv (MAX_MSG + 1) inp")
  note f = recv_facts [OF rc order_refl]
  have X': "rsa_plain X" "gcm_lengths X" using X by (auto simp: ssl_ok_def)
  have "\<exists>prv bo opened. s1_open X inp s = Some (prv, bo, opened) \<and> length bo = MAX_MSG + 1
    \<and> (\<forall>n1 m out. opened = Some (n1, m, out) \<longrightarrow> length m = MAX_MSG + 1 \<and> n1 \<le> int MAX_MSG + 1)"
  proof (cases "n < int sizeof_MSG_COMMON")
    case True
    with rc I show ?thesis by (auto simp: s1_open_def srv_inv_def)
  next
    case False
    then show ?thesis
      using open_msg_total [OF X' f(1), of "bufout1 s" n "buffer ! (nat n - 1)" "srv_prv s"] f(2) I rc
      by (auto simp: s1_open_def srv_inv_def)
  qed
  then obtain prv bo opened where o: "s1_open X inp s = Some (prv, bo, opened)" "length bo = MAX_MSG + 1"
    "\<And>n1 m out. opened = Some (n1, m, out) \<Longrightarrow> length m = MAX_MSG + 1 \<and> n1 \<le> int MAX_MSG + 1" by blast
  show ?thesis
  proof (cases opened)
    case None
    with o I show ?thesis by (auto simp: s1_turn_def srv_inv_def)
  next
    case (Some x)
    then obtain n1 m out where x: "opened = Some (n1, m, out)" by (cases x) auto
    have ok: "s1_msg_ok n1 m" using C o(1) x by (simp add: s1_clean_def)
    obtain t where t: "dum_msg (Some m) ''server.c'' ''main'' 352 = Some t"
      using dum_msg_ok [of m "''server.c''" "''main''" 352] ok by (auto simp: s1_msg_ok_def)
    have "\<forall>it \<in> set (imd_fwd_lt s). fwd_item it" using I by (simp add: srv_inv_def)
    then obtain m1 q1 where d: "s1_dispatch m n1 (imd_fwd_lt s) = Some (m1, q1)" "length m1 = MAX_MSG + 1"
      "\<forall>it \<in> set q1. fwd_item it"
      using s1_dispatch_ok [OF ok] o(3) [OF x] by blast
    with o(1,2) x t I show ?thesis by (auto simp: s1_turn_def srv_inv_def)
  qed
qed

lemma zero_in_drop: "last m = 0 \<Longrightarrow> 2 < length m \<Longrightarrow> 0 \<in> set (drop off_dev_id m)"
  by (metis last_drop last_in_set drop_eq_Nil not_le)

lemma s2_recv_ok:
  assumes X: "ssl_ok X" and I: "srv_inv A s" and C: "inp \<noteq> None" "s2_clean X inp s"
  shows "\<exists>s'. s2_recv X inp s = Some s' \<and> srv_inv A s'"
proof -
  obtain n buffer a where rc: "recv MAX_MSG inp = (n, buffer, a)" by (cases "recv MAX_MSG inp")
  have "MAX_MSG \<le> MAX_MSG + 1" by simp
  note f = recv_facts [OF rc this]
  have X': "rsa_plain X" "gcm_lengths X" using X by (auto simp: ssl_ok_def)
  have "\<exists>prv bo opened. s2_open X inp s = Some (prv, bo, opened) \<and> length bo = MAX_MSG + 1
    \<and> (\<forall>n1 m out. opened = Some (n1, m, out) \<longrightarrow> length m = MAX_MSG + 1 \<and> (\<not> out \<longrightarrow> last m = 0))"
  proof (cases "n < int sizeof_MSG_COMMON")
    case True
    moreover have "0 \<le> n" using rc C(1) by (auto simp: recv_def Let_def)
    ultimately show ?thesis using rc I by (auto simp: s2_open_def srv_inv_def)
  next
    case False
    then show ?thesis
      using open_msg_total [OF X' f(1), of "bufout2 s" n "buffer ! (nat n - 1)" "srv_prv s"] f(2,4) I rc
      by (auto simp: s2_open_def srv_inv_def)
  qed
  then obtain prv bo opened where o: "s2_open X inp s = Some (prv, bo, opened)" "length bo = MAX_MSG + 1"
    "\<And>n1 m out. opened = Some (n1, m, out) \<Longrightarrow> length m = MAX_MSG + 1 \<and> (\<not> out \<longrightarrow> last m = 0)" by blast
  have run: "0 \<le> (g_runnow s + 1) mod 3 \<and> (g_runnow s + 1) mod 3 < 3" by simp
  show ?thesis
  proof (cases opened)
    case None
    with o rc I run show ?thesis by (auto simp: s2_recv_def srv_inv_def)
  next
    case (Some x)
    then obtain n1 m out where x: "opened = Some (n1, m, out)" by (cases x) auto
    have len: "length m = MAX_MSG + 1" using o(3) x by blast
    have "0 \<in> set (drop off_dev_id m)"
      using C(2) o x len zero_in_drop [of m] by (cases out) (auto simp: s2_clean_def)
    moreover have "reg_inv (list_reg_dev s)" using I by (simp add: srv_inv_def)
    ultimately obtain r T where "hl_track_msg (list_reg_dev s) m a = Some (r, T)" "reg_inv T"
      "dom (reg_abs T) = dom (reg_abs (list_reg_dev s))"
      using hl_track_any [of "list_reg_dev s" m a] len by auto
    moreover have "get_byte m off_type = Some (m ! off_type)" using len by (simp add: get_byte_def)
    ultimately show ?thesis using o rc I run x by (auto simp: s2_recv_def srv_inv_def Let_def)
  qed
qed

lemma s2_flush_ok:
  assumes "ssl_ok X" and "srv_inv A s"
  shows "\<exists>r s'. s2_flush X ok s = Some (r, s') \<and> srv_inv A s' \<and> imd_fwd_lt s' = []"
proof -
  have "reg_inv (list_reg_dev s)" "evp_gcm X" "rsa_blocks X" "\<forall>it \<in> set (imd_fwd_lt s). fwd_item it"
    using assms by (auto simp: ssl_ok_def srv_inv_def)
  from fwd_loop_total [OF this, of 0 ok True 0 None 0 "[]"] assms(2) show ?thesis
    by (auto simp: s2_flush_def send_to_dst_def srv_inv_def)
qed

section \<open>The two threads\<close>

text \<open>
  What can happen to the process: a turn of the main loop with a datagram or without one, a turn of the
  sending thread up to its flush, the flush with the results of its calls of \<^verbatim>\<open>sendto\<close>, a signal.
\<close>

datatype event = Main "(sockaddr_in \<times> bytes) option" | Recv "(sockaddr_in \<times> bytes) option"
  | Flush "nat \<Rightarrow> bool" | Signal int int nat nat

text \<open>
  The steps of the process, in any order and with any datagrams; a turn that is undefined leads to
  \<^term>\<open>None\<close>. The table is written by the sending thread only, and the list is pushed and emptied under
  the mutex, so each step is atomic for the other thread.
\<close>

inductive srv_step :: "('k, 'c) ext \<Rightarrow> event \<Rightarrow> 'k server option \<Rightarrow> 'k server option \<Rightarrow> bool" for X where
  main_turn: "srv_step X (Main inp) (Some s) (s1_turn X inp s)"
| thread_recv: "srv_step X (Recv inp) (Some s) (s2_recv X inp s)"
| thread_flush: "srv_step X (Flush ok) (Some s) (map_option snd (s2_flush X ok s))"
| signal: "handler main_pid si_pid self rt s = (b, s') \<Longrightarrow> srv_step X (Signal main_pid si_pid self rt) (Some s) (Some s')"

inductive_simps srv_step_iff: "srv_step X ev (Some s) t"

text \<open>
  The events the program can handle in a state: in the main loop no datagram, or one with a header the
  dump can print and with room for the key; in the sending thread a datagram whose id is ended; the flush
  and the signals always.
\<close>

fun handled :: "('k, 'c) ext \<Rightarrow> event \<Rightarrow> 'k server \<Rightarrow> bool" where
  "handled X (Main inp) s = s1_clean X inp s"
| "handled X (Recv inp) s = (inp \<noteq> None \<and> s2_clean X inp s)"
| "handled X (Flush ok) s = True"
| "handled X (Signal main_pid si_pid self rt) s = True"

definition srv_run :: "('k, 'c) ext \<Rightarrow> 'k server option \<Rightarrow> 'k server option \<Rightarrow> bool" where
  "srv_run X t t' \<longleftrightarrow> ssl_ok X \<and> (\<exists>s ev. t = Some s \<and> handled X ev s \<and> srv_step X ev t t')"

definition srv_start :: "bytes set \<Rightarrow> 'k server \<Rightarrow> bool" where
  "srv_start A s \<longleftrightarrow> (\<exists>T b1 b2. s = server_start T b1 b2 \<and> reg_inv T \<and> dom (reg_abs T) = A
     \<and> length b1 = MAX_MSG + 1 \<and> length b2 = MAX_MSG + 1)"

lemma srv_step_inv:
  assumes "ssl_ok X" and "srv_inv A s" and "handled X ev s" and "srv_step X ev (Some s) t"
  shows "\<exists>s'. t = Some s' \<and> srv_inv A s'"
  using assms(4)
proof cases
  case (main_turn inp)
  with s1_turn_ok [OF assms(1,2), of inp] assms(3) show ?thesis by auto
next
  case (thread_recv inp)
  with s2_recv_ok [OF assms(1,2), of inp] assms(3) show ?thesis by auto
next
  case (thread_flush ok)
  with s2_flush_ok [OF assms(1,2), of ok] show ?thesis by auto
next
  case (signal main_pid si_pid self rt b s')
  with assms(2) show ?thesis by (auto simp: handler_def srv_inv_def split: if_splits)
qed

lemma srv_step_ex: "\<exists>t. srv_step X ev (Some s) t"
proof (cases ev)
  case (Signal m p self rt)
  then show ?thesis by (cases "handler m p self rt s") (auto simp: srv_step_iff)
qed (auto simp: srv_step_iff)

interpretation srv: invariant_system "\<lambda>t. \<exists>s. t = Some s \<and> srv_start A s" "srv_run X" "\<lambda>t. \<exists>s. t = Some s \<and> srv_inv A s"
  for A :: "bytes set" and X :: "('k, 'c) ext"
proof (unfold_locales, goal_cases)
  case (1 t)
  then show ?case by (auto simp: srv_start_def server_start_def srv_inv_def)
next
  case (2 t t')
  then show ?case using srv_step_inv unfolding srv_run_def by blast
qed

section \<open>Properties of the server\<close>

text \<open>
  The main loop indexes the tables of \<^verbatim>\<open>dum_msg\<close> with two bytes of the datagram: on a message
  whose type is not one of the five, or whose route is 6 or more, it reads outside them. Route 6 is
  \<^verbatim>\<open>G_NTF_SRV\<close>, the key request of every notifier.
\<close>

lemma dump_out_of_bounds:
  assumes "s1_open X inp s = Some (prv, bo, Some (n, m, out))"
    and "5 \<le> unat (m ! off_type) \<or> 6 \<le> unat (m ! off_ifroute)"
  shows "s1_turn X inp s = None"
proof -
  have "dum_msg (Some m) ''server.c'' ''main'' 352 = None"
  proof (rule ccontr)
    assume "dum_msg (Some m) ''server.c'' ''main'' 352 \<noteq> None"
    then obtain t ty r tx ir where "get_byte m off_type = Some ty" "get_byte m off_ifroute = Some r"
      "elem_at dum_text (unat ty) = Some tx" "elem_at dum_ifr (unat r) = Some ir"
      by (auto simp: dum_msg_def bind_eq_Some_conv Let_def)
    with assms(2) show False
      by (auto simp: get_byte_def elem_at_def dum_text_def dum_ifr_def split: if_splits)
  qed
  with assms(1) show ?thesis by (simp add: s1_turn_def)
qed

text \<open>
  C1. The server, on events it can handle. In every state that the two threads reach from the start in any
  order of such events (in the main loop no datagram or one with a printable header and, for the key request of a
  client, at most 1153 bytes; in the sending thread a datagram whose id is ended; flushes; signals) nothing was
  undefined, the table is well formed and holds exactly the devices loaded at the start, and every queued message
  can be forwarded or refused within the buffers. In such a state each further event of this kind has a step, and
  no step of it is undefined; and a flush empties the list. The restriction is needed: in each of these
  states an idle turn of the sending thread (\<^verbatim>\<open>recvfrom\<close> returns -1) is undefined, and so is a turn of the
  main loop on a message with route 6 (\<^verbatim>\<open>G_NTF_SRV\<close>, the key request of every notifier) or more, or with a type
  that is not one of the five.
\<close>

theorem server_invariant:
  assumes "ssl_ok X" and "reachable (\<lambda>t. \<exists>s. t = Some s \<and> srv_start A s) (srv_run X) t"
  shows "\<exists>s. t = Some s \<and> srv_inv A s
    \<and> (\<forall>ev. handled X ev s \<longrightarrow> (\<exists>t'. srv_step X ev t t') \<and> (\<forall>t'. srv_step X ev t t' \<longrightarrow> t' \<noteq> None))
    \<and> (\<forall>ok. \<exists>r s'. s2_flush X ok s = Some (r, s') \<and> imd_fwd_lt s' = [])
    \<and> srv_step X (Recv None) t None
    \<and> (\<forall>inp prv bo n m out. s1_open X inp s = Some (prv, bo, Some (n, m, out))
        \<and> (5 \<le> unat (m ! off_type) \<or> 6 \<le> unat (m ! off_ifroute)) \<longrightarrow> srv_step X (Main inp) t None)"
proof -
  obtain s where s: "t = Some s" "srv_inv A s" using srv.reachable_inv [OF assms(2)] by blast
  have "srv_step X (Recv None) (Some s) None"
    by (simp add: srv_step_iff s2_recv_def s2_open_def recv_def)
  moreover have "srv_step X (Main inp) (Some s) None"
    if "s1_open X inp s = Some (prv, bo, Some (n, m, out))" "5 \<le> unat (m ! off_type) \<or> 6 \<le> unat (m ! off_ifroute)"
    for inp prv bo n m out
    using srv_step.main_turn [of X inp s] dump_out_of_bounds [OF that] by simp
  ultimately show ?thesis
    using s srv_step_ex [of X _ s] srv_step_inv [OF assms(1) s(2)] s2_flush_ok [OF assms(1) s(2)] by blast
qed

text \<open>
  A key request of more than 1153 bytes makes the main loop copy the 48 bytes of key and IV over
  the end of its buffer.
\<close>

theorem s1_turn_key_overflow:
  assumes "s1_open X inp s = Some (prv, bo, Some (int n, m, out))" and "length m = MAX_MSG + 1"
    and "m ! off_ifroute = msg_route G_CLI_SRV" and "MAX_MSG + 1 < n + 48"
  shows "s1_turn X inp s = None"
proof -
  have "attach_key m (int n) F_SRV_CLI = None"
    using assms(2,4) by (auto simp: attach_key_def put_byte_def set_u16_eq mem_write_def)
  then have "s1_dispatch m (int n) q = None" for q
    using assms(2,3) by (simp add: s1_dispatch_def get_byte_def)
  with assms(1) show ?thesis by (simp add: s1_turn_def bind_eq_None_conv)
qed

text \<open>a message in the clear: type, route and device id, everything else zero\<close>

definition clear_msg :: "MSG_ENUM \<Rightarrow> MSG_ROUTE \<Rightarrow> bytes \<Rightarrow> bytes" where
  "clear_msg ty r idd = [msg_type ty, msg_route r] @ idd @ zeros 58"

abbreviation padded :: "bytes \<Rightarrow> bytes" where
  "padded m \<equiv> m @ zeros (MAX_MSG + 1 - length m)"

lemma recv_clear:
  assumes "length idd = LEN_DEVID" and "MAX_MSG \<le> room"
  shows "recv room (Some (a, clear_msg ty r idd)) = (100, padded (clear_msg ty r idd), a)"
  using assms by (simp add: recv_def clear_msg_def)

lemma clear_open:
  assumes "length idd = LEN_DEVID"
  shows "s1_open X (Some (a, clear_msg ty r idd)) s
      = Some (srv_prv s, bufout1 s, Some (100, padded (clear_msg ty r idd), False))"
    and "s2_open X (Some (a, clear_msg ty r idd)) s
      = Some (srv_prv s, bufout2 s, Some (100, padded (clear_msg ty r idd), False))"
  using assms by (simp_all add: s1_open_def s2_open_def recv_clear open_msg_def)
    (simp_all add: clear_msg_def nth_append)

lemma clear_header:
  assumes "length idd = LEN_DEVID"
  shows "padded (clear_msg ty r idd) ! off_type = msg_type ty"
    and "padded (clear_msg ty r idd) ! off_ifroute = msg_route r"
    and "length (padded (clear_msg ty r idd)) = MAX_MSG + 1"
    and "ids_ended (padded (clear_msg ty r idd))"
    and "id_key (padded (clear_msg ty r idd)) off_dev_id = c_str idd"
  using assms by (simp_all add: clear_msg_def ids_ended_def id_key_def)

lemma unat_type: "unat (msg_type ty) < 5"
  by (cases ty) auto

text \<open>Tracking in the clear moves a registered device to the sender's address.\<close>

lemma track_in_clear:
  assumes I: "srv_inv A s" and idd: "length idd = LEN_DEVID" "c_str idd \<in> A"
  shows "\<exists>s1. s2_recv X (Some (a, clear_msg MSG_TRA r idd)) s = Some s1
    \<and> reg_abs (list_reg_dev s1) = (reg_abs (list_reg_dev s))(c_str idd \<mapsto> a)
    \<and> reg_inv (list_reg_dev s1) \<and> imd_fwd_lt s1 = imd_fwd_lt s"
proof -
  let ?m = "padded (clear_msg MSG_TRA r idd)"
  have m: "?m ! off_type = msg_type MSG_TRA" "length ?m = MAX_MSG + 1" "ids_ended ?m"
    "id_key ?m off_dev_id = c_str idd"
    using clear_header [OF idd(1)] by auto
  have "good_id ?m" using m(2,3) by (simp add: good_id_def ids_ended_def)
  moreover have "dev_key ?m = c_str idd" using m(4) by (simp add: dev_key_id)
  moreover obtain b where "reg_abs (list_reg_dev s) (c_str idd) = Some b"
    using I idd(2) by (auto simp: srv_inv_def)
  ultimately obtain T where "hl_track_msg (list_reg_dev s) ?m a = Some (1, T)" "reg_inv T"
    "reg_abs T = (reg_abs (list_reg_dev s))(c_str idd \<mapsto> a)"
    using hl_track_known [of "list_reg_dev s" ?m b a] I by (auto simp: srv_inv_def)
  moreover have "get_byte ?m off_type = Some (msg_type MSG_TRA)" using m(1,2) by (simp add: get_byte_def)
  ultimately show ?thesis
    using idd(1) by (simp add: s2_recv_def recv_clear clear_open del: append_Cons)
qed

lemma key_request_in_clear:
  assumes idd: "length idd = LEN_DEVID"
  shows "\<exists>s1. s1_turn X (Some (b, clear_msg ty G_CLI_SRV idd)) s = Some s1
    \<and> list_reg_dev s1 = list_reg_dev s
    \<and> imd_fwd_lt s1 = queued (answer (padded (clear_msg ty G_CLI_SRV idd)) 100 F_SRV_CLI) # imd_fwd_lt s"
proof -
  let ?m = "padded (clear_msg ty G_CLI_SRV idd)"
  have "header_ok ?m"
    using clear_header [OF idd, of ty G_CLI_SRV] unat_type [of ty] by (simp add: header_ok_def)
  then obtain t where "dum_msg (Some ?m) ''server.c'' ''main'' 352 = Some t"
    using dum_msg_ok [of ?m "''server.c''" "''main''" 352] by auto
  moreover have "s1_dispatch ?m (int 100) (imd_fwd_lt s) =
      Some (answer ?m 100 F_SRV_CLI @ drop (100 + 48) ?m, queued (answer ?m 100 F_SRV_CLI) # imd_fwd_lt s)"
    using clear_header [OF idd, of ty G_CLI_SRV] by (intro s1_dispatch_key) auto
  ultimately show ?thesis
    using idd by (simp add: s1_turn_def clear_open)
qed

text \<open>The message queued last is the first one a flush sends, if it can be delivered.\<close>

lemma flush_first:
  assumes X: "ssl_ok X" and I: "reg_inv (list_reg_dev s)" "\<forall>it \<in> set q. fwd_item it"
    and q: "imd_fwd_lt s = queued m # q" and item: "fwd_item (queued m)"
    and d: "deliver X (reg_abs (list_reg_dev s)) (queued m) = Some (a, d)"
  shows "\<exists>r s' more. s2_flush X ok s = Some (r, s') \<and> fw_calls r = (a, d) # more"
proof -
  have ext: "evp_gcm X" "rsa_blocks X" using X by (auto simp: ssl_ok_def)
  obtain sn where sent: "fwd_loop X (list_reg_dev s) ok True 0 0 None 0 [] (imd_fwd_lt s)
      = fwd_loop X (list_reg_dev s) ok True 0 sn None (Suc 0) [(a, d)] q"
    using fwd_loop_sent [OF I(1) ext item d, of ok 0 0 "[]" q] q by auto
  have "\<forall>it \<in> set (imd_fwd_lt s). fwd_item it" using I(2) item q by auto
  from fwd_loop_total [OF I(1) ext this, of 0 ok True 0 None 0 "[]"] obtain r where
    r: "fwd_loop X (list_reg_dev s) ok True 0 0 None 0 [] (imd_fwd_lt s) = Some r" by auto
  then obtain more where "fw_calls r = [(a, d)] @ more" using fwd_loop_calls sent by metis
  with r show ?thesis by (auto simp: s2_flush_def send_to_dst_def)
qed

text \<open>
  C34. The key of the whole system is given away: in every state of the invariant, for every
  registered device, a datagram in the clear that claims to track it, from any address, followed by a
  datagram in the clear with route \<^verbatim>\<open>G_CLI_SRV\<close> and a type other than \<^verbatim>\<open>MSG_GET_AES\<close> (here
  \<^verbatim>\<open>MSG_REG\<close>), makes the next flush send the AES key and IV unencrypted to that address.
\<close>

theorem aes_key_disclosed:
  assumes "ssl_ok X" and "srv_inv A s" and "length idd = LEN_DEVID" and "c_str idd \<in> A"
  shows "\<exists>s1 s2 r s3 d more. s2_recv X (Some (a, clear_msg MSG_TRA G_NTF_CLI idd)) s = Some s1
    \<and> s1_turn X (Some (b, clear_msg MSG_REG G_CLI_SRV idd)) s1 = Some s2
    \<and> s2_flush X ok s2 = Some (r, s3) \<and> fw_calls r = (a, d) # more
    \<and> drop sizeof_MSG_COMMON d = aes_key @ take AES_IV_BYTES aes_iv"
proof -
  let ?m = "padded (clear_msg MSG_REG G_CLI_SRV idd)"
  let ?ans = "answer ?m 100 F_SRV_CLI"
  obtain s1 where s1: "s2_recv X (Some (a, clear_msg MSG_TRA G_NTF_CLI idd)) s = Some s1"
    "reg_abs (list_reg_dev s1) (c_str idd) = Some a" "reg_inv (list_reg_dev s1)" "imd_fwd_lt s1 = imd_fwd_lt s"
    using track_in_clear [OF assms(2-4), of X a G_NTF_CLI] by auto
  obtain s2 where s2: "s1_turn X (Some (b, clear_msg MSG_REG G_CLI_SRV idd)) s1 = Some s2"
    "list_reg_dev s2 = list_reg_dev s1" "imd_fwd_lt s2 = queued ?ans # imd_fwd_lt s"
    using key_request_in_clear [OF assms(3), of X b MSG_REG s1] s1(4) by auto
  have m: "?m ! off_type = msg_type MSG_REG" "length ?m = MAX_MSG + 1" "ids_ended ?m"
    "id_key ?m off_dev_id = c_str idd"
    using clear_header [OF assms(3)] by auto
  have len: "length ?ans = 148" using m(2) length_answer [of 100 ?m F_SRV_CLI] by simp
  have item: "fwd_item (queued ?ans)"
    using m(2,3) len ids_ended_answer [of ?m 100 F_SRV_CLI] by (simp add: fwd_item_queued)
  have key: "id_key ?ans off_dev_id = c_str idd" using m(2,4) id_key_answer [of ?m] by simp
  have "deliver X (reg_abs (list_reg_dev s2)) (queued ?ans) = Some (a, ?ans)"
    using s1(2) s2(2) key m(1) by (simp add: deliver_route queued_def route_off_def seal_def answer_def)
  moreover have "reg_inv (list_reg_dev s2)" "\<forall>it \<in> set (imd_fwd_lt s). fwd_item it"
    using assms(2) s1(3) s2(2) by (auto simp: srv_inv_def)
  ultimately obtain r s3 more where "s2_flush X ok s2 = Some (r, s3)" "fw_calls r = (a, ?ans) # more"
    using flush_first [OF assms(1) _ _ s2(3) item, of a ?ans ok] by blast
  moreover have "drop sizeof_MSG_COMMON ?ans = aes_key @ take AES_IV_BYTES aes_iv"
    using m(2) by (intro answer_data) simp_all
  ultimately show ?thesis using s1(1) s2(1) by blast
qed

section \<open>Instances\<close>

definition demo_server :: "nat server" where
  "demo_server = server_start demo_table (zeros (MAX_MSG + 1)) (zeros (MAX_MSG + 1))"

definition demo_id :: bytes where
  "demo_id = [112, 48] @ zeros 38"

lemma demo_ssl_ok: "ssl_ok demo_ext"
proof -
  have "rsa_plain demo_ext"
    by (auto simp: rsa_plain_def demo_ext_def split: if_splits list.splits)
  moreover have "gcm_lengths demo_ext" by (simp add: gcm_lengths_def demo_ext_def)
  ultimately show ?thesis by (simp add: ssl_ok_def demo_evp_gcm demo_rsa_blocks)
qed

lemma demo_start: "srv_start (dom (reg_abs demo_table)) demo_server"
  unfolding srv_start_def demo_server_def using demo_table_inv by (metis length_replicate)

lemma demo_inv: "srv_inv (dom (reg_abs demo_table)) demo_server"
  using srv.inv_start [of "Some demo_server"] demo_start by blast

theorem server_invariant_witness:
  "srv_inv (dom (reg_abs demo_table)) demo_server
    \<and> (\<exists>r s'. s2_flush demo_ext (\<lambda>_. True) demo_server = Some (r, s') \<and> imd_fwd_lt s' = [])
    \<and> srv_step demo_ext (Recv None) (Some demo_server) None
    \<and> (\<exists>s'. srv_step demo_ext (Main None) (Some demo_server) (Some s'))"
proof -
  have "handled demo_ext (Main None) demo_server" by (simp add: s1_clean_def s1_open_def recv_def)
  moreover have "reachable (\<lambda>t. \<exists>s. t = Some s \<and> srv_start (dom (reg_abs demo_table)) s) (srv_run demo_ext) (Some demo_server)"
    using demo_start by (auto intro: reachable.start)
  ultimately show ?thesis using server_invariant [OF demo_ssl_ok, of "dom (reg_abs demo_table)" "Some demo_server"] by blast
qed

lemma demo_id_facts: "length demo_id = LEN_DEVID" "c_str demo_id \<in> dom (reg_abs demo_table)"
proof -
  show "length demo_id = LEN_DEVID" by (simp add: demo_id_def)
  have "c_str demo_id = [112, 48]" by (simp add: demo_id_def c_str_def)
  then show "c_str demo_id \<in> dom (reg_abs demo_table)" using demo_table_abs(1) by auto
qed

theorem notifier_request_undefined:
  "s1_turn demo_ext (Some (zero_addr, clear_msg MSG_GET_AES G_NTF_SRV demo_id)) demo_server = None"
  by (rule dump_out_of_bounds [OF clear_open(1) [OF demo_id_facts(1)]])
    (use clear_header(2) [OF demo_id_facts(1), of MSG_GET_AES G_NTF_SRV] in simp)

theorem s1_turn_key_overflow_witness:
  "s1_turn demo_ext (Some (zero_addr, clear_msg MSG_REG G_CLI_SRV demo_id @ zeros 1054)) demo_server = None"
proof -
  let ?m = "clear_msg MSG_REG G_CLI_SRV demo_id @ zeros 1054 @ zeros 47"
  have "length (clear_msg MSG_REG G_CLI_SRV demo_id) = 100" "length demo_id = 40"
    by (simp_all add: clear_msg_def demo_id_facts)
  then have "s1_open demo_ext (Some (zero_addr, clear_msg MSG_REG G_CLI_SRV demo_id @ zeros 1054)) demo_server
      = Some (None, zeros (MAX_MSG + 1), Some (int 1154, ?m, False))"
    by (simp add: s1_open_def recv_def open_msg_def nth_append demo_server_def server_start_def)
  then show ?thesis
    by (rule s1_turn_key_overflow) (simp_all add: clear_msg_def demo_id_def)
qed

theorem aes_key_disclosed_witness:
  "\<exists>s1 s2 r s3 d more.
      s2_recv demo_ext (Some (\<lparr>sin_family = 2, sin_port = 6666, sin_addr = 7\<rparr>, clear_msg MSG_TRA G_NTF_CLI demo_id))
        demo_server = Some s1
    \<and> s1_turn demo_ext (Some (zero_addr, clear_msg MSG_REG G_CLI_SRV demo_id)) s1 = Some s2
    \<and> s2_flush demo_ext (\<lambda>_. True) s2 = Some (r, s3)
    \<and> fw_calls r = (\<lparr>sin_family = 2, sin_port = 6666, sin_addr = 7\<rparr>, d) # more
    \<and> drop sizeof_MSG_COMMON d = aes_key @ take AES_IV_BYTES aes_iv"
  by (rule aes_key_disclosed [OF demo_ssl_ok demo_inv demo_id_facts])

end
