(* ===== verification/Endpoints.thy ===== *)
theory Endpoints
  imports Server
begin

text \<open>
  The two programs that talk to the server: the device (\<^verbatim>\<open>notify.system/client.c\<close>) and the notifier
  (\<^verbatim>\<open>notify.system/notifier.c\<close>), with the calls of \<^verbatim>\<open>msg_notify.c\<close> they send with
  (\<^verbatim>\<open>send_msg_track\<close>, \<^verbatim>\<open>cmd_2_srv\<close>, \<^verbatim>\<open>get_aes256_key\<close>). What a call sends is a list of port
  and datagram; sockets, clocks and the results of system calls are arguments.
\<close>

section \<open>Requests to the server\<close>

abbreviation (input) PORT :: nat where "PORT \<equiv> 7770"
abbreviation (input) INTER_TRACK :: int where "INTER_TRACK \<equiv> 60"

text \<open>
  The block of \<^verbatim>\<open>rsa_len\<close> bytes goes to the start of the buffer, the mark behind it. An RSA failure
  leaves \<open>rsa_data\<close> null and \<open>rsa_len\<close> 0 with no error, so that the mark alone is sent.
\<close>

definition rsa_seal :: "bytes \<Rightarrow> bytes option \<Rightarrow> int \<Rightarrow> bytes option" where
  "rsa_seal buf out rsa_len = do {
     src \<leftarrow> (case out of None \<Rightarrow> Some [] | Some o1 \<Rightarrow> mem_read o1 0 (nat rsa_len));
     b1 \<leftarrow> mem_write buf 0 src;
     b2 \<leftarrow> put_byte b1 (nat rsa_len) (enc_mark ENCRYPT_SRV_PUB);
     mem_read b2 0 (nat rsa_len + 1) }"

text \<open>
  \<^verbatim>\<open>send_msg_track(iid, sockfd, ipaddr, port, t, key256, iv)\<close>: the return value and what is sent.
  \<open>iid\<close> is the memory the pointer points to: 40 bytes of it are copied. \<open>ok\<close> tells whether
  \<^verbatim>\<open>sendto\<close> succeeds. \<^verbatim>\<open>inet_addr\<close> is called on \<open>ipaddr\<close> before it is compared with null.
\<close>

definition send_msg_track ::
  "('k, 'c) ext \<Rightarrow> bool \<Rightarrow> bytes option \<Rightarrow> bytes option \<Rightarrow> timespec option \<Rightarrow> bytes option \<Rightarrow> bytes option \<Rightarrow>
     (int \<times> (nat \<times> bytes) list) option" where
  "send_msg_track X ok iid ipaddr t key256 iv =
     (case (ipaddr, t, iid) of
        (None, _, _) \<Rightarrow> None
      | (Some ip, Some ts, Some idm) \<Rightarrow> do {
          m0 \<leftarrow> put_time_to_msg (Some (zeros (MAX_MSG + 1))) (Some ts);
          m1 \<leftarrow> m0;
          m2 \<leftarrow> put_byte m1 off_type (msg_type MSG_TRA);
          idb \<leftarrow> mem_read idm 0 LEN_DEVID;
          buf \<leftarrow> mem_write m2 off_dev_id idb;
          (case key256 of
             None \<Rightarrow> do {
               (e, pubkey) \<leftarrow> file_2_pubrsa X (Some (lit ''srv-public-key.pem'')) (Some None);
               (case pubkey of None \<Rightarrow> Some (0, [])
                | Some k \<Rightarrow> do {
                    (err, out, l) \<leftarrow> rsa_enc X (Some k) buf (Some None) (int sizeof_MSG_COMMON) (Some 0);
                    rsa_len \<leftarrow> l;
                    (if err \<noteq> 0 \<or> rsa_len \<ge> int MAX_MSG then Some (0, [])
                     else do {
                       d \<leftarrow> rsa_seal buf out rsa_len;
                       Some (if ok then rsa_len + 1 else -1, [(PORT + 1, d)]) }) }) }
           | Some k \<Rightarrow> do {
               (err, b, l) \<leftarrow> msg_aes_enc X (Some buf) (Some (zeros (MAX_MSG + 1))) (Some k) iv
                 (int sizeof_MSG_COMMON) (Some 0) (int MAX_MSG + 1);
               n \<leftarrow> l;
               (if err \<noteq> 0 then Some (n, [])
                else do {
                  b1 \<leftarrow> b;
                  d \<leftarrow> mem_read b1 0 (nat n);
                  Some (if ok then n else -1, [(PORT + 1, d)]) }) }) }
      | _ \<Rightarrow> Some (0, []))"

text \<open>
  \<^verbatim>\<open>cmd_2_srv(cmd, r, data, len, idd, ip)\<close> with the descriptor \<^verbatim>\<open>socket\<close> returned, the time and the
  return value of \<^verbatim>\<open>close\<close>, which replaces the error code. The length \<open>n\<close> has 16 bits.
\<close>

definition cmd_2_srv ::
  "('k, 'c) ext \<Rightarrow> int \<Rightarrow> timespec \<Rightarrow> int \<Rightarrow> MSG_ENUM \<Rightarrow> MSG_ROUTE \<Rightarrow> bytes option \<Rightarrow> int \<Rightarrow> bytes \<Rightarrow>
     (int \<times> (nat \<times> bytes) list) option" where
  "cmd_2_srv X sockfd t close_rc cmd r data len idd =
     (if sockfd < 0 then Some (1, [])
      else do {
        m1 \<leftarrow> put_byte (zeros (MAX_MSG + 1)) off_type (msg_type cmd);
        m2 \<leftarrow> put_byte m1 off_ifroute (msg_route r);
        l \<leftarrow> c_strlen idd 0;
        idb \<leftarrow> mem_read idd 0 (min LEN_DEVID (l + 1));
        m3 \<leftarrow> mem_write m2 off_dev_id idb;
        (m4, n) \<leftarrow> (case data of None \<Rightarrow> Some (m3, of_nat sizeof_MSG_COMMON :: 16 word)
          | Some d \<Rightarrow>
            if len < 0 then None
            else do {
              src \<leftarrow> mem_read d 0 (nat len);
              x \<leftarrow> mem_write m3 sizeof_MSG_COMMON src;
              y \<leftarrow> set_u16 x off_len (of_int len);
              Some (y, of_nat sizeof_MSG_COMMON + of_int len) });
        m5 \<leftarrow> set_u64 m4 off_second (tv_sec t);
        m6 \<leftarrow> set_u64 m5 off_nano (tv_nsec t);
        txt \<leftarrow> dum_msg (Some m6) ''msg_notify.c'' ''cmd_2_srv'' 1319;
        (e, pubkey) \<leftarrow> file_2_pubrsa X (Some (lit ''srv-public-key.pem'')) (Some None);
        (err, out, ln) \<leftarrow> rsa_enc X pubkey m6 (Some None) (int (unat n)) (Some 0);
        rsa_len \<leftarrow> ln;
        calls \<leftarrow> (if err \<noteq> 0 \<or> rsa_len \<ge> int MAX_MSG then Some []
          else do { d \<leftarrow> rsa_seal m6 out rsa_len; Some [(PORT, d)] });
        Some (if sockfd > 0 then close_rc else err, calls) })"

text \<open>\<^verbatim>\<open>get_aes256_key(key, iv)\<close>: fresh copies of the server's key and IV\<close>

definition get_aes256_key ::
  "bytes option option \<Rightarrow> bytes option option \<Rightarrow> (int \<times> bytes option option \<times> bytes option option) option" where
  "get_aes256_key key iv =
     (case (key, iv) of
        (Some k, Some v) \<Rightarrow> do {
          k1 \<leftarrow> mem_read aes_key 0 32;
          v1 \<leftarrow> mem_read aes_iv 0 16;
          Some (0, Some (Some k1), Some (Some v1)) }
      | _ \<Rightarrow> Some (1, key, iv))"

section \<open>Opening a datagram from the server\<close>

text \<open>
  As in the server, with the key of this program and the private key file of the id \<open>cid\<close>. The
  result is \<open>bufout\<close> and the message: length, buffer, whether that is \<open>bufout\<close>.
\<close>

definition ep_open ::
  "('k, 'c) ext \<Rightarrow> bytes \<Rightarrow> byte \<Rightarrow> int \<Rightarrow> bytes \<Rightarrow> bytes \<Rightarrow> bytes \<Rightarrow> bytes \<Rightarrow>
     (bytes \<times> (int \<times> bytes \<times> bool) option) option" where
  "ep_open X cid enc n buffer bufout key iv =
     (if enc = enc_mark ENCRYPT_CLI_PUB then do {
        k \<leftarrow> get_cli_prv X cid;
        (rc, out, l) \<leftarrow> rsa_dec X k (Some buffer) (Some None) (n - 1) (Some 0);
        (case out of None \<Rightarrow> Some (bufout, Some (n, buffer, False))
         | Some o1 \<Rightarrow> do {
             outlen \<leftarrow> l;
             src \<leftarrow> mem_read o1 0 (nat outlen);
             b \<leftarrow> mem_write (zeros (MAX_MSG + 1)) 0 src;
             Some (bufout, Some (outlen, b, False)) }) }
      else if enc = enc_mark ENCRYPT_AES then do {
        (err, b, l) \<leftarrow> msg_aes_dec X (Some buffer) (Some bufout) (Some key) (Some iv) n (Some n)
          (int MAX_MSG + 1);
        b1 \<leftarrow> b;
        (if err \<noteq> 0 then Some (b1, None)
         else do { n1 \<leftarrow> l; Some (b1, Some (n1, b1, True)) }) }
      else Some (bufout, Some (n, buffer, False)))"

text \<open>the key and IV of a message whose length field says 48\<close>

definition take_key :: "bytes \<Rightarrow> (bytes \<times> bytes) option option" where
  "take_key m = do {
     f \<leftarrow> mem_read m off_len 2;
     (rc, sz) \<leftarrow> arr_2_uint16 (Some f) (Some 0) 2;
     w \<leftarrow> sz;
     (if unat w \<noteq> AES_BYTES + AES_IV_BYTES then Some None
      else do {
        k \<leftarrow> mem_read m sizeof_MSG_COMMON AES_BYTES;
        v \<leftarrow> mem_read m (sizeof_MSG_COMMON + AES_BYTES) AES_IV_BYTES;
        Some (Some (k, v)) }) }"

section \<open>The device\<close>

record client =
  got_aes :: bool
  aes256_key :: bytes
  aes256_iv :: bytes
  cl_bufout :: bytes
  interval :: int
  cl_t0 :: timespec

text \<open>\<^verbatim>\<open>send_msg_fb(msg, ip)\<close>: the header sealed with the key of the device\<close>

definition send_msg_fb ::
  "('k, 'c) ext \<Rightarrow> int \<Rightarrow> bool \<Rightarrow> bytes \<Rightarrow> bytes \<Rightarrow> bytes \<Rightarrow> (int \<times> (nat \<times> bytes) list) option" where
  "send_msg_fb X sk ok m key iv =
     (if sk < 0 then Some (0, [])
      else do {
        (err, b, l) \<leftarrow> msg_aes_enc X (Some m) (Some (zeros (MAX_MSG + 1))) (Some key) (Some iv)
          (int sizeof_MSG_COMMON) (Some 0) (int MAX_MSG + 1);
        n \<leftarrow> l;
        (if err \<noteq> 0 then Some (n, [])
         else do {
           b1 \<leftarrow> b;
           d \<leftarrow> mem_read b1 0 (nat n);
           Some (if ok then n else -1, [(PORT, d)]) }) })"

text \<open>
  What the device does with an opened message: it prints the data and the id, acknowledges a
  notification and takes over a key. The result is its state, the buffer and what it sends.
\<close>

definition client_handle ::
  "('k, 'c) ext \<Rightarrow> int \<Rightarrow> bool \<Rightarrow> bytes \<Rightarrow> client \<Rightarrow> (client \<times> bytes \<times> (nat \<times> bytes) list) option" where
  "client_handle X sk ok m c = do {
     r \<leftarrow> get_byte m off_ifroute;
     ty \<leftarrow> get_byte m off_type;
     dat \<leftarrow> str_at m sizeof_MSG_COMMON;
     (c1, m1, calls) \<leftarrow>
       (if r = msg_route G_NTF_CLI then do {
          txt \<leftarrow> dum_msg (Some m) ''client.c'' ''main'' 149;
          ma \<leftarrow> put_byte m off_ifroute (msg_route G_CLI_NTF);
          mb \<leftarrow> mem_write ma off_len (zeros 2);
          (n, cs) \<leftarrow> send_msg_fb X sk ok mb (aes256_key c) (aes256_iv c);
          Some (c, mb, cs) }
        else if r = msg_route F_SRV_CLI \<and> ty = msg_type MSG_GET_AES then do {
          kv \<leftarrow> take_key m;
          (case kv of None \<Rightarrow> Some (c, m, [])
           | Some (k, v) \<Rightarrow>
               Some (c\<lparr>aes256_key := k, aes256_iv := v, got_aes := True, interval := INTER_TRACK\<rparr>, m, [])) }
        else Some (c, m, []));
     did \<leftarrow> str_at m1 off_dev_id;
     Some (c1, m1, calls) }"

text \<open>the receiving half of a turn of the loop in \<^verbatim>\<open>main\<close>; \<open>cid\<close> is the id of the device\<close>

definition client_recv ::
  "('k, 'c) ext \<Rightarrow> bytes \<Rightarrow> int \<Rightarrow> bool \<Rightarrow> (sockaddr_in \<times> bytes) option \<Rightarrow> client \<Rightarrow>
     (client \<times> (nat \<times> bytes) list) option" where
  "client_recv X cid sk ok inp c = (let (n, buffer, a) = recv (MAX_MSG + 1) inp
     in if n < 1 then Some (c, [])
        else if n < int sizeof_MSG_COMMON then Some (c, [])
        else do {
          (bo, opened) \<leftarrow> ep_open X cid (buffer ! (nat n - 1)) n buffer (cl_bufout c) (aes256_key c) (aes256_iv c);
          let c0 = c\<lparr>cl_bufout := bo\<rparr>;
          (case opened of None \<Rightarrow> Some (c0, [])
           | Some (n1, m, out) \<Rightarrow> do {
               (c1, m1, calls) \<leftarrow> client_handle X sk ok m c0;
               Some (if out then c1\<lparr>cl_bufout := m1\<rparr> else c1, calls) }) })"

text \<open>
  The sending half: every \<open>interval\<close> seconds a tracking message, and a request for the key as long
  as there is none. \<open>cidm\<close> is the memory from the id on.
\<close>

definition client_tick ::
  "('k, 'c) ext \<Rightarrow> bytes \<Rightarrow> bytes \<Rightarrow> bool \<Rightarrow> int \<Rightarrow> int \<Rightarrow> timespec \<Rightarrow> client \<Rightarrow>
     (client \<times> (nat \<times> bytes) list) option" where
  "client_tick X cidm ip ok sk close_rc t1 c =
     (if sint (tv_sec t1 - tv_sec (cl_t0 c)) > interval c then do {
        let c1 = c\<lparr>cl_t0 := t1\<rparr>;
        (if \<not> got_aes c then do {
           (n, cs) \<leftarrow> send_msg_track X ok (Some cidm) (Some ip) (Some t1) None None;
           (err, cs2) \<leftarrow> cmd_2_srv X sk t1 close_rc MSG_GET_AES G_CLI_SRV None 0 cidm;
           Some (c1, cs @ cs2) }
         else do {
           (n, cs) \<leftarrow> send_msg_track X ok (Some cidm) (Some ip) (Some t1) (Some (aes256_key c)) (Some (aes256_iv c));
           Some (c1, cs) }) }
      else Some (c, []))"

section \<open>The notifier\<close>

record notifier =
  nf_got_aes :: bool
  nf_key :: bytes
  nf_iv :: bytes
  nf_bufout :: bytes
  nf_count :: int
  nf_t0 :: timespec

text \<open>
  The command line: what follows the prefix of \<open>pl\<close> characters is copied into a global array,
  without a look at the size of the array.
\<close>

definition copy_arg :: "bytes \<Rightarrow> bytes \<Rightarrow> nat \<Rightarrow> bytes option" where
  "copy_arg dst arg pl = (if length arg > pl then mem_write dst 0 (drop pl arg) else Some dst)"

abbreviation (input) note_text :: string where
  "note_text \<equiv> ''Nguyen Thai Thuan, Thanh Hong, Thanh Tam.''"

text \<open>\<^verbatim>\<open>notifier(ip)\<close>: what it sends; \<open>dev_iid\<close> and \<open>ntf_iid\<close> are the arrays of 40 bytes.\<close>

definition notifier_msg :: "timespec \<Rightarrow> bytes \<Rightarrow> bytes \<Rightarrow> bytes option" where
  "notifier_msg t dev_iid ntf_iid = do {
     m1 \<leftarrow> put_byte (zeros (MAX_MSG + 1)) off_type (msg_type MSG_NTF);
     m2 \<leftarrow> put_byte m1 off_ifroute (msg_route G_NTF_CLI);
     ld \<leftarrow> c_strlen dev_iid 0;
     db \<leftarrow> mem_read dev_iid 0 (min LEN_DEVID (ld + 1));
     m3 \<leftarrow> mem_write m2 off_dev_id db;
     ln \<leftarrow> c_strlen ntf_iid 0;
     nb \<leftarrow> mem_read ntf_iid 0 (min LEN_DEVID (ln + 1));
     m4 \<leftarrow> mem_write m3 off_ntf_id nb;
     m5 \<leftarrow> set_u16 m4 off_len (of_nat (MAX_MSG - sizeof_MSG_COMMON - 1 - AES_IV_BYTES));
     m6 \<leftarrow> mem_write m5 sizeof_MSG_COMMON (lit note_text @ [0]);
     m7 \<leftarrow> set_u64 m6 off_second (tv_sec t);
     set_u64 m7 off_nano (tv_nsec t) }"

definition notifier_send ::
  "('k, 'c) ext \<Rightarrow> timespec \<Rightarrow> bytes \<Rightarrow> bytes \<Rightarrow> notifier \<Rightarrow> ((nat \<times> bytes) list) option" where
  "notifier_send X t dev_iid ntf_iid s = do {
     m \<leftarrow> notifier_msg t dev_iid ntf_iid;
     txt \<leftarrow> dum_msg (Some m) ''notifier.c'' ''notifier'' 256;
     (if nf_got_aes s then do {
        (err, b, l) \<leftarrow> msg_aes_enc X (Some m) (Some (zeros (MAX_MSG + 1))) (Some (nf_key s)) (Some (nf_iv s))
          (int (MAX_MSG - AES_IV_BYTES)) (Some (int (MAX_MSG - sizeof_MSG_COMMON - 1 - AES_IV_BYTES)))
          (int MAX_MSG + 1);
        (if err \<noteq> 0 then Some []
         else do { b1 \<leftarrow> b; n \<leftarrow> l; d \<leftarrow> mem_read b1 0 (nat n); Some [(PORT, d)] }) }
      else do {
        m1 \<leftarrow> put_byte m MAX_MSG (enc_mark ENCRYPT_NON);
        Some [(PORT, m1)] }) }"

text \<open>The receiving half of its loop: a key that arrives is taken over and used at once.\<close>

definition notifier_recv ::
  "('k, 'c) ext \<Rightarrow> timespec \<Rightarrow> bytes \<Rightarrow> bytes \<Rightarrow> (sockaddr_in \<times> bytes) option \<Rightarrow> notifier \<Rightarrow>
     (notifier \<times> (nat \<times> bytes) list) option" where
  "notifier_recv X t dev_iid ntf_iid inp s = (let (n, buffer, a) = recv (MAX_MSG + 1) inp
     in if n < 1 then Some (s, [])
        else if n < int sizeof_MSG_COMMON then Some (s, [])
        else do {
          (bo, opened) \<leftarrow> ep_open X ntf_iid (buffer ! (nat n - 1)) n buffer (nf_bufout s) (nf_key s) (nf_iv s);
          let s0 = s\<lparr>nf_bufout := bo\<rparr>;
          (case opened of None \<Rightarrow> Some (s0, [])
           | Some (n1, m, out) \<Rightarrow> do {
               d1 \<leftarrow> str_at m off_dev_id;
               d2 \<leftarrow> str_at m off_ntf_id;
               r \<leftarrow> get_byte m off_ifroute;
               ty \<leftarrow> get_byte m off_type;
               (if r = msg_route F_SRV_NTF \<and> ty = msg_type MSG_GET_AES then do {
                  kv \<leftarrow> take_key m;
                  (case kv of None \<Rightarrow> Some (s0, [])
                   | Some (k, v) \<Rightarrow> do {
                       let s1 = s0\<lparr>nf_key := k, nf_iv := v, nf_got_aes := True\<rparr>;
                       cs \<leftarrow> notifier_send X t dev_iid ntf_iid s1;
                       Some (s1, cs) }) }
                else Some (s0, [])) }) })"

text \<open>
  The sending half: after three seconds, give up when 31 rounds with a key have passed (\<^term>\<open>None\<close>
  in the first component), else track and notify, or ask for the key.
\<close>

definition notifier_tick ::
  "('k, 'c) ext \<Rightarrow> bytes \<Rightarrow> bytes \<Rightarrow> bytes \<Rightarrow> bool \<Rightarrow> int \<Rightarrow> int \<Rightarrow> timespec \<Rightarrow> notifier \<Rightarrow>
     (notifier option \<times> (nat \<times> bytes) list) option" where
  "notifier_tick X dev_iid ntf_iid ip ok sk close_rc t1 s =
     (if sint (tv_sec t1 - tv_sec (nf_t0 s)) > 3 then
        (if nf_count s > 30 \<and> nf_got_aes s then Some (None, [])
         else do {
           let s1 = s\<lparr>nf_t0 := t1, nf_count := nf_count s + 1\<rparr>;
           (if nf_got_aes s then do {
              (n, cs) \<leftarrow> send_msg_track X ok (Some ntf_iid) (Some ip) (Some t1) (Some (nf_key s)) (Some (nf_iv s));
              cs2 \<leftarrow> notifier_send X t1 dev_iid ntf_iid s;
              Some (Some s1, cs @ cs2) }
            else do {
              (n, cs) \<leftarrow> send_msg_track X ok (Some ntf_iid) (Some ip) (Some t1) None None;
              (err, cs2) \<leftarrow> cmd_2_srv X sk t1 close_rc MSG_GET_AES G_NTF_SRV None 0 ntf_iid;
              Some (Some s1, cs @ cs2) }) })
      else Some (Some s, []))"

section \<open>What a request looks like\<close>

definition request :: "MSG_ENUM \<Rightarrow> MSG_ROUTE \<Rightarrow> bytes \<Rightarrow> timespec \<Rightarrow> bytes" where
  "request ty r k t = [msg_type ty, msg_route r] @ k @ zeros (LEN_DEVID - length k) @ zeros LEN_DEVID
     @ le_bytes 8 (tv_sec t) @ le_bytes 8 (tv_nsec t) @ zeros 2"

lemma length_request: "length k \<le> LEN_DEVID \<Longrightarrow> length (request ty r k t) = sizeof_MSG_COMMON"
  by (simp add: request_def)

lemma zeros_split: "zeros (MAX_MSG + 1) = [0, 0] @ zeros 40 @ zeros 40 @ zeros 8 @ zeros 8 @ zeros 2 @ zeros 1101"
proof -
  have "[0, 0] = zeros 2" by (simp add: numeral_2_eq_2)
  then show ?thesis by (simp add: replicate_add [symmetric])
qed

lemma request_built:
  assumes "length k < LEN_DEVID"
  shows "(do {
     m1 \<leftarrow> put_byte (zeros (MAX_MSG + 1)) off_type (msg_type ty);
     m2 \<leftarrow> put_byte m1 off_ifroute (msg_route r);
     m3 \<leftarrow> mem_write m2 off_dev_id (k @ [0]);
     m5 \<leftarrow> set_u64 m3 off_second (tv_sec t);
     set_u64 m5 off_nano (tv_nsec t) }) = Some (request ty r k t @ zeros 1101)"
proof -
  have z: "0 # zeros (39 - length k) = zeros (40 - length k)"
    using assms by (simp add: Suc_diff_le [symmetric] replicate_Suc [symmetric] del: replicate_Suc)
  show ?thesis
    using assms unfolding zeros_split
    by (simp add: put_byte_def mem_write_def set_u64_eq request_def z drop_Cons' take_Cons')
qed

lemma request_header:
  assumes "length k < LEN_DEVID" and "0 \<notin> set k"
  shows "(request ty r k t @ zeros 1101) ! off_type = msg_type ty"
    and "(request ty r k t @ zeros 1101) ! off_ifroute = msg_route r"
    and "length (request ty r k t @ zeros 1101) = MAX_MSG + 1"
    and "ids_ended (request ty r k t @ zeros 1101)"
    and "id_key (request ty r k t @ zeros 1101) off_dev_id = k"
proof -
  obtain n where z: "40 - length k = Suc n" using assms(1) by (metis diff_is_0_eq not_le not0_implies_Suc)
  have k: "takeWhile (\<lambda>x. x \<noteq> 0) (k @ 0 # q) = k" for q
    using assms(2) by (simp add: takeWhile_tail takeWhile_eq_all_conv) (metis (mono_tags))
  show "id_key (request ty r k t @ zeros 1101) off_dev_id = k"
    using assms(1) by (simp add: id_key_def c_str_def takeWhile_take request_def z k)
  show "ids_ended (request ty r k t @ zeros 1101)"
  proof -
    have "41 - length k = Suc (Suc n)" using z by simp
    then show ?thesis using assms(1) by (simp add: ids_ended_def request_def z)
  qed
qed (use assms in \<open>simp_all add: request_def\<close>)

text \<open>the key files: a public key that loads from \<open>path\<close>, and its private half\<close>

definition loads_pub :: "('k, 'c) ext \<Rightarrow> bytes \<Rightarrow> 'k \<Rightarrow> bool" where
  "loads_pub X path k \<longleftrightarrow> file_2_pubrsa X (Some path) (Some None) = Some (0, Some k)"

definition loads_prv :: "('k, 'c) ext \<Rightarrow> bytes \<Rightarrow> 'k \<Rightarrow> bool" where
  "loads_prv X path k \<longleftrightarrow> file_2_prvrsa X (Some path) (Some None) = Some (0, Some k)"

lemma header_ok_request:
  assumes "length k < LEN_DEVID" and "0 \<notin> set k" and "unat (msg_route r) < 6"
  shows "header_ok (request ty r k t @ zeros 1101)"
  using request_header [OF assms(1,2), of ty r t] assms(3) unat_type [of ty] by (simp add: header_ok_def)

text \<open>\<^verbatim>\<open>cmd_2_srv\<close> without data sends the request, encrypted for the server.\<close>

lemma cmd_2_srv_sends:
  assumes P: "rsa_pair X pub prv blk" "sizeof_MSG_COMMON + 11 \<le> blk" "blk < MAX_MSG"
    and F: "loads_pub X (lit ''srv-public-key.pem'') pub"
    and k: "length k < LEN_DEVID" "0 \<notin> set k" and r: "unat (msg_route r) < 6" and sk: "0 < sk"
  shows "\<exists>c. cmd_2_srv X sk t rc cmd r None 0 (k @ 0 # rest) = Some (rc, [(PORT, c @ [enc_mark ENCRYPT_SRV_PUB])])
    \<and> length c = blk \<and> x_rsa_private_decrypt X prv (int blk) c = Some (request cmd r k t)"
proof -
  let ?m = "request cmd r k t @ zeros 1101"
  have l: "c_strlen (k @ 0 # rest) 0 = Some (length k)"
    using c_strlen_append_zero [OF k(2), of "[]" rest] by simp
  have idb: "mem_read (k @ 0 # rest) 0 (min LEN_DEVID (length k + 1)) = Some (k @ [0])"
    using k(1) by (simp add: mem_read_def)
  obtain tt where tt: "dum_msg (Some ?m) ''msg_notify.c'' ''cmd_2_srv'' 1319 = Some tt"
    using dum_msg_ok [OF header_ok_request [OF k r], of "''msg_notify.c''" "''cmd_2_srv''" 1319] by auto
  have len: "length (request cmd r k t) = 100" using k(1) by (simp add: length_request)
  have "(0::nat) < 100" "(100::nat) \<le> blk - 11" "100 \<le> length ?m" using P(2) len by auto
  from rsa_enc_eq [OF P(1) this, of None 0] len obtain c buf where
    e: "rsa_enc X (Some pub) ?m (Some None) (int 100) (Some 0) = Some (0, Some buf, Some (int blk))"
    "take blk buf = c" "length c = blk" "blk < length buf"
    "x_rsa_private_decrypt X prv (int blk) c = Some (request cmd r k t)" by auto
  have seal: "rsa_seal ?m (Some buf) (int blk) = Some (c @ [enc_mark ENCRYPT_SRV_PUB])"
    using e(2-4) P(3) len
    by (simp add: rsa_seal_def mem_read_def mem_write_def put_byte_def list_update_append take_first_upd)
      (auto simp: take_Suc_conv_app_nth nth_append)
  from request_built [OF k(1), of cmd r t] obtain m1 m2 m3 m5 where
    m: "put_byte (zeros (MAX_MSG + 1)) off_type (msg_type cmd) = Some m1"
    "put_byte m1 off_ifroute (msg_route r) = Some m2" "mem_write m2 off_dev_id (k @ [0]) = Some m3"
    "set_u64 m3 off_second (tv_sec t) = Some m5" "set_u64 m5 off_nano (tv_nsec t) = Some ?m"
    by (auto simp: bind_eq_Some_conv)
  have "cmd_2_srv X sk t rc cmd r None 0 (k @ 0 # rest) = Some (rc, [(PORT, c @ [enc_mark ENCRYPT_SRV_PUB])])"
    using m l idb tt F e(1) seal P(3) sk
    by (simp add: cmd_2_srv_def loads_pub_def)
  with e show ?thesis by blast
qed

section \<open>Opening what was sealed with RSA\<close>

lemma rsa_dec_datagram:
  assumes P: "rsa_pair X pub prv blk" and c: "length c = blk" "x_rsa_private_decrypt X prv (int blk) c = Some m"
    and m: "m \<noteq> []" "length m \<le> blk" and b: "blk < MAX_MSG"
  shows "\<exists>buf. rsa_dec X (Some prv) (Some (padded (c @ [e]))) (Some None) (int (length (c @ [e])) - 1) (Some 0)
      = Some (0, Some buf, Some (int (length m)))
    \<and> mem_read buf 0 (length m) = Some m \<and> mem_write (zeros (MAX_MSG + 1)) 0 m = Some (padded m)"
proof -
  have "take blk (padded (c @ [e])) = c" "blk \<le> length (padded (c @ [e]))" using c(1) by auto
  with rsa_dec_eq [OF P, of "padded (c @ [e])" m None 0] c m b show ?thesis
    by (auto simp: mem_read_def mem_write_def)
qed

lemma recv_sealed:
  assumes "sizeof_MSG_COMMON \<le> length c" and "length c < MAX_MSG"
  shows "recv (MAX_MSG + 1) (Some (b, c @ [e])) = (int (length c) + 1, padded (c @ [e]), b)"
  using assms by (simp add: recv_def)

lemma s1_open_rsa:
  assumes P: "rsa_pair X pub prv blk" and c: "length c = blk" "x_rsa_private_decrypt X prv (int blk) c = Some m"
    and m: "m \<noteq> []" "length m \<le> blk" and b: "sizeof_MSG_COMMON \<le> blk" "blk < MAX_MSG"
    and prv: "srv_prv s = Some prv \<or> srv_prv s = None \<and> loads_prv X (lit ''srv-private-key.pem'') prv"
  shows "s1_open X (Some (a, c @ [enc_mark ENCRYPT_SRV_PUB])) s
    = Some (Some prv, bufout1 s, Some (int (length m), padded m, False))"
proof -
  have "get_srv_prv X (srv_prv s) = Some (Some prv)"
    using prv by (auto simp: get_srv_prv_def loads_prv_def)
  moreover have "nat (int (length c) + 1) - 1 = length c" by simp
  ultimately show ?thesis
    using recv_sealed [of c a "enc_mark ENCRYPT_SRV_PUB"]
      rsa_dec_datagram [OF P c m b(2), of "enc_mark ENCRYPT_SRV_PUB"] c(1) b
    by (auto simp: s1_open_def open_msg_def nth_append)
qed

lemma ep_open_rsa:
  assumes P: "rsa_pair X pub prv blk" and c: "length c = blk" "x_rsa_private_decrypt X prv (int blk) c = Some m"
    and m: "m \<noteq> []" "length m \<le> blk" and b: "blk < MAX_MSG"
    and prv: "loads_prv X (k @ lit ''.private-key.pem'') prv" and k: "length k \<le> LEN_DEVID" "c_str cid = k"
  shows "ep_open X cid (enc_mark ENCRYPT_CLI_PUB) (int (length c) + 1) (padded (c @ [enc_mark ENCRYPT_CLI_PUB])) bo key iv
    = Some (bo, Some (int (length m), padded m, False))"
proof -
  have "get_cli_prv X cid = Some (Some prv)"
    using prv k by (simp add: get_cli_prv_def key_path_def loads_prv_def)
  then show ?thesis
    using rsa_dec_datagram [OF P c m b, of "enc_mark ENCRYPT_CLI_PUB"]
    by (auto simp: ep_open_def)
qed

section \<open>The key reaches the device\<close>

text \<open>the answer the server queues for the key request of device \<open>k\<close>\<close>

abbreviation key_reply :: "bytes \<Rightarrow> timespec \<Rightarrow> bytes" where
  "key_reply k t \<equiv> answer (request MSG_GET_AES G_CLI_SRV k t @ zeros 1101) 100 F_SRV_CLI"

lemma key_request_queued:
  assumes P: "rsa_pair X pub prv blk" "sizeof_MSG_COMMON + 11 \<le> blk" "blk < MAX_MSG"
    and c: "length c = blk" "x_rsa_private_decrypt X prv (int blk) c = Some (request MSG_GET_AES G_CLI_SRV k t)"
    and prv: "srv_prv s = Some prv \<or> srv_prv s = None \<and> loads_prv X (lit ''srv-private-key.pem'') prv"
    and k: "length k < LEN_DEVID" "0 \<notin> set k"
  shows "\<exists>s1. s1_turn X (Some (a, c @ [enc_mark ENCRYPT_SRV_PUB])) s = Some s1
    \<and> list_reg_dev s1 = list_reg_dev s \<and> imd_fwd_lt s1 = queued (key_reply k t) # imd_fwd_lt s"
proof -
  let ?r = "request MSG_GET_AES G_CLI_SRV k t"
  have len: "length ?r = 100" using k(1) by (simp add: length_request)
  then have ne: "?r \<noteq> []" "length ?r \<le> blk" "sizeof_MSG_COMMON \<le> blk" using P(2) by auto
  have o: "s1_open X (Some (a, c @ [enc_mark ENCRYPT_SRV_PUB])) s
      = Some (Some prv, bufout1 s, Some (int 100, ?r @ zeros 1101, False))"
    using s1_open_rsa [OF P(1) c ne P(3) prv, of a] len by simp
  have h: "header_ok (?r @ zeros 1101)" by (rule header_ok_request [OF k]) simp
  obtain tt where "dum_msg (Some (?r @ zeros 1101)) ''server.c'' ''main'' 352 = Some tt"
    using dum_msg_ok [OF h, of "''server.c''" "''main''" 352] by auto
  moreover have "s1_dispatch (?r @ zeros 1101) (int 100) (imd_fwd_lt s) =
      Some (key_reply k t @ drop (100 + 48) (?r @ zeros 1101), queued (key_reply k t) # imd_fwd_lt s)"
    using request_header [OF k, of MSG_GET_AES G_CLI_SRV t] by (intro s1_dispatch_key) auto
  ultimately show ?thesis using o by (simp add: s1_turn_def)
qed

lemma key_reply_facts:
  assumes k: "length k < LEN_DEVID" "0 \<notin> set k"
  shows "length (key_reply k t) = 148" and "ids_ended (key_reply k t)"
    and "id_key (key_reply k t) off_dev_id = k" and "key_reply k t ! off_type = msg_type MSG_GET_AES"
    and "key_reply k t ! off_ifroute = msg_route F_SRV_CLI"
    and "drop sizeof_MSG_COMMON (key_reply k t) = aes_key @ take AES_IV_BYTES aes_iv"
    and "take 2 (drop off_len (key_reply k t)) = [48, 0]"
proof -
  let ?m = "request MSG_GET_AES G_CLI_SRV k t @ zeros 1101"
  note h = request_header [OF k, of MSG_GET_AES G_CLI_SRV t]
  have len: "sizeof_MSG_COMMON \<le> length ?m" using h(3) by simp
  show "length (key_reply k t) = 148" using length_answer [of 100 ?m F_SRV_CLI] len by simp
  show "ids_ended (key_reply k t)" using ids_ended_answer [OF len] h(4) by simp
  show "id_key (key_reply k t) off_dev_id = k" using id_key_answer [OF len] h(5) by simp
  show "drop sizeof_MSG_COMMON (key_reply k t) = aes_key @ take AES_IV_BYTES aes_iv"
    using answer_data [of 100 ?m F_SRV_CLI] len by simp
  show "key_reply k t ! off_type = msg_type MSG_GET_AES" "key_reply k t ! off_ifroute = msg_route F_SRV_CLI"
    using h(1) by (simp_all add: answer_def)
  have "drop 98 (answer m n r) = [48, 0] @ drop 100 (answer m n r)" if "sizeof_MSG_COMMON \<le> length m" for m n r
    using that by (simp add: answer_def drop_Cons' min_def)
  then show "take 2 (drop off_len (key_reply k t)) = [48, 0]" using len by (simp add: numeral_2_eq_2)
qed

lemma key_reply_delivered:
  assumes k: "length k < LEN_DEVID" "0 \<notin> set k" and a: "A k = Some a"
    and P: "rsa_pair X pub prv blk" "159 \<le> blk" and F: "loads_pub X (k @ lit ''.public-key.pem'') pub"
  shows "\<exists>c. deliver X A (queued (key_reply k t)) = Some (a, c @ [enc_mark ENCRYPT_CLI_PUB])
    \<and> length c = blk \<and> x_rsa_private_decrypt X prv (int blk) c = Some (key_reply k t)"
proof -
  note f = key_reply_facts [OF k, of t]
  have "c_str (drop off_dev_id (key_reply k t)) = k"
    using id_key_str(1) [of off_dev_id "key_reply k t"] f(2,3) by (simp add: ids_ended_def)
  then have "get_cli_pub X (drop off_dev_id (key_reply k t)) = Some (Some pub)"
    using F k(1) by (simp add: get_cli_pub_def key_path_def loads_pub_def)
  moreover have "length (key_reply k t) \<le> blk - 11" using f(1) P(2) by simp
  moreover obtain c where "x_rsa_public_encrypt X pub (int (length (key_reply k t))) (key_reply k t) = Some c"
    "length c = blk" "x_rsa_private_decrypt X prv (int blk) c = Some (key_reply k t)"
    using rsa_pairD [OF P(1) calculation(2)] .
  ultimately show ?thesis
    using f a by (simp add: deliver_route queued_def route_off_def seal_def)
qed

lemma str_at_total: "0 \<in> set (drop off m) \<Longrightarrow> \<exists>d. str_at m off = Some d"
proof -
  assume z: "0 \<in> set (drop off m)"
  then have "off \<le> length m" by (cases "off \<le> length m") auto
  with z show ?thesis by (simp add: str_at_def c_strlen_def)
qed

text \<open>The device takes the key and IV out of the opened answer.\<close>

lemma client_handle_key:
  assumes k: "length k < LEN_DEVID" "0 \<notin> set k"
  shows "client_handle X sk ok (padded (key_reply k t)) c = Some (c\<lparr>aes256_key := aes_key,
      aes256_iv := take AES_IV_BYTES aes_iv, got_aes := True, interval := INTER_TRACK\<rparr>, padded (key_reply k t), [])"
proof -
  define m where "m = padded (key_reply k t)"
  note f = key_reply_facts [OF k, of t]
  have b: "get_byte m off_ifroute = Some (msg_route F_SRV_CLI)" "get_byte m off_type = Some (msg_type MSG_GET_AES)"
    using f by (simp_all add: m_def get_byte_def nth_append)
  obtain s1 where s1: "str_at m sizeof_MSG_COMMON = Some s1"
    using str_at_total [of sizeof_MSG_COMMON m] f(1) by (auto simp: m_def)
  obtain s2 where s2: "str_at m off_dev_id = Some s2"
    using str_at_total [of off_dev_id m] f(1) by (auto simp: m_def)
  have fld: "mem_read m off_len 2 = Some [48, 0]" using f(1,7) by (simp add: m_def mem_read_def)
  have sz: "arr_2_uint16 (Some [48, 0]) (Some 0) 2 = Some (0, Some 48)" by code_simp
  have "mem_read m sizeof_MSG_COMMON AES_BYTES = Some aes_key"
    "mem_read m (sizeof_MSG_COMMON + AES_BYTES) AES_IV_BYTES = Some (take AES_IV_BYTES aes_iv)"
  proof -
    have d: "drop 100 m = aes_key @ take 16 aes_iv @ zeros 1053" using f(1,6) by (simp add: m_def)
    have "drop 132 m = drop 32 (drop 100 m)" by simp
    then have "drop 132 m = take 16 aes_iv @ zeros 1053" unfolding d by simp
    moreover have "length m = 1201" using f(1) by (simp add: m_def)
    ultimately show "mem_read m sizeof_MSG_COMMON AES_BYTES = Some aes_key"
      "mem_read m (sizeof_MSG_COMMON + AES_BYTES) AES_IV_BYTES = Some (take AES_IV_BYTES aes_iv)"
      using d by (simp_all add: mem_read_def)
  qed
  then have "take_key m = Some (Some (aes_key, take AES_IV_BYTES aes_iv))"
    using fld sz by (simp add: take_key_def)
  with b s1 s2 show ?thesis unfolding m_def [symmetric] by (simp add: client_handle_def)
qed

lemma client_recv_key:
  assumes P: "rsa_pair X pub prv blk" "159 \<le> blk" "blk < MAX_MSG"
    and F: "loads_prv X (k @ lit ''.private-key.pem'') prv"
    and k: "length k < LEN_DEVID" "0 \<notin> set k"
    and c: "length e = blk" "x_rsa_private_decrypt X prv (int blk) e = Some (key_reply k t)"
  shows "\<exists>c'. client_recv X (k @ 0 # rest) sk ok (Some (a, e @ [enc_mark ENCRYPT_CLI_PUB])) c = Some (c', [])
    \<and> got_aes c' \<and> aes256_key c' = aes_key \<and> aes256_iv c' = take AES_IV_BYTES aes_iv"
proof -
  have kr: "key_reply k t \<noteq> []" "length (key_reply k t) \<le> blk" "length k \<le> LEN_DEVID"
    using key_reply_facts(1) [OF k, of t] P(2) k(1) by auto
  have cid: "c_str (k @ 0 # rest) = k"
    using k(2) by (simp add: c_str_def takeWhile_tail takeWhile_eq_all_conv) (metis (mono_tags))
  have rc: "recv (MAX_MSG + 1) (Some (a, e @ [enc_mark ENCRYPT_CLI_PUB]))
      = (int (length e) + 1, padded (e @ [enc_mark ENCRYPT_CLI_PUB]), a)"
    using c(1) P(2,3) by (intro recv_sealed) auto
  have "nat (int (length e) + 1) - 1 = length e" by simp
  then have mark: "padded (e @ [enc_mark ENCRYPT_CLI_PUB]) ! (nat (int (length e) + 1) - 1) = enc_mark ENCRYPT_CLI_PUB"
    by (simp only: nth_append) simp
  show ?thesis
    unfolding client_recv_def rc Let_def prod.case mark
      ep_open_rsa [OF P(1) c kr(1,2) P(3) F kr(3) cid]
    using c(1) P(2) client_handle_key [OF k, of X sk ok t "c\<lparr>cl_bufout := cl_bufout c\<rparr>"] by simp
qed

section \<open>What a notification looks like\<close>

definition note_msg :: "bytes \<Rightarrow> bytes \<Rightarrow> timespec \<Rightarrow> bytes" where
  "note_msg k j t = [msg_type MSG_NTF, msg_route G_NTF_CLI] @ k @ zeros (LEN_DEVID - length k)
     @ j @ zeros (LEN_DEVID - length j) @ le_bytes 8 (tv_sec t) @ le_bytes 8 (tv_nsec t) @ [59, 4]
     @ lit note_text @ zeros 1060"

lemma notifier_msg_eq:
  assumes k: "length k < LEN_DEVID" "0 \<notin> set k" and j: "length j < LEN_DEVID" "0 \<notin> set j"
  shows "notifier_msg t (k @ 0 # r1) (j @ 0 # r2) = Some (note_msg k j t)"
proof -
  have l: "c_strlen (k @ 0 # r1) 0 = Some (length k)" "c_strlen (j @ 0 # r2) 0 = Some (length j)"
    using c_strlen_append_zero [OF k(2), of "[]" r1] c_strlen_append_zero [OF j(2), of "[]" r2] by simp_all
  have m: "min LEN_DEVID (length k + 1) = length k + 1" "min LEN_DEVID (length j + 1) = length j + 1"
    using k(1) j(1) by auto
  have z: "0 # zeros (39 - length x) = zeros (40 - length x)" if "length x < 40" for x :: bytes
    using that by (simp add: Suc_diff_le [symmetric] replicate_Suc [symmetric] del: replicate_Suc)
  have t: "zeros 1101 = zeros 41 @ 0 # zeros 1059" by (simp add: replicate_add [symmetric] replicate_Suc [symmetric] del: replicate_Suc)
  have e: "zeros 1060 = 0 # zeros 1059" by (simp add: replicate_Suc [symmetric] del: replicate_Suc)
  have u: "le_bytes 2 (1083 :: 32 word) = [59, 4]" by code_simp
  show ?thesis
    unfolding notifier_msg_def l bind.bind_lunit m zeros_split t note_msg_def e using k(1) j(1)
    by (simp add: put_byte_def mem_write_def mem_read_def set_u64_eq set_u16_eq u z drop_Cons' take_Cons')
qed

lemma header_cong:
  assumes "take 100 m' = take 100 m" and "100 \<le> length m" and "100 \<le> length m'"
  shows "m' ! off_type = m ! off_type" and "m' ! off_ifroute = m ! off_ifroute"
    and "ids_ended m' = ids_ended m" and "header_ok m' = header_ok m"
    and "id_key m' off_dev_id = id_key m off_dev_id"
proof -
  have n: "m' ! i = m ! i" if "i < 100" for i using assms(1) that by (metis nth_take)
  then show 1: "m' ! off_type = m ! off_type" and 2: "m' ! off_ifroute = m ! off_ifroute" by simp_all
  have d: "take i (drop 2 x) = take i (drop 2 (take 100 x))" if "i \<le> 98" for i and x :: bytes
    using that by (simp add: drop_take min_def)
  have c: "take i (drop 2 m') = take i (drop 2 m)" if "i \<le> 98" for i
    using d [OF that, of m'] d [OF that, of m] assms(1) by simp
  show 3: "ids_ended m' = ids_ended m" by (rule ids_ended_cong) (rule c, simp)
  show "header_ok m' = header_ok m" using 1 2 3 assms(2,3) by (simp add: header_ok_def)
  show "id_key m' off_dev_id = id_key m off_dev_id" by (simp add: id_key_def c)
qed

lemma note_facts:
  assumes k: "length k < LEN_DEVID" "0 \<notin> set k" and j: "length j < LEN_DEVID"
  shows "length (note_msg k j t) = MAX_MSG + 1" and "header_ok (note_msg k j t)"
    and "id_key (note_msg k j t) off_dev_id = k"
    and "note_msg k j t ! off_type = msg_type MSG_NTF" and "note_msg k j t ! off_ifroute = msg_route G_NTF_CLI"
    and "0 \<in> set (take 1084 (drop sizeof_MSG_COMMON (note_msg k j t)))"
proof -
  obtain n where z: "40 - length k = Suc n" using k(1) by (metis diff_is_0_eq not_le not0_implies_Suc)
  obtain n' where z': "40 - length j = Suc n'" using j by (metis diff_is_0_eq not_le not0_implies_Suc)
  have kk: "takeWhile (\<lambda>x. x \<noteq> 0) (k @ 0 # q) = k" for q
    using k(2) by (simp add: takeWhile_tail takeWhile_eq_all_conv) (metis (mono_tags))
  show len: "length (note_msg k j t) = MAX_MSG + 1" using k j by (simp add: note_msg_def)
  show "id_key (note_msg k j t) off_dev_id = k"
    using k(1) by (simp add: id_key_def c_str_def takeWhile_take note_msg_def z kk)
  show nth: "note_msg k j t ! off_type = msg_type MSG_NTF" "note_msg k j t ! off_ifroute = msg_route G_NTF_CLI"
    by (simp_all add: note_msg_def)
  have "41 - length k = Suc (Suc n)" "41 - length j = Suc (Suc n')" using z z' by auto
  then have "ids_ended (note_msg k j t)" using k(1) j by (simp add: ids_ended_def note_msg_def z z')
  with len nth show "header_ok (note_msg k j t)" by (simp add: header_ok_def)
  have "drop 100 (note_msg k j t) = lit note_text @ zeros 1060" using k(1) j by (simp add: note_msg_def)
  then show "0 \<in> set (take 1084 (drop sizeof_MSG_COMMON (note_msg k j t)))" by simp
qed

text \<open>What a receiver sees of a notification: its first 1184 bytes in front of its old buffer.\<close>

definition seen :: "bytes \<Rightarrow> bytes \<Rightarrow> bytes" where
  "seen m bo = take 1184 m @ drop 1184 bo"

lemma seen_facts:
  assumes k: "length k < LEN_DEVID" "0 \<notin> set k" and j: "length j < LEN_DEVID" and bo: "length bo = MAX_MSG + 1"
  shows "length (seen (note_msg k j t) bo) = MAX_MSG + 1" and "header_ok (seen (note_msg k j t) bo)"
    and "id_key (seen (note_msg k j t) bo) off_dev_id = k" and "ids_ended (seen (note_msg k j t) bo)"
    and "seen (note_msg k j t) bo ! off_type = msg_type MSG_NTF"
    and "seen (note_msg k j t) bo ! off_ifroute = msg_route G_NTF_CLI"
    and "0 \<in> set (drop sizeof_MSG_COMMON (seen (note_msg k j t) bo))"
    and "take 1184 (seen (note_msg k j t) bo) = take 1184 (note_msg k j t)"
proof -
  note f = note_facts [OF k j, of t]
  have pre: "take 100 (seen (note_msg k j t) bo) = take 100 (note_msg k j t)"
    using f(1) by (simp add: seen_def)
  show len: "length (seen (note_msg k j t) bo) = MAX_MSG + 1" using f(1) bo by (simp add: seen_def)
  have "100 \<le> length (note_msg k j t)" "100 \<le> length (seen (note_msg k j t) bo)" using f(1) len by auto
  note h = header_cong [OF pre this]
  show "header_ok (seen (note_msg k j t) bo)" "id_key (seen (note_msg k j t) bo) off_dev_id = k"
    "ids_ended (seen (note_msg k j t) bo)" "seen (note_msg k j t) bo ! off_type = msg_type MSG_NTF"
    "seen (note_msg k j t) bo ! off_ifroute = msg_route G_NTF_CLI"
    using h f by (simp_all add: header_ok_def)
  show "take 1184 (seen (note_msg k j t) bo) = take 1184 (note_msg k j t)" using f(1) by (simp add: seen_def)
  have "drop 100 (seen (note_msg k j t) bo) = take 1084 (drop 100 (note_msg k j t)) @ drop 1184 bo"
    using f(1) by (simp add: seen_def drop_take)
  with f(6) show "0 \<in> set (drop sizeof_MSG_COMMON (seen (note_msg k j t) bo))" by simp
qed

text \<open>The datagram a notifier with the key sends.\<close>

lemma notifier_sends:
  assumes X: "evp_gcm X" and k: "length k < LEN_DEVID" "0 \<notin> set k" and j: "length j < LEN_DEVID" "0 \<notin> set j"
    and s: "nf_got_aes s" "nf_key s = aes_key" "nf_iv s = take AES_IV_BYTES aes_iv"
  obtains d where "length d = 1200"
    and "notifier_send X t (k @ 0 # r1) (j @ 0 # r2) s = Some [(PORT, d @ [enc_mark ENCRYPT_AES])]"
    and "\<exists>ct tag. gcm_encrypt X (take 1184 (note_msg k j t)) (take AES_IV_BYTES aes_iv) aes_key
      (take AES_IV_BYTES aes_iv) (int AES_IV_BYTES) = Some (ct, tag) \<and> d = ct @ tag"
    and "\<And>bo k' v' l. length bo = MAX_MSG + 1 \<Longrightarrow> AES_BYTES \<le> length k' \<Longrightarrow> AES_IV_BYTES \<le> length v' \<Longrightarrow>
      take AES_BYTES k' = aes_key \<Longrightarrow> take AES_IV_BYTES v' = take AES_IV_BYTES aes_iv \<Longrightarrow>
      msg_aes_dec X (Some (d @ [enc_mark ENCRYPT_AES])) (Some bo) (Some k') (Some v') 1201 (Some l)
        (int MAX_MSG + 1) = Some (0, Some (seen (note_msg k j t) bo), Some 1184)"
proof -
  let ?m = "note_msg k j t"
  note f = note_facts [OF k j(1), of t]
  have le: "1184 \<le> length ?m" "AES_BYTES \<le> length aes_key" "AES_IV_BYTES \<le> length (take AES_IV_BYTES aes_iv)"
    "1184 + 17 \<le> MAX_MSG + 1"
    using f(1) by auto
  show ?thesis
  proof (rule aes_seal_open [OF X le])
    fix d :: bytes
    assume d: "length d = 1184 + 16"
      and e: "\<And>b l. 1184 + 17 \<le> length b \<Longrightarrow>
        msg_aes_enc X (Some ?m) (Some b) (Some aes_key) (Some (take AES_IV_BYTES aes_iv)) (int 1184) (Some l)
          (int MAX_MSG + 1) = Some (0, Some (d @ enc_mark ENCRYPT_AES # drop (1184 + 17) b), Some (int 1184 + 17))"
      and g: "\<exists>ct tag. gcm_encrypt X (take 1184 ?m) (take AES_IV_BYTES (take AES_IV_BYTES aes_iv))
        (take AES_BYTES aes_key) (take AES_IV_BYTES (take AES_IV_BYTES aes_iv)) (int AES_IV_BYTES) = Some (ct, tag)
        \<and> d = ct @ tag"
      and o: "\<And>rest bo k' v' l. 1184 \<le> length bo \<Longrightarrow> AES_BYTES \<le> length k' \<Longrightarrow> AES_IV_BYTES \<le> length v' \<Longrightarrow>
        take AES_BYTES k' = take AES_BYTES aes_key \<Longrightarrow>
        take AES_IV_BYTES v' = take AES_IV_BYTES (take AES_IV_BYTES aes_iv) \<Longrightarrow>
        msg_aes_dec X (Some (d @ enc_mark ENCRYPT_AES # rest)) (Some bo) (Some k') (Some v') (int 1184 + 17) (Some l)
          (int MAX_MSG + 1) = Some (0, Some (take 1184 ?m @ drop 1184 bo), Some (int 1184))"
    obtain tt where "dum_msg (Some ?m) ''notifier.c'' ''notifier'' 256 = Some tt"
      using dum_msg_ok [OF f(2), of "''notifier.c''" "''notifier''" 256] by auto
    then have "notifier_send X t (k @ 0 # r1) (j @ 0 # r2) s = Some [(PORT, d @ [enc_mark ENCRYPT_AES])]"
      using d e [of "zeros (MAX_MSG + 1)" 1083] s by (simp add: notifier_send_def notifier_msg_eq [OF k j] mem_read_def)
    moreover have "msg_aes_dec X (Some (d @ [enc_mark ENCRYPT_AES])) (Some bo) (Some k') (Some v') 1201 (Some l)
        (int MAX_MSG + 1) = Some (0, Some (seen (note_msg k j t) bo), Some 1184)"
      if "length bo = MAX_MSG + 1" "AES_BYTES \<le> length k'" "AES_IV_BYTES \<le> length v'"
        "take AES_BYTES k' = aes_key" "take AES_IV_BYTES v' = take AES_IV_BYTES aes_iv" for bo k' v' l
      using o [of bo k' v' "[]" l] that by (simp add: seen_def)
    ultimately show thesis using that [of d] d g by simp
  qed
qed

text \<open>The server queues it for the device it names.\<close>

lemma note_queued:
  assumes k: "length k < LEN_DEVID" "0 \<notin> set k" and j: "length j < LEN_DEVID"
    and d: "length d = 1200" and bo: "length (bufout1 s) = MAX_MSG + 1"
    and o: "msg_aes_dec X (Some (d @ [enc_mark ENCRYPT_AES])) (Some (bufout1 s)) (Some aes_key) (Some aes_iv) 1201
      (Some 1201) (int MAX_MSG + 1) = Some (0, Some (seen (note_msg k j t) (bufout1 s)), Some 1184)"
  shows "\<exists>s1. s1_turn X (Some (a, d @ [enc_mark ENCRYPT_AES])) s = Some s1
    \<and> list_reg_dev s1 = list_reg_dev s \<and> imd_fwd_lt s1 = queued (take 1184 (note_msg k j t)) # imd_fwd_lt s"
proof -
  let ?m = "seen (note_msg k j t) (bufout1 s)"
  note f = seen_facts [OF k j bo, of t]
  have "recv (MAX_MSG + 1) (Some (a, d @ [enc_mark ENCRYPT_AES])) = (1201, d @ [enc_mark ENCRYPT_AES], a)"
    using d by (simp add: recv_def)
  then have open1: "s1_open X (Some (a, d @ [enc_mark ENCRYPT_AES])) s
      = Some (srv_prv s, ?m, Some (int 1184, ?m, True))"
    using d o by (simp add: s1_open_def open_msg_def nth_append)
  obtain tt where "dum_msg (Some ?m) ''server.c'' ''main'' 352 = Some tt"
    using dum_msg_ok [OF f(2), of "''server.c''" "''main''" 352] by auto
  moreover have "s1_dispatch ?m (int 1184) (imd_fwd_lt s) = Some (?m, queued (take 1184 ?m) # imd_fwd_lt s)"
    using s1_dispatch_other [of 1184 ?m "imd_fwd_lt s"] f(1,5,6) by simp
  ultimately show ?thesis using open1 f(8) by (simp add: s1_turn_def)
qed

text \<open>It leaves the server as the datagram it came in.\<close>

lemma note_delivered:
  assumes k: "length k < LEN_DEVID" "0 \<notin> set k" and j: "length j < LEN_DEVID" and a: "A k = Some a"
    and g: "gcm_encrypt X (take 1184 (note_msg k j t)) (take AES_IV_BYTES aes_iv) aes_key
      (take AES_IV_BYTES aes_iv) (int AES_IV_BYTES) = Some (ct, tag)"
  shows "fwd_item (queued (take 1184 (note_msg k j t)))"
    and "deliver X A (queued (take 1184 (note_msg k j t))) = Some (a, (ct @ tag) @ [enc_mark ENCRYPT_AES])"
proof -
  let ?n = "take 1184 (note_msg k j t)"
  note f = note_facts [OF k j, of t]
  have len: "length ?n = 1184" using f(1) by simp
  have "take 100 ?n = take 100 (note_msg k j t)" by simp
  from header_cong [OF this] f len have h: "?n ! off_type = msg_type MSG_NTF"
    "?n ! off_ifroute = msg_route G_NTF_CLI" "ids_ended ?n" "id_key ?n off_dev_id = k"
    by (simp_all add: header_ok_def)
  then show "fwd_item (queued ?n)" using len by (simp add: fwd_item_queued)
  show "deliver X A (queued ?n) = Some (a, (ct @ tag) @ [enc_mark ENCRYPT_AES])"
    using h len a g by (simp add: deliver_route queued_def route_off_def seal_def)
qed

lemma note_flushed:
  assumes X: "ssl_ok X" and k: "length k < LEN_DEVID" "0 \<notin> set k" "reg_abs (list_reg_dev s) k = Some a"
    and j: "length j < LEN_DEVID"
    and g: "\<exists>ct tag. gcm_encrypt X (take 1184 (note_msg k j t)) (take AES_IV_BYTES aes_iv) aes_key
      (take AES_IV_BYTES aes_iv) (int AES_IV_BYTES) = Some (ct, tag) \<and> d = ct @ tag"
    and I: "reg_inv (list_reg_dev s)" "\<forall>it \<in> set q. fwd_item it"
    and q: "imd_fwd_lt s = queued (take 1184 (note_msg k j t)) # q"
  shows "\<exists>r s' more. s2_flush X ok s = Some (r, s') \<and> fw_calls r = (a, d @ [enc_mark ENCRYPT_AES]) # more"
proof -
  from g obtain ct tag where e: "gcm_encrypt X (take 1184 (note_msg k j t)) (take AES_IV_BYTES aes_iv) aes_key
      (take AES_IV_BYTES aes_iv) (int AES_IV_BYTES) = Some (ct, tag)" and d: "d = ct @ tag" by blast
  note nd = note_delivered [where A = "reg_abs (list_reg_dev s)", OF k(1,2) j k(3) e]
  show ?thesis unfolding d by (rule flush_first [OF X I q nd])
qed

text \<open>The device acknowledges it with a sealed header that names the notifier.\<close>

definition ack_of :: "bytes \<Rightarrow> bytes" where
  "ack_of m = [m ! off_type, msg_route G_CLI_NTF] @ take 96 (drop off_dev_id m) @ [0, 0] @ drop sizeof_MSG_COMMON m"

lemma ack_built:
  assumes "sizeof_MSG_COMMON \<le> length m"
  shows "put_byte m off_ifroute (msg_route G_CLI_NTF) = Some (m[off_ifroute := msg_route G_CLI_NTF])"
    and "mem_write (m[off_ifroute := msg_route G_CLI_NTF]) off_len (zeros 2) = Some (ack_of m)"
    and "length (ack_of m) = length m"
proof -
  show "put_byte m off_ifroute (msg_route G_CLI_NTF) = Some (m[off_ifroute := msg_route G_CLI_NTF])"
    using assms by (simp add: put_byte_def)
  obtain h r where m: "m = h @ r" "length h = 2" using cut_list [of 2 m] assms by auto
  then obtain x y where h: "h = [x, y]" by (auto simp: numeral_2_eq_2 length_Suc_conv)
  have "96 \<le> length r" using assms m by simp
  then obtain b q where r: "r = b @ q" "length b = 96" by (rule cut_list)
  have "2 \<le> length q" using assms m r by simp
  then obtain u w where q: "q = u @ w" "length u = 2" by (rule cut_list)
  have "zeros 2 = [0, 0]" by (simp add: numeral_2_eq_2)
  then show "mem_write (m[off_ifroute := msg_route G_CLI_NTF]) off_len (zeros 2) = Some (ack_of m)"
    using r(2) q(2) by (simp add: m h r q mem_write_def ack_of_def)
  show "length (ack_of m) = length m" using r(2) q(2) by (simp add: m h r q ack_of_def)
qed

lemma client_handle_note:
  assumes X: "evp_gcm X" and m: "header_ok m" "m ! off_ifroute = msg_route G_NTF_CLI" "length m = MAX_MSG + 1"
    "0 \<in> set (drop sizeof_MSG_COMMON m)"
    and c: "length (aes256_key c) = AES_BYTES" "length (aes256_iv c) = AES_IV_BYTES" and sk: "0 \<le> sk"
  shows "\<exists>fb. client_handle X sk ok m c = Some (c, ack_of m, [(PORT, fb @ [enc_mark ENCRYPT_AES])])
    \<and> length fb = 116
    \<and> (\<forall>bo l. sizeof_MSG_COMMON \<le> length bo \<longrightarrow>
        msg_aes_dec X (Some (fb @ [enc_mark ENCRYPT_AES])) (Some bo) (Some (aes256_key c)) (Some (aes256_iv c)) 117
          (Some l) (int MAX_MSG + 1) = Some (0, Some (take 100 (ack_of m) @ drop 100 bo), Some 100))"
proof -
  have len: "sizeof_MSG_COMMON \<le> length m" "length (ack_of m) = MAX_MSG + 1"
    using m(3) ack_built(3) [of m] by auto
  note ab = ack_built [OF len(1)]
  have b: "get_byte m off_ifroute = Some (msg_route G_NTF_CLI)" "\<exists>ty. get_byte m off_type = Some ty"
    using m(2,3) by (simp_all add: get_byte_def)
  obtain t1 where t1: "str_at m sizeof_MSG_COMMON = Some t1" using str_at_total [OF m(4)] by blast
  obtain tt where tt: "dum_msg (Some m) ''client.c'' ''main'' 149 = Some tt"
    using dum_msg_ok [OF m(1), of "''client.c''" "''main''" 149] by auto
  have "drop 98 (drop off_dev_id (ack_of m)) = drop 100 m" using len(1) by (simp add: ack_of_def)
  with m(4) have "0 \<in> set (drop 98 (drop off_dev_id (ack_of m)))" by (simp only:)
  then have "0 \<in> set (drop off_dev_id (ack_of m))" by (rule in_set_dropD)
  then obtain t2 where t2: "str_at (ack_of m) off_dev_id = Some t2" using str_at_total by blast
  have le: "100 \<le> length (ack_of m)" "AES_BYTES \<le> length (aes256_key c)" "AES_IV_BYTES \<le> length (aes256_iv c)"
    "100 + 17 \<le> MAX_MSG + 1"
    using len c by auto
  show ?thesis
  proof (rule aes_seal_open [OF X le])
    fix d :: bytes
    assume d: "length d = 100 + 16"
      and e: "\<And>b l. 100 + 17 \<le> length b \<Longrightarrow>
        msg_aes_enc X (Some (ack_of m)) (Some b) (Some (aes256_key c)) (Some (aes256_iv c)) (int 100) (Some l)
          (int MAX_MSG + 1) = Some (0, Some (d @ enc_mark ENCRYPT_AES # drop (100 + 17) b), Some (int 100 + 17))"
      and o: "\<And>rest bo k' v' l. 100 \<le> length bo \<Longrightarrow> AES_BYTES \<le> length k' \<Longrightarrow> AES_IV_BYTES \<le> length v' \<Longrightarrow>
        take AES_BYTES k' = take AES_BYTES (aes256_key c) \<Longrightarrow>
        take AES_IV_BYTES v' = take AES_IV_BYTES (aes256_iv c) \<Longrightarrow>
        msg_aes_dec X (Some (d @ enc_mark ENCRYPT_AES # rest)) (Some bo) (Some k') (Some v') (int 100 + 17) (Some l)
          (int MAX_MSG + 1) = Some (0, Some (take 100 (ack_of m) @ drop 100 bo), Some (int 100))"
    have "\<exists>n. send_msg_fb X sk ok (ack_of m) (aes256_key c) (aes256_iv c)
        = Some (n, [(PORT, d @ [enc_mark ENCRYPT_AES])])"
      using e [of "zeros (MAX_MSG + 1)" 0] sk d by (auto simp: send_msg_fb_def mem_read_def)
    then have "client_handle X sk ok m c = Some (c, ack_of m, [(PORT, d @ [enc_mark ENCRYPT_AES])])"
      using b t1 t2 tt ab by (auto simp: client_handle_def)
    with d o [of _ "aes256_key c" "aes256_iv c" "[]"] c show ?thesis by (intro exI [of _ d]) simp
  qed
qed

lemma client_recv_note:
  assumes X: "evp_gcm X" and k: "length k < LEN_DEVID" "0 \<notin> set k" and j: "length j < LEN_DEVID"
    and d: "length d = 1200" and bo: "length (cl_bufout c) = MAX_MSG + 1"
    and o: "msg_aes_dec X (Some (d @ [enc_mark ENCRYPT_AES])) (Some (cl_bufout c)) (Some (aes256_key c))
      (Some (aes256_iv c)) 1201 (Some 1201) (int MAX_MSG + 1) = Some (0, Some (seen (note_msg k j t) (cl_bufout c)), Some 1184)"
    and key: "length (aes256_key c) = AES_BYTES" "length (aes256_iv c) = AES_IV_BYTES" and sk: "0 \<le> sk"
  shows "\<exists>c' fb. client_recv X cid sk ok (Some (a, d @ [enc_mark ENCRYPT_AES])) c = Some (c', [(PORT, fb @ [enc_mark ENCRYPT_AES])])
    \<and> cl_bufout c' = ack_of (seen (note_msg k j t) (cl_bufout c))
    \<and> (\<forall>b l. sizeof_MSG_COMMON \<le> length b \<longrightarrow>
        msg_aes_dec X (Some (fb @ [enc_mark ENCRYPT_AES])) (Some b) (Some (aes256_key c)) (Some (aes256_iv c)) 117
          (Some l) (int MAX_MSG + 1)
        = Some (0, Some (take 100 (ack_of (seen (note_msg k j t) (cl_bufout c))) @ drop 100 b), Some 100))"
proof -
  let ?m = "seen (note_msg k j t) (cl_bufout c)"
  note f = seen_facts [OF k j bo, of t]
  have rc: "recv (MAX_MSG + 1) (Some (a, d @ [enc_mark ENCRYPT_AES])) = (1201, d @ [enc_mark ENCRYPT_AES], a)"
    using d by (simp add: recv_def)
  have open1: "ep_open X cid (enc_mark ENCRYPT_AES) 1201 (d @ [enc_mark ENCRYPT_AES]) (cl_bufout c)
      (aes256_key c) (aes256_iv c) = Some (?m, Some (1184, ?m, True))"
    using o by (simp add: ep_open_def)
  have mark: "(d @ [enc_mark ENCRYPT_AES]) ! (nat 1201 - 1) = enc_mark ENCRYPT_AES"
    using d by (simp add: nth_append)
  from client_handle_note [OF X f(2,6,1,7), of "c\<lparr>cl_bufout := ?m\<rparr>" sk ok] key sk obtain fb where
    "client_handle X sk ok ?m (c\<lparr>cl_bufout := ?m\<rparr>)
      = Some (c\<lparr>cl_bufout := ?m\<rparr>, ack_of ?m, [(PORT, fb @ [enc_mark ENCRYPT_AES])])"
    "\<forall>bo l. sizeof_MSG_COMMON \<le> length bo \<longrightarrow>
        msg_aes_dec X (Some (fb @ [enc_mark ENCRYPT_AES])) (Some bo) (Some (aes256_key c)) (Some (aes256_iv c)) 117
          (Some l) (int MAX_MSG + 1) = Some (0, Some (take 100 (ack_of ?m) @ drop 100 bo), Some 100)"
    by auto
  then show ?thesis
    unfolding client_recv_def rc Let_def prod.case mark open1 by simp
qed

end
