(* ===== verification/Spec2Isabelle.thy ===== *)
theory Spec2Isabelle
  imports GenList SharedData ManagerRun ClusterRun ClusterLink Insert Analysis Reports5 ShmTables Endpoints
begin

text \<open>
  \<^bold>\<open>A verification library for the repository memory-leak.\<close>

  \<^bold>\<open>The program.\<close> The repository holds several C systems of one author. The central one is the
  notification system in \<^verbatim>\<open>notify.system/\<close>: a server that knows devices by 40-byte ids and passes
  notifications on to them, the devices (\<^verbatim>\<open>client.c\<close>) and the notifiers (\<^verbatim>\<open>notifier.c\<close>), all talking
  UDP datagrams of at most 1201 bytes whose last byte says how the rest is encrypted. Beside it are a
  byte list shared by threads (\<^verbatim>\<open>gen_list.c\<close>), a region of shared memory with writers, a reader and a stop
  program (\<^verbatim>\<open>common/shared_data.c\<close>, \<^verbatim>\<open>shared_data/\<close>), quicksorts (\<^verbatim>\<open>quicksort/\<close>,
  \<^verbatim>\<open>cluster/quicksort/\<close>) and a cluster of reporting programs (\<^verbatim>\<open>cluster/\<close>): a manager
  (\<^verbatim>\<open>manager/manager.c\<close>) takes the days of all servers one by one and runs, for each server and day, the
  program that copies the calls of the day from MySQL into a tree of files (\<^verbatim>\<open>cluster/main.c\<close>) and
  others, each on a configuration file it writes. The files become sqlite databases of five minutes each
  (\<^verbatim>\<open>insert_sqlite/main.c\<close>), and \<^verbatim>\<open>analysis/analysis.c\<close> has the reports made: for each, the program of the
  day runs that of its hours, and that the program of five minutes. All share the helpers of
  \<^verbatim>\<open>common/lcs_common.c\<close>.

  \<^bold>\<open>Conventions.\<close> A C object is the list of its bytes and a pointer an offset into one; an access
  outside an object, a null pointer that is followed and signed overflow make a result \<^term>\<open>None\<close>, so
  every theorem with a result \<^term>\<open>Some x\<close> also says that the code stayed in its objects. Error codes
  are values. Bytes, lengths on the wire and hash values are machine words; the sizes of blocks are
  natural numbers. What is not under \<^verbatim>\<open>src/\<close> (OpenSSL, the file system, sockets, the clock, the
  allocator) is an argument: the record \<open>ext\<close> of \<open>Crypto\<close>, or a parameter of the definition.

  \<^bold>\<open>The theories.\<close>
  \<^item> \<open>Prelude\<close>: memory and strings of C; the interfaces \<open>invariant_system\<close> (state machines) and
    \<open>byte_buffer\<close> (a buffer that is appended to and emptied), as locales.
  \<^item> \<open>CText\<close>: \<^verbatim>\<open>strcmp\<close>, \<^verbatim>\<open>strtok\<close>, \<^verbatim>\<open>fgets\<close>, decimal numbers and their round trip.
  \<^item> \<open>Codec\<close>: \<^verbatim>\<open>msg_notify.c\<close>, the integer codecs, the time stamp and the header \<open>MSG_COMMON\<close>.
  \<^item> \<open>Crypto\<close>: key files, RSA blocks, AES-GCM and the envelope \<^verbatim>\<open>msg_aes_enc\<close>/\<^verbatim>\<open>msg_aes_dec\<close>; what OpenSSL
    promises (\<open>rsa_pair\<close>, \<open>evp_gcm\<close>) are hypotheses, met by the concrete \<open>demo_ext\<close>.
  \<^item> \<open>Registry\<close>: the hash table of devices; \<^verbatim>\<open>reg_to_table\<close>, \<^verbatim>\<open>hl_track_msg\<close> and \<^verbatim>\<open>load_reg_list\<close> refine a
    finite map from ids to addresses (\<open>reg_abs\<close>, under the invariant \<open>reg_inv\<close>; locale
    \<open>device_table\<close>).
  \<^item> \<open>Forward\<close>: the list of messages to be forwarded and its flush, \<^verbatim>\<open>send_to_dst\<close>.
  \<^item> \<open>Server\<close>: \<^verbatim>\<open>server.c\<close>, both threads as functions of one turn, and the relation \<open>srv_step\<close> of all
    their interleavings on all datagrams, undefined turns included; \<open>handled\<close> says what the program can
    handle; \<^verbatim>\<open>dum_msg\<close>.
  \<^item> \<open>Endpoints\<close>: \<^verbatim>\<open>client.c\<close>, \<^verbatim>\<open>notifier.c\<close> and the senders \<^verbatim>\<open>send_msg_track\<close>, \<^verbatim>\<open>cmd_2_srv\<close>.
  \<^item> this theory: what the parts do together, from one program to the other.
  \<^item> \<open>GenList\<close>: the growing byte list; refines a byte queue (\<open>byte_buffer\<close>).
  \<^item> \<open>SharedData\<close>: the region of shared memory and the programs around it; a byte queue while there is
    room; the relation \<open>shm_step\<close> of all interleavings.
  \<^item> \<open>Quicksort\<close>: all quicksorts over one generic algorithm with a comparison (locale \<open>comparator\<close>,
    interpreted for numbers, strings and statistics rows).
  \<^item> \<open>LcsCommon\<close>: strings, lists, directories, sorts and the merge of call statistics.
  \<^item> \<open>LcsTime\<close>: \<^verbatim>\<open>lcs_str2_time\<close> and \<^verbatim>\<open>lcs_time2_str\<close> with the calendar, time zones and the parts of
    \<^verbatim>\<open>strptime\<close> and \<^verbatim>\<open>strftime\<close> they use; the printed texts are ordered like the times.
  \<^item> \<open>CfgText\<close>: the loop over the words of a configuration, shared by all programs of the cluster.
  \<^item> \<open>Manager\<close>, \<open>ManagerJobs\<close>, \<open>ManagerRun\<close>: \<^verbatim>\<open>manager.c\<close>; its configuration, the first and last day and
    the next day; the files it writes and the commands it runs; the main thread and the threads of a
    day as the relation \<open>mgr_step\<close> of all their interleavings.
  \<^item> \<open>Children\<close>: the configurations of \<^verbatim>\<open>gentemplate\<close>, \<^verbatim>\<open>getagent\<close>, \<^verbatim>\<open>gethistory\<close>, \<^verbatim>\<open>shmcreate\<close> and
    \<^verbatim>\<open>shmcreate_audd\<close>, as these read what the manager wrote.
  \<^item> \<open>Cluster\<close>, \<open>ClusterRun\<close>: \<^verbatim>\<open>cluster/main.c\<close>; its configuration, windows, directories, statements and rows;
    the loop over the windows of a day. \<open>ClusterLink\<close>: it reads what the manager wrote.
  \<^item> \<open>Insert\<close>: \<^verbatim>\<open>insert_sqlite/main.c\<close> and \<^verbatim>\<open>moving/main.c\<close>: the rows \<^verbatim>\<open>cluster/main.c\<close> printed, put into sqlite.
  \<^item> \<open>Reports\<close>, \<open>ReportsDay\<close>: the reports \<^verbatim>\<open>A_000001\<close> to \<^verbatim>\<open>A_000004\<close> of five minutes, an hour and a day, the
    last with its threads as the relation \<open>day_step\<close>. \<open>Reports5\<close>: the hour and the day of \<^verbatim>\<open>A_000005\<close>, the day
    with its threads as the relation \<open>day5_step\<close>.
  \<^item> \<open>Analysis\<close>: \<^verbatim>\<open>analysis/analysis.c\<close>, between the manager's configuration and the programs of the day.
  \<^item> \<open>ShmTables\<close>: the tables \<^verbatim>\<open>shmcreate/main.c\<close> and \<^verbatim>\<open>shmcreate_audd/main.c\<close> put into shared memory, and how a row is
    found in them (locale \<open>slot_table\<close>, interpreted for both).

  \<^bold>\<open>What is shown.\<close> Round trips of the codecs, of both encryptions and of the text formats; refinement
  of the table by a finite map and of both buffers by byte queues; invariants of the
  shared region over all interleavings and of the server over those of the events it can handle, with progress; the delivery of keys and notifications over the
  whole path; termination and correctness of the sorts and of the merge; the agreement of the manager's
  configuration files with their readers; that the manager, in every interleaving of its threads, ends and
  has every day of every server worked on once; that the windows of a day, as the functions that make them go, follow each
  other without a gap from the first call to the last (\<open>windows_cover\<close>); that the rows printed for a window are inserted field by field; that the analysis
  reads the manager's file and runs the program of the day on one that program reads, and that this, in every
  interleaving of its threads, ends with a report that adds up what all databases of the day answer. Some theorems state what goes
  wrong in the code as it is: the AES key leaves the server unencrypted (\<open>aes_key_disclosed\<close>), messages
  overrun buffers or index tables out of bounds, an idle turn of the server's sending thread and the key request of a
  notifier are undefined (\<open>server_invariant\<close>), freed memory is read, an iterative sort does not sort, a
  pointer to a dead variable is followed (\<open>start_bdata_dangling\<close>), all windows of a day write over the files
  of the first (\<open>one_directory\<close>), an error of the run keeps its tables from being dropped, errors of SQLite are
  lost (\<open>fetch_outcome\<close>), a fifth agent of a bucket is never found (\<open>agents_found\<close>), a second run of a day doubles its counts (\<open>day5_doubles\<close>).

  \<^bold>\<open>Bounds.\<close> Loops are recursions that terminate by a measure. Only \<open>backup_loop\<close>, which ends when the
  window passes the last call, has fuel; \<open>backup_windows\<close> shows that one turn more than there are windows
  is enough where the connections live (the program as written gets into no turn, \<open>start_bdata_dangling\<close>); and \<open>insert_loop\<close>, which does not end on some files, is a partial function whose value \<^term>\<open>None\<close>
  is a loop without end. The atomic steps of the
  threads are the sections under their locks; one turn of a loop is one step elsewhere. A hypothesis on
  sizes (values that fit an \<^verbatim>\<open>int\<close>, totals below \<open>2 ^ 31\<close>) is stated in each theorem that needs it. A
  time zone is a standard offset and a daylight saving for each time; the manager's days need one that
  moves clocks forward by less than a day (\<open>tame\<close>), the windows one without. Dates have years of four
  digits. \<^verbatim>\<open>pthread_create\<close> and the allocator are taken to succeed in the programs of \<^verbatim>\<open>cluster/\<close>; a MySQL
  server is a function from statements to codes and rows, SQLite a record of functions on a state of its own.
  What a command of the reports does to the files is an argument, and one step; the theorems on reports take
  for it the models of the programs called.

  \<^bold>\<open>Not modelled.\<close> The setup of sockets, signals and daemons; the AES-CBC file tools \<^verbatim>\<open>ntf_aes_file\<close> and
  \<^verbatim>\<open>ntf_aes_encrypt\<close>, which no program calls; logging; in \<^verbatim>\<open>cluster/\<close> the transfers between MySQL
  and sqlite of the programs in \<open>Children\<close> and the ODBC and HTTP programs, which are
  glue around those libraries, the program of five minutes of \<^verbatim>\<open>A_000005\<close> and the reports \<^verbatim>\<open>A_000006\<close> to
  \<^verbatim>\<open>A_000010\<close>; third-party code (\<^verbatim>\<open>W.R.Stevens\<close>, \<^verbatim>\<open>log/\<close>, \<^verbatim>\<open>openCV\<close>) and
  examples.
\<close>

section \<open>The notification system as a whole\<close>

text \<open>
  C2. The AES key reaches a device over the whole path: the request \<^verbatim>\<open>cmd_2_srv\<close> sends, sealed with
  the server's public key, is opened and queued by the server's main loop, the next flush of the sending
  thread sends the answer, sealed with the device's public key, to the address the device was last
  tracked at, and the device's loop opens it and holds the server's key and IV, whatever it held before.
\<close>

theorem key_delivery:
  assumes X: "ssl_ok X" and I: "srv_inv A s"
    and srv: "rsa_pair X pub prv blk" "sizeof_MSG_COMMON + 11 \<le> blk" "blk < MAX_MSG"
      "loads_pub X (lit ''srv-public-key.pem'') pub" "loads_prv X (lit ''srv-private-key.pem'') prv"
      "srv_prv s = None \<or> srv_prv s = Some prv"
    and dev: "rsa_pair X cpub cprv cblk" "159 \<le> cblk" "cblk < MAX_MSG"
      "loads_pub X (k @ lit ''.public-key.pem'') cpub" "loads_prv X (k @ lit ''.private-key.pem'') cprv"
    and k: "length k < LEN_DEVID" "0 \<notin> set k" "reg_abs (list_reg_dev s) k = Some a" and sk: "0 < sk"
  shows "\<exists>d s1 r s2 d2 more c'.
      cmd_2_srv X sk t rc MSG_GET_AES G_CLI_SRV None 0 (k @ 0 # rest) = Some (rc, [(PORT, d)])
    \<and> s1_turn X (Some (from, d)) s = Some s1
    \<and> s2_flush X ok s1 = Some (r, s2) \<and> fw_calls r = (a, d2) # more
    \<and> client_recv X (k @ 0 # rest) sk ok2 (Some (srv_addr, d2)) c = Some (c', [])
    \<and> got_aes c' \<and> aes256_key c' = aes_key \<and> aes256_iv c' = take AES_IV_BYTES aes_iv"
proof -
  obtain e where e: "cmd_2_srv X sk t rc MSG_GET_AES G_CLI_SRV None 0 (k @ 0 # rest)
      = Some (rc, [(PORT, e @ [enc_mark ENCRYPT_SRV_PUB])])" "length e = blk"
    "x_rsa_private_decrypt X prv (int blk) e = Some (request MSG_GET_AES G_CLI_SRV k t)"
    using cmd_2_srv_sends [OF srv(1-4) k(1,2) _ sk, of G_CLI_SRV t rc MSG_GET_AES rest] by auto
  have "srv_prv s = Some prv \<or> srv_prv s = None \<and> loads_prv X (lit ''srv-private-key.pem'') prv"
    using srv(5,6) by blast
  then obtain s1 where s1: "s1_turn X (Some (from, e @ [enc_mark ENCRYPT_SRV_PUB])) s = Some s1"
    "list_reg_dev s1 = list_reg_dev s" "imd_fwd_lt s1 = queued (key_reply k t) # imd_fwd_lt s"
    using key_request_queued [OF srv(1-3) e(2,3) _ k(1,2)] by blast
  note f = key_reply_facts [OF k(1,2), of t]
  obtain c2 where c2: "deliver X (reg_abs (list_reg_dev s1)) (queued (key_reply k t))
      = Some (a, c2 @ [enc_mark ENCRYPT_CLI_PUB])" "length c2 = cblk"
    "x_rsa_private_decrypt X cprv (int cblk) c2 = Some (key_reply k t)"
    using key_reply_delivered [of k "reg_abs (list_reg_dev s1)" a, OF k(1,2) _ dev(1,2,4)] k(3) s1(2) by auto
  have "fwd_item (queued (key_reply k t))" using f by (simp add: fwd_item_queued)
  then obtain r s2 more where flush: "s2_flush X ok s1 = Some (r, s2)"
    "fw_calls r = (a, c2 @ [enc_mark ENCRYPT_CLI_PUB]) # more"
    using flush_first [OF X _ _ s1(3) _ c2(1), of ok] I s1(2) by (auto simp: srv_inv_def)
  from client_recv_key [OF dev(1-3,5) k(1,2) c2(2,3), of rest sk ok2 srv_addr c]
    e(1) s1(1) flush show ?thesis by blast
qed

theorem key_delivery_witness:
  "\<exists>d s1 r s2 d2 more c'.
      cmd_2_srv demo_ext 3 \<lparr>tv_sec = 7, tv_nsec = 9\<rparr> 0 MSG_GET_AES G_CLI_SRV None 0 ([112, 48] @ 0 # []) = Some (0, [(PORT, d)])
    \<and> s1_turn demo_ext (Some (zero_addr, d)) demo_server = Some s1
    \<and> s2_flush demo_ext (\<lambda>_. True) s1 = Some (r, s2) \<and> fw_calls r = (zero_addr, d2) # more
    \<and> client_recv demo_ext ([112, 48] @ 0 # []) 3 True (Some (zero_addr, d2))
        \<lparr>got_aes = False, aes256_key = zeros 32, aes256_iv = zeros 16, cl_bufout = zeros 1201, interval = 3,
          cl_t0 = \<lparr>tv_sec = 7, tv_nsec = 9\<rparr>\<rparr> = Some (c', [])
    \<and> got_aes c' \<and> aes256_key c' = aes_key \<and> aes256_iv c' = take AES_IV_BYTES aes_iv"
proof (rule key_delivery [OF demo_ssl_ok demo_inv demo_rsa_pair _ _ _ _ _ demo_rsa_pair])
  show "loads_pub demo_ext (lit ''srv-public-key.pem'') 1" "loads_prv demo_ext (lit ''srv-private-key.pem'') 1"
    "loads_pub demo_ext ([112, 48] @ lit ''.public-key.pem'') 1"
    "loads_prv demo_ext ([112, 48] @ lit ''.private-key.pem'') 1"
    by (simp_all add: loads_pub_def loads_prv_def file_2_pubrsa_def file_2_prvrsa_def file_2_rsa_def file_2_bytes_def
        demo_ext_def lit_def c_str_def)
  show "reg_abs (list_reg_dev demo_server) [112, 48] = Some zero_addr"
    using demo_table_abs(1) by (simp add: demo_server_def server_start_def)
qed (simp_all add: demo_server_def server_start_def)

text \<open>
  C3. A notification reaches the device over the whole path: what a notifier that holds the key sends is
  opened and queued by the server, the next flush sends it on, unchanged, to the address of the device it
  names, the device's loop opens it to the notifier's message and answers with an acknowledgement that
  opens to the header of the notification with the route turned and the length cleared.
\<close>

theorem notification_delivery:
  assumes X: "ssl_ok X" and I: "srv_inv A s"
    and k: "length k < LEN_DEVID" "0 \<notin> set k" "reg_abs (list_reg_dev s) k = Some a"
    and j: "length j < LEN_DEVID" "0 \<notin> set j"
    and nf: "nf_got_aes u" "nf_key u = aes_key" "nf_iv u = take AES_IV_BYTES aes_iv"
    and c: "aes256_key c = aes_key" "aes256_iv c = take AES_IV_BYTES aes_iv" "length (cl_bufout c) = MAX_MSG + 1"
    and sk: "0 \<le> sk"
  shows "\<exists>d s1 r s2 more c' fb. notifier_send X t (k @ 0 # r1) (j @ 0 # r2) u = Some [(PORT, d)]
    \<and> s1_turn X (Some (from, d)) s = Some s1
    \<and> s2_flush X ok s1 = Some (r, s2) \<and> fw_calls r = (a, d) # more
    \<and> client_recv X cid sk ok2 (Some (srv_addr, d)) c = Some (c', [(PORT, fb)])
    \<and> cl_bufout c' = ack_of (take 1184 (note_msg k j t) @ drop 1184 (cl_bufout c))
    \<and> (\<exists>p. msg_aes_dec X (Some fb) (Some (zeros 1201)) (Some aes_key) (Some (take AES_IV_BYTES aes_iv)) 117 (Some 0) 1201
          = Some (0, Some p, Some 100) \<and> take 100 p = take 100 (cl_bufout c'))"
proof -
  have evp: "evp_gcm X" using X by (simp add: ssl_ok_def)
  show ?thesis
  proof (rule notifier_sends [OF evp k(1,2) j nf, of t r1 r2])
    fix d :: bytes
    assume d: "length d = 1200"
      and send: "notifier_send X t (k @ 0 # r1) (j @ 0 # r2) u = Some [(PORT, d @ [enc_mark ENCRYPT_AES])]"
      and g: "\<exists>ct tag. gcm_encrypt X (take 1184 (note_msg k j t)) (take AES_IV_BYTES aes_iv) aes_key
        (take AES_IV_BYTES aes_iv) (int AES_IV_BYTES) = Some (ct, tag) \<and> d = ct @ tag"
      and o: "\<And>bo k' v' l. length bo = MAX_MSG + 1 \<Longrightarrow> AES_BYTES \<le> length k' \<Longrightarrow> AES_IV_BYTES \<le> length v' \<Longrightarrow>
        take AES_BYTES k' = aes_key \<Longrightarrow> take AES_IV_BYTES v' = take AES_IV_BYTES aes_iv \<Longrightarrow>
        msg_aes_dec X (Some (d @ [enc_mark ENCRYPT_AES])) (Some bo) (Some k') (Some v') 1201 (Some l)
          (int MAX_MSG + 1) = Some (0, Some (seen (note_msg k j t) bo), Some 1184)"
    have bo: "length (bufout1 s) = MAX_MSG + 1" "reg_inv (list_reg_dev s)" "\<forall>it \<in> set (imd_fwd_lt s). fwd_item it"
      using I by (auto simp: srv_inv_def)
    obtain s1 where s1: "s1_turn X (Some (from, d @ [enc_mark ENCRYPT_AES])) s = Some s1"
      "list_reg_dev s1 = list_reg_dev s" "imd_fwd_lt s1 = queued (take 1184 (note_msg k j t)) # imd_fwd_lt s"
      using note_queued [OF k(1,2) j(1) d bo(1) o] bo(1) by auto
    have r1: "reg_abs (list_reg_dev s1) k = Some a" "reg_inv (list_reg_dev s1)" using k(3) bo(2) s1(2) by simp_all
    obtain r s2 more where flush: "s2_flush X ok s1 = Some (r, s2)" "fw_calls r = (a, d @ [enc_mark ENCRYPT_AES]) # more"
      using note_flushed [OF X k(1,2) r1(1) j(1) g r1(2) bo(3) s1(3), of ok] by blast
    have "msg_aes_dec X (Some (d @ [enc_mark ENCRYPT_AES])) (Some (cl_bufout c)) (Some (aes256_key c))
        (Some (aes256_iv c)) 1201 (Some 1201) (int MAX_MSG + 1)
      = Some (0, Some (seen (note_msg k j t) (cl_bufout c)), Some 1184)"
      using c by (intro o) auto
    from client_recv_note [OF evp k(1,2) j(1) d c(3) this _ _ sk, of cid ok2 srv_addr] c obtain c' fb where
      c': "client_recv X cid sk ok2 (Some (srv_addr, d @ [enc_mark ENCRYPT_AES])) c = Some (c', [(PORT, fb @ [enc_mark ENCRYPT_AES])])"
      "cl_bufout c' = ack_of (seen (note_msg k j t) (cl_bufout c))"
      "\<forall>b l. sizeof_MSG_COMMON \<le> length b \<longrightarrow>
        msg_aes_dec X (Some (fb @ [enc_mark ENCRYPT_AES])) (Some b) (Some aes_key) (Some (take AES_IV_BYTES aes_iv)) 117
          (Some l) (int MAX_MSG + 1) = Some (0, Some (take 100 (ack_of (seen (note_msg k j t) (cl_bufout c))) @ drop 100 b), Some 100)"
      by auto
    have "length (ack_of (seen (note_msg k j t) (cl_bufout c))) = MAX_MSG + 1"
      using ack_built(3) [of "seen (note_msg k j t) (cl_bufout c)"] seen_facts(1) [OF k(1,2) j(1) c(3)] by simp
    then have "\<exists>p. msg_aes_dec X (Some (fb @ [enc_mark ENCRYPT_AES])) (Some (zeros 1201)) (Some aes_key)
        (Some (take AES_IV_BYTES aes_iv)) 117 (Some 0) 1201 = Some (0, Some p, Some 100) \<and> take 100 p = take 100 (cl_bufout c')"
      using c'(3) [rule_format, of "zeros 1201" 0] c'(2) by simp
    with send s1(1) flush c'(1,2) show ?thesis unfolding seen_def by blast
  qed
qed

theorem notification_delivery_witness:
  "\<exists>d s1 r s2 more c' fb.
      notifier_send demo_ext \<lparr>tv_sec = 7, tv_nsec = 9\<rparr> ([112, 48] @ 0 # zeros 37) ([41, 49] @ 0 # zeros 37)
        \<lparr>nf_got_aes = True, nf_key = aes_key, nf_iv = take AES_IV_BYTES aes_iv, nf_bufout = zeros 1201, nf_count = 0,
          nf_t0 = \<lparr>tv_sec = 0, tv_nsec = 0\<rparr>\<rparr> = Some [(PORT, d)]
    \<and> s1_turn demo_ext (Some (zero_addr, d)) demo_server = Some s1
    \<and> s2_flush demo_ext (\<lambda>_. True) s1 = Some (r, s2) \<and> fw_calls r = (zero_addr, d) # more
    \<and> client_recv demo_ext [112, 48, 0] 3 True (Some (zero_addr, d))
        \<lparr>got_aes = True, aes256_key = aes_key, aes256_iv = take AES_IV_BYTES aes_iv, cl_bufout = zeros 1201, interval = 60,
          cl_t0 = \<lparr>tv_sec = 7, tv_nsec = 9\<rparr>\<rparr> = Some (c', [(PORT, fb)])"
proof -
  have "reg_abs (list_reg_dev demo_server) [112, 48] = Some zero_addr"
    using demo_table_abs(1) by (simp add: demo_server_def server_start_def)
  from notification_delivery [OF demo_ssl_ok demo_inv _ _ this, of "[41, 49]"
      "\<lparr>nf_got_aes = True, nf_key = aes_key, nf_iv = take AES_IV_BYTES aes_iv, nf_bufout = zeros 1201, nf_count = 0,
          nf_t0 = \<lparr>tv_sec = 0, tv_nsec = 0\<rparr>\<rparr>"
      "\<lparr>got_aes = True, aes256_key = aes_key, aes256_iv = take AES_IV_BYTES aes_iv, cl_bufout = zeros 1201, interval = 60,
          cl_t0 = \<lparr>tv_sec = 7, tv_nsec = 9\<rparr>\<rparr>" 3 "\<lparr>tv_sec = 7, tv_nsec = 9\<rparr>" "zeros 37" "zeros 37" zero_addr "\<lambda>_. True"
      "[112, 48, 0]" True zero_addr]
  show ?thesis by simp blast
qed

end
